(* ===== verification/Floe_Prelude.thy ===== *)
theory Floe_Prelude
  imports Main "HOL-Library.Word"
begin

text \<open>
  Shared ground of the development: the machine types of the Rust sources, the
  outcome of a fallible Rust call, the slices and big-endian integers of the Rust
  standard library, and the generic facts the component theories rest on.

  A call that returns a \<^verbatim>\<open>Result\<close> is a value of \<open>('e, 'a) rust\<close>: \<open>Ok\<close>, \<open>Err\<close>, or
  \<open>Panic\<close> for an \<^verbatim>\<open>expect\<close> on \<^verbatim>\<open>None\<close>. The \<^verbatim>\<open>?\<close> operator is \<open>bind\<close> in code that
  keeps no state and \<open>try_in\<close> in code that holds mutable borrows: there the call
  returns the outcome together with the state it leaves behind, on errors too.

  A \<^verbatim>\<open>usize\<close> is a natural number; \<open>target\<close> records the two pointer widths the crate
  compiles for, and every conversion that can fail on one of them takes it as an
  argument. The wire integers \<^verbatim>\<open>u8\<close>, \<^verbatim>\<open>u32\<close> and \<^verbatim>\<open>u64\<close> are words, so arithmetic on
  them wraps unless the source checks it.
\<close>

unbundle bit_operations_syntax

named_theorems rust_simps \<open>unfolding rules of the outcome combinators\<close>
named_theorems floe_consts \<open>the numeric constants of the FLOE format\<close>
named_theorems wf_intros \<open>introduction rules of the well-formedness invariants\<close>

section \<open>Machine types\<close>

type_synonym u8 = "8 word"
type_synonym u32 = "32 word"
type_synonym u64 = "64 word"
type_synonym bytes = "8 word list"

datatype target = Pointer32 | Pointer64

fun usize_bits :: "target \<Rightarrow> nat" where
  "usize_bits Pointer32 = 32"
| "usize_bits Pointer64 = 64"

definition usize_max :: "target \<Rightarrow> nat" where
  "usize_max t = 2 ^ usize_bits t - 1"

section \<open>Outcomes of fallible calls\<close>

datatype ('e, 'a) rust = Ok 'a | Err 'e | Panic

fun bind :: "('e, 'a) rust \<Rightarrow> ('a \<Rightarrow> ('e, 'b) rust) \<Rightarrow> ('e, 'b) rust" where
  "bind (Ok x) f = f x"
| "bind (Err e) f = Err e"
| "bind Panic f = Panic"

fun try_in :: "('e, 'a) rust \<Rightarrow> 's \<Rightarrow> ('a \<Rightarrow> ('e, 'b) rust \<times> 's) \<Rightarrow> ('e, 'b) rust \<times> 's" where
  "try_in (Ok x) s f = f x"
| "try_in (Err e) s f = (Err e, s)"
| "try_in Panic s f = (Panic, s)"

fun map_err :: "('e \<Rightarrow> 'f) \<Rightarrow> ('e, 'a) rust \<Rightarrow> ('f, 'a) rust" where
  "map_err f (Ok x) = Ok x"
| "map_err f (Err e) = Err (f e)"
| "map_err f Panic = Panic"

fun map_ok :: "('a \<Rightarrow> 'b) \<Rightarrow> ('e, 'a) rust \<Rightarrow> ('e, 'b) rust" where
  "map_ok f (Ok x) = Ok (f x)"
| "map_ok f (Err e) = Err e"
| "map_ok f Panic = Panic"

fun ok_or :: "'a option \<Rightarrow> 'e \<Rightarrow> ('e, 'a) rust" where
  "ok_or (Some x) e = Ok x"
| "ok_or None e = Err e"

fun expect :: "'a option \<Rightarrow> ('e, 'a) rust" where
  "expect (Some x) = Ok x"
| "expect None = Panic"

fun is_ok :: "('e, 'a) rust \<Rightarrow> bool" where
  "is_ok (Ok x) = True"
| "is_ok (Err e) = False"
| "is_ok Panic = False"

lemma bind_eq_Ok [simp]: "bind r f = Ok y \<longleftrightarrow> (\<exists>x. r = Ok x \<and> f x = Ok y)"
  by (cases r) auto

lemma bind_eq_Err: "bind r f = Err e \<longleftrightarrow> r = Err e \<or> (\<exists>x. r = Ok x \<and> f x = Err e)"
  by (cases r) auto

lemma bind_eq_Panic: "bind r f = Panic \<longleftrightarrow> r = Panic \<or> (\<exists>x. r = Ok x \<and> f x = Panic)"
  by (cases r) auto

lemma try_in_eq_Ok [simp]: "try_in r s f = (Ok y, t) \<longleftrightarrow> (\<exists>x. r = Ok x \<and> f x = (Ok y, t))"
  by (cases r) auto

lemma map_err_eq_Ok [simp]: "map_err f r = Ok x \<longleftrightarrow> r = Ok x"
  by (cases r) auto

lemma map_err_eq_Panic [simp]: "map_err f r = Panic \<longleftrightarrow> r = Panic"
  by (cases r) auto

lemma map_err_eq_Err [simp]: "map_err f r = Err e \<longleftrightarrow> (\<exists>e'. r = Err e' \<and> e = f e')"
  by (cases r) auto

lemma map_ok_eq_Ok [simp]: "map_ok f r = Ok y \<longleftrightarrow> (\<exists>x. r = Ok x \<and> y = f x)"
  by (cases r) auto

lemma ok_or_eq_Ok [simp]: "ok_or v e = Ok x \<longleftrightarrow> v = Some x"
  by (cases v) auto

lemma ok_or_neq_Panic [simp]: "ok_or v e \<noteq> Panic"
  by (cases v) auto

lemma ok_or_eq_Err [simp]: "ok_or v e = Err e' \<longleftrightarrow> v = None \<and> e' = e"
  by (cases v) auto

lemma is_ok_iff: "is_ok r \<longleftrightarrow> (\<exists>x. r = Ok x)"
  by (cases r) auto

section \<open>Checked 64-bit arithmetic\<close>

definition checked_add :: "u64 \<Rightarrow> u64 \<Rightarrow> u64 option" where
  "checked_add a b = (if unat a + unat b < 2 ^ 64 then Some (a + b) else None)"

definition checked_mul :: "u64 \<Rightarrow> u64 \<Rightarrow> u64 option" where
  "checked_mul a b = (if unat a * unat b < 2 ^ 64 then Some (a * b) else None)"

definition checked_sub :: "u64 \<Rightarrow> u64 \<Rightarrow> u64 option" where
  "checked_sub a b = (if b \<le> a then Some (a - b) else None)"

definition div_ceil :: "u64 \<Rightarrow> u64 \<Rightarrow> u64" where
  "div_ceil a b = (if a mod b > 0 then a div b + 1 else a div b)"

text \<open>Conversions between the in-memory length type and \<^verbatim>\<open>u64\<close>.\<close>

definition usize_try_from :: "target \<Rightarrow> u64 \<Rightarrow> nat option" where
  "usize_try_from t w = (if unat w \<le> usize_max t then Some (unat w) else None)"

definition usize_checked_add :: "target \<Rightarrow> nat \<Rightarrow> nat \<Rightarrow> nat option" where
  "usize_checked_add t a b = (if a + b \<le> usize_max t then Some (a + b) else None)"

lemma usize_max_ge: "4294967295 \<le> usize_max t"
  by (cases t) (simp_all add: usize_max_def)

lemma usize_max_lt: "usize_max t < 2 ^ 64"
  by (cases t) (simp_all add: usize_max_def)

lemma unat_checked_add: "checked_add a b = Some c \<Longrightarrow> unat c = unat a + unat b"
  by (auto simp: checked_add_def unat_word_ariths split: if_splits)

lemma unat_checked_mul: "checked_mul a b = Some c \<Longrightarrow> unat c = unat a * unat b"
  by (auto simp: checked_mul_def unat_word_ariths split: if_splits)

lemma unat_checked_sub: "checked_sub a b = Some c \<Longrightarrow> unat c = unat a - unat b \<and> unat b \<le> unat a"
  by (auto simp: checked_sub_def unat_sub word_le_nat_alt split: if_splits)

lemma unat_add_small: "unat (a :: u64) + unat b < 2 ^ 64 \<Longrightarrow> unat (a + b) = unat a + unat b"
  by (simp add: unat_word_ariths)

lemma unat_mult_small: "unat (a :: u64) * unat b < 2 ^ 64 \<Longrightarrow> unat (a * b) = unat a * unat b"
  by (simp add: unat_word_ariths)

lemma unat_ucast_u32_u64 [simp]: "unat (ucast (w :: u32) :: u64) = unat w"
proof -
  have "unat w < 2 ^ 32" using unsigned_less [of w] by simp
  then show ?thesis by (simp add: unsigned_ucast_eq take_bit_eq_mod)
qed

lemma unat_less_32 [simp]: "unat (w :: u32) < 4294967296"
  using unsigned_less [of w] by simp

lemma unat_less_64 [simp]: "unat (w :: u64) < 18446744073709551616"
  using unsigned_less [of w] by simp

lemma unat_of_nat_u64: "n < 2 ^ 64 \<Longrightarrow> unat (word_of_nat n :: u64) = n"
  by (simp add: unat_of_nat take_bit_eq_mod)

lemma u64_bound: "(2 :: nat) ^ 64 = 18446744073709551616"
  by simp

lemma unat_eq_word_of_nat: "unat w = n \<Longrightarrow> w = word_of_nat n"
  by (metis of_nat_unat ucast_id)

lemma nat_div_ceil_le_iff:
  fixes a b c :: nat
  assumes "0 < b"
  shows "(if a mod b > 0 then a div b + 1 else a div b) \<le> c \<longleftrightarrow> a \<le> c * b"
proof -
  have a: "a = a div b * b + a mod b" by simp
  have r: "a mod b < b" using assms by simp
  show ?thesis
  proof (cases "a mod b > 0")
    case True
    have "a div b + 1 \<le> c \<longleftrightarrow> a div b < c" by auto
    also have "\<dots> \<longleftrightarrow> a < c * b" using assms by (simp add: div_less_iff_less_mult)
    also have "\<dots> \<longleftrightarrow> a \<le> c * b"
    proof -
      have "a \<noteq> c * b" using True by auto
      then show ?thesis by auto
    qed
    finally show ?thesis using True by simp
  next
    case False
    then have "a = a div b * b" using a by simp
    then show ?thesis using False assms by (metis mult_le_cancel2 not_gr_zero)
  qed
qed

lemma unat_div_ceil:
  assumes "0 < unat b"
  shows "unat (div_ceil a b) =
    (if unat a mod unat b > 0 then unat a div unat b + 1 else unat a div unat b)"
proof -
  have "unat a div unat b \<le> unat a" by simp
  have pos: "a mod b > 0 \<longleftrightarrow> unat a mod unat b > 0"
    by (simp add: word_less_nat_alt unat_mod)
  have "unat a div unat b + 1 < 2 ^ 64" if "unat a mod unat b > 0"
  proof -
    have "unat b \<noteq> 1" using that by auto
    then have "1 < unat b" using assms by linarith
    then have "unat a div unat b < unat a \<or> unat a = 0"
      by (metis div_less_dividend gr_zeroI)
    then have "unat a div unat b < unat a" using that by auto
    moreover have "(2 :: nat) ^ 64 = 18446744073709551616" by simp
    ultimately show ?thesis using unat_less_64 [of a] by linarith
  qed
  then show ?thesis
    using pos by (simp add: div_ceil_def unat_div unat_word_ariths)
qed

lemma unat_max: "unat (max a b :: u64) = max (unat a) (unat b)"
  by (simp add: max_def word_le_nat_alt)

section \<open>Slices\<close>

text \<open>\<open>slice a b xs\<close> is \<^verbatim>\<open>xs[a..b]\<close>; \<open>splice off src dst\<close> is \<^verbatim>\<open>dst[off..off + src.len()].copy_from_slice(src)\<close>.\<close>

definition slice :: "nat \<Rightarrow> nat \<Rightarrow> 'a list \<Rightarrow> 'a list" where
  "slice a b xs = take (b - a) (drop a xs)"

definition splice :: "nat \<Rightarrow> 'a list \<Rightarrow> 'a list \<Rightarrow> 'a list" where
  "splice off src dst = take off dst @ src @ drop (off + length src) dst"

text \<open>
  Indexing with a range the surrounding code has not just checked: out of range is a
  panic. \<open>slice\<close> and \<open>splice\<close> are used directly only where the range is in bounds by the
  checks next to it.
\<close>

definition index_range :: "nat \<Rightarrow> nat \<Rightarrow> 'a list \<Rightarrow> ('e, 'a list) rust" where
  "index_range a b xs = (if a \<le> b \<and> b \<le> length xs then Ok (slice a b xs) else Panic)"

lemma index_range_in_bounds [simp]: "a \<le> b \<Longrightarrow> b \<le> length xs \<Longrightarrow> index_range a b xs = Ok (slice a b xs)"
  by (simp add: index_range_def)

lemma length_slice [simp]: "length (slice a b xs) = min (b - a) (length xs - a)"
  by (simp add: slice_def)

lemma length_splice [simp]:
  "off + length src \<le> length dst \<Longrightarrow> length (splice off src dst) = length dst"
  by (simp add: splice_def)

lemma slice_splice_same [simp]:
  "off + length src \<le> length dst \<Longrightarrow> e = off + length src \<Longrightarrow> slice off e (splice off src dst) = src"
  by (simp add: slice_def splice_def)

lemma take_splice: "n \<le> off \<Longrightarrow> off \<le> length dst \<Longrightarrow> take n (splice off src dst) = take n dst"
  by (simp add: splice_def)

lemma splice_splice_adjacent:
  "off + length a + length b \<le> length dst \<Longrightarrow> m = off + length a \<Longrightarrow>
   splice m b (splice off a dst) = splice off (a @ b) dst"
  by (simp add: splice_def add.assoc) (simp add: add.commute add.left_commute)

lemma splice_0_take: "n = length src \<Longrightarrow> n \<le> length dst \<Longrightarrow> take n (splice 0 src dst) = src"
  by (simp add: splice_def)

lemma slice_append_left [simp]: "b \<le> length xs \<Longrightarrow> slice a b (xs @ ys) = slice a b xs"
  by (simp add: slice_def)

lemma slice_append_right: "length xs \<le> a \<Longrightarrow> slice a b (xs @ ys) = slice (a - length xs) (b - length xs) ys"
  by (simp add: slice_def)

lemma slice_all [simp]: "length xs \<le> b \<Longrightarrow> slice 0 b xs = xs"
  by (simp add: slice_def)

lemma slice_take_drop: "slice a b xs = drop a (take b xs)"
  by (simp add: slice_def drop_take)

lemma slice_adjacent:
  assumes "a \<le> b" "b \<le> c"
  shows "slice a b xs @ slice b c xs = slice a c xs"
proof -
  have "c - a = (b - a) + (c - b)" using assms by simp
  then have "take (c - a) (drop a xs) = take (b - a) (drop a xs) @ take (c - b) (drop (b - a) (drop a xs))"
    by (simp only: take_add)
  then show ?thesis using assms by (simp add: slice_def)
qed

lemma concat_slices:
  assumes "\<And>i. i < n \<Longrightarrow> f i \<le> f (Suc i)" "f n \<le> length xs"
  shows "concat (map (\<lambda>i. slice (f i) (f (Suc i)) xs) [0..<n]) = slice (f 0) (f n) xs"
  using assms
proof (induction n)
  case 0
  then show ?case by (simp add: slice_def)
next
  case (Suc n)
  have le: "f i \<le> f n" if "i \<le> n" for i
    using that Suc.prems(1) by (induction n) (auto simp: le_Suc_eq intro: le_trans)
  have "f n \<le> f (Suc n)" using Suc.prems(1) by simp
  then have "concat (map (\<lambda>i. slice (f i) (f (Suc i)) xs) [0..<n]) = slice (f 0) (f n) xs"
    using Suc.prems by (intro Suc.IH) (auto intro: le_trans)
  moreover have "slice (f 0) (f n) xs @ slice (f n) (f (Suc n)) xs = slice (f 0) (f (Suc n)) xs"
    using le [of 0] \<open>f n \<le> f (Suc n)\<close> by (simp add: slice_adjacent)
  ultimately show ?case by simp
qed

section \<open>Big-endian integers\<close>

fun be_bytes :: "nat \<Rightarrow> 'a::len word \<Rightarrow> bytes" where
  "be_bytes 0 w = []"
| "be_bytes (Suc n) w = ucast (drop_bit (8 * n) w) # be_bytes n w"

definition from_be_bytes :: "bytes \<Rightarrow> 'a::len word" where
  "from_be_bytes bs = foldl (\<lambda>acc b. push_bit 8 acc OR ucast b) 0 bs"

lemma length_be_bytes [simp]: "length (be_bytes n w) = n"
  by (induction n) auto

lemma foldl_be_bytes:
  "foldl (\<lambda>acc b. push_bit 8 acc OR ucast b) acc (be_bytes n w) =
    push_bit (8 * n) acc OR take_bit (8 * n) (w :: 'a::len word)"
proof (induction n arbitrary: acc)
  case 0
  then show ?case by simp
next
  case (Suc n)
  have "push_bit (8 * n) (push_bit 8 acc OR ucast (ucast (drop_bit (8 * n) w) :: u8)) OR take_bit (8 * n) w
      = push_bit (8 * Suc n) acc OR take_bit (8 * Suc n) w"
    by (rule bit_eqI) (auto simp: bit_simps algebra_simps)
  then show ?case by (simp add: Suc.IH)
qed

lemma from_be_bytes_be_bytes:
  "LENGTH('a::len) = 8 * n \<Longrightarrow> from_be_bytes (be_bytes n (w :: 'a word)) = w"
  by (simp add: from_be_bytes_def foldl_be_bytes) (metis take_bit_word_eq_self order_refl)

lemma be_bytes_inject:
  "LENGTH('a::len) = 8 * n \<Longrightarrow> be_bytes n (v :: 'a word) = be_bytes n w \<longleftrightarrow> v = w"
  by (metis from_be_bytes_be_bytes)

lemma from_be_bytes_snoc:
  "from_be_bytes (bs @ [b]) = (push_bit 8 (from_be_bytes bs) OR ucast b :: 'a::len word)"
  by (simp add: from_be_bytes_def)

lemma bit_from_be_bytes:
  "bit (from_be_bytes bs :: 'a::len word) j \<longleftrightarrow>
    j < LENGTH('a) \<and> j < 8 * length bs \<and> bit (rev bs ! (j div 8)) (j mod 8)"
proof (induction bs arbitrary: j rule: rev_induct)
  case Nil
  then show ?case by (simp add: from_be_bytes_def)
next
  case (snoc b bs)
  show ?case
  proof (cases "j < 8")
    case True
    then show ?thesis by (auto simp: from_be_bytes_snoc bit_simps)
  next
    case False
    then obtain k where "j = k + 8" by (metis add.commute le_Suc_ex not_less)
    moreover have "(k + 8) div 8 = Suc (k div 8)" "(k + 8) mod 8 = k mod 8" by simp_all
    moreover have "\<not> bit b (k + 8)" using bit_imp_le_length [of b "k + 8"] by auto
    ultimately show ?thesis using snoc.IH [of k]
      by (simp add: from_be_bytes_snoc bit_simps) linarith
  qed
qed

lemma be_bytes_nth: "i < n \<Longrightarrow> be_bytes n w ! i = ucast (drop_bit (8 * (n - 1 - i)) w)"
  by (induction n arbitrary: i) (auto simp: nth_Cons split: nat.splits)

lemma be_bytes_from_be_bytes:
  assumes "LENGTH('a::len) = 8 * length bs"
  shows "be_bytes (length bs) (from_be_bytes bs :: 'a word) = bs"
proof (rule nth_equalityI)
  fix i assume "i < length (be_bytes (length bs) (from_be_bytes bs :: 'a word))"
  then have i: "i < length bs" by simp
  show "be_bytes (length bs) (from_be_bytes bs :: 'a word) ! i = bs ! i"
  proof (rule bit_eqI)
    fix j assume "possible_bit TYPE(u8) j"
    then have j: "j < 8" by simp
    then have "(8 * (length bs - 1 - i) + j) div 8 = length bs - 1 - i"
      "(8 * (length bs - 1 - i) + j) mod 8 = j" by simp_all
    moreover have "8 * (length bs - 1 - i) + j < 8 * length bs" using i j by linarith
    ultimately show "bit (be_bytes (length bs) (from_be_bytes bs :: 'a word) ! i) j = bit (bs ! i) j"
      using i j assms by (simp add: be_bytes_nth bit_simps bit_from_be_bytes rev_nth)
  qed
qed simp

abbreviation u32_to_be_bytes :: "u32 \<Rightarrow> bytes" where
  "u32_to_be_bytes \<equiv> be_bytes 4"

abbreviation u64_to_be_bytes :: "u64 \<Rightarrow> bytes" where
  "u64_to_be_bytes \<equiv> be_bytes 8"

abbreviation u32_from_be_bytes :: "bytes \<Rightarrow> u32" where
  "u32_from_be_bytes \<equiv> from_be_bytes"

lemma u32_from_to_be_bytes [simp]: "u32_from_be_bytes (u32_to_be_bytes w) = w"
  by (simp add: from_be_bytes_be_bytes)

lemma u32_to_from_be_bytes: "length bs = 4 \<Longrightarrow> u32_to_be_bytes (u32_from_be_bytes bs) = bs"
  using be_bytes_from_be_bytes [where 'a = 32, of bs] by simp

lemma u64_to_be_bytes_inject [simp]: "u64_to_be_bytes v = u64_to_be_bytes w \<longleftrightarrow> v = w"
  by (rule be_bytes_inject) simp

end
