(* ===== verification/Floe_Error.thy ===== *)
theory Floe_Error
  imports Floe_Prelude
begin

text \<open>
  The error values of \<^verbatim>\<open>src/src/error.rs\<close>: \<open>LengthRequirement\<close> and \<open>Error\<close> with the
  constructors of the source, and the part of \<^verbatim>\<open>std::io::Error\<close> the adapters use: its
  kind and the source it carries, from which \<open>Error_io_source\<close> recovers a FLOE error.
\<close>

section \<open>FLOE errors\<close>

datatype LengthRequirement =
    Exactly nat
  | AtLeast nat
  | AtMost nat
  | Between nat nat

datatype Error =
    InvalidKeyLength nat
  | InvalidParameters
  | InvalidSegmentLength u32
  | InvalidPlaintextLength nat LengthRequirement
  | InvalidHeaderLength nat
  | InvalidHeaderParameters
  | InvalidHeaderTag
  | InvalidCiphertextLength nat LengthRequirement
  | InvalidSegmentPrefix
  | AuthenticationFailed
  | Closed
  | Truncated
  | SegmentLimit
  | OutputTooSmall nat nat
  | InvalidBufferState
  | ProviderSelectionRequired
  | LengthOverflow
  | RngFailure
  | CryptoFailure

type_synonym 'a result = "(Error, 'a) rust"

section \<open>I/O errors\<close>

datatype ErrorKind = Interrupted | Other | InvalidData | InvalidInput | BrokenPipe | WriteZero | OtherKind nat

text \<open>
  What an \<^verbatim>\<open>io::Error\<close> carries: a FLOE error, a message of the adapters, or whatever
  the wrapped reader or writer attached.
\<close>

datatype IoSource = FloeSource Error | MessageSource string | ForeignSource nat

datatype IoError = IoError (io_kind: ErrorKind) (io_payload: IoSource)

type_synonym 'a io_result = "(IoError, 'a) rust"

definition Error_io_source :: "IoError \<Rightarrow> Error option" where
  "Error_io_source error =
    (case io_payload error of FloeSource e \<Rightarrow> Some e | MessageSource m \<Rightarrow> None | ForeignSource n \<Rightarrow> None)"

end
