(* ===== verification/Floe_Provider.thy ===== *)
theory Floe_Provider
  imports Floe_Error
begin

text \<open>
  Provider selection, \<^verbatim>\<open>src/src/provider.rs\<close>. The Cargo features and the pointer width
  fixed at compile time are the record \<open>build\<close>; \<open>Provider_COMPILED\<close> lists the
  providers in the order of the source's conditional slice.
\<close>

datatype ProviderKind = AwsLcRs | Boring | Ring | RustCrypto

datatype Provider = Provider ProviderKind

record build =
  feature_aws_lc_rs :: bool
  feature_boring :: bool
  feature_ring :: bool
  feature_rustcrypto :: bool
  pointer_width :: target

text \<open>The crate root refuses to compile without a provider.\<close>

definition builds :: "'z build_scheme \<Rightarrow> bool" where
  "builds B \<longleftrightarrow> feature_rustcrypto B \<or> feature_aws_lc_rs B \<or> feature_boring B \<or> feature_ring B"

definition Provider_AWS_LC_RS :: Provider where "Provider_AWS_LC_RS = Provider AwsLcRs"
definition Provider_BORING :: Provider where "Provider_BORING = Provider Boring"
definition Provider_RING :: Provider where "Provider_RING = Provider Ring"
definition Provider_RUSTCRYPTO :: Provider where "Provider_RUSTCRYPTO = Provider RustCrypto"

definition Provider_COMPILED :: "'z build_scheme \<Rightarrow> Provider list" where
  "Provider_COMPILED B =
    (if feature_aws_lc_rs B then [Provider_AWS_LC_RS] else []) @
    (if feature_boring B then [Provider_BORING] else []) @
    (if feature_ring B then [Provider_RING] else []) @
    (if feature_rustcrypto B then [Provider_RUSTCRYPTO] else [])"

definition Provider_build_default :: "'z build_scheme \<Rightarrow> Provider option" where
  "Provider_build_default B =
    (if length (Provider_COMPILED B) = 1 then Some (Provider_COMPILED B ! 0) else None)"

fun Provider_kind :: "Provider \<Rightarrow> ProviderKind" where
  "Provider_kind (Provider k) = k"

definition Provider_name :: "Provider \<Rightarrow> string" where
  "Provider_name p =
    (case Provider_kind p of
       AwsLcRs \<Rightarrow> ''aws-lc-rs''
     | Boring \<Rightarrow> ''boring''
     | Ring \<Rightarrow> ''ring''
     | RustCrypto \<Rightarrow> ''rustcrypto'')"

lemmas provider_defs =
  Provider_AWS_LC_RS_def Provider_BORING_def Provider_RING_def Provider_RUSTCRYPTO_def

lemma builds_COMPILED: "builds B \<longleftrightarrow> Provider_COMPILED B \<noteq> []"
  by (auto simp: builds_def Provider_COMPILED_def)

lemma distinct_COMPILED: "distinct (Provider_COMPILED B)"
  by (simp add: Provider_COMPILED_def provider_defs)

lemma build_default_in_COMPILED:
  "Provider_build_default B = Some p \<Longrightarrow> Provider_COMPILED B = [p]"
  by (auto simp: Provider_build_default_def length_Suc_conv split: if_splits)

lemma Provider_name_inject: "Provider_name p = Provider_name q \<longleftrightarrow> p = q"
  by (cases p; cases q) (auto simp: Provider_name_def split: ProviderKind.splits)

text \<open>A build has a default provider exactly when it compiled a single one, and that is the default.\<close>

theorem build_default_unique: "Provider_build_default B = Some p \<longleftrightarrow> Provider_COMPILED B = [p]"
  using build_default_in_COMPILED [of B p] by (auto simp: Provider_build_default_def)

end
