(* ===== verification/Floe_Parameters.thy ===== *)
theory Floe_Parameters
  imports Floe_Error
begin

text \<open>
  Parameter sets, message layouts and segment framing, \<^verbatim>\<open>src/src/parameters.rs\<close>.
  Everything the sources compute at \<^verbatim>\<open>u32\<close> or \<^verbatim>\<open>u64\<close> is computed on words here, so that
  the unchecked products and sums of the layout code wrap exactly where the machine
  would; \<open>layout_ok\<close> is the invariant under which none of them does.
\<close>

section \<open>Constants of the format\<close>

definition AEAD_IV_LENGTH :: nat where [floe_consts]: "AEAD_IV_LENGTH = 12"
definition AEAD_TAG_LENGTH :: nat where [floe_consts]: "AEAD_TAG_LENGTH = 16"
definition AEAD_MAX_SEGMENTS :: u64 where [floe_consts]: "AEAD_MAX_SEGMENTS = 1099511627776"
definition FLOE_IV_LENGTH :: nat where [floe_consts]: "FLOE_IV_LENGTH = 32"
definition ENCODED_PARAMETERS_LENGTH :: nat where [floe_consts]: "ENCODED_PARAMETERS_LENGTH = 10"
definition HEADER_TAG_LENGTH :: nat where [floe_consts]: "HEADER_TAG_LENGTH = 32"

definition HEADER_LENGTH :: nat where [floe_consts]:
  "HEADER_LENGTH = ENCODED_PARAMETERS_LENGTH + FLOE_IV_LENGTH + HEADER_TAG_LENGTH"

definition SEGMENT_PREFIX_LENGTH :: nat where [floe_consts]: "SEGMENT_PREFIX_LENGTH = 4"

definition SEGMENT_PAYLOAD_OFFSET :: nat where [floe_consts]:
  "SEGMENT_PAYLOAD_OFFSET = SEGMENT_PREFIX_LENGTH + AEAD_IV_LENGTH"

definition SEGMENT_OVERHEAD :: nat where [floe_consts]:
  "SEGMENT_OVERHEAD = SEGMENT_PAYLOAD_OFFSET + AEAD_TAG_LENGTH"

definition ROTATION_BITS :: nat where [floe_consts]: "ROTATION_BITS = 20"

definition ROTATION_MASK :: u64 where
  "ROTATION_MASK = NOT (push_bit ROTATION_BITS 1 - 1)"

definition FLOE_IV_LENGTH_U32 :: u32 where [floe_consts]: "FLOE_IV_LENGTH_U32 = 32"
definition SEGMENT_OVERHEAD_U32 :: u32 where [floe_consts]: "SEGMENT_OVERHEAD_U32 = 32"

section \<open>Length conversions\<close>

definition length_u32_to_usize :: "u32 \<Rightarrow> nat" where
  "length_u32_to_usize value = unat value"

definition length_usize_to_u64 :: "nat \<Rightarrow> u64" where
  "length_usize_to_u64 value = word_of_nat value"

definition length_u64_to_usize_saturating :: "target \<Rightarrow> u64 \<Rightarrow> nat" where
  "length_u64_to_usize_saturating t value =
    (case usize_try_from t value of Some n \<Rightarrow> n | None \<Rightarrow> usize_max t)"

definition HEADER_LENGTH_U64 :: u64 where
  "HEADER_LENGTH_U64 = length_usize_to_u64 HEADER_LENGTH"

definition SEGMENT_OVERHEAD_U64 :: u64 where
  "SEGMENT_OVERHEAD_U64 = length_usize_to_u64 SEGMENT_OVERHEAD"

section \<open>Parameter sets and segment kinds\<close>

record Parameters =
  ciphertext_segment_length :: u32

datatype SegmentKind = NonFinal | Final

fun SegmentKind_is_final :: "SegmentKind \<Rightarrow> bool" where
  "SegmentKind_is_final Final = True"
| "SegmentKind_is_final NonFinal = False"

fun SegmentKind_indicator :: "SegmentKind \<Rightarrow> u8" where
  "SegmentKind_indicator NonFinal = 0"
| "SegmentKind_indicator Final = 1"

definition VALID_SEGMENT_LENGTHS :: "u32 \<times> u32" where
  "VALID_SEGMENT_LENGTHS = (64, 4294967295)"

definition Parameters_with_segment_length_unchecked :: "u32 \<Rightarrow> Parameters" where
  "Parameters_with_segment_length_unchecked segment_len =
    \<lparr> ciphertext_segment_length = segment_len \<rparr>"

definition Parameters_with_segment_length :: "u32 \<Rightarrow> Parameters result" where
  "Parameters_with_segment_length segment_len =
    (if \<not> (fst VALID_SEGMENT_LENGTHS \<le> segment_len \<and> segment_len < snd VALID_SEGMENT_LENGTHS)
     then Err (InvalidSegmentLength segment_len)
     else Ok (Parameters_with_segment_length_unchecked segment_len))"

definition SEGMENT_64_B :: Parameters where
  "SEGMENT_64_B = Parameters_with_segment_length_unchecked 64"
definition SEGMENT_4_KIB :: Parameters where
  "SEGMENT_4_KIB = Parameters_with_segment_length_unchecked (4 * 1024)"
definition SEGMENT_1_MIB :: Parameters where
  "SEGMENT_1_MIB = Parameters_with_segment_length_unchecked (1024 * 1024)"
definition SEGMENT_4_MIB :: Parameters where
  "SEGMENT_4_MIB = Parameters_with_segment_length_unchecked (4 * 1024 * 1024)"
definition SEGMENT_5_MIB :: Parameters where
  "SEGMENT_5_MIB = Parameters_with_segment_length_unchecked (5 * 1024 * 1024)"
definition SEGMENT_8_MIB :: Parameters where
  "SEGMENT_8_MIB = Parameters_with_segment_length_unchecked (8 * 1024 * 1024)"
definition SEGMENT_16_MIB :: Parameters where
  "SEGMENT_16_MIB = Parameters_with_segment_length_unchecked (16 * 1024 * 1024)"

definition Parameters_ciphertext_segment_length :: "Parameters \<Rightarrow> nat" where
  "Parameters_ciphertext_segment_length P = length_u32_to_usize (ciphertext_segment_length P)"

definition Parameters_ciphertext_segment_length_u32 :: "Parameters \<Rightarrow> u32" where
  "Parameters_ciphertext_segment_length_u32 P = ciphertext_segment_length P"

definition Parameters_plaintext_segment_length_u32 :: "Parameters \<Rightarrow> u32" where
  "Parameters_plaintext_segment_length_u32 P = ciphertext_segment_length P - SEGMENT_OVERHEAD_U32"

definition Parameters_plaintext_segment_length :: "Parameters \<Rightarrow> nat" where
  "Parameters_plaintext_segment_length P =
    length_u32_to_usize (Parameters_plaintext_segment_length_u32 P)"

definition Parameters_validate_ciphertext_segment_length :: "Parameters \<Rightarrow> nat \<Rightarrow> unit result" where
  "Parameters_validate_ciphertext_segment_length P actual =
    (let maximum = Parameters_ciphertext_segment_length P in
     if SEGMENT_OVERHEAD \<le> actual \<and> actual \<le> maximum then Ok ()
     else Err (InvalidCiphertextLength actual (Between SEGMENT_OVERHEAD maximum)))"

section \<open>Message layouts\<close>

record MessageLayout =
  ml_parameters :: Parameters
  ml_plaintext_length :: u64
  ml_ciphertext_length :: u64
  ml_segment_count :: u64

record SegmentLayout =
  sl_parameters :: Parameters
  sl_position :: u64
  sl_plaintext_offset :: u64
  sl_plaintext_length :: nat
  sl_ciphertext_offset :: u64
  sl_ciphertext_length :: nat
  sl_kind :: SegmentKind

definition MessageLayout_segment_for_position ::
  "target \<Rightarrow> MessageLayout \<Rightarrow> u64 \<Rightarrow> SegmentLayout option" where
  "MessageLayout_segment_for_position t L position =
    (if ml_segment_count L \<le> position then None else
     let P = ml_parameters L;
         plaintext_segment_length = Parameters_plaintext_segment_length P;
         plaintext_segment_length_u64 = ucast (Parameters_plaintext_segment_length_u32 P) :: u64;
         c_segment_length = Parameters_ciphertext_segment_length P;
         c_segment_length_u64 = ucast (Parameters_ciphertext_segment_length_u32 P) :: u64;
         plaintext_offset = position * plaintext_segment_length_u64;
         kind = (if position + 1 = ml_segment_count L then Final else NonFinal);
         lengths = (case kind of
             NonFinal \<Rightarrow> Some (plaintext_segment_length, c_segment_length)
           | Final \<Rightarrow> map_option (\<lambda>plaintext_length. (plaintext_length, SEGMENT_OVERHEAD + plaintext_length))
               (usize_try_from t (ml_plaintext_length L - plaintext_offset)));
         ciphertext_offset = HEADER_LENGTH_U64 + position * c_segment_length_u64
     in map_option (\<lambda>(plaintext_length, ciphertext_length).
          \<lparr> sl_parameters = P, sl_position = position, sl_plaintext_offset = plaintext_offset,
            sl_plaintext_length = plaintext_length, sl_ciphertext_offset = ciphertext_offset,
            sl_ciphertext_length = ciphertext_length, sl_kind = kind \<rparr>) lengths)"

definition MessageLayout_final_segment :: "target \<Rightarrow> MessageLayout \<Rightarrow> ('e, SegmentLayout) rust" where
  "MessageLayout_final_segment t L =
    expect (MessageLayout_segment_for_position t L (ml_segment_count L - 1))"

definition MessageLayout_position_for_plaintext_offset :: "MessageLayout \<Rightarrow> u64 \<Rightarrow> u64" where
  "MessageLayout_position_for_plaintext_offset L offset =
    offset div ucast (Parameters_plaintext_segment_length_u32 (ml_parameters L))"

definition Parameters_plaintext_layout :: "Parameters \<Rightarrow> u64 \<Rightarrow> MessageLayout result" where
  "Parameters_plaintext_layout P plaintext_length =
    (let plaintext_segment_length = ucast (Parameters_plaintext_segment_length_u32 P);
         segment_count = max (div_ceil plaintext_length plaintext_segment_length) 1
     in if segment_count > AEAD_MAX_SEGMENTS then Err SegmentLimit
        else bind (ok_or (checked_mul segment_count SEGMENT_OVERHEAD_U64) LengthOverflow) (\<lambda>framing_length.
          bind (ok_or (Option.bind (checked_add HEADER_LENGTH_U64 plaintext_length)
                        (\<lambda>length. checked_add length framing_length)) LengthOverflow) (\<lambda>ciphertext_length.
          Ok \<lparr> ml_parameters = P, ml_plaintext_length = plaintext_length,
               ml_ciphertext_length = ciphertext_length, ml_segment_count = segment_count \<rparr>)))"

definition Parameters_ciphertext_layout :: "target \<Rightarrow> Parameters \<Rightarrow> u64 \<Rightarrow> MessageLayout result" where
  "Parameters_ciphertext_layout t P ciphertext_length =
    bind (ok_or (checked_sub ciphertext_length HEADER_LENGTH_U64)
           (InvalidHeaderLength (length_u64_to_usize_saturating t ciphertext_length))) (\<lambda>body_length.
    if body_length = 0 then Err Truncated else
    (let c_segment_length = ucast (Parameters_ciphertext_segment_length_u32 P);
         segment_count = div_ceil body_length c_segment_length
     in if segment_count > AEAD_MAX_SEGMENTS then Err SegmentLimit else
     (let preceding_length = (segment_count - 1) * c_segment_length;
          final_length = body_length - preceding_length
      in if final_length < SEGMENT_OVERHEAD_U64
         then Err (InvalidCiphertextLength (length_u64_to_usize_saturating t final_length)
                (Between SEGMENT_OVERHEAD (Parameters_ciphertext_segment_length P)))
         else bind (ok_or (checked_mul segment_count SEGMENT_OVERHEAD_U64) LengthOverflow) (\<lambda>framing_length.
           bind (ok_or (checked_sub body_length framing_length) LengthOverflow) (\<lambda>plaintext_length.
           Ok \<lparr> ml_parameters = P, ml_plaintext_length = plaintext_length,
                ml_ciphertext_length = ciphertext_length, ml_segment_count = segment_count \<rparr>)))))"

section \<open>The segment iterator\<close>

text \<open>\<^verbatim>\<open>Segments\<close> walks a \<^verbatim>\<open>Range<u64>\<close> from both ends.\<close>

record Segments =
  sg_layout :: MessageLayout
  sg_start :: u64
  sg_end :: u64

definition MessageLayout_segments :: "MessageLayout \<Rightarrow> Segments" where
  "MessageLayout_segments L = \<lparr> sg_layout = L, sg_start = 0, sg_end = ml_segment_count L \<rparr>"

definition MessageLayout_into_iter :: "MessageLayout \<Rightarrow> Segments" where
  "MessageLayout_into_iter L = MessageLayout_segments L"

definition Segments_segment_at :: "target \<Rightarrow> Segments \<Rightarrow> u64 \<Rightarrow> ('e, SegmentLayout) rust" where
  "Segments_segment_at t I position =
    expect (MessageLayout_segment_for_position t (sg_layout I) position)"

definition Segments_next :: "target \<Rightarrow> Segments \<Rightarrow> ('e, SegmentLayout option) rust \<times> Segments" where
  "Segments_next t I =
    (if sg_start I < sg_end I
     then (map_ok Some (Segments_segment_at t I (sg_start I)), I\<lparr>sg_start := sg_start I + 1\<rparr>)
     else (Ok None, I))"

definition Segments_next_back :: "target \<Rightarrow> Segments \<Rightarrow> ('e, SegmentLayout option) rust \<times> Segments" where
  "Segments_next_back t I =
    (if sg_start I < sg_end I
     then (map_ok Some (Segments_segment_at t I (sg_end I - 1)), I\<lparr>sg_end := sg_end I - 1\<rparr>)
     else (Ok None, I))"

definition Segments_size_hint :: "target \<Rightarrow> Segments \<Rightarrow> nat \<times> nat option" where
  "Segments_size_hint t I =
    (if sg_start I < sg_end I
     then (case usize_try_from t (sg_end I - sg_start I) of
             Some n \<Rightarrow> (n, Some n) | None \<Rightarrow> (usize_max t, None))
     else (0, Some 0))"

text \<open>A \<^verbatim>\<open>for\<close> loop (or \<^verbatim>\<open>collect\<close>) over the iterator: every item until \<^verbatim>\<open>next\<close> is exhausted.\<close>

function Segments_collect :: "target \<Rightarrow> Segments \<Rightarrow> ('e, SegmentLayout list) rust" where
  "Segments_collect t I =
    (if sg_start I < sg_end I
     then (case Segments_next t I of
             (Ok (Some s), I') \<Rightarrow> bind (Segments_collect t I') (\<lambda>rest. Ok (s # rest))
           | (Ok None, I') \<Rightarrow> Ok []
           | (Err e, I') \<Rightarrow> Err e
           | (Panic, I') \<Rightarrow> Panic)
     else Ok [])"
  by pat_completeness auto
termination
proof (relation "measure (\<lambda>(t, I). unat (sg_end I - sg_start I))", goal_cases)
  case (2 t I s I' r)
  then have "I' = I\<lparr>sg_start := sg_start I + 1\<rparr>"
    by (auto simp: Segments_next_def)
  moreover have "unat (sg_end I - (sg_start I + 1)) < unat (sg_end I - sg_start I)"
    using 2(1) by unat_arith
  ultimately show ?case by simp
qed auto

declare Segments_collect.simps [simp del]

section \<open>Segment framing\<close>

record SegmentFraming =
  sf_ciphertext_length :: nat
  sf_plaintext_length :: nat
  sf_kind :: SegmentKind

definition SegmentFraming_decode :: "Parameters \<Rightarrow> bytes \<Rightarrow> SegmentFraming result" where
  "SegmentFraming_decode P prefix =
    (let encoded = u32_from_be_bytes prefix in
     bind (if encoded = 4294967295
           then Ok (Parameters_ciphertext_segment_length P, NonFinal)
           else (let maximum = Parameters_ciphertext_segment_length_u32 P in
             if \<not> (SEGMENT_OVERHEAD_U32 \<le> encoded \<and> encoded \<le> maximum)
             then Err (InvalidCiphertextLength (length_u32_to_usize encoded)
                    (Between SEGMENT_OVERHEAD (Parameters_ciphertext_segment_length P)))
             else Ok (length_u32_to_usize encoded, Final)))
       (\<lambda>(ciphertext_length, kind).
         Ok \<lparr> sf_ciphertext_length = ciphertext_length,
              sf_plaintext_length = ciphertext_length - SEGMENT_OVERHEAD,
              sf_kind = kind \<rparr>))"

definition SegmentFraming_ciphertext_length :: "SegmentFraming \<Rightarrow> nat" where
  "SegmentFraming_ciphertext_length F = sf_ciphertext_length F"

definition SegmentFraming_plaintext_length :: "SegmentFraming \<Rightarrow> nat" where
  "SegmentFraming_plaintext_length F = sf_plaintext_length F"

definition SegmentFraming_is_final :: "SegmentFraming \<Rightarrow> bool" where
  "SegmentFraming_is_final F = SegmentKind_is_final (sf_kind F)"

section \<open>Parameter encoding and key rotation\<close>

definition Parameters_encode :: "Parameters \<Rightarrow> bytes" where
  "Parameters_encode P =
    (let segment_length = u32_to_be_bytes (ciphertext_segment_length P);
         iv_length = u32_to_be_bytes FLOE_IV_LENGTH_U32
     in [0, 0, segment_length ! 0, segment_length ! 1, segment_length ! 2, segment_length ! 3,
         iv_length ! 0, iv_length ! 1, iv_length ! 2, iv_length ! 3])"

definition Parameters_decode :: "bytes \<Rightarrow> Parameters result" where
  "Parameters_decode encoded =
    (let seg_len_bytes = slice 2 6 encoded;
         segment_length = u32_from_be_bytes seg_len_bytes
     in bind (map_err (\<lambda>_. InvalidHeaderParameters) (Parameters_with_segment_length segment_length))
          (\<lambda>parameters. if Parameters_encode parameters = encoded then Ok parameters
             else Err InvalidHeaderParameters))"

definition Parameters_masked_position :: "Parameters \<Rightarrow> u64 \<Rightarrow> u64" where
  "Parameters_masked_position P position = position AND ROTATION_MASK"

declare floe_consts [simp]
section \<open>Valid parameter sets\<close>

abbreviation csl :: "Parameters \<Rightarrow> nat" where
  "csl P \<equiv> unat (ciphertext_segment_length P)"

definition psl :: "Parameters \<Rightarrow> nat" where
  "psl P = csl P - 32"

definition params_ok :: "Parameters \<Rightarrow> bool" where
  "params_ok P \<longleftrightarrow> 64 \<le> csl P \<and> csl P < 4294967295"

lemma params_ok_bounds: "params_ok P \<Longrightarrow> 64 \<le> csl P \<and> csl P < 4294967295 \<and> 32 \<le> psl P"
  by (auto simp: params_ok_def psl_def)

lemma csl_psl: "params_ok P \<Longrightarrow> csl P = psl P + 32"
  by (simp add: params_ok_def psl_def)

lemma psl_pos: "params_ok P \<Longrightarrow> 0 < psl P"
  by (simp add: params_ok_def psl_def)

lemma with_segment_length_iff:
  "Parameters_with_segment_length n = Ok P \<longleftrightarrow> params_ok P \<and> ciphertext_segment_length P = n"
  by (cases P)
    (auto simp: Parameters_with_segment_length_def VALID_SEGMENT_LENGTHS_def params_ok_def
      Parameters_with_segment_length_unchecked_def word_le_nat_alt word_less_nat_alt)

lemma segment_64: "params_ok SEGMENT_64_B" "csl SEGMENT_64_B = 64" "psl SEGMENT_64_B = 32"
  by (simp_all add: params_ok_def psl_def SEGMENT_64_B_def Parameters_with_segment_length_unchecked_def)

lemma segment_lengths [simp]:
  "Parameters_ciphertext_segment_length P = csl P"
  "Parameters_ciphertext_segment_length_u32 P = ciphertext_segment_length P"
  by (simp_all add: Parameters_ciphertext_segment_length_def length_u32_to_usize_def
      Parameters_ciphertext_segment_length_u32_def)

lemma unat_psl_u32 [simp]:
  "params_ok P \<Longrightarrow> unat (Parameters_plaintext_segment_length_u32 P) = psl P"
  by (simp add: Parameters_plaintext_segment_length_u32_def params_ok_def psl_def unat_sub word_le_nat_alt)

lemma plaintext_segment_length [simp]:
  "params_ok P \<Longrightarrow> Parameters_plaintext_segment_length P = psl P"
  by (simp add: Parameters_plaintext_segment_length_def length_u32_to_usize_def)

lemma u64_consts [simp]: "HEADER_LENGTH_U64 = 74" "SEGMENT_OVERHEAD_U64 = 32"
  by (simp_all add: HEADER_LENGTH_U64_def SEGMENT_OVERHEAD_U64_def length_usize_to_u64_def)

lemma validate_ciphertext_segment_length_iff [simp]:
  "Parameters_validate_ciphertext_segment_length P n = Ok () \<longleftrightarrow> 32 \<le> n \<and> n \<le> csl P"
  by (simp add: Parameters_validate_ciphertext_segment_length_def Let_def)

section \<open>Layouts\<close>

definition layout_ok :: "MessageLayout \<Rightarrow> bool" where
  "layout_ok L \<longleftrightarrow>
    (let P = ml_parameters L; n = unat (ml_segment_count L); p = unat (ml_plaintext_length L) in
     params_ok P \<and> 1 \<le> n \<and> n \<le> 2 ^ 40 \<and> unat (ml_ciphertext_length L) = 74 + p + 32 * n \<and>
     (n - 1) * psl P \<le> p \<and> p \<le> n * psl P)"

lemma layout_okD:
  assumes "layout_ok L"
  shows "params_ok (ml_parameters L)" "1 \<le> unat (ml_segment_count L)"
    "unat (ml_segment_count L) \<le> 2 ^ 40"
    "unat (ml_ciphertext_length L) = 74 + unat (ml_plaintext_length L) + 32 * unat (ml_segment_count L)"
    "(unat (ml_segment_count L) - 1) * psl (ml_parameters L) \<le> unat (ml_plaintext_length L)"
    "unat (ml_plaintext_length L) \<le> unat (ml_segment_count L) * psl (ml_parameters L)"
  using assms by (auto simp: layout_ok_def Let_def)

text \<open>The number of segments of a message of \<open>p\<close> bytes, as a natural number.\<close>

definition segments_for :: "Parameters \<Rightarrow> nat \<Rightarrow> nat" where
  "segments_for P p = max 1 (if p mod psl P > 0 then p div psl P + 1 else p div psl P)"

lemma segments_for_le_iff: "params_ok P \<Longrightarrow> 1 \<le> n \<Longrightarrow> segments_for P p \<le> n \<longleftrightarrow> p \<le> n * psl P"
  using nat_div_ceil_le_iff [of "psl P" p n] by (auto simp: segments_for_def psl_pos)

lemma segments_for_bounds:
  assumes "params_ok P"
  shows "1 \<le> segments_for P p" "p \<le> segments_for P p * psl P"
    "(segments_for P p - 1) * psl P \<le> p"
    "segments_for P p \<noteq> 1 \<Longrightarrow> (segments_for P p - 1) * psl P < p"
proof -
  show 1: "1 \<le> segments_for P p" by (simp add: segments_for_def)
  show "p \<le> segments_for P p * psl P"
    using segments_for_le_iff [OF assms 1, of p] by simp
  show less: "(segments_for P p - 1) * psl P < p" if "segments_for P p \<noteq> 1"
    using that segments_for_le_iff [OF assms, of "segments_for P p - 1" p] 1
    by linarith
  show "(segments_for P p - 1) * psl P \<le> p"
    using less by (cases "segments_for P p = 1") auto
qed

lemma unat_segment_count:
  assumes "params_ok P"
  shows "unat (max (div_ceil len (ucast (Parameters_plaintext_segment_length_u32 P))) 1) =
    segments_for P (unat len)"
  using assms by (simp add: unat_max unat_div_ceil segments_for_def psl_pos max.commute)

text \<open>Every branch of \<open>plaintext_layout\<close>.\<close>

lemma plaintext_layout_cases:
  fixes len :: u64
  assumes P: "params_ok P"
  defines "n \<equiv> segments_for P (unat len)"
  shows "Parameters_plaintext_layout P len =
    (if n > 2 ^ 40 then Err SegmentLimit
     else if 74 + unat len + 32 * n \<ge> 2 ^ 64 then Err LengthOverflow
     else Ok \<lparr> ml_parameters = P, ml_plaintext_length = len,
               ml_ciphertext_length = word_of_nat (74 + unat len + 32 * n),
               ml_segment_count = word_of_nat n \<rparr>)"
proof -
  let ?c = "max (div_ceil len (ucast (Parameters_plaintext_segment_length_u32 P))) 1"
  have c: "unat ?c = n" using unat_segment_count [OF P] by (simp add: n_def)
  have cw: "?c = word_of_nat n" using c by (rule unat_eq_word_of_nat)
  have lim: "AEAD_MAX_SEGMENTS < ?c \<longleftrightarrow> 2 ^ 40 < n"
    using c by (simp add: word_less_nat_alt)
  show ?thesis
  proof (cases "n > 2 ^ 40")
    case True
    then show ?thesis using lim by (simp add: Parameters_plaintext_layout_def Let_def)
  next
    case False
    then have mul: "checked_mul ?c 32 = Some (?c * 32)"
      using c by (simp add: checked_mul_def)
    have um: "unat (?c * 32) = 32 * n" using unat_checked_mul [OF mul] c by simp
    show ?thesis
    proof (cases "74 + unat len + 32 * n \<ge> 2 ^ 64")
      case True
      then have "Option.bind (checked_add 74 len) (\<lambda>l. checked_add l (?c * 32)) = None"
        using um by (auto simp: checked_add_def unat_word_ariths bind_eq_None_conv)
      then show ?thesis using True False lim mul
        by (simp add: Parameters_plaintext_layout_def Let_def)
    next
      case small: False
      then have a1: "checked_add 74 len = Some (74 + len)" by (simp add: checked_add_def)
      have a2: "checked_add (74 + len) (?c * 32) = Some (74 + len + ?c * 32)"
        using small um unat_checked_add [OF a1] by (simp add: checked_add_def)
      have "unat (74 + len + ?c * 32) = 74 + unat len + 32 * n"
        using unat_checked_add [OF a2] unat_checked_add [OF a1] um by simp
      then have "74 + len + ?c * 32 = word_of_nat (74 + unat len + 32 * n)"
        by (rule unat_eq_word_of_nat)
      then show ?thesis using False small lim mul a1 a2 cw
        by (simp add: Parameters_plaintext_layout_def Let_def)
    qed
  qed
qed

lemma plaintext_layout_okD:
  assumes "params_ok P" "Parameters_plaintext_layout P len = Ok L"
  shows "layout_ok L" "ml_parameters L = P" "ml_plaintext_length L = len"
    "unat (ml_segment_count L) = segments_for P (unat len)"
proof -
  let ?n = "segments_for P (unat len)"
  have n: "\<not> ?n > 2 ^ 40" "\<not> 74 + unat len + 32 * ?n \<ge> 2 ^ 64"
    and L: "L = \<lparr> ml_parameters = P, ml_plaintext_length = len,
      ml_ciphertext_length = word_of_nat (74 + unat len + 32 * ?n), ml_segment_count = word_of_nat ?n \<rparr>"
    using assms(2) unfolding plaintext_layout_cases [OF assms(1)] by (auto split: if_splits)
  have cnt: "unat (word_of_nat ?n :: u64) = ?n" and
    clen: "unat (word_of_nat (74 + unat len + 32 * ?n) :: u64) = 74 + unat len + 32 * ?n"
    using n by (simp_all only: unat_of_nat_u64 not_le)
  show "layout_ok L" using assms(1) n cnt clen segments_for_bounds [OF assms(1), of "unat len"]
    by (simp add: L layout_ok_def Let_def)
  show "ml_parameters L = P" "ml_plaintext_length L = len"
    "unat (ml_segment_count L) = ?n" using cnt by (simp_all add: L)
qed

text \<open>Every branch of \<open>ciphertext_layout\<close>, over the natural numbers.\<close>

definition body_segments :: "Parameters \<Rightarrow> nat \<Rightarrow> nat" where
  "body_segments P b = (if b mod csl P > 0 then b div csl P + 1 else b div csl P)"

lemma body_segments_bounds:
  assumes "params_ok P" "0 < b"
  shows "1 \<le> body_segments P b" "b \<le> body_segments P b * csl P" "(body_segments P b - 1) * csl P < b"
proof -
  have c: "0 < csl P" using assms by (simp add: params_ok_def)
  have iff: "body_segments P b \<le> k \<longleftrightarrow> b \<le> k * csl P" for k
    using nat_div_ceil_le_iff [OF c, of b k] by (simp add: body_segments_def)
  show 1: "1 \<le> body_segments P b" using iff [of 0] assms(2) by linarith
  show "b \<le> body_segments P b * csl P" using iff by blast
  show "(body_segments P b - 1) * csl P < b"
    using iff [of "body_segments P b - 1"] 1 by linarith
qed

lemma ciphertext_layout_words:
  fixes t :: target
  assumes P: "params_ok P" and b: "unat w = b" "0 < b"
  defines "n \<equiv> body_segments P b" and "k \<equiv> div_ceil w (ucast (ciphertext_segment_length P))"
  assumes n: "n \<le> 2 ^ 40"
  shows "k = word_of_nat n" "\<not> AEAD_MAX_SEGMENTS < k"
    "unat (w - (k - 1) * ucast (ciphertext_segment_length P)) = b - (n - 1) * csl P"
    "checked_mul k 32 = Some (k * 32)" "unat (k * 32) = 32 * n"
proof -
  let ?s = "ucast (ciphertext_segment_length P) :: u64"
  have k: "unat k = n"
    using P b by (simp add: k_def unat_div_ceil n_def body_segments_def params_ok_def)
  then show "k = word_of_nat n" by (rule unat_eq_word_of_nat)
  show "\<not> AEAD_MAX_SEGMENTS < k" using k n by (simp add: word_less_nat_alt)
  show mul: "checked_mul k 32 = Some (k * 32)" using k n by (simp add: checked_mul_def)
  show "unat (k * 32) = 32 * n" using k unat_checked_mul [OF mul] by simp
  note bnd = body_segments_bounds [OF P b(2), folded n_def]
  have c1: "unat (k - 1) = n - 1" using k bnd(1) by (simp add: unat_sub word_le_nat_alt)
  have "(n - 1) * csl P < 2 ^ 64" using bnd(3) b(1) unat_less_64 [of w] by simp
  then have pre: "unat ((k - 1) * ?s) = (n - 1) * csl P"
    using c1 unat_mult_small [of "k - 1" ?s] by simp
  then show "unat (w - (k - 1) * ?s) = b - (n - 1) * csl P"
    using b(1) bnd(3) unat_sub [of "(k - 1) * ?s" w] by (simp add: word_le_nat_alt)
qed

lemma ciphertext_layout_body:
  fixes t :: target
  assumes P: "params_ok P" and b: "unat c = 74 + b" "0 < b"
  defines "n \<equiv> body_segments P b"
  assumes n: "n \<le> 2 ^ 40"
  shows "Parameters_ciphertext_layout t P c =
    (if b - (n - 1) * csl P < 32
     then Err (InvalidCiphertextLength (b - (n - 1) * csl P) (Between 32 (csl P)))
     else Ok \<lparr> ml_parameters = P, ml_plaintext_length = word_of_nat (b - 32 * n),
               ml_ciphertext_length = c, ml_segment_count = word_of_nat n \<rparr>)"
proof -
  define w where "w = c - 74"
  define k where "k = div_ceil w (ucast (ciphertext_segment_length P))"
  define f where "f = w - (k - 1) * ucast (ciphertext_segment_length P)"
  have w: "unat w = b" and sub: "checked_sub c 74 = Some w"
    using b(1) by (simp_all add: w_def checked_sub_def word_le_nat_alt unat_sub)
  note W = ciphertext_layout_words [OF P w b(2) n [unfolded n_def], folded n_def k_def, folded f_def]
  have nz: "w \<noteq> 0" using w b(2) by auto
  have f32: "f < 32 \<longleftrightarrow> b - (n - 1) * csl P < 32" using W(3) by (simp add: word_less_nat_alt)
  show ?thesis
  proof (cases "f < 32")
    case True
    then have "length_u64_to_usize_saturating t f = b - (n - 1) * csl P"
      using f32 W(3) usize_max_ge [of t] by (simp add: length_u64_to_usize_saturating_def usize_try_from_def)
    then show ?thesis using True sub nz W(2) f32 b(2)
      by (simp add: Parameters_ciphertext_layout_def Let_def k_def [symmetric] f_def [symmetric])
  next
    case False
    have "32 * (n - 1) \<le> (n - 1) * csl P" using P by (simp add: params_ok_def)
    then have fr: "32 * n \<le> b"
      using False f32 body_segments_bounds(1) [OF P b(2), folded n_def] by linarith
    then have pl: "checked_sub w (k * 32) = Some (w - k * 32)" and "unat (w - k * 32) = b - 32 * n"
      using w W(5) by (simp_all add: checked_sub_def word_le_nat_alt unat_sub)
    then have "w - k * 32 = word_of_nat (b - 32 * n)" by (intro unat_eq_word_of_nat)
    then show ?thesis using False sub nz W(2,4) f32 pl
      by (simp add: Parameters_ciphertext_layout_def Let_def k_def [symmetric] f_def [symmetric]
          W(1) [symmetric])
  qed
qed

lemma ciphertext_layout_short:
  "unat c < 74 \<Longrightarrow> Parameters_ciphertext_layout t P c = Err (InvalidHeaderLength (unat c))"
  "unat c = 74 \<Longrightarrow> Parameters_ciphertext_layout t P c = Err Truncated"
proof -
  assume "unat c < 74"
  then show "Parameters_ciphertext_layout t P c = Err (InvalidHeaderLength (unat c))"
    using usize_max_ge [of t]
    by (simp add: Parameters_ciphertext_layout_def checked_sub_def word_le_nat_alt
        length_u64_to_usize_saturating_def usize_try_from_def)
next
  assume "unat c = 74"
  then have "c = 74" by (drule_tac unat_eq_word_of_nat) simp
  then show "Parameters_ciphertext_layout t P c = Err Truncated"
    by (simp add: Parameters_ciphertext_layout_def checked_sub_def)
qed

lemma ciphertext_layout_limit:
  assumes P: "params_ok P" and b: "unat c = 74 + b" "0 < b" and n: "2 ^ 40 < body_segments P b"
  shows "Parameters_ciphertext_layout t P c = Err SegmentLimit"
proof -
  have w: "unat (c - 74) = b" and sub: "checked_sub c 74 = Some (c - 74)"
    using b(1) by (simp_all add: checked_sub_def word_le_nat_alt unat_sub)
  have "AEAD_MAX_SEGMENTS < div_ceil (c - 74) (ucast (ciphertext_segment_length P))"
    using P n w by (simp add: word_less_nat_alt unat_div_ceil body_segments_def params_ok_def split: if_splits)
  moreover have "c - 74 \<noteq> 0" using w b(2) by auto
  ultimately show ?thesis using sub by (simp add: Parameters_ciphertext_layout_def Let_def)
qed

text \<open>All branches of \<open>ciphertext_layout\<close> at once.\<close>

lemma ciphertext_layout_cases:
  fixes c :: u64
  assumes P: "params_ok P"
  defines "b \<equiv> unat c - 74"
  defines "n \<equiv> body_segments P b"
  shows "Parameters_ciphertext_layout t P c =
    (if unat c < 74 then Err (InvalidHeaderLength (unat c))
     else if b = 0 then Err Truncated
     else if n > 2 ^ 40 then Err SegmentLimit
     else if b - (n - 1) * csl P < 32
     then Err (InvalidCiphertextLength (b - (n - 1) * csl P) (Between 32 (csl P)))
     else Ok \<lparr> ml_parameters = P, ml_plaintext_length = word_of_nat (b - 32 * n),
               ml_ciphertext_length = c, ml_segment_count = word_of_nat n \<rparr>)"
proof (cases "unat c \<le> 74")
  case True
  then show ?thesis
    using ciphertext_layout_short [of c t P] by (cases "unat c = 74") (auto simp: b_def)
next
  case False
  then have b: "unat c = 74 + b" "0 < b" by (auto simp: b_def)
  show ?thesis
    using False ciphertext_layout_limit [OF P b, folded n_def, of t]
      ciphertext_layout_body [OF P b, folded n_def, of t]
    by (auto simp: b_def)
qed

lemma ciphertext_layout_okD:
  assumes P: "params_ok P" and L: "Parameters_ciphertext_layout t P c = Ok L"
  shows "layout_ok L" "ml_parameters L = P" "ml_ciphertext_length L = c"
proof -
  let ?b = "unat c - 74" let ?n = "body_segments P ?b"
  have c: "74 < unat c" "?n \<le> 2 ^ 40" "32 \<le> ?b - (?n - 1) * csl P"
    and Leq: "L = \<lparr> ml_parameters = P, ml_plaintext_length = word_of_nat (?b - 32 * ?n),
               ml_ciphertext_length = c, ml_segment_count = word_of_nat ?n \<rparr>"
    using L unfolding ciphertext_layout_cases [OF P] by (auto split: if_splits)
  then have b: "0 < ?b" by simp
  note bnd = body_segments_bounds [OF P b]
  have un: "unat (word_of_nat ?n :: u64) = ?n" using c(2) by (intro unat_of_nat_u64) simp
  have up: "unat (word_of_nat (?b - 32 * ?n) :: u64) = ?b - 32 * ?n"
  proof (rule unat_of_nat_u64)
    have "?b - 32 * ?n \<le> unat c" by simp
    then show "?b - 32 * ?n < 2 ^ 64" unfolding u64_bound using unat_less_64 [of c] by (rule le_less_trans)
  qed
  obtain m where m: "?n = Suc m" using bnd(1) by (cases ?n) auto
  define p where "p = psl P"
  have cs: "csl P = p + 32" using P by (simp add: csl_psl p_def)
  have lo: "32 * ?n + (?n - 1) * p \<le> ?b" and hi: "?b \<le> 32 * ?n + ?n * p"
    using c(3) bnd(2,3) by (simp_all add: m cs algebra_simps)
  show "layout_ok L" using P c(1,2) un up lo hi bnd(1)
    by (simp add: Leq layout_ok_def Let_def p_def [symmetric]) linarith
  show "ml_parameters L = P" "ml_ciphertext_length L = c" by (simp_all add: Leq)
qed

section \<open>Segments of a layout\<close>

text \<open>The lengths and offsets of segment \<open>i\<close>, over the natural numbers.\<close>

definition seg_plain_len :: "MessageLayout \<Rightarrow> nat \<Rightarrow> nat" where
  "seg_plain_len L i =
    (if Suc i = unat (ml_segment_count L) then unat (ml_plaintext_length L) - i * psl (ml_parameters L)
     else psl (ml_parameters L))"

lemma seg_plain_len_le: "layout_ok L \<Longrightarrow> i < unat (ml_segment_count L) \<Longrightarrow> seg_plain_len L i \<le> psl (ml_parameters L)"
proof -
  assume "layout_ok L" and "i < unat (ml_segment_count L)"
  from this(1) have "unat (ml_plaintext_length L) \<le> psl (ml_parameters L) + i * psl (ml_parameters L)"
    if "Suc i = unat (ml_segment_count L)" using that layout_okD(6) by (metis mult_Suc)
  then show ?thesis by (simp add: seg_plain_len_def le_diff_conv)
qed

lemma layout_no_overflow:
  assumes L: "layout_ok L" and i: "i < unat (ml_segment_count L)"
  shows "i * psl (ml_parameters L) + seg_plain_len L i \<le> unat (ml_plaintext_length L)"
    "74 + i * csl (ml_parameters L) + 32 + seg_plain_len L i \<le> unat (ml_ciphertext_length L)"
proof -
  let ?n = "unat (ml_segment_count L)" let ?p = "psl (ml_parameters L)"
  have cs: "csl (ml_parameters L) = ?p + 32" using layout_okD(1) [OF L] by (rule csl_psl)
  show one: "i * ?p + seg_plain_len L i \<le> unat (ml_plaintext_length L)"
  proof (cases "Suc i = ?n")
    case True
    have "?n - 1 = i" using True by linarith
    then show ?thesis using layout_okD(5) [OF L] True by (simp add: seg_plain_len_def)
  next
    case False
    then have "Suc i \<le> ?n - 1" using i by simp
    then have "Suc i * ?p \<le> (?n - 1) * ?p" by (rule mult_le_mono1)
    also have "\<dots> \<le> unat (ml_plaintext_length L)" by (rule layout_okD(5) [OF L])
    finally show ?thesis using False by (simp add: seg_plain_len_def algebra_simps)
  qed
  have "i * csl (ml_parameters L) = i * ?p + 32 * i" unfolding cs by (simp add: algebra_simps)
  moreover have "32 * Suc i \<le> 32 * ?n" using i by simp
  ultimately show "74 + i * csl (ml_parameters L) + 32 + seg_plain_len L i \<le> unat (ml_ciphertext_length L)"
    using one layout_okD(4) [OF L] by simp
qed

definition segment_spec :: "MessageLayout \<Rightarrow> nat \<Rightarrow> SegmentLayout" where
  "segment_spec L i =
    \<lparr> sl_parameters = ml_parameters L, sl_position = word_of_nat i,
      sl_plaintext_offset = word_of_nat (i * psl (ml_parameters L)),
      sl_plaintext_length = seg_plain_len L i,
      sl_ciphertext_offset = word_of_nat (74 + i * csl (ml_parameters L)),
      sl_ciphertext_length = 32 + seg_plain_len L i,
      sl_kind = (if Suc i = unat (ml_segment_count L) then Final else NonFinal) \<rparr>"

lemma layout_words:
  assumes L: "layout_ok L" and i: "unat pos < unat (ml_segment_count L)"
  defines "P \<equiv> ml_parameters L"
  shows "unat (pos * ucast (Parameters_plaintext_segment_length_u32 P)) = unat pos * psl P"
    "unat (74 + pos * ucast (ciphertext_segment_length P)) = 74 + unat pos * csl P"
    "pos + 1 = ml_segment_count L \<longleftrightarrow> Suc (unat pos) = unat (ml_segment_count L)"
proof -
  have P: "params_ok P" using layout_okD(1) [OF L] by (simp add: P_def)
  note no = layout_no_overflow [OF L i, folded P_def]
  have "unat pos * psl P \<le> unat (ml_plaintext_length L)" using no(1) by linarith
  then have "unat pos * psl P < 2 ^ 64"
    unfolding u64_bound using unat_less_64 by (rule le_less_trans)
  then show "unat (pos * ucast (Parameters_plaintext_segment_length_u32 P)) = unat pos * psl P"
    using P by (subst unat_mult_small) auto
  have c: "74 + unat pos * csl P < 2 ^ 64"
    unfolding u64_bound using no(2) unat_less_64 [of "ml_ciphertext_length L"] by linarith
  then have m: "unat (pos * ucast (ciphertext_segment_length P)) = unat pos * csl P"
    by (subst unat_mult_small) auto
  then show "unat (74 + pos * ucast (ciphertext_segment_length P)) = 74 + unat pos * csl P"
    using c by (subst unat_add_small) auto
  have "unat (pos + 1) = Suc (unat pos)"
    using i layout_okD(3) [OF L] by (subst unat_add_small) auto
  then show "pos + 1 = ml_segment_count L \<longleftrightarrow> Suc (unat pos) = unat (ml_segment_count L)"
    by (metis word_unat_eq_iff)
qed

lemma segment_for_position_spec:
  assumes L: "layout_ok L" and i: "unat pos < unat (ml_segment_count L)"
  shows "MessageLayout_segment_for_position t L pos = Some (segment_spec L (unat pos))"
proof -
  define P where "P = ml_parameters L"
  have P: "params_ok P" using layout_okD(1) [OF L] by (simp add: P_def)
  note W = layout_words [OF L i, folded P_def]
  have lt: "\<not> ml_segment_count L \<le> pos" using i by (simp add: word_le_nat_alt)
  define po where "po = pos * ucast (Parameters_plaintext_segment_length_u32 P)"
  have off: "po = word_of_nat (unat pos * psl P)"
    "74 + pos * ucast (ciphertext_segment_length P) = word_of_nat (74 + unat pos * csl P)"
    unfolding po_def by (rule unat_eq_word_of_nat [OF W(1)], rule unat_eq_word_of_nat [OF W(2)])
  have pw: "pos = word_of_nat (unat pos)" by simp
  have fin: "usize_try_from t (ml_plaintext_length L - po) = Some (seg_plain_len L (unat pos))"
    if f: "Suc (unat pos) = unat (ml_segment_count L)"
  proof -
    have "unat po \<le> unat (ml_plaintext_length L)"
      using W(1) layout_no_overflow(1) [OF L i] by (simp add: po_def P_def)
    then have "unat (ml_plaintext_length L - po) = seg_plain_len L (unat pos)"
      using f W(1) by (simp add: po_def P_def seg_plain_len_def unat_sub word_le_nat_alt)
    moreover have "seg_plain_len L (unat pos) \<le> usize_max t"
      using seg_plain_len_le [OF L i] P usize_max_ge [of t] unfolding P_def psl_def params_ok_def
      by linarith
    ultimately show ?thesis by (simp add: usize_try_from_def)
  qed
  have cs: "csl P = 32 + psl P" using P by (simp add: csl_psl)
  show ?thesis
  proof (cases "Suc (unat pos) = unat (ml_segment_count L)")
    case True
    then show ?thesis using lt P W(3) fin [OF True] off pw
      by (simp add: MessageLayout_segment_for_position_def Let_def segment_spec_def
          P_def [symmetric] po_def [symmetric])
  next
    case False
    then have "seg_plain_len L (unat pos) = psl P" by (simp add: seg_plain_len_def P_def)
    then show ?thesis using False lt P W(3) off pw cs
      by (simp add: MessageLayout_segment_for_position_def Let_def segment_spec_def
          P_def [symmetric] po_def [symmetric])
  qed
qed

text \<open>A layout is determined by its ciphertext length: \<open>layout_ok\<close> is the range of \<open>ciphertext_layout\<close>.\<close>

lemma body_segments_unique:
  assumes P: "params_ok P" and n: "1 \<le> n" "(n - 1) * csl P < b" "b \<le> n * csl P"
  shows "body_segments P b = n"
proof -
  have b: "0 < b" using n(2) by simp
  note bnd = body_segments_bounds [OF P b]
  have "body_segments P b - 1 < n" using bnd(3) n(3) by (metis less_le_trans mult_less_cancel2)
  moreover have "n - 1 < body_segments P b" using bnd(2) n(2) by (metis less_le_trans mult_less_cancel2)
  ultimately show ?thesis using bnd(1) n(1) by linarith
qed

lemma layout_body:
  assumes L: "layout_ok L"
  defines "n \<equiv> unat (ml_segment_count L)" and "P \<equiv> ml_parameters L"
  defines "b \<equiv> unat (ml_ciphertext_length L) - 74"
  shows "(n - 1) * csl P + 32 \<le> b" "b \<le> n * csl P" "b - 32 * n = unat (ml_plaintext_length L)"
proof -
  have P: "params_ok P" and n: "1 \<le> n"
    using layout_okD(1,2) [OF L] by (simp_all add: P_def n_def)
  obtain m where m: "n = Suc m" using n by (cases n) auto
  have bb: "b = unat (ml_plaintext_length L) + 32 * n" using layout_okD(4) [OF L] by (simp add: b_def n_def)
  note lo = layout_okD(5) [OF L, folded n_def P_def] and hi = layout_okD(6) [OF L, folded n_def P_def]
  have "m * csl P = m * psl P + 32 * m" unfolding csl_psl [OF P] by (simp add: algebra_simps)
  then show "(n - 1) * csl P + 32 \<le> b" using lo by (simp add: bb m)
  show "b \<le> n * csl P" using hi unfolding bb csl_psl [OF P] by (simp add: algebra_simps)
  show "b - 32 * n = unat (ml_plaintext_length L)" by (simp add: bb)
qed

lemma ciphertext_layout_of_layout:
  assumes L: "layout_ok L"
  shows "Parameters_ciphertext_layout t (ml_parameters L) (ml_ciphertext_length L) = Ok L"
proof -
  let ?P = "ml_parameters L" and ?n = "unat (ml_segment_count L)"
    and ?b = "unat (ml_ciphertext_length L) - 74"
  note P = layout_okD(1) [OF L] and B = layout_body [OF L]
  have n: "body_segments ?P ?b = ?n"
    using P layout_okD(2) [OF L] B(1,2) by (intro body_segments_unique) auto
  have "unat (ml_ciphertext_length L) = 74 + ?b" "0 < ?b" using layout_okD(2,4) [OF L] by auto
  from ciphertext_layout_body [OF P this, unfolded n, of t] layout_okD(3) [OF L] B(1,3)
  show ?thesis by simp
qed

text \<open>The iterator yields exactly the segments of the layout, in order.\<close>

lemma unat_Suc_less: "(a :: u64) < b \<Longrightarrow> unat (a + 1) = Suc (unat a)"
  by unat_arith

lemma Segments_collect_spec:
  assumes "layout_ok (sg_layout I)" "sg_end I \<le> ml_segment_count (sg_layout I)"
  shows "(Segments_collect t I :: ('e, SegmentLayout list) rust) = Ok (map (segment_spec (sg_layout I)) [unat (sg_start I)..<unat (sg_end I)])"
  using assms
proof (induction "unat (sg_end I) - unat (sg_start I)" arbitrary: I)
  case 0
  then show ?case by (subst Segments_collect.simps) (auto simp: word_less_nat_alt)
next
  case (Suc k)
  then have lt: "sg_start I < sg_end I" by (simp add: word_less_nat_alt)
  let ?J = "I\<lparr>sg_start := sg_start I + 1\<rparr>"
  have pos: "unat (sg_start I) < unat (ml_segment_count (sg_layout I))"
    using lt Suc.prems(2) by (simp add: word_less_nat_alt word_le_nat_alt)
  have "k = unat (sg_end ?J) - unat (sg_start ?J)"
    using Suc.hyps(2) lt by (simp add: unat_Suc_less)
  then have IH: "(Segments_collect t ?J :: ('e, SegmentLayout list) rust) = Ok (map (segment_spec (sg_layout I)) [Suc (unat (sg_start I))..<unat (sg_end I)])"
    using Suc.hyps(1) [of ?J] Suc.prems lt by (simp add: unat_Suc_less)
  have "[unat (sg_start I)..<unat (sg_end I)] = unat (sg_start I) # [Suc (unat (sg_start I))..<unat (sg_end I)]"
    using lt by (simp add: upt_conv_Cons word_less_nat_alt)
  then show ?case
    using lt IH segment_for_position_spec [OF Suc.prems(1) pos, of t]
    by (subst Segments_collect.simps) (simp add: Segments_next_def Segments_segment_at_def)
qed

lemma final_segment_spec:
  assumes L: "layout_ok L"
  shows "MessageLayout_final_segment t L = Ok (segment_spec L (unat (ml_segment_count L) - 1))"
proof -
  have "unat (ml_segment_count L - 1) = unat (ml_segment_count L) - 1"
    using layout_okD(2) [OF L] by (simp add: unat_sub word_le_nat_alt)
  then show ?thesis
    using segment_for_position_spec [OF L, of "ml_segment_count L - 1" t] layout_okD(2) [OF L]
    by (simp add: MessageLayout_final_segment_def)
qed

text \<open>The plaintext and ciphertext ranges of the segments cut the message into consecutive pieces.\<close>

lemma plaintext_tiling:
  assumes L: "layout_ok L" and x: "length xs = unat (ml_plaintext_length L)"
  shows "concat (map (\<lambda>i. slice (i * psl (ml_parameters L)) (i * psl (ml_parameters L) + seg_plain_len L i) xs)
           [0..<unat (ml_segment_count L)]) = xs"
proof -
  let ?p = "psl (ml_parameters L)" and ?n = "unat (ml_segment_count L)"
  define f where "f i = min (i * ?p) (length xs)" for i
  have le: "i * ?p + seg_plain_len L i \<le> length xs" if "i < ?n" for i
    using layout_no_overflow(1) [OF L that] x by simp
  have last: "length xs \<le> ?n * ?p" using layout_okD(6) [OF L] x by simp
  have f: "slice (i * ?p) (i * ?p + seg_plain_len L i) xs = slice (f i) (f (Suc i)) xs" if "i < ?n" for i
  proof -
    have "f i = i * ?p" using le [OF that] by (simp add: f_def)
    moreover have "f (Suc i) = i * ?p + seg_plain_len L i"
    proof (cases "Suc i = ?n")
      case True
      then have "length xs \<le> Suc i * ?p" using last by simp
      then show ?thesis using True le [OF that] x by (simp add: f_def seg_plain_len_def)
    next
      case False
      then show ?thesis using le [OF that] by (simp add: f_def seg_plain_len_def)
    qed
    ultimately show ?thesis by simp
  qed
  have eq: "map (\<lambda>i. slice (i * ?p) (i * ?p + seg_plain_len L i) xs) [0..<?n] =
      map (\<lambda>i. slice (f i) (f (Suc i)) xs) [0..<?n]"
    by (rule map_cong) (simp_all add: f)
  have "f i \<le> f (Suc i)" for i by (simp add: f_def min_def)
  then have "concat (map (\<lambda>i. slice (f i) (f (Suc i)) xs) [0..<?n]) = slice (f 0) (f ?n) xs"
    by (intro concat_slices) (auto simp: f_def)
  also have "\<dots> = xs" using last by (simp add: f_def)
  finally show ?thesis unfolding eq .
qed

section \<open>Framing, encoding and key rotation\<close>

lemma framing_decode_iff:
  "SegmentFraming_decode P prefix = Ok F \<longleftrightarrow>
    (let w = u32_from_be_bytes prefix in
     (w = 4294967295 \<and> F = \<lparr> sf_ciphertext_length = csl P, sf_plaintext_length = csl P - 32, sf_kind = NonFinal \<rparr>) \<or>
     (w \<noteq> 4294967295 \<and> 32 \<le> unat w \<and> unat w \<le> csl P \<and>
      F = \<lparr> sf_ciphertext_length = unat w, sf_plaintext_length = unat w - 32, sf_kind = Final \<rparr>))"
  by (auto simp: SegmentFraming_decode_def Let_def word_le_nat_alt length_u32_to_usize_def split: if_splits)

lemma framing_decode_okD:
  assumes "params_ok P" "SegmentFraming_decode P prefix = Ok F"
  shows "32 \<le> sf_ciphertext_length F" "sf_ciphertext_length F \<le> csl P"
    "sf_plaintext_length F = sf_ciphertext_length F - 32"
    "sf_kind F = NonFinal \<Longrightarrow> sf_ciphertext_length F = csl P"
  using assms by (auto simp: framing_decode_iff Let_def params_ok_def)

text \<open>The prefix a segment of \<open>n\<close> ciphertext bytes carries.\<close>

definition segment_prefix_word :: "SegmentKind \<Rightarrow> nat \<Rightarrow> u32" where
  "segment_prefix_word kind n = (case kind of NonFinal \<Rightarrow> 4294967295 | Final \<Rightarrow> word_of_nat n)"

lemma unat_of_nat_u32: "n < 4294967296 \<Longrightarrow> unat (word_of_nat n :: u32) = n"
  by (simp add: unat_of_nat take_bit_eq_mod)

lemma framing_of_prefix:
  assumes P: "params_ok P" and n: "32 \<le> n" "n \<le> csl P" "kind = NonFinal \<Longrightarrow> n = csl P"
  shows "SegmentFraming_decode P (u32_to_be_bytes (segment_prefix_word kind n)) =
    Ok \<lparr> sf_ciphertext_length = n, sf_plaintext_length = n - 32, sf_kind = kind \<rparr>"
proof (cases kind)
  case NonFinal
  then show ?thesis using n by (simp add: framing_decode_iff segment_prefix_word_def)
next
  case Final
  have lt: "n < 4294967295" using n P by (simp add: params_ok_def)
  then have u: "unat (word_of_nat n :: u32) = n" by (simp add: unat_of_nat_u32)
  have "word_of_nat n \<noteq> (4294967295 :: u32)"
  proof
    assume "word_of_nat n = (4294967295 :: u32)"
    then have "n = unat (4294967295 :: u32)" using u by metis
    then show False using lt by simp
  qed
  then show ?thesis using n u Final by (simp add: framing_decode_iff segment_prefix_word_def)
qed

lemma prefix_of_framing:
  assumes "params_ok P" "length prefix = 4" "SegmentFraming_decode P prefix = Ok F"
  shows "prefix = u32_to_be_bytes (segment_prefix_word (sf_kind F) (sf_ciphertext_length F))"
proof -
  have "u32_from_be_bytes prefix = segment_prefix_word (sf_kind F) (sf_ciphertext_length F)"
    using assms(3) by (auto simp: framing_decode_iff Let_def segment_prefix_word_def)
  then show ?thesis using u32_to_from_be_bytes [OF assms(2)] by simp
qed

lemma length_encode [simp]: "length (Parameters_encode P) = 10"
  by (simp add: Parameters_encode_def Let_def)

lemma encode_eq:
  "Parameters_encode P = [0, 0] @ u32_to_be_bytes (ciphertext_segment_length P) @ u32_to_be_bytes 32"
proof -
  have 4: "bs = [bs ! 0, bs ! 1, bs ! 2, bs ! 3]" if "length bs = 4" for bs :: bytes
    using that by (auto simp: numeral_eq_Suc length_Suc_conv)
  show ?thesis
    using 4 [of "u32_to_be_bytes (ciphertext_segment_length P)"] 4 [of "u32_to_be_bytes 32"]
    by (simp add: Parameters_encode_def Let_def)
qed

lemma decode_encode: "Parameters_decode (Parameters_encode P) = Ok P \<longleftrightarrow> params_ok P"
proof -
  have "slice 2 6 (Parameters_encode P) = u32_to_be_bytes (ciphertext_segment_length P)"
    by (simp add: encode_eq slice_def)
  then have "Parameters_decode (Parameters_encode P) =
      bind (map_err (\<lambda>_. InvalidHeaderParameters) (Parameters_with_segment_length (ciphertext_segment_length P)))
        (\<lambda>Q. if Parameters_encode Q = Parameters_encode P then Ok Q else Err InvalidHeaderParameters)"
    by (simp add: Parameters_decode_def)
  then show ?thesis
    using with_segment_length_iff [of "ciphertext_segment_length P" P] by (auto split: if_splits)
qed

lemma decode_iff: "Parameters_decode encoded = Ok P \<longleftrightarrow> params_ok P \<and> encoded = Parameters_encode P"
proof
  assume "Parameters_decode encoded = Ok P"
  then show "params_ok P \<and> encoded = Parameters_encode P"
    by (auto simp: Parameters_decode_def Let_def with_segment_length_iff split: if_splits)
next
  assume "params_ok P \<and> encoded = Parameters_encode P"
  then show "Parameters_decode encoded = Ok P" using decode_encode [of P] by simp
qed

lemma ROTATION_MASK_eq: "position AND ROTATION_MASK = push_bit 20 (drop_bit 20 position)"
proof (rule bit_eqI)
  fix n assume "possible_bit TYPE(u64) n"
  then have "n < 64" by simp
  moreover have m: "ROTATION_MASK = NOT (mask 20)"
    by (simp add: ROTATION_MASK_def mask_eq_exp_minus_1)
  ultimately show "bit (position AND ROTATION_MASK) n = bit (push_bit 20 (drop_bit 20 position)) n"
    unfolding m by (auto simp: bit_and_iff bit_not_iff bit_mask_iff bit_push_bit_iff bit_drop_bit_eq)
qed

lemma unat_masked_position:
  "unat (Parameters_masked_position P position) = unat position div 2 ^ 20 * 2 ^ 20"
proof -
  have d: "unat (drop_bit 20 position) = unat position div 2 ^ 20"
    by (simp add: drop_bit_eq_div unat_div)
  have "unat position div 2 ^ 20 * 2 ^ 20 \<le> unat position" by simp
  then have "unat position div 2 ^ 20 * 2 ^ 20 < 2 ^ 64"
    unfolding u64_bound using unat_less_64 by (rule le_less_trans)
  then have "unat (drop_bit 20 position * 2 ^ 20) = unat position div 2 ^ 20 * 2 ^ 20"
    by (subst unat_mult_small) (simp_all add: d)
  then show ?thesis
    by (simp add: Parameters_masked_position_def ROTATION_MASK_eq push_bit_eq_mult)
qed

lemma masked_position_eq_iff:
  "Parameters_masked_position P i = Parameters_masked_position P j \<longleftrightarrow>
    unat i div 2 ^ 20 = unat j div 2 ^ 20"
  by (simp add: word_unat_eq_iff unat_masked_position)

section \<open>Properties\<close>

text \<open>
  C32: \<open>plaintext_layout\<close> succeeds with a layout exactly when that layout is well formed (no
  segment or length bound exceeded), is for these parameters and this length, and has the
  least number of segments that holds the plaintext.
\<close>

theorem plaintext_layout_exact:
  assumes "params_ok P"
  shows "Parameters_plaintext_layout P len = Ok L \<longleftrightarrow>
    layout_ok L \<and> ml_parameters L = P \<and> ml_plaintext_length L = len \<and>
    unat (ml_segment_count L) = segments_for P (unat len)"
proof
  assume "Parameters_plaintext_layout P len = Ok L"
  then show "layout_ok L \<and> ml_parameters L = P \<and> ml_plaintext_length L = len \<and>
    unat (ml_segment_count L) = segments_for P (unat len)"
    using plaintext_layout_okD [OF assms] by blast
next
  assume L: "layout_ok L \<and> ml_parameters L = P \<and> ml_plaintext_length L = len \<and>
    unat (ml_segment_count L) = segments_for P (unat len)"
  let ?n = "segments_for P (unat len)"
  have n: "unat (ml_segment_count L) = ?n" "?n \<le> 2 ^ 40" and c: "unat (ml_ciphertext_length L) = 74 + unat len + 32 * ?n"
    using L layout_okD(3,4) [of L] by auto
  then have "ml_segment_count L = word_of_nat ?n" "ml_ciphertext_length L = word_of_nat (74 + unat len + 32 * ?n)"
      "74 + unat len + 32 * ?n < 2 ^ 64"
    using unat_less_64 [of "ml_ciphertext_length L"] unat_eq_word_of_nat by (metis, metis, simp)
  then show "Parameters_plaintext_layout P len = Ok L"
    using L n(2) by (simp add: plaintext_layout_cases [OF assms] del: of_nat_add of_nat_mult)
qed

theorem plaintext_layout_exact_witness:
  "\<forall>L. Parameters_plaintext_layout SEGMENT_64_B 70 = Ok L \<longleftrightarrow>
    layout_ok L \<and> ml_parameters L = SEGMENT_64_B \<and> ml_plaintext_length L = 70 \<and> unat (ml_segment_count L) = 3"
  using plaintext_layout_exact [OF segment_64(1), of 70] by (simp add: segments_for_def segment_64(3))

text \<open>
  C33: \<open>ciphertext_layout\<close> recovers the layout of a message from its length alone: it returns
  \<open>L\<close> exactly when \<open>L\<close> is a well-formed layout of these parameters with that ciphertext length.
\<close>

theorem ciphertext_layout_exact:
  assumes "params_ok P"
  shows "Parameters_ciphertext_layout t P c = Ok L \<longleftrightarrow>
    layout_ok L \<and> ml_parameters L = P \<and> ml_ciphertext_length L = c"
  using ciphertext_layout_okD [OF assms] ciphertext_layout_of_layout by blast

theorem ciphertext_layout_exact_witness:
  "\<forall>L. Parameters_ciphertext_layout Pointer32 SEGMENT_64_B 240 = Ok L \<longleftrightarrow>
    layout_ok L \<and> ml_parameters L = SEGMENT_64_B \<and> ml_ciphertext_length L = 240"
  using ciphertext_layout_exact [OF segment_64(1)] by blast

text \<open>
  C34: Iterating over the segments of a layout yields one segment per position, the plaintext
  ranges cut any plaintext of the right length into consecutive pieces, and exactly the last
  segment is final.
\<close>

theorem segments_tile_plaintext:
  assumes "layout_ok L" "length xs = unat (ml_plaintext_length L)"
  shows "\<exists>ss. (Segments_collect t (MessageLayout_segments L) :: SegmentLayout list result) = Ok ss \<and>
    length ss = unat (ml_segment_count L) \<and>
    (\<forall>i < length ss. sl_position (ss ! i) = word_of_nat i \<and> (sl_kind (ss ! i) = Final \<longleftrightarrow> Suc i = length ss)) \<and>
    concat (map (\<lambda>s. slice (unat (sl_plaintext_offset s)) (unat (sl_plaintext_offset s) + sl_plaintext_length s) xs) ss) = xs"
proof (intro exI conjI)
  let ?n = "unat (ml_segment_count L)" and ?ss = "map (segment_spec L) [0..<unat (ml_segment_count L)]"
  show "(Segments_collect t (MessageLayout_segments L) :: SegmentLayout list result) = Ok ?ss"
    using Segments_collect_spec [of "MessageLayout_segments L"] assms(1) by (simp add: MessageLayout_segments_def)
  show "length ?ss = ?n" by simp
  show "\<forall>i < length ?ss. sl_position (?ss ! i) = word_of_nat i \<and> (sl_kind (?ss ! i) = Final \<longleftrightarrow> Suc i = length ?ss)"
    by (simp add: segment_spec_def)
  have "unat (word_of_nat (i * psl (ml_parameters L)) :: u64) = i * psl (ml_parameters L)" if "i < ?n" for i
  proof -
    have "i * psl (ml_parameters L) \<le> unat (ml_plaintext_length L)" using layout_no_overflow(1) [OF assms(1) that] by linarith
    then have "i * psl (ml_parameters L) < 2 ^ 64"
      using unat_less_64 [of "ml_plaintext_length L"] unfolding u64_bound by linarith
    then show ?thesis by (rule unat_of_nat_u64)
  qed
  then have "map (\<lambda>s. slice (unat (sl_plaintext_offset s)) (unat (sl_plaintext_offset s) + sl_plaintext_length s) xs) ?ss =
      map (\<lambda>i. slice (i * psl (ml_parameters L)) (i * psl (ml_parameters L) + seg_plain_len L i) xs) [0..<?n]"
    by (simp add: segment_spec_def del: of_nat_mult)
  then show "concat (map (\<lambda>s. slice (unat (sl_plaintext_offset s)) (unat (sl_plaintext_offset s) + sl_plaintext_length s) xs) ?ss) = xs"
    using plaintext_tiling [OF assms] by (simp only:)
qed

definition toy_layout :: MessageLayout where
  "toy_layout = \<lparr> ml_parameters = SEGMENT_64_B, ml_plaintext_length = 70, ml_ciphertext_length = 240, ml_segment_count = 3 \<rparr>"

lemma toy_layout:
  "Parameters_plaintext_layout SEGMENT_64_B 70 = Ok toy_layout" "unat (ml_ciphertext_length toy_layout) = 240"
  "length (replicate 70 (9 :: u8)) = 70" "layout_ok toy_layout" "unat (ml_plaintext_length toy_layout) = 70"
  "ml_parameters toy_layout = SEGMENT_64_B" "unat (ml_segment_count toy_layout) = 3"
  by (simp_all add: plaintext_layout_cases [OF segment_64(1)] segments_for_def segment_64 toy_layout_def layout_ok_def)

theorem segments_tile_plaintext_witness:
  "\<exists>ss. (Segments_collect Pointer64 (MessageLayout_segments toy_layout) :: SegmentLayout list result) = Ok ss \<and>
    length ss = 3 \<and>
    (\<forall>i < length ss. sl_position (ss ! i) = word_of_nat i \<and> (sl_kind (ss ! i) = Final \<longleftrightarrow> Suc i = length ss)) \<and>
    concat (map (\<lambda>s. slice (unat (sl_plaintext_offset s)) (unat (sl_plaintext_offset s) + sl_plaintext_length s)
      (replicate 70 (9 :: u8))) ss) = replicate 70 9"
  using segments_tile_plaintext [OF toy_layout(4), of "replicate 70 (9 :: u8)" Pointer64] by (simp add: toy_layout)

text \<open>
  C39: Decoding ten header bytes succeeds exactly on the encodings of the parameter sets that
  \<open>with_segment_length\<close> admits, and returns the encoded set.
\<close>

theorem parameters_decode_exact:
  "Parameters_decode encoded = Ok P \<longleftrightarrow>
    (\<exists>n. Parameters_with_segment_length n = Ok P) \<and> encoded = Parameters_encode P"
  by (auto simp: decode_iff with_segment_length_iff)

text \<open>
  A four-byte prefix decodes to a framing exactly when the framing is one a segment of
  these parameters can have and the prefix is its encoding; in particular distinct framings
  have distinct prefixes.
\<close>

theorem framing_decode_exact:
  assumes "params_ok P" "length prefix = 4"
  shows "SegmentFraming_decode P prefix = Ok F \<longleftrightarrow>
    32 \<le> sf_ciphertext_length F \<and> sf_ciphertext_length F \<le> csl P \<and>
    sf_plaintext_length F = sf_ciphertext_length F - 32 \<and>
    (sf_kind F = NonFinal \<longrightarrow> sf_ciphertext_length F = csl P) \<and>
    prefix = u32_to_be_bytes (segment_prefix_word (sf_kind F) (sf_ciphertext_length F))"
proof
  assume "SegmentFraming_decode P prefix = Ok F"
  then show "32 \<le> sf_ciphertext_length F \<and> sf_ciphertext_length F \<le> csl P \<and>
    sf_plaintext_length F = sf_ciphertext_length F - 32 \<and>
    (sf_kind F = NonFinal \<longrightarrow> sf_ciphertext_length F = csl P) \<and>
    prefix = u32_to_be_bytes (segment_prefix_word (sf_kind F) (sf_ciphertext_length F))"
    using framing_decode_okD [OF assms(1)] prefix_of_framing [OF assms] by blast
next
  assume F: "32 \<le> sf_ciphertext_length F \<and> sf_ciphertext_length F \<le> csl P \<and>
    sf_plaintext_length F = sf_ciphertext_length F - 32 \<and>
    (sf_kind F = NonFinal \<longrightarrow> sf_ciphertext_length F = csl P) \<and>
    prefix = u32_to_be_bytes (segment_prefix_word (sf_kind F) (sf_ciphertext_length F))"
  then show "SegmentFraming_decode P prefix = Ok F"
    using framing_of_prefix [OF assms(1), of "sf_ciphertext_length F" "sf_kind F"] by (cases F) auto
qed

theorem framing_decode_exact_witness:
  "\<forall>F. SegmentFraming_decode SEGMENT_64_B [0, 0, 0, 40] = Ok F \<longleftrightarrow>
    32 \<le> sf_ciphertext_length F \<and> sf_ciphertext_length F \<le> 64 \<and>
    sf_plaintext_length F = sf_ciphertext_length F - 32 \<and>
    (sf_kind F = NonFinal \<longrightarrow> sf_ciphertext_length F = 64) \<and>
    [0, 0, 0, 40] = u32_to_be_bytes (segment_prefix_word (sf_kind F) (sf_ciphertext_length F))"
  using framing_decode_exact [OF segment_64(1), of "[0, 0, 0, 40]"] by (simp add: segment_64(2))

text \<open>
  Key rotation: two positions share a segment key index exactly when they lie in the same
  block of \<open>2 ^ 20\<close> segments, and the index is the first position of the block.
\<close>

theorem key_rotation_blocks:
  "unat (Parameters_masked_position P i) = 2 ^ 20 * (unat i div 2 ^ 20) \<and>
   (Parameters_masked_position P i = Parameters_masked_position P j \<longleftrightarrow> unat i div 2 ^ 20 = unat j div 2 ^ 20)"
  using unat_masked_position [of P i] masked_position_eq_iff [of P i j] by (simp add: mult.commute)

end
