(* ===== verification/Floe_Backends.thy ===== *)
theory Floe_Backends
  imports Floe_Provider Floe_Parameters
begin

text \<open>
  The provider wrappers of \<^verbatim>\<open>src/src/backends.rs\<close>. The cryptography itself lives in
  third-party crates; every function of theirs that the wrappers call is a field of the
  record \<open>env\<close>, and their objects (cipher contexts, MAC contexts, generator states,
  the operating system's entropy source) are values of the type variable \<open>'x\<close>. The
  wrappers are modelled on top of these fields, each with its own error mapping.

  \<open>lawful E S\<close> states what the crates document: each provider's AES-256-GCM and
  HMAC-SHA-384 compute the standard functions collected in the record \<open>prims\<close>, byte
  slices keep their length, \<^verbatim>\<open>zeroize\<close> clears and \<^verbatim>\<open>ct_eq\<close> compares. The locale
  \<open>aead_backend\<close> is the contract the segment code relies on; it is interpreted on the
  wrappers at the end.
\<close>

section \<open>Third-party functions\<close>

text \<open>
  A seal returns the buffer it leaves behind and the tag, or \<open>None\<close> on error; an open
  returns the buffer it leaves behind and whether the tag verified. A random fill
  returns success, the filled slice and the next state of the source.
\<close>

record 'x env = build +
  zeroize :: "bytes \<Rightarrow> bytes"
  ct_eq :: "bytes \<Rightarrow> bytes \<Rightarrow> bool"
  rc_new_from_slice :: "bytes \<Rightarrow> 'x option"
  rc_inout_buf_new :: "nat \<Rightarrow> nat \<Rightarrow> bool"
  rc_encrypt_inout_detached :: "'x \<Rightarrow> bytes \<Rightarrow> bytes \<Rightarrow> bytes \<Rightarrow> bytes \<times> bytes option"
  rc_decrypt_inout_detached :: "'x \<Rightarrow> bytes \<Rightarrow> bytes \<Rightarrow> bytes \<Rightarrow> bytes \<Rightarrow> bytes \<times> bool"
  rc_hmac_new_from_slice :: "bytes \<Rightarrow> 'x option"
  rc_hmac_update :: "'x \<Rightarrow> bytes \<Rightarrow> 'x"
  rc_hmac_finalize :: "'x \<Rightarrow> bytes"
  aws_unbound_key_new :: "bytes \<Rightarrow> 'x option"
  aws_less_safe_key_new :: "'x \<Rightarrow> 'x"
  aws_seal_in_place_separate_tag :: "'x \<Rightarrow> bytes \<Rightarrow> bytes \<Rightarrow> bytes \<Rightarrow> bytes \<times> bytes option"
  aws_seal_in_place_scatter :: "'x \<Rightarrow> bytes \<Rightarrow> bytes \<Rightarrow> bytes \<Rightarrow> bytes \<Rightarrow> bytes \<Rightarrow> bytes \<times> bytes \<times> bool"
  aws_open_separate_gather :: "'x \<Rightarrow> bytes \<Rightarrow> bytes \<Rightarrow> bytes \<Rightarrow> bytes \<Rightarrow> bytes \<Rightarrow> bytes \<times> bool"
  aws_open_in_place_separate_tag :: "'x \<Rightarrow> bytes \<Rightarrow> bytes \<Rightarrow> bytes \<Rightarrow> bytes \<Rightarrow> bytes \<times> bool"
  aws_prk_new_less_safe :: "bytes \<Rightarrow> 'x"
  aws_prk_expand :: "'x \<Rightarrow> bytes list \<Rightarrow> nat \<Rightarrow> 'x option"
  aws_okm_fill :: "'x \<Rightarrow> nat \<Rightarrow> bytes option"
  bo_aead_ctx_new :: "bytes \<Rightarrow> nat \<Rightarrow> 'x option"
  bo_seal_in_place :: "'x \<Rightarrow> bytes \<Rightarrow> bytes \<Rightarrow> bytes \<Rightarrow> bytes \<Rightarrow> bytes \<times> bytes \<times> nat option"
  bo_seal_scatter :: "'x \<Rightarrow> bytes \<Rightarrow> bytes \<Rightarrow> bytes \<Rightarrow> bytes option \<Rightarrow> bytes \<Rightarrow> bytes \<times> bytes \<times> nat option"
  bo_open_in_place :: "'x \<Rightarrow> bytes \<Rightarrow> bytes \<Rightarrow> bytes \<Rightarrow> bytes \<Rightarrow> bytes \<times> bool"
  bo_hmac_init :: "bytes \<Rightarrow> 'x option"
  bo_hmac_update :: "'x \<Rightarrow> bytes \<Rightarrow> 'x option"
  bo_hmac_finalize :: "'x \<Rightarrow> bytes option"
  ring_unbound_key_new :: "bytes \<Rightarrow> 'x option"
  ring_less_safe_key_new :: "'x \<Rightarrow> 'x"
  ring_seal_in_place_separate_tag :: "'x \<Rightarrow> bytes \<Rightarrow> bytes \<Rightarrow> bytes \<Rightarrow> bytes \<times> bytes option"
  ring_open_in_place_separate_tag :: "'x \<Rightarrow> bytes \<Rightarrow> bytes \<Rightarrow> bytes \<Rightarrow> bytes \<Rightarrow> nat \<Rightarrow> bytes \<times> bool"
  ring_prk_new_less_safe :: "bytes \<Rightarrow> 'x"
  ring_prk_expand :: "'x \<Rightarrow> bytes list \<Rightarrow> nat \<Rightarrow> 'x option"
  ring_okm_fill :: "'x \<Rightarrow> nat \<Rightarrow> bytes option"
  getrandom_fill :: "'x \<Rightarrow> bytes \<Rightarrow> bool \<times> bytes \<times> 'x"
  chacha12_from_seed :: "bytes \<Rightarrow> 'x"
  chacha12_fill_bytes :: "'x \<Rightarrow> bytes \<Rightarrow> bytes \<times> 'x"
  aws_system_random_fill :: "'x \<Rightarrow> bytes \<Rightarrow> bool \<times> bytes \<times> 'x"
  bo_rand_bytes :: "'x \<Rightarrow> bytes \<Rightarrow> bool \<times> bytes \<times> 'x"
  ring_system_random_fill :: "'x \<Rightarrow> bytes \<Rightarrow> bool \<times> bytes \<times> 'x"

definition KDF_MAX_OUTPUT_LENGTH :: nat where [floe_consts]: "KDF_MAX_OUTPUT_LENGTH = 48"

definition validate_kdf_output_length :: "nat \<Rightarrow> unit result" where
  "validate_kdf_output_length N = (if N \<le> KDF_MAX_OUTPUT_LENGTH then Ok () else Err CryptoFailure)"

definition copy_from_slice :: "bytes \<Rightarrow> bytes \<Rightarrow> bytes result" where
  "copy_from_slice dst src = (if length dst = length src then Ok src else Panic)"

section \<open>RustCrypto\<close>

definition rustcrypto_new :: "'x env \<Rightarrow> bytes \<Rightarrow> 'x result" where
  "rustcrypto_new E key = ok_or (rc_new_from_slice E key) CryptoFailure"

definition rustcrypto_seal ::
  "'x env \<Rightarrow> 'x \<Rightarrow> bytes \<Rightarrow> bytes \<Rightarrow> bytes \<Rightarrow> bytes \<Rightarrow> unit result \<times> bytes \<times> bytes" where
  "rustcrypto_seal E k nonce aad in_out tag =
    (case rc_encrypt_inout_detached E k nonce aad in_out of
       (out, None) \<Rightarrow> (Err CryptoFailure, out, tag)
     | (out, Some generated_tag) \<Rightarrow> try_in (copy_from_slice tag generated_tag) (out, tag) (\<lambda>t. (Ok (), out, t)))"

definition rustcrypto_seal_into ::
  "'x env \<Rightarrow> 'x \<Rightarrow> bytes \<Rightarrow> bytes \<Rightarrow> bytes \<Rightarrow> bytes \<Rightarrow> unit result \<times> bytes" where
  "rustcrypto_seal_into E k nonce aad plaintext output =
    (if length output < length plaintext then (Panic, output) else
     let ciphertext = take (length plaintext) output; tag_out = drop (length plaintext) output in
     if \<not> rc_inout_buf_new E (length plaintext) (length ciphertext) then (Err CryptoFailure, output) else
     (case rc_encrypt_inout_detached E k nonce aad plaintext of
        (out, None) \<Rightarrow> (Err CryptoFailure, out @ tag_out)
      | (out, Some tag) \<Rightarrow> try_in (copy_from_slice tag_out tag) (out @ tag_out) (\<lambda>t. (Ok (), out @ t))))"

definition rustcrypto_open ::
  "'x env \<Rightarrow> 'x \<Rightarrow> bytes \<Rightarrow> bytes \<Rightarrow> bytes \<Rightarrow> bytes \<Rightarrow> bytes \<Rightarrow> unit result \<times> bytes" where
  "rustcrypto_open E k nonce aad ciphertext tag output =
    (if \<not> rc_inout_buf_new E (length ciphertext) (length output) then (Err CryptoFailure, output) else
     (case rc_decrypt_inout_detached E k nonce aad ciphertext tag of
        (out, verified) \<Rightarrow> (if verified then Ok () else Err AuthenticationFailed, out)))"

definition rustcrypto_open_in_place ::
  "'x env \<Rightarrow> 'x \<Rightarrow> bytes \<Rightarrow> bytes \<Rightarrow> bytes \<Rightarrow> bytes \<Rightarrow> unit result \<times> bytes" where
  "rustcrypto_open_in_place E k nonce aad tag in_out =
    (case rc_decrypt_inout_detached E k nonce aad in_out tag of
       (out, verified) \<Rightarrow> (if verified then Ok () else Err AuthenticationFailed, out))"

definition rustcrypto_kdf_expand :: "'x env \<Rightarrow> nat \<Rightarrow> bytes \<Rightarrow> bytes list \<Rightarrow> bytes result" where
  "rustcrypto_kdf_expand E N key info =
    bind (validate_kdf_output_length N) (\<lambda>_.
    bind (ok_or (rc_hmac_new_from_slice E key) CryptoFailure) (\<lambda>hmac0.
    let hmac1 = foldl (rc_hmac_update E) hmac0 info;
        hmac2 = rc_hmac_update E hmac1 [1];
        block = rc_hmac_finalize E hmac2
    in Ok (take N block)))"

section \<open>aws-lc-rs\<close>

definition aws_lc_rs_new :: "'x env \<Rightarrow> bytes \<Rightarrow> 'x result" where
  "aws_lc_rs_new E key =
    bind (ok_or (aws_unbound_key_new E key) CryptoFailure) (\<lambda>k. Ok (aws_less_safe_key_new E k))"

definition aws_lc_rs_seal ::
  "'x env \<Rightarrow> 'x \<Rightarrow> bytes \<Rightarrow> bytes \<Rightarrow> bytes \<Rightarrow> bytes \<Rightarrow> unit result \<times> bytes \<times> bytes" where
  "aws_lc_rs_seal E k nonce aad in_out tag =
    (case aws_seal_in_place_separate_tag E k nonce aad in_out of
       (out, None) \<Rightarrow> (Err CryptoFailure, out, tag)
     | (out, Some generated_tag) \<Rightarrow> try_in (copy_from_slice tag generated_tag) (out, tag) (\<lambda>t. (Ok (), out, t)))"

definition aws_lc_rs_seal_into ::
  "'x env \<Rightarrow> 'x \<Rightarrow> bytes \<Rightarrow> bytes \<Rightarrow> bytes \<Rightarrow> bytes \<Rightarrow> unit result \<times> bytes" where
  "aws_lc_rs_seal_into E k nonce aad plaintext output =
    (case aws_seal_in_place_scatter E k nonce aad [] plaintext output of
       (_, out, sealed) \<Rightarrow> (if sealed then Ok () else Err CryptoFailure, out))"

definition aws_lc_rs_open ::
  "'x env \<Rightarrow> 'x \<Rightarrow> bytes \<Rightarrow> bytes \<Rightarrow> bytes \<Rightarrow> bytes \<Rightarrow> bytes \<Rightarrow> unit result \<times> bytes" where
  "aws_lc_rs_open E k nonce aad ciphertext tag output =
    (case aws_open_separate_gather E k nonce aad ciphertext tag output of
       (out, verified) \<Rightarrow> (if verified then Ok () else Err AuthenticationFailed, out))"

definition aws_lc_rs_open_in_place ::
  "'x env \<Rightarrow> 'x \<Rightarrow> bytes \<Rightarrow> bytes \<Rightarrow> bytes \<Rightarrow> bytes \<Rightarrow> unit result \<times> bytes" where
  "aws_lc_rs_open_in_place E k nonce aad tag in_out =
    (case aws_open_in_place_separate_tag E k nonce aad tag in_out of
       (out, verified) \<Rightarrow> (if verified then Ok () else Err AuthenticationFailed, out))"

definition aws_lc_rs_kdf_expand :: "'x env \<Rightarrow> nat \<Rightarrow> bytes \<Rightarrow> bytes list \<Rightarrow> bytes result" where
  "aws_lc_rs_kdf_expand E N key info =
    bind (validate_kdf_output_length N) (\<lambda>_.
    let prk = aws_prk_new_less_safe E key in
    bind (ok_or (aws_prk_expand E prk info N) CryptoFailure) (\<lambda>okm.
    ok_or (aws_okm_fill E okm N) CryptoFailure))"

section \<open>boring\<close>

definition boring_new :: "'x env \<Rightarrow> bytes \<Rightarrow> 'x result" where
  "boring_new E key = ok_or (bo_aead_ctx_new E key AEAD_TAG_LENGTH) CryptoFailure"

definition boring_seal ::
  "'x env \<Rightarrow> 'x \<Rightarrow> bytes \<Rightarrow> bytes \<Rightarrow> bytes \<Rightarrow> bytes \<Rightarrow> unit result \<times> bytes \<times> bytes" where
  "boring_seal E k nonce aad in_out tag =
    (case bo_seal_in_place E k nonce in_out tag aad of
       (out, tag', None) \<Rightarrow> (Err CryptoFailure, out, tag')
     | (out, tag', Some written) \<Rightarrow>
         if written \<noteq> AEAD_TAG_LENGTH then (Err CryptoFailure, out, tag') else (Ok (), out, tag'))"

definition boring_seal_into ::
  "'x env \<Rightarrow> 'x \<Rightarrow> bytes \<Rightarrow> bytes \<Rightarrow> bytes \<Rightarrow> bytes \<Rightarrow> unit result \<times> bytes" where
  "boring_seal_into E k nonce aad plaintext output =
    (case bo_seal_scatter E k nonce [] output (Some plaintext) aad of
       (_, out, None) \<Rightarrow> (Err CryptoFailure, out)
     | (_, out, Some written) \<Rightarrow>
         if written \<noteq> length plaintext + AEAD_TAG_LENGTH then (Err CryptoFailure, out) else (Ok (), out))"

definition boring_open ::
  "'x env \<Rightarrow> 'x \<Rightarrow> bytes \<Rightarrow> bytes \<Rightarrow> bytes \<Rightarrow> bytes \<Rightarrow> bytes \<Rightarrow> unit result \<times> bytes" where
  "boring_open E k nonce aad ciphertext tag output =
    try_in (copy_from_slice output ciphertext) output (\<lambda>in_out.
    (case bo_open_in_place E k nonce in_out tag aad of
       (out, verified) \<Rightarrow> (if verified then Ok () else Err AuthenticationFailed, out)))"

definition boring_open_in_place ::
  "'x env \<Rightarrow> 'x \<Rightarrow> bytes \<Rightarrow> bytes \<Rightarrow> bytes \<Rightarrow> bytes \<Rightarrow> unit result \<times> bytes" where
  "boring_open_in_place E k nonce aad tag in_out =
    (case bo_open_in_place E k nonce in_out tag aad of
       (out, verified) \<Rightarrow> (if verified then Ok () else Err AuthenticationFailed, out))"

fun boring_hmac_updates :: "'x env \<Rightarrow> 'x \<Rightarrow> bytes list \<Rightarrow> 'x result" where
  "boring_hmac_updates E hmac [] = Ok hmac"
| "boring_hmac_updates E hmac (part # parts) =
    bind (ok_or (bo_hmac_update E hmac part) CryptoFailure) (\<lambda>hmac'. boring_hmac_updates E hmac' parts)"

definition boring_kdf_expand :: "'x env \<Rightarrow> nat \<Rightarrow> bytes \<Rightarrow> bytes list \<Rightarrow> bytes result" where
  "boring_kdf_expand E N key info =
    bind (validate_kdf_output_length N) (\<lambda>_.
    bind (ok_or (bo_hmac_init E key) CryptoFailure) (\<lambda>hmac0.
    bind (boring_hmac_updates E hmac0 info) (\<lambda>hmac1.
    bind (ok_or (bo_hmac_update E hmac1 [1]) CryptoFailure) (\<lambda>hmac2.
    bind (ok_or (bo_hmac_finalize E hmac2) CryptoFailure) (\<lambda>block.
    if length block \<noteq> 48 then Err CryptoFailure else Ok (take N block))))))"

section \<open>ring\<close>

definition ring_new :: "'x env \<Rightarrow> bytes \<Rightarrow> 'x result" where
  "ring_new E key =
    bind (ok_or (ring_unbound_key_new E key) CryptoFailure) (\<lambda>k. Ok (ring_less_safe_key_new E k))"

definition ring_seal ::
  "'x env \<Rightarrow> 'x \<Rightarrow> bytes \<Rightarrow> bytes \<Rightarrow> bytes \<Rightarrow> bytes \<Rightarrow> unit result \<times> bytes \<times> bytes" where
  "ring_seal E k nonce aad in_out tag =
    (case ring_seal_in_place_separate_tag E k nonce aad in_out of
       (out, None) \<Rightarrow> (Err CryptoFailure, out, tag)
     | (out, Some generated_tag) \<Rightarrow> try_in (copy_from_slice tag generated_tag) (out, tag) (\<lambda>t. (Ok (), out, t)))"

definition ring_seal_into ::
  "'x env \<Rightarrow> 'x \<Rightarrow> bytes \<Rightarrow> bytes \<Rightarrow> bytes \<Rightarrow> bytes \<Rightarrow> unit result \<times> bytes" where
  "ring_seal_into E k nonce aad plaintext output =
    (if length output < length plaintext then (Panic, output) else
     let tag_out = drop (length plaintext) output in
     (case ring_seal_in_place_separate_tag E k nonce aad plaintext of
        (out, None) \<Rightarrow> (Err CryptoFailure, out @ tag_out)
      | (out, Some generated_tag) \<Rightarrow>
          try_in (copy_from_slice tag_out generated_tag) (out @ tag_out) (\<lambda>t. (Ok (), out @ t))))"

definition ring_open ::
  "'x env \<Rightarrow> 'x \<Rightarrow> bytes \<Rightarrow> bytes \<Rightarrow> bytes \<Rightarrow> bytes \<Rightarrow> bytes \<Rightarrow> unit result \<times> bytes" where
  "ring_open E k nonce aad ciphertext tag output =
    try_in (copy_from_slice output ciphertext) output (\<lambda>in_out.
    (case ring_open_in_place_separate_tag E k nonce aad tag in_out 0 of
       (out, verified) \<Rightarrow> (if verified then Ok () else Err AuthenticationFailed, out)))"

definition ring_open_in_place ::
  "'x env \<Rightarrow> 'x \<Rightarrow> bytes \<Rightarrow> bytes \<Rightarrow> bytes \<Rightarrow> bytes \<Rightarrow> unit result \<times> bytes" where
  "ring_open_in_place E k nonce aad tag in_out =
    (case ring_open_in_place_separate_tag E k nonce aad tag in_out 0 of
       (out, verified) \<Rightarrow> (if verified then Ok () else Err AuthenticationFailed, out))"

definition ring_kdf_expand :: "'x env \<Rightarrow> nat \<Rightarrow> bytes \<Rightarrow> bytes list \<Rightarrow> bytes result" where
  "ring_kdf_expand E N key info =
    bind (validate_kdf_output_length N) (\<lambda>_.
    let prk = ring_prk_new_less_safe E key in
    bind (ok_or (ring_prk_expand E prk info N) CryptoFailure) (\<lambda>okm.
    ok_or (ring_okm_fill E okm N) CryptoFailure))"

section \<open>Provider dispatch\<close>

datatype 'x AeadKey = AwsLcRsKey 'x | BoringKey 'x | RingKey 'x | RustCryptoKey 'x

definition AeadKey_new :: "'x env \<Rightarrow> Provider \<Rightarrow> bytes \<Rightarrow> 'x AeadKey result" where
  "AeadKey_new E provider key =
    (case Provider_kind provider of
       AwsLcRs \<Rightarrow> map_ok AwsLcRsKey (aws_lc_rs_new E key)
     | Boring \<Rightarrow> map_ok BoringKey (boring_new E key)
     | Ring \<Rightarrow> map_ok RingKey (ring_new E key)
     | RustCrypto \<Rightarrow> map_ok RustCryptoKey (rustcrypto_new E key))"

fun AeadKey_seal ::
  "'x env \<Rightarrow> 'x AeadKey \<Rightarrow> bytes \<Rightarrow> bytes \<Rightarrow> bytes \<Rightarrow> bytes \<Rightarrow> unit result \<times> bytes \<times> bytes" where
  "AeadKey_seal E (AwsLcRsKey k) nonce aad in_out tag = aws_lc_rs_seal E k nonce aad in_out tag"
| "AeadKey_seal E (BoringKey k) nonce aad in_out tag = boring_seal E k nonce aad in_out tag"
| "AeadKey_seal E (RingKey k) nonce aad in_out tag = ring_seal E k nonce aad in_out tag"
| "AeadKey_seal E (RustCryptoKey k) nonce aad in_out tag = rustcrypto_seal E k nonce aad in_out tag"

definition AeadKey_seal_into ::
  "'x env \<Rightarrow> 'x AeadKey \<Rightarrow> bytes \<Rightarrow> bytes \<Rightarrow> bytes \<Rightarrow> bytes \<Rightarrow> unit result \<times> bytes" where
  "AeadKey_seal_into E key nonce aad plaintext output =
    try_in (ok_or (usize_checked_add (pointer_width E) (length plaintext) AEAD_TAG_LENGTH) LengthOverflow) output
      (\<lambda>expected.
        if length output \<noteq> expected then (Err CryptoFailure, output)
        else (case key of
            AwsLcRsKey k \<Rightarrow> aws_lc_rs_seal_into E k nonce aad plaintext output
          | BoringKey k \<Rightarrow> boring_seal_into E k nonce aad plaintext output
          | RingKey k \<Rightarrow> ring_seal_into E k nonce aad plaintext output
          | RustCryptoKey k \<Rightarrow> rustcrypto_seal_into E k nonce aad plaintext output))"

fun AeadKey_open ::
  "'x env \<Rightarrow> 'x AeadKey \<Rightarrow> bytes \<Rightarrow> bytes \<Rightarrow> bytes \<Rightarrow> bytes \<Rightarrow> bytes \<Rightarrow> unit result \<times> bytes" where
  "AeadKey_open E (AwsLcRsKey k) nonce aad ciphertext tag output = aws_lc_rs_open E k nonce aad ciphertext tag output"
| "AeadKey_open E (BoringKey k) nonce aad ciphertext tag output = boring_open E k nonce aad ciphertext tag output"
| "AeadKey_open E (RingKey k) nonce aad ciphertext tag output = ring_open E k nonce aad ciphertext tag output"
| "AeadKey_open E (RustCryptoKey k) nonce aad ciphertext tag output = rustcrypto_open E k nonce aad ciphertext tag output"

fun AeadKey_open_in_place ::
  "'x env \<Rightarrow> 'x AeadKey \<Rightarrow> bytes \<Rightarrow> bytes \<Rightarrow> bytes \<Rightarrow> bytes \<Rightarrow> unit result \<times> bytes" where
  "AeadKey_open_in_place E (AwsLcRsKey k) nonce aad tag in_out = aws_lc_rs_open_in_place E k nonce aad tag in_out"
| "AeadKey_open_in_place E (BoringKey k) nonce aad tag in_out = boring_open_in_place E k nonce aad tag in_out"
| "AeadKey_open_in_place E (RingKey k) nonce aad tag in_out = ring_open_in_place E k nonce aad tag in_out"
| "AeadKey_open_in_place E (RustCryptoKey k) nonce aad tag in_out = rustcrypto_open_in_place E k nonce aad tag in_out"

definition Provider_kdf_expand :: "'x env \<Rightarrow> Provider \<Rightarrow> nat \<Rightarrow> bytes \<Rightarrow> bytes list \<Rightarrow> bytes result" where
  "Provider_kdf_expand E provider N key info =
    (case Provider_kind provider of
       AwsLcRs \<Rightarrow> aws_lc_rs_kdf_expand E N key info
     | Boring \<Rightarrow> boring_kdf_expand E N key info
     | Ring \<Rightarrow> ring_kdf_expand E N key info
     | RustCrypto \<Rightarrow> rustcrypto_kdf_expand E N key info)"

section \<open>Random generators\<close>

text \<open>
  A generator holds the entropy source it draws from; the RustCrypto generator also
  holds its lazily seeded ChaCha12 state.
\<close>

datatype 'x ProviderRng =
    AwsLcRsRng 'x
  | BoringRng 'x
  | RingRng 'x
  | RustCryptoRng "'x option" 'x

definition ProviderRng_new :: "Provider \<Rightarrow> 'x \<Rightarrow> 'x ProviderRng" where
  "ProviderRng_new provider w =
    (case Provider_kind provider of
       AwsLcRs \<Rightarrow> AwsLcRsRng w
     | Boring \<Rightarrow> BoringRng w
     | Ring \<Rightarrow> RingRng w
     | RustCrypto \<Rightarrow> RustCryptoRng None w)"

definition rng_rustcrypto_fill ::
  "'x env \<Rightarrow> 'x option \<Rightarrow> 'x \<Rightarrow> bytes \<Rightarrow> unit result \<times> bytes \<times> 'x option \<times> 'x" where
  "rng_rustcrypto_fill E slot w output =
    (case slot of
       Some rng \<Rightarrow> (case chacha12_fill_bytes E rng output of (out, rng') \<Rightarrow> (Ok (), out, Some rng', w))
     | None \<Rightarrow>
        (case getrandom_fill E w (replicate 32 0) of
           (False, seed, w') \<Rightarrow> (Err RngFailure, output, None, w')
         | (True, seed, w') \<Rightarrow>
            (case chacha12_fill_bytes E (chacha12_from_seed E seed) output of
               (out, rng') \<Rightarrow> (Ok (), out, Some rng', w'))))"

definition rng_system_fill ::
  "('x \<Rightarrow> bytes \<Rightarrow> bool \<times> bytes \<times> 'x) \<Rightarrow> 'x \<Rightarrow> bytes \<Rightarrow> unit result \<times> bytes \<times> 'x" where
  "rng_system_fill source w output =
    (case source w output of (filled, out, w') \<Rightarrow> (if filled then Ok () else Err RngFailure, out, w'))"

fun ProviderRng_fill :: "'x env \<Rightarrow> 'x ProviderRng \<Rightarrow> bytes \<Rightarrow> unit result \<times> bytes \<times> 'x ProviderRng" where
  "ProviderRng_fill E (AwsLcRsRng w) output =
    (case rng_system_fill (aws_system_random_fill E) w output of (r, out, w') \<Rightarrow> (r, out, AwsLcRsRng w'))"
| "ProviderRng_fill E (BoringRng w) output =
    (case rng_system_fill (bo_rand_bytes E) w output of (r, out, w') \<Rightarrow> (r, out, BoringRng w'))"
| "ProviderRng_fill E (RingRng w) output =
    (case rng_system_fill (ring_system_random_fill E) w output of (r, out, w') \<Rightarrow> (r, out, RingRng w'))"
| "ProviderRng_fill E (RustCryptoRng slot w) output =
    (case rng_rustcrypto_fill E slot w output of (r, out, slot', w') \<Rightarrow> (r, out, RustCryptoRng slot' w'))"

fun ProviderRng_generate_key ::
  "'x env \<Rightarrow> 'x ProviderRng \<Rightarrow> bytes \<Rightarrow> unit result \<times> bytes \<times> 'x ProviderRng" where
  "ProviderRng_generate_key E (RustCryptoRng slot w) output =
    (case getrandom_fill E w output of
       (filled, out, w') \<Rightarrow> (if filled then Ok () else Err RngFailure, out, RustCryptoRng slot w'))"
| "ProviderRng_generate_key E rng output = ProviderRng_fill E rng output"

fun ProviderRng_name :: "'x ProviderRng \<Rightarrow> string" where
  "ProviderRng_name (AwsLcRsRng w) = ''aws-lc-rs''"
| "ProviderRng_name (BoringRng w) = ''boring''"
| "ProviderRng_name (RingRng w) = ''ring''"
| "ProviderRng_name (RustCryptoRng slot w) = ''chacha12''"

text \<open>Every provider constructs its one generator.\<close>

lemma ProviderRng_new_name:
  "ProviderRng_name (ProviderRng_new p w) = (if Provider_name p = ''rustcrypto'' then ''chacha12'' else Provider_name p)"
  by (auto simp: ProviderRng_new_def Provider_name_def split: ProviderKind.splits)

section \<open>What the third-party crates document\<close>

record prims =
  aes_gcm_seal :: "bytes \<Rightarrow> bytes \<Rightarrow> bytes \<Rightarrow> bytes \<Rightarrow> bytes \<times> bytes"
  aes_gcm_open :: "bytes \<Rightarrow> bytes \<Rightarrow> bytes \<Rightarrow> bytes \<Rightarrow> bytes \<Rightarrow> bytes option"
  hmac_sha384 :: "bytes \<Rightarrow> bytes \<Rightarrow> bytes"

text \<open>The largest AES-GCM message, \<open>2 ^ 36 - 32\<close> bytes.\<close>

definition AES_GCM_MAX :: nat where [floe_consts]: "AES_GCM_MAX = 68719476704"

text \<open>
  The standard functions: AES-256-GCM keeps the length and emits 16-byte tags, opening
  succeeds on exactly the outputs of sealing, and HMAC-SHA-384 emits 48 bytes.
\<close>

definition prims_ok :: "prims \<Rightarrow> bool" where
  "prims_ok S \<longleftrightarrow>
    (\<forall>k n a p. length (fst (aes_gcm_seal S k n a p)) = length p \<and> length (snd (aes_gcm_seal S k n a p)) = 16) \<and>
    (\<forall>k n a c t p. aes_gcm_open S k n a c t = Some p \<longleftrightarrow> aes_gcm_seal S k n a p = (c, t)) \<and>
    (\<forall>k m. length (hmac_sha384 S k m) = 48)"

definition seals :: "prims \<Rightarrow> bytes \<Rightarrow> (bytes \<Rightarrow> bytes \<Rightarrow> bytes \<Rightarrow> bytes \<times> bytes option) \<Rightarrow> bool" where
  "seals S k f \<longleftrightarrow> (\<forall>n a p. length n = 12 \<longrightarrow> length p \<le> AES_GCM_MAX \<longrightarrow>
     f n a p = (fst (aes_gcm_seal S k n a p), Some (snd (aes_gcm_seal S k n a p))))"

text \<open>
  What an open leaves behind: the plaintext on success; on failure a buffer of the same
  length, with contents the crates leave unspecified.
\<close>

definition opened :: "prims \<Rightarrow> bytes \<Rightarrow> bytes \<Rightarrow> bytes \<Rightarrow> bytes \<Rightarrow> bytes \<Rightarrow> bytes \<times> bool \<Rightarrow> bool" where
  "opened S k n a c t r \<longleftrightarrow>
     (case aes_gcm_open S k n a c t of
        Some p \<Rightarrow> r = (p, True)
      | None \<Rightarrow> \<not> snd r \<and> length (fst r) = length c)"

definition opens :: "prims \<Rightarrow> bytes \<Rightarrow> (bytes \<Rightarrow> bytes \<Rightarrow> bytes \<Rightarrow> bytes \<Rightarrow> bytes \<times> bool) \<Rightarrow> bool" where
  "opens S k f \<longleftrightarrow> (\<forall>n a t c. length n = 12 \<longrightarrow> length t = 16 \<longrightarrow> length c \<le> AES_GCM_MAX \<longrightarrow>
     opened S k n a c t (f n a t c))"

definition rustcrypto_ok :: "'x env \<Rightarrow> prims \<Rightarrow> bool" where
  "rustcrypto_ok E S \<longleftrightarrow>
    (\<forall>k. length k = 32 \<longrightarrow> (\<exists>h. rc_new_from_slice E k = Some h \<and>
       seals S k (rc_encrypt_inout_detached E h) \<and>
       opens S k (\<lambda>n a t c. rc_decrypt_inout_detached E h n a c t))) \<and>
    (\<forall>m n. rc_inout_buf_new E m n \<longleftrightarrow> m = n) \<and>
    (\<forall>k parts. \<exists>h. rc_hmac_new_from_slice E k = Some h \<and>
       rc_hmac_finalize E (foldl (rc_hmac_update E) h parts) = hmac_sha384 S k (concat parts))"

definition aws_lc_rs_ok :: "'x env \<Rightarrow> prims \<Rightarrow> bool" where
  "aws_lc_rs_ok E S \<longleftrightarrow>
    (\<forall>k. length k = 32 \<longrightarrow> (\<exists>u. aws_unbound_key_new E k = Some u \<and> (let h = aws_less_safe_key_new E u in
       seals S k (aws_seal_in_place_separate_tag E h) \<and>
       opens S k (aws_open_in_place_separate_tag E h) \<and>
       (\<forall>n a p out. length n = 12 \<longrightarrow> length p \<le> AES_GCM_MAX \<longrightarrow> length out = length p + 16 \<longrightarrow>
          aws_seal_in_place_scatter E h n a [] p out =
            ([], fst (aes_gcm_seal S k n a p) @ snd (aes_gcm_seal S k n a p), True)) \<and>
       (\<forall>n a t c out. length n = 12 \<longrightarrow> length t = 16 \<longrightarrow> length c \<le> AES_GCM_MAX \<longrightarrow> length out = length c \<longrightarrow>
          opened S k n a c t (aws_open_separate_gather E h n a c t out))))) \<and>
    (\<forall>k info N. N \<le> 48 \<longrightarrow> (\<exists>okm. aws_prk_expand E (aws_prk_new_less_safe E k) info N = Some okm \<and>
       aws_okm_fill E okm N = Some (take N (hmac_sha384 S k (concat info @ [1])))))"

definition boring_ok :: "'x env \<Rightarrow> prims \<Rightarrow> bool" where
  "boring_ok E S \<longleftrightarrow>
    (\<forall>k. length k = 32 \<longrightarrow> (\<exists>h. bo_aead_ctx_new E k 16 = Some h \<and>
       (\<forall>n a p tag. length n = 12 \<longrightarrow> length p \<le> AES_GCM_MAX \<longrightarrow> length tag = 16 \<longrightarrow>
          bo_seal_in_place E h n p tag a =
            (fst (aes_gcm_seal S k n a p), snd (aes_gcm_seal S k n a p), Some 16)) \<and>
       (\<forall>n a p out. length n = 12 \<longrightarrow> length p \<le> AES_GCM_MAX \<longrightarrow> length out = length p + 16 \<longrightarrow>
          bo_seal_scatter E h n [] out (Some p) a =
            ([], fst (aes_gcm_seal S k n a p) @ snd (aes_gcm_seal S k n a p), Some (length p + 16))) \<and>
       opens S k (\<lambda>n a t c. bo_open_in_place E h n c t a))) \<and>
    (\<forall>k parts. \<exists>h h'. bo_hmac_init E k = Some h \<and>
       foldl (\<lambda>m part. Option.bind m (\<lambda>h. bo_hmac_update E h part)) (Some h) parts = Some h' \<and>
       bo_hmac_finalize E h' = Some (hmac_sha384 S k (concat parts)))"

definition ring_ok :: "'x env \<Rightarrow> prims \<Rightarrow> bool" where
  "ring_ok E S \<longleftrightarrow>
    (\<forall>k. length k = 32 \<longrightarrow> (\<exists>u. ring_unbound_key_new E k = Some u \<and> (let h = ring_less_safe_key_new E u in
       seals S k (ring_seal_in_place_separate_tag E h) \<and>
       opens S k (\<lambda>n a t c. ring_open_in_place_separate_tag E h n a t c 0)))) \<and>
    (\<forall>k info N. N \<le> 48 \<longrightarrow> (\<exists>okm. ring_prk_expand E (ring_prk_new_less_safe E k) info N = Some okm \<and>
       ring_okm_fill E okm N = Some (take N (hmac_sha384 S k (concat info @ [1])))))"

text \<open>A fill cannot change the length of the slice it is given.\<close>

definition fills :: "('x \<Rightarrow> bytes \<Rightarrow> bool \<times> bytes \<times> 'x) \<Rightarrow> bool" where
  "fills f \<longleftrightarrow> (\<forall>w out. length (fst (snd (f w out))) = length out)"

definition rng_ok :: "'x env \<Rightarrow> bool" where
  "rng_ok E \<longleftrightarrow> fills (getrandom_fill E) \<and> fills (aws_system_random_fill E) \<and> fills (bo_rand_bytes E) \<and>
    fills (ring_system_random_fill E) \<and> (\<forall>g out. length (fst (chacha12_fill_bytes E g out)) = length out)"

text \<open>No entropy source of the environment fails.\<close>

definition entropy_available :: "'x env \<Rightarrow> bool" where
  "entropy_available E \<longleftrightarrow> (\<forall>w out. fst (getrandom_fill E w out) \<and> fst (aws_system_random_fill E w out) \<and>
    fst (bo_rand_bytes E w out) \<and> fst (ring_system_random_fill E w out))"

definition lawful :: "'x env \<Rightarrow> prims \<Rightarrow> bool" where
  "lawful E S \<longleftrightarrow> prims_ok S \<and> rustcrypto_ok E S \<and> aws_lc_rs_ok E S \<and> boring_ok E S \<and> ring_ok E S \<and> rng_ok E \<and>
    (\<forall>bs. zeroize E bs = replicate (length bs) 0) \<and> (\<forall>a b. ct_eq E a b \<longleftrightarrow> a = b)"

declare floe_consts [simp]

subsection \<open>Every wrapper computes the standard functions\<close>

lemma prims_okD:
  assumes "prims_ok S"
  shows "length (fst (aes_gcm_seal S k n a p)) = length p" "length (snd (aes_gcm_seal S k n a p)) = 16"
    "aes_gcm_open S k n a c t = Some p \<longleftrightarrow> aes_gcm_seal S k n a p = (c, t)"
    "length (hmac_sha384 S k m) = 48"
  using assms by (simp_all add: prims_ok_def)

lemma aes_gcm_open_length:
  "prims_ok S \<Longrightarrow> aes_gcm_open S k n a c t = Some p \<Longrightarrow> length p = length c"
  using prims_okD(1,3) by (metis fst_conv)

lemma copy_from_slice_same [simp]: "length dst = length src \<Longrightarrow> copy_from_slice dst src = Ok src"
  by (simp add: copy_from_slice_def)

lemma lawfulD:
  assumes "lawful E S"
  shows "prims_ok S" "rustcrypto_ok E S" "aws_lc_rs_ok E S" "boring_ok E S" "ring_ok E S" "rng_ok E"
    "zeroize E bs = replicate (length bs) 0" "ct_eq E a b \<longleftrightarrow> a = b"
  using assms by (simp_all add: lawful_def)

text \<open>The result of an open, at the level of the crate's own \<^verbatim>\<open>Result\<close>.\<close>

definition open_result :: "prims \<Rightarrow> bytes \<Rightarrow> bytes \<Rightarrow> bytes \<Rightarrow> bytes \<Rightarrow> bytes \<Rightarrow> unit result \<times> bytes \<Rightarrow> bool" where
  "open_result S k n a c t r \<longleftrightarrow>
     (case aes_gcm_open S k n a c t of
        Some p \<Rightarrow> r = (Ok (), p)
      | None \<Rightarrow> fst r = Err AuthenticationFailed \<and> length (snd r) = length c)"

lemma opened_result:
  "opened S k n a c t r \<Longrightarrow>
   open_result S k n a c t (case r of (out, verified) \<Rightarrow> (if verified then Ok () else Err AuthenticationFailed, out))"
  by (cases r) (auto simp: opened_def open_result_def split: option.splits)

definition key_spec :: "'x env \<Rightarrow> prims \<Rightarrow> bytes \<Rightarrow> 'x AeadKey \<Rightarrow> bool" where
  "key_spec E S k K \<longleftrightarrow>
    (\<forall>n a p tag. length n = 12 \<longrightarrow> length p \<le> AES_GCM_MAX \<longrightarrow> length tag = 16 \<longrightarrow>
       AeadKey_seal E K n a p tag = (Ok (), fst (aes_gcm_seal S k n a p), snd (aes_gcm_seal S k n a p))) \<and>
    (\<forall>n a p out. length n = 12 \<longrightarrow> length p \<le> AES_GCM_MAX \<longrightarrow> length out = length p + 16 \<longrightarrow>
       length p + 16 \<le> usize_max (pointer_width E) \<longrightarrow>
       AeadKey_seal_into E K n a p out = (Ok (), fst (aes_gcm_seal S k n a p) @ snd (aes_gcm_seal S k n a p))) \<and>
    (\<forall>n a c t out. length n = 12 \<longrightarrow> length t = 16 \<longrightarrow> length c \<le> AES_GCM_MAX \<longrightarrow> length out = length c \<longrightarrow>
       open_result S k n a c t (AeadKey_open E K n a c t out)) \<and>
    (\<forall>n a c t. length n = 12 \<longrightarrow> length t = 16 \<longrightarrow> length c \<le> AES_GCM_MAX \<longrightarrow>
       open_result S k n a c t (AeadKey_open_in_place E K n a t c))"

lemma rustcrypto_key_spec:
  assumes "rustcrypto_ok E S" "prims_ok S" "length k = 32"
  shows "\<exists>h. rustcrypto_new E k = Ok h \<and> key_spec E S k (RustCryptoKey h)"
proof -
  from assms obtain h where h: "rc_new_from_slice E k = Some h"
      "seals S k (rc_encrypt_inout_detached E h)" "opens S k (\<lambda>n a t c. rc_decrypt_inout_detached E h n a c t)"
    by (auto simp: rustcrypto_ok_def)
  moreover have "rc_inout_buf_new E n n" for n using assms(1) by (simp add: rustcrypto_ok_def)
  ultimately have "key_spec E S k (RustCryptoKey h)"
    using assms(2)
    by (auto simp: key_spec_def seals_def opens_def rustcrypto_seal_def AeadKey_seal_into_def usize_checked_add_def
        rustcrypto_seal_into_def rustcrypto_open_def rustcrypto_open_in_place_def prims_okD intro!: opened_result)
  with h show ?thesis by (simp add: rustcrypto_new_def)
qed

lemma aws_lc_rs_key_spec:
  assumes "aws_lc_rs_ok E S" "prims_ok S" "length k = 32"
  shows "\<exists>h. aws_lc_rs_new E k = Ok h \<and> key_spec E S k (AwsLcRsKey h)"
proof -
  from assms obtain u where h: "aws_unbound_key_new E k = Some u"
      "seals S k (aws_seal_in_place_separate_tag E (aws_less_safe_key_new E u))"
      "opens S k (aws_open_in_place_separate_tag E (aws_less_safe_key_new E u))"
      "\<And>n a p out. length n = 12 \<Longrightarrow> length p \<le> AES_GCM_MAX \<Longrightarrow> length out = length p + 16 \<Longrightarrow>
          aws_seal_in_place_scatter E (aws_less_safe_key_new E u) n a [] p out =
            ([], fst (aes_gcm_seal S k n a p) @ snd (aes_gcm_seal S k n a p), True)"
      "\<And>n a t c out. length n = 12 \<Longrightarrow> length t = 16 \<Longrightarrow> length c \<le> AES_GCM_MAX \<Longrightarrow> length out = length c \<Longrightarrow>
          opened S k n a c t (aws_open_separate_gather E (aws_less_safe_key_new E u) n a c t out)"
    unfolding aws_lc_rs_ok_def Let_def by blast
  then have "key_spec E S k (AwsLcRsKey (aws_less_safe_key_new E u))"
    using assms(2)
    by (auto simp: key_spec_def seals_def opens_def aws_lc_rs_seal_def AeadKey_seal_into_def usize_checked_add_def
        aws_lc_rs_seal_into_def aws_lc_rs_open_def aws_lc_rs_open_in_place_def prims_okD intro!: opened_result)
  with h show ?thesis by (simp add: aws_lc_rs_new_def)
qed

lemma boring_key_spec:
  assumes "boring_ok E S" "prims_ok S" "length k = 32"
  shows "\<exists>h. boring_new E k = Ok h \<and> key_spec E S k (BoringKey h)"
proof -
  from assms obtain h where h: "bo_aead_ctx_new E k 16 = Some h"
      "\<And>n a p tag. length n = 12 \<Longrightarrow> length p \<le> AES_GCM_MAX \<Longrightarrow> length tag = 16 \<Longrightarrow>
          bo_seal_in_place E h n p tag a =
            (fst (aes_gcm_seal S k n a p), snd (aes_gcm_seal S k n a p), Some 16)"
      "\<And>n a p out. length n = 12 \<Longrightarrow> length p \<le> AES_GCM_MAX \<Longrightarrow> length out = length p + 16 \<Longrightarrow>
          bo_seal_scatter E h n [] out (Some p) a =
            ([], fst (aes_gcm_seal S k n a p) @ snd (aes_gcm_seal S k n a p), Some (length p + 16))"
      "opens S k (\<lambda>n a t c. bo_open_in_place E h n c t a)"
    unfolding boring_ok_def by blast
  then have "key_spec E S k (BoringKey h)"
    using assms(2)
    by (auto simp: key_spec_def opens_def boring_seal_def AeadKey_seal_into_def usize_checked_add_def
        boring_seal_into_def boring_open_def boring_open_in_place_def prims_okD intro!: opened_result)
  with h show ?thesis by (simp add: boring_new_def)
qed

lemma ring_key_spec:
  assumes "ring_ok E S" "prims_ok S" "length k = 32"
  shows "\<exists>h. ring_new E k = Ok h \<and> key_spec E S k (RingKey h)"
proof -
  from assms obtain u where h: "ring_unbound_key_new E k = Some u"
      "seals S k (ring_seal_in_place_separate_tag E (ring_less_safe_key_new E u))"
      "opens S k (\<lambda>n a t c. ring_open_in_place_separate_tag E (ring_less_safe_key_new E u) n a t c 0)"
    unfolding ring_ok_def Let_def by blast
  then have "key_spec E S k (RingKey (ring_less_safe_key_new E u))"
    using assms(2)
    by (auto simp: key_spec_def seals_def opens_def ring_seal_def AeadKey_seal_into_def usize_checked_add_def
        ring_seal_into_def ring_open_def ring_open_in_place_def prims_okD intro!: opened_result)
  with h show ?thesis by (simp add: ring_new_def)
qed

lemma AeadKey_new_spec:
  assumes "lawful E S" "length k = 32"
  shows "\<exists>K. AeadKey_new E p k = Ok K \<and> key_spec E S k K"
  using rustcrypto_key_spec [OF lawfulD(2,1) [OF assms(1)] assms(2)]
    aws_lc_rs_key_spec [OF lawfulD(3,1) [OF assms(1)] assms(2)]
    boring_key_spec [OF lawfulD(4,1) [OF assms(1)] assms(2)]
    ring_key_spec [OF lawfulD(5,1) [OF assms(1)] assms(2)]
  by (cases "Provider_kind p") (auto simp: AeadKey_new_def)

lemma hmac_updates_foldl:
  "foldl (\<lambda>m part. Option.bind m (\<lambda>h. bo_hmac_update E h part)) (Some h) parts = Some h' \<Longrightarrow>
   boring_hmac_updates E h parts = Ok h'"
proof (induction parts arbitrary: h)
  case (Cons part parts)
  have none: "foldl (\<lambda>m part. Option.bind m (\<lambda>h. bo_hmac_update E h part)) None ps = None" for ps
    by (induction ps) auto
  with Cons obtain h1 where "bo_hmac_update E h part = Some h1"
    by (cases "bo_hmac_update E h part") auto
  with Cons show ?case by simp
qed simp

lemma boring_hmac_updates_append:
  "boring_hmac_updates E h (xs @ ys) = bind (boring_hmac_updates E h xs) (\<lambda>h'. boring_hmac_updates E h' ys)"
proof (induction xs arbitrary: h)
  case (Cons x xs)
  then show ?case by (cases "bo_hmac_update E h x") auto
qed simp

lemma rustcrypto_kdf_spec:
  assumes "rustcrypto_ok E S" "N \<le> 48"
  shows "rustcrypto_kdf_expand E N key info = Ok (take N (hmac_sha384 S key (concat info @ [1])))"
proof -
  from assms(1) obtain h where "rc_hmac_new_from_slice E key = Some h"
      "rc_hmac_finalize E (foldl (rc_hmac_update E) h (info @ [[1]])) = hmac_sha384 S key (concat (info @ [[1]]))"
    unfolding rustcrypto_ok_def by blast
  with assms(2) show ?thesis by (simp add: rustcrypto_kdf_expand_def validate_kdf_output_length_def)
qed

lemma boring_kdf_spec:
  assumes "boring_ok E S" "prims_ok S" "N \<le> 48"
  shows "boring_kdf_expand E N key info = Ok (take N (hmac_sha384 S key (concat info @ [1])))"
proof -
  from assms(1) obtain h h' where h: "bo_hmac_init E key = Some h"
      "foldl (\<lambda>m part. Option.bind m (\<lambda>h. bo_hmac_update E h part)) (Some h) (info @ [[1]]) = Some h'"
      "bo_hmac_finalize E h' = Some (hmac_sha384 S key (concat (info @ [[1]])))"
    unfolding boring_ok_def by blast
  from hmac_updates_foldl [OF h(2)] obtain h1 where
    "boring_hmac_updates E h info = Ok h1" "bo_hmac_update E h1 [1] = Some h'"
    by (auto simp: boring_hmac_updates_append)
  with h assms(2,3) show ?thesis
    by (simp add: boring_kdf_expand_def validate_kdf_output_length_def prims_okD)
qed

lemma Provider_kdf_expand_spec:
  assumes "lawful E S" "N \<le> 48"
  shows "Provider_kdf_expand E p N key info = Ok (take N (hmac_sha384 S key (concat info @ [1])))"
proof -
  have "aws_lc_rs_kdf_expand E N key info = Ok (take N (hmac_sha384 S key (concat info @ [1])))"
  proof -
    from lawfulD(3) [OF assms(1)] assms(2) obtain okm where
      "aws_prk_expand E (aws_prk_new_less_safe E key) info N = Some okm"
      "aws_okm_fill E okm N = Some (take N (hmac_sha384 S key (concat info @ [1])))"
      unfolding aws_lc_rs_ok_def by blast
    with assms(2) show ?thesis by (simp add: aws_lc_rs_kdf_expand_def validate_kdf_output_length_def)
  qed
  moreover have "ring_kdf_expand E N key info = Ok (take N (hmac_sha384 S key (concat info @ [1])))"
  proof -
    from lawfulD(5) [OF assms(1)] assms(2) obtain okm where
      "ring_prk_expand E (ring_prk_new_less_safe E key) info N = Some okm"
      "ring_okm_fill E okm N = Some (take N (hmac_sha384 S key (concat info @ [1])))"
      unfolding ring_ok_def by blast
    with assms(2) show ?thesis by (simp add: ring_kdf_expand_def validate_kdf_output_length_def)
  qed
  ultimately show ?thesis
    using rustcrypto_kdf_spec [OF lawfulD(2) [OF assms(1)] assms(2)]
      boring_kdf_spec [OF lawfulD(4,1) [OF assms(1)] assms(2)]
    by (cases "Provider_kind p") (simp_all add: Provider_kdf_expand_def)
qed

lemma ProviderRng_fill_total:
  assumes "rng_ok E"
  shows "length (fst (snd (ProviderRng_fill E g out))) = length out"
    and "fst (ProviderRng_fill E g out) = Ok () \<or> fst (ProviderRng_fill E g out) = Err RngFailure"
  using assms
  by (cases g; auto simp: rng_ok_def fills_def rng_system_fill_def rng_rustcrypto_fill_def
      split: prod.splits option.splits bool.splits; metis fst_conv snd_conv)+

lemma ProviderRng_fill_available:
  assumes "entropy_available E"
  shows "fst (ProviderRng_fill E g out) = Ok ()"
proof -
  have src: "fst (getrandom_fill E w b)" "fst (aws_system_random_fill E w b)" "fst (bo_rand_bytes E w b)"
      "fst (ring_system_random_fill E w b)" for w b
    using assms by (simp_all add: entropy_available_def)
  show ?thesis
  proof (cases g)
    case (RustCryptoRng slot w)
    then show ?thesis using src(1) [of w "replicate 32 0"]
      by (cases slot) (auto simp: rng_rustcrypto_fill_def split: prod.split bool.split)
  qed (use src in \<open>auto simp: rng_system_fill_def split: prod.split, (metis fst_conv)+\<close>)
qed

section \<open>The contract the segment code relies on\<close>

locale aead_backend =
  fixes ok :: "'e \<Rightarrow> prims \<Rightarrow> bool"
    and key_new :: "'e \<Rightarrow> 'p \<Rightarrow> bytes \<Rightarrow> 'k result"
    and seal :: "'e \<Rightarrow> 'k \<Rightarrow> bytes \<Rightarrow> bytes \<Rightarrow> bytes \<Rightarrow> bytes \<Rightarrow> unit result \<times> bytes \<times> bytes"
    and seal_into :: "'e \<Rightarrow> 'k \<Rightarrow> bytes \<Rightarrow> bytes \<Rightarrow> bytes \<Rightarrow> bytes \<Rightarrow> unit result \<times> bytes"
    and open_copy :: "'e \<Rightarrow> 'k \<Rightarrow> bytes \<Rightarrow> bytes \<Rightarrow> bytes \<Rightarrow> bytes \<Rightarrow> bytes \<Rightarrow> unit result \<times> bytes"
    and open_in_place :: "'e \<Rightarrow> 'k \<Rightarrow> bytes \<Rightarrow> bytes \<Rightarrow> bytes \<Rightarrow> bytes \<Rightarrow> unit result \<times> bytes"
    and address_space :: "'e \<Rightarrow> nat"
  assumes prims_laws: "ok E S \<Longrightarrow> prims_ok S"
    and key_new_total: "ok E S \<Longrightarrow> length k = 32 \<Longrightarrow> \<exists>K. key_new E p k = Ok K"
    and seal_law: "ok E S \<Longrightarrow> length k = 32 \<Longrightarrow> key_new E p k = Ok K \<Longrightarrow> length n = 12 \<Longrightarrow>
      length m \<le> AES_GCM_MAX \<Longrightarrow> length tag = 16 \<Longrightarrow>
      seal E K n a m tag = (Ok (), fst (aes_gcm_seal S k n a m), snd (aes_gcm_seal S k n a m))"
    and seal_into_law: "ok E S \<Longrightarrow> length k = 32 \<Longrightarrow> key_new E p k = Ok K \<Longrightarrow> length n = 12 \<Longrightarrow>
      length m \<le> AES_GCM_MAX \<Longrightarrow> length out = length m + 16 \<Longrightarrow> length m + 16 \<le> address_space E \<Longrightarrow>
      seal_into E K n a m out = (Ok (), fst (aes_gcm_seal S k n a m) @ snd (aes_gcm_seal S k n a m))"
    and open_law: "ok E S \<Longrightarrow> length k = 32 \<Longrightarrow> key_new E p k = Ok K \<Longrightarrow> length n = 12 \<Longrightarrow>
      length t = 16 \<Longrightarrow> length c \<le> AES_GCM_MAX \<Longrightarrow> length out = length c \<Longrightarrow>
      open_result S k n a c t (open_copy E K n a c t out)"
    and open_in_place_law: "ok E S \<Longrightarrow> length k = 32 \<Longrightarrow> key_new E p k = Ok K \<Longrightarrow> length n = 12 \<Longrightarrow>
      length t = 16 \<Longrightarrow> length c \<le> AES_GCM_MAX \<Longrightarrow>
      open_result S k n a c t (open_in_place E K n a t c)"
begin

text \<open>Sealing into a separate output and sealing in place write the same bytes.\<close>

lemma seal_into_agrees:
  assumes "ok E S" "length k = 32" "key_new E p k = Ok K" "length n = 12" "length m \<le> AES_GCM_MAX"
    and "length out = length m + 16" "length m + 16 \<le> address_space E" "length tag = 16"
  shows "\<exists>c t. seal E K n a m tag = (Ok (), c, t) \<and> seal_into E K n a m out = (Ok (), c @ t)"
  using assms seal_law [OF assms(1-5)] seal_into_law [OF assms(1-7)] by metis

text \<open>What one provider seals, another opens, copying or in place.\<close>

lemma open_sealed:
  assumes "ok E S" "length k = 32" "key_new E p k = Ok K" "key_new E q k = Ok L" "length n = 12"
    and "length m \<le> AES_GCM_MAX" "length tag = 16" "length out = length m"
  shows "\<exists>c t. seal E K n a m tag = (Ok (), c, t) \<and> open_copy E L n a c t out = (Ok (), m) \<and>
    open_in_place E L n a t c = (Ok (), m)"
proof -
  obtain c t where ct: "aes_gcm_seal S k n a m = (c, t)" by (cases "aes_gcm_seal S k n a m")
  with prims_okD [OF prims_laws [OF assms(1)]] have "length c = length m" "length t = 16"
      "aes_gcm_open S k n a c t = Some m"
    by (metis fst_conv, metis snd_conv, simp)
  then show ?thesis
    using seal_law [OF assms(1-3,5-7), of a] open_law [OF assms(1,2,4,5), of t c out a]
      open_in_place_law [OF assms(1,2,4,5), of t c a] assms(6,8) ct
    by (simp add: open_result_def)
qed

text \<open>An open accepts exactly what sealing under the same key, nonce and data produces.\<close>

lemma open_accepts_iff:
  assumes "ok E S" "length k = 32" "key_new E p k = Ok K" "length n = 12"
    and "length t = 16" "length c \<le> AES_GCM_MAX" "length out = length c"
  shows "open_copy E K n a c t out = (Ok (), m) \<longleftrightarrow> aes_gcm_seal S k n a m = (c, t)"
  using open_law [OF assms, of a] prims_okD(3) [OF prims_laws [OF assms(1)], of k n a c t m]
  by (cases "aes_gcm_open S k n a c t") (auto simp: open_result_def)

end

lemma AeadKey_new_key_spec:
  "lawful E S \<Longrightarrow> length k = 32 \<Longrightarrow> AeadKey_new E p k = Ok K \<Longrightarrow> key_spec E S k K"
  using AeadKey_new_spec [of E S k p] by auto

interpretation aead: aead_backend lawful AeadKey_new AeadKey_seal AeadKey_seal_into AeadKey_open
  AeadKey_open_in_place "\<lambda>E. usize_max (pointer_width E)"
proof (unfold_locales, goal_cases)
  case (1 E S) then show ?case by (rule lawfulD(1))
next
  case (2 E S k p) then show ?case using AeadKey_new_spec by blast
next
  case (3 E S k p K n m tag a) then show ?case using AeadKey_new_key_spec [of E S k p K] by (simp add: key_spec_def)
next
  case (4 E S k p K n m out a) then show ?case using AeadKey_new_key_spec [of E S k p K] by (simp add: key_spec_def)
next
  case (5 E S k p K n t c out a) then show ?case using AeadKey_new_key_spec [of E S k p K] by (simp add: key_spec_def)
next
  case (6 E S k p K n t c a) then show ?case using AeadKey_new_key_spec [of E S k p K] by (simp add: key_spec_def)
qed

section \<open>A concrete environment\<close>

text \<open>
  The laws are satisfiable: \<open>toy_env\<close> computes every third-party function from a small
  executable cipher and MAC, so that properties with a law as hypothesis can be applied to
  concrete inputs. It has no cryptographic strength and no code depends on it.
\<close>

definition toy_sum :: "bytes \<Rightarrow> u8" where
  "toy_sum bs = foldl (\<lambda>h b. 31 * h + b) 7 bs"

definition toy_tag :: "bytes \<Rightarrow> bytes \<Rightarrow> bytes \<Rightarrow> bytes \<Rightarrow> bytes" where
  "toy_tag k n a p = replicate 16 (toy_sum (k @ n @ a @ p))"

definition toy_prims :: prims where
  "toy_prims = \<lparr>
    aes_gcm_seal = (\<lambda>k n a p. (map (\<lambda>b. b XOR toy_sum (k @ n)) p, toy_tag k n a p)),
    aes_gcm_open = (\<lambda>k n a c t. let p = map (\<lambda>b. b XOR toy_sum (k @ n)) c in
       if t = toy_tag k n a p then Some p else None),
    hmac_sha384 = (\<lambda>k m. replicate 48 (toy_sum (k @ m))) \<rparr>"

type_synonym toy = "bytes \<times> bytes"

definition toy_open :: "toy \<Rightarrow> bytes \<Rightarrow> bytes \<Rightarrow> bytes \<Rightarrow> bytes \<Rightarrow> bytes \<times> bool" where
  "toy_open h n a c t = (case aes_gcm_open toy_prims (fst h) n a c t of Some p \<Rightarrow> (p, True) | None \<Rightarrow> (c, False))"

definition toy_seal :: "toy \<Rightarrow> bytes \<Rightarrow> bytes \<Rightarrow> bytes \<Rightarrow> bytes \<times> bytes option" where
  "toy_seal h n a p = (case aes_gcm_seal toy_prims (fst h) n a p of (c, t) \<Rightarrow> (c, Some t))"

definition toy_seal_joined :: "toy \<Rightarrow> bytes \<Rightarrow> bytes \<Rightarrow> bytes \<Rightarrow> bytes" where
  "toy_seal_joined h n a p = (case aes_gcm_seal toy_prims (fst h) n a p of (c, t) \<Rightarrow> c @ t)"

definition toy_hmac :: "toy \<Rightarrow> bytes" where
  "toy_hmac h = hmac_sha384 toy_prims (fst h) (snd h)"

definition toy_fill :: "toy \<Rightarrow> bytes \<Rightarrow> bool \<times> bytes \<times> toy" where
  "toy_fill w out = (True, replicate (length out) (of_nat (length (fst w))), (0 # fst w, snd w))"

definition toy_env :: "toy env" where
  "toy_env = \<lparr>
    feature_aws_lc_rs = True, feature_boring = True, feature_ring = True, feature_rustcrypto = True,
    pointer_width = Pointer64,
    zeroize = (\<lambda>bs. replicate (length bs) 0), ct_eq = (=),
    rc_new_from_slice = (\<lambda>k. if length k = 32 then Some (k, []) else None),
    rc_inout_buf_new = (=),
    rc_encrypt_inout_detached = toy_seal,
    rc_decrypt_inout_detached = toy_open,
    rc_hmac_new_from_slice = (\<lambda>k. Some (k, [])),
    rc_hmac_update = (\<lambda>h part. (fst h, snd h @ part)),
    rc_hmac_finalize = toy_hmac,
    aws_unbound_key_new = (\<lambda>k. if length k = 32 then Some (k, []) else None),
    aws_less_safe_key_new = (\<lambda>u. u),
    aws_seal_in_place_separate_tag = toy_seal,
    aws_seal_in_place_scatter = (\<lambda>h n a in_out p out. (in_out, toy_seal_joined h n a p, True)),
    aws_open_separate_gather = (\<lambda>h n a c t out. toy_open h n a c t),
    aws_open_in_place_separate_tag = (\<lambda>h n a t c. toy_open h n a c t),
    aws_prk_new_less_safe = (\<lambda>k. (k, [])),
    aws_prk_expand = (\<lambda>h info N. Some (fst h, concat info @ [1])),
    aws_okm_fill = (\<lambda>h N. Some (take N (toy_hmac h))),
    bo_aead_ctx_new = (\<lambda>k taglen. if length k = 32 then Some (k, []) else None),
    bo_seal_in_place = (\<lambda>h n p tag a. case aes_gcm_seal toy_prims (fst h) n a p of (c, t) \<Rightarrow> (c, t, Some 16)),
    bo_seal_scatter = (\<lambda>h n in_out out p a. (in_out, toy_seal_joined h n a (the p), Some (length (the p) + 16))),
    bo_open_in_place = (\<lambda>h n c t a. toy_open h n a c t),
    bo_hmac_init = (\<lambda>k. Some (k, [])),
    bo_hmac_update = (\<lambda>h part. Some (fst h, snd h @ part)),
    bo_hmac_finalize = (\<lambda>h. Some (toy_hmac h)),
    ring_unbound_key_new = (\<lambda>k. if length k = 32 then Some (k, []) else None),
    ring_less_safe_key_new = (\<lambda>u. u),
    ring_seal_in_place_separate_tag = toy_seal,
    ring_open_in_place_separate_tag = (\<lambda>h n a t c offset. toy_open h n a c t),
    ring_prk_new_less_safe = (\<lambda>k. (k, [])),
    ring_prk_expand = (\<lambda>h info N. Some (fst h, concat info @ [1])),
    ring_okm_fill = (\<lambda>h N. Some (take N (toy_hmac h))),
    getrandom_fill = toy_fill,
    chacha12_from_seed = (\<lambda>seed. (seed, [])),
    chacha12_fill_bytes = (\<lambda>g out. (replicate (length out) (of_nat (length (fst g))), (0 # fst g, snd g))),
    aws_system_random_fill = toy_fill,
    bo_rand_bytes = toy_fill,
    ring_system_random_fill = toy_fill \<rparr>"

lemma toy_prims_ok: "prims_ok toy_prims"
proof -
  have "map (\<lambda>b. b XOR x) (map (\<lambda>b. b XOR x) p) = p" for x :: u8 and p
    by (simp add: comp_def xor.assoc)
  then have "(map (\<lambda>b. b XOR x) c = p) \<longleftrightarrow> map (\<lambda>b. b XOR x) p = c" for x :: u8 and p c
    by metis
  then show ?thesis by (auto simp: prims_ok_def toy_prims_def toy_tag_def Let_def)
qed

lemma toy_entropy: "entropy_available toy_env"
  by (simp add: entropy_available_def toy_env_def toy_fill_def)

lemma toy_foldl_update: "foldl (\<lambda>h part. (fst h, snd h @ part)) (k, m) parts = (k, m @ concat parts)"
  by (induction parts arbitrary: m) auto

lemma toy_foldl_update_opt:
  "foldl (\<lambda>m part. Option.bind m (\<lambda>h. Some (fst h, snd h @ part))) (Some (k, m)) parts = Some (k, m @ concat parts)"
  by (induction parts arbitrary: m) auto

lemma toy_opened: "opened toy_prims (fst h) n a c t (toy_open h n a c t)"
  by (simp add: opened_def toy_open_def split: option.split)

lemma toy_seals: "seals toy_prims (fst h) (toy_seal h)"
  by (simp add: seals_def toy_seal_def split: prod.split)

lemma toy_lawful: "lawful toy_env toy_prims"
proof -
  note o = toy_opened [of "(k, [])" for k, simplified] and s = toy_seals [of "(k, [])" for k, simplified]
  have "rustcrypto_ok toy_env toy_prims"
    using o s by (simp add: rustcrypto_ok_def toy_env_def opens_def toy_foldl_update toy_hmac_def)
  moreover have "aws_lc_rs_ok toy_env toy_prims"
    using o s by (simp add: aws_lc_rs_ok_def toy_env_def opens_def toy_hmac_def toy_seal_joined_def split: prod.split)
  moreover have "boring_ok toy_env toy_prims"
    using o by (simp add: boring_ok_def toy_env_def opens_def toy_foldl_update_opt toy_hmac_def toy_seal_joined_def
        split: prod.split)
  moreover have "ring_ok toy_env toy_prims"
    using o s by (simp add: ring_ok_def toy_env_def opens_def toy_hmac_def)
  moreover have "rng_ok toy_env" by (simp add: rng_ok_def fills_def toy_env_def toy_fill_def)
  ultimately show ?thesis using toy_prims_ok by (simp add: lawful_def toy_env_def)
qed

section \<open>Properties\<close>

text \<open>
  C37: All providers are interchangeable: under the same 32-byte key any two of them construct
  a key, seal a message to the same ciphertext and tag (in place or into a separate output),
  and each opens what the other sealed.
\<close>

theorem providers_interchangeable:
  assumes "lawful E S" "length k = 32" "length n = 12" "length m \<le> AES_GCM_MAX"
    and "length m + 16 \<le> usize_max (pointer_width E)"
  shows "\<exists>K L c t. AeadKey_new E p k = Ok K \<and> AeadKey_new E q k = Ok L \<and>
    AeadKey_seal E K n a m (replicate 16 0) = (Ok (), c, t) \<and>
    AeadKey_seal E L n a m (replicate 16 0) = (Ok (), c, t) \<and>
    AeadKey_seal_into E K n a m (replicate (length m + 16) 0) = (Ok (), c @ t) \<and>
    AeadKey_open E L n a c t (replicate (length m) 0) = (Ok (), m) \<and>
    AeadKey_open_in_place E L n a t c = (Ok (), m)"
proof -
  obtain K L where K: "AeadKey_new E p k = Ok K" "AeadKey_new E q k = Ok L"
    using aead.key_new_total [OF assms(1,2)] by metis
  have len: "length (replicate 16 (0 :: u8)) = 16" "length (replicate (length m + 16) (0 :: u8)) = length m + 16"
      "length (replicate (length m) (0 :: u8)) = length m" by simp_all
  show ?thesis
    using K aead.seal_law [OF assms(1,2) K(1) assms(3,4) len(1)] aead.seal_law [OF assms(1,2) K(2) assms(3,4) len(1)]
      aead.seal_into_agrees [OF assms(1,2) K(1) assms(3,4) len(2) assms(5) len(1), of a]
      aead.open_sealed [OF assms(1,2) K(1,2) assms(3,4) len(1,3), of a] by auto
qed

theorem providers_interchangeable_witness:
  "\<exists>K L c t. AeadKey_new toy_env Provider_RING (replicate 32 7) = Ok K \<and>
    AeadKey_new toy_env Provider_AWS_LC_RS (replicate 32 7) = Ok L \<and>
    AeadKey_seal toy_env K (replicate 12 1) [2] [3, 4] (replicate 16 0) = (Ok (), c, t) \<and>
    AeadKey_seal toy_env L (replicate 12 1) [2] [3, 4] (replicate 16 0) = (Ok (), c, t) \<and>
    AeadKey_seal_into toy_env K (replicate 12 1) [2] [3, 4] (replicate (length [3, 4 :: u8] + 16) 0) = (Ok (), c @ t) \<and>
    AeadKey_open toy_env L (replicate 12 1) [2] c t (replicate (length [3, 4 :: u8]) 0) = (Ok (), [3, 4]) \<and>
    AeadKey_open_in_place toy_env L (replicate 12 1) [2] t c = (Ok (), [3, 4])"
  by (rule providers_interchangeable [OF toy_lawful])
    (use usize_max_ge [of "pointer_width toy_env"] in simp_all)

text \<open>
  Key derivation is one HKDF-Expand block on every provider: for any requested length up to
  48 it returns the leading bytes of the HMAC over the concatenated inputs and a one byte, and
  for longer requests it fails.
\<close>

theorem kdf_expand_exact:
  assumes "lawful E S"
  shows "Provider_kdf_expand E p N key info =
    (if N \<le> 48 then Ok (take N (hmac_sha384 S key (concat info @ [1]))) else Err CryptoFailure)"
proof (cases "N \<le> 48")
  case False
  then have "validate_kdf_output_length N = Err CryptoFailure" by (simp add: validate_kdf_output_length_def)
  then show ?thesis using False
    by (cases "Provider_kind p") (simp_all add: Provider_kdf_expand_def aws_lc_rs_kdf_expand_def boring_kdf_expand_def
        ring_kdf_expand_def rustcrypto_kdf_expand_def)
qed (simp add: Provider_kdf_expand_spec [OF assms])

theorem kdf_expand_exact_witness:
  "Provider_kdf_expand toy_env Provider_BORING 49 [1] [[2], [3]] = Err CryptoFailure \<and>
   Provider_kdf_expand toy_env Provider_BORING 32 [1] [[2], [3]] = Ok (take 32 (hmac_sha384 toy_prims [1] [2, 3, 1]))"
  using kdf_expand_exact [OF toy_lawful, of Provider_BORING 49 "[1]" "[[2], [3]]"]
    kdf_expand_exact [OF toy_lawful, of Provider_BORING 32 "[1]" "[[2], [3]]"] by simp

end
