(* ===== verification/Floe_Key.thy ===== *)
theory Floe_Key
  imports Floe_Backends
begin

text \<open>
  The key type of \<^verbatim>\<open>src/src/key.rs\<close>: 32 bytes with an optional explicit provider. The
  provider is resolved when it is first asked for, against the features of the build.
  Key generation draws from the entropy source given as an argument.
\<close>

record Key =
  key_bytes :: bytes
  key_provider :: "Provider option"

definition Key_LEN :: nat where [floe_consts]: "Key_LEN = 32"

definition Key_generate_with_provider :: "'x env \<Rightarrow> Provider \<Rightarrow> 'x \<Rightarrow> Key result" where
  "Key_generate_with_provider E provider w =
    (let rng = ProviderRng_new provider w; key = replicate Key_LEN 0 in
     case ProviderRng_generate_key E rng key of (r, filled, _) \<Rightarrow>
       bind r (\<lambda>_. Ok \<lparr> key_bytes = filled, key_provider = Some provider \<rparr>))"

definition Key_generate :: "'x env \<Rightarrow> 'x \<Rightarrow> Key result" where
  "Key_generate E w =
    bind (ok_or (Provider_build_default E) ProviderSelectionRequired) (\<lambda>provider.
    Key_generate_with_provider E provider w)"

definition Key_from_bytes :: "bytes \<Rightarrow> Key" where
  "Key_from_bytes bs = \<lparr> key_bytes = bs, key_provider = None \<rparr>"

definition Key_from_bytes_with_provider :: "bytes \<Rightarrow> Provider \<Rightarrow> Key" where
  "Key_from_bytes_with_provider bs provider = \<lparr> key_bytes = bs, key_provider = Some provider \<rparr>"

definition Key_as_bytes :: "Key \<Rightarrow> bytes" where
  "Key_as_bytes K = key_bytes K"

definition Key_provider :: "'x env \<Rightarrow> Key \<Rightarrow> Provider result" where
  "Key_provider E K =
    (case key_provider K of
       Some provider \<Rightarrow> Ok provider
     | None \<Rightarrow> (case Provider_build_default E of
         Some provider \<Rightarrow> Ok provider
       | None \<Rightarrow> Err ProviderSelectionRequired))"

definition Key_clone :: "Key \<Rightarrow> Key" where
  "Key_clone K = \<lparr> key_bytes = key_bytes K, key_provider = key_provider K \<rparr>"

definition Key_from :: "bytes \<Rightarrow> Key" where
  "Key_from bs = Key_from_bytes bs"

definition Key_drop :: "'x env \<Rightarrow> Key \<Rightarrow> Key" where
  "Key_drop E K = K\<lparr> key_bytes := zeroize E (key_bytes K) \<rparr>"

definition Key_try_from :: "bytes \<Rightarrow> Key result" where
  "Key_try_from bs = (if length bs = Key_LEN then Ok (Key_from_bytes bs) else Err (InvalidKeyLength (length bs)))"

declare floe_consts [simp]

text \<open>The bytes of every key are an array of 32.\<close>

definition key_ok :: "Key \<Rightarrow> bool" where
  "key_ok K \<longleftrightarrow> length (key_bytes K) = 32"

lemma Key_try_from_iff:
  "Key_try_from bs = Ok K \<longleftrightarrow> key_ok K \<and> key_bytes K = bs \<and> key_provider K = None"
  by (cases K) (auto simp: Key_try_from_def Key_from_bytes_def key_ok_def)

lemma ProviderRng_generate_key_total:
  assumes "rng_ok E"
  shows "length (fst (snd (ProviderRng_generate_key E g out))) = length out"
    and "fst (ProviderRng_generate_key E g out) = Ok () \<or> fst (ProviderRng_generate_key E g out) = Err RngFailure"
  using ProviderRng_fill_total [OF assms, of g out] assms
  by (cases g; auto simp: rng_ok_def fills_def split: prod.splits; metis fst_conv snd_conv)+

lemma Key_generate_with_provider_ok:
  assumes "rng_ok E"
  shows "Key_generate_with_provider E p w = Err RngFailure \<or>
    (\<exists>K. Key_generate_with_provider E p w = Ok K \<and> key_ok K \<and> Key_provider E K = Ok p)"
  using ProviderRng_generate_key_total [OF assms, of "ProviderRng_new p w" "replicate 32 0"]
  by (auto simp: Key_generate_with_provider_def key_ok_def Key_provider_def split: prod.splits)

text \<open>A concrete key for each provider, for use with the concrete environment.\<close>

definition toy_key :: "Provider \<Rightarrow> Key" where
  "toy_key provider = Key_from_bytes_with_provider (replicate 32 7) provider"

lemma toy_key: "key_ok (toy_key p)" "Key_provider E (toy_key p) = Ok p" "key_bytes (toy_key p) = replicate 32 7"
  by (simp_all add: toy_key_def Key_from_bytes_with_provider_def key_ok_def Key_provider_def)

section \<open>Properties\<close>

text \<open>
  A generated key has 32 bytes and stays bound to the provider that generated it; the only
  failures are a missing provider choice and an entropy failure.
\<close>

theorem generated_keys:
  assumes "rng_ok E"
  shows "(\<exists>K p. Key_generate E w = Ok K \<and> key_ok K \<and> Key_provider E K = Ok p \<and> Provider_COMPILED E = [p]) \<or>
    Key_generate E w = Err RngFailure \<or> Key_generate E w = Err ProviderSelectionRequired \<and> length (Provider_COMPILED E) \<noteq> 1"
proof (cases "Provider_build_default E")
  case None
  then show ?thesis by (auto simp: Key_generate_def Provider_build_default_def split: if_splits)
next
  case (Some p)
  then show ?thesis using Key_generate_with_provider_ok [OF assms, of p w] build_default_in_COMPILED [OF Some]
    by (auto simp: Key_generate_def)
qed

theorem generated_keys_witness:
  "(\<exists>K p. Key_generate toy_env ([], []) = Ok K \<and> key_ok K \<and> Key_provider toy_env K = Ok p \<and> Provider_COMPILED toy_env = [p]) \<or>
    Key_generate toy_env ([], []) = Err RngFailure \<or>
    Key_generate toy_env ([], []) = Err ProviderSelectionRequired \<and> length (Provider_COMPILED toy_env) \<noteq> 1"
  by (rule generated_keys [OF lawfulD(6) [OF toy_lawful]])

end
