(* ===== verification/Floe_Context.thy ===== *)
theory Floe_Context
  imports Floe_Key
begin

text \<open>
  The message context of \<^verbatim>\<open>src/src/state.rs\<close>: the header, the three key derivations, the
  segment key cache and the batched nonce generator. The locale \<open>segment_key_source\<close> is
  what the segment code relies on when it looks a key up, the locale \<open>nonce_source\<close> what
  it relies on when it draws a nonce; both are interpreted here on the code's cache and
  generator.
\<close>

section \<open>Purposes, associated data and the header\<close>

definition ascii :: "string \<Rightarrow> bytes" where
  "ascii s = map (\<lambda>c. word_of_nat (of_char c)) s"

definition HEADER_TAG_PURPOSE :: bytes where "HEADER_TAG_PURPOSE = ascii ''HEADER_TAG:''"
definition MESSAGE_KEY_PURPOSE :: bytes where "MESSAGE_KEY_PURPOSE = ascii ''MESSAGE_KEY:''"
definition SEGMENT_KEY_PURPOSE :: bytes where "SEGMENT_KEY_PURPOSE = ascii ''DEK:''"
definition NONCE_BATCH_SIZE :: nat where [floe_consts]: "NONCE_BATCH_SIZE = 256"
definition NONCE_BATCH_LENGTH :: nat where [floe_consts]:
  "NONCE_BATCH_LENGTH = AEAD_IV_LENGTH * NONCE_BATCH_SIZE"
definition SEGMENT_AAD_LENGTH :: nat where [floe_consts]: "SEGMENT_AAD_LENGTH = 9"

definition segment_aad :: "u64 \<Rightarrow> SegmentKind \<Rightarrow> bytes" where
  "segment_aad position kind =
    (let aad0 = replicate SEGMENT_AAD_LENGTH 0;
         aad1 = splice 0 (u64_to_be_bytes position) aad0
     in aad1[8 := SegmentKind_indicator kind])"

datatype Header = Header (header_bytes: bytes)

definition FLOE_IV_OFFSET :: nat where [floe_consts]: "FLOE_IV_OFFSET = ENCODED_PARAMETERS_LENGTH"
definition TAG_OFFSET :: nat where [floe_consts]: "TAG_OFFSET = FLOE_IV_OFFSET + FLOE_IV_LENGTH"

definition Header_as_bytes :: "Header \<Rightarrow> bytes" where
  "Header_as_bytes H = header_bytes H"

definition Header_encoded_parameters :: "Header \<Rightarrow> bytes" where
  "Header_encoded_parameters H = slice 0 FLOE_IV_OFFSET (header_bytes H)"

definition Header_floe_iv :: "Header \<Rightarrow> bytes" where
  "Header_floe_iv H = slice FLOE_IV_OFFSET TAG_OFFSET (header_bytes H)"

definition Header_tag :: "Header \<Rightarrow> bytes" where
  "Header_tag H = slice TAG_OFFSET (length (header_bytes H)) (header_bytes H)"

definition Header_unverified_parameters :: "Header \<Rightarrow> Parameters result" where
  "Header_unverified_parameters H = Parameters_decode (Header_encoded_parameters H)"

definition Header_from_fields :: "bytes \<Rightarrow> bytes \<Rightarrow> bytes \<Rightarrow> Header" where
  "Header_from_fields encoded floe_iv tag =
    (let b0 = replicate HEADER_LENGTH 0;
         b1 = splice 0 encoded b0;
         b2 = splice FLOE_IV_OFFSET floe_iv b1;
         b3 = splice TAG_OFFSET tag b2
     in Header b3)"

definition Header_try_from :: "bytes \<Rightarrow> Header result" where
  "Header_try_from bs = (if length bs = HEADER_LENGTH then Ok (Header bs) else Err (InvalidHeaderLength (length bs)))"

text \<open>The conversions between a header and its array of bytes.\<close>

definition Header_as_ref :: "Header \<Rightarrow> bytes" where
  "Header_as_ref H = header_bytes H"

definition Header_from :: "bytes \<Rightarrow> Header" where
  "Header_from bs = Header bs"

definition Header_into_bytes :: "Header \<Rightarrow> bytes" where
  "Header_into_bytes H = header_bytes H"

section \<open>Key derivation\<close>

definition derive_header_tag :: "'x env \<Rightarrow> Provider \<Rightarrow> Key \<Rightarrow> bytes \<Rightarrow> bytes \<Rightarrow> bytes \<Rightarrow> bytes result" where
  "derive_header_tag E provider key encoded floe_iv aad =
    Provider_kdf_expand E provider HEADER_TAG_LENGTH (Key_as_bytes key) [encoded, floe_iv, HEADER_TAG_PURPOSE, aad]"

definition derive_message_key :: "'x env \<Rightarrow> Provider \<Rightarrow> Key \<Rightarrow> bytes \<Rightarrow> bytes \<Rightarrow> bytes \<Rightarrow> bytes result" where
  "derive_message_key E provider key encoded floe_iv aad =
    Provider_kdf_expand E provider 48 (Key_as_bytes key) [encoded, floe_iv, MESSAGE_KEY_PURPOSE, aad]"

definition derive_segment_key ::
  "'x env \<Rightarrow> Provider \<Rightarrow> Parameters \<Rightarrow> bytes \<Rightarrow> bytes \<Rightarrow> bytes \<Rightarrow> u64 \<Rightarrow> 'x AeadKey result" where
  "derive_segment_key E provider P message_key floe_iv aad masked_position =
    (let encoded = Parameters_encode P;
         position_bytes = u64_to_be_bytes masked_position;
         info = [encoded, floe_iv, SEGMENT_KEY_PURPOSE, position_bytes, aad]
     in bind (Provider_kdf_expand E provider 32 message_key info) (\<lambda>key_material.
        AeadKey_new E provider key_material))"

section \<open>Message context and key cache\<close>

record MessageContext =
  mc_provider :: Provider
  mc_parameters :: Parameters
  mc_message_key :: bytes
  mc_floe_iv :: bytes
  mc_aad :: bytes

definition MessageContext_new :: "Provider \<Rightarrow> Parameters \<Rightarrow> bytes \<Rightarrow> bytes \<Rightarrow> bytes \<Rightarrow> MessageContext" where
  "MessageContext_new provider P message_key floe_iv aad =
    \<lparr> mc_provider = provider, mc_parameters = P, mc_message_key = message_key, mc_floe_iv = floe_iv, mc_aad = aad \<rparr>"

record 'x CachedKey =
  ck_masked_position :: u64
  ck_key :: "'x AeadKey"

definition CachedKey_derive :: "'x env \<Rightarrow> MessageContext \<Rightarrow> u64 \<Rightarrow> 'x CachedKey result" where
  "CachedKey_derive E C masked_position =
    bind (derive_segment_key E (mc_provider C) (mc_parameters C) (mc_message_key C) (mc_floe_iv C) (mc_aad C)
            masked_position) (\<lambda>key.
    Ok \<lparr> ck_masked_position = masked_position, ck_key = key \<rparr>)"

record 'x KeyCache =
  cached_key :: "'x CachedKey option"

definition KeyCache_new :: "'x env \<Rightarrow> MessageContext \<Rightarrow> 'x KeyCache result" where
  "KeyCache_new E C = bind (CachedKey_derive E C 0) (\<lambda>k. Ok \<lparr> cached_key = Some k \<rparr>)"

definition KeyCache_empty :: "'x KeyCache" where
  "KeyCache_empty = \<lparr> cached_key = None \<rparr>"

definition KeyCache_key_for_position ::
  "'x env \<Rightarrow> 'x KeyCache \<Rightarrow> MessageContext \<Rightarrow> u64 \<Rightarrow> 'x AeadKey result \<times> 'x KeyCache" where
  "KeyCache_key_for_position E keys C position =
    (if AEAD_MAX_SEGMENTS \<le> position then (Err SegmentLimit, keys) else
     let masked_position = Parameters_masked_position (mc_parameters C) position;
         stale = (case cached_key keys of None \<Rightarrow> True | Some cached \<Rightarrow> ck_masked_position cached \<noteq> masked_position);
         (refreshed, keys') =
           (if stale then try_in (CachedKey_derive E C masked_position) keys (\<lambda>k. (Ok (), keys\<lparr> cached_key := Some k \<rparr>))
            else (Ok (), keys))
     in try_in refreshed keys' (\<lambda>_. (map_ok ck_key (expect (cached_key keys')), keys')))"

section \<open>Nonces\<close>

record 'x NonceGenerator =
  ng_rng :: "'x ProviderRng"
  ng_bytes :: bytes
  ng_next :: nat

definition NonceGenerator_new :: "'x ProviderRng \<Rightarrow> 'x NonceGenerator" where
  "NonceGenerator_new rng =
    \<lparr> ng_rng = rng, ng_bytes = replicate NONCE_BATCH_LENGTH 0, ng_next = NONCE_BATCH_LENGTH \<rparr>"

definition NonceGenerator_next :: "'x env \<Rightarrow> 'x NonceGenerator \<Rightarrow> bytes result \<times> 'x NonceGenerator" where
  "NonceGenerator_next E G =
    (let (refilled, G') =
       (if ng_next G = NONCE_BATCH_LENGTH
        then (case ProviderRng_fill E (ng_rng G) (ng_bytes G) of
                (r, bs, rng) \<Rightarrow>
                  let G1 = G\<lparr> ng_rng := rng, ng_bytes := bs \<rparr> in
                  try_in r G1 (\<lambda>_. (Ok (), G1\<lparr> ng_next := 0 \<rparr>)))
        else (Ok (), G))
     in try_in refilled G' (\<lambda>_.
        try_in (index_range (ng_next G') (ng_next G' + AEAD_IV_LENGTH) (ng_bytes G')) G' (\<lambda>nonce.
        (Ok nonce, G'\<lparr> ng_next := ng_next G' + AEAD_IV_LENGTH \<rparr>))))"

declare floe_consts [simp]

section \<open>Encodings\<close>

lemma segment_aad_eq: "segment_aad position kind = u64_to_be_bytes position @ [SegmentKind_indicator kind]"
  by (simp add: segment_aad_def splice_def list_update_append)

lemma SegmentKind_indicator_inject [simp]: "SegmentKind_indicator k = SegmentKind_indicator l \<longleftrightarrow> k = l"
  by (cases k; cases l) simp_all

lemma segment_aad_inject: "segment_aad i k = segment_aad j l \<longleftrightarrow> i = j \<and> k = l"
  by (simp add: segment_aad_eq)

lemma Header_from_fields_eq:
  assumes "length e = 10" "length iv = 32" "length t = 32"
  shows "Header_from_fields e iv t = Header (e @ iv @ t)"
  using assms by (simp add: Header_from_fields_def splice_splice_adjacent splice_def)

lemma Header_fields:
  assumes "length e = 10" "length iv = 32" "length t = 32"
  shows "Header_encoded_parameters (Header (e @ iv @ t)) = e" "Header_floe_iv (Header (e @ iv @ t)) = iv"
    "Header_tag (Header (e @ iv @ t)) = t"
  using assms
  by (simp_all add: Header_encoded_parameters_def Header_floe_iv_def Header_tag_def slice_append_right)

lemma Header_eq_fields:
  assumes "length (header_bytes H) = 74"
  shows "H = Header (Header_encoded_parameters H @ Header_floe_iv H @ Header_tag H)"
    "length (Header_encoded_parameters H) = 10" "length (Header_floe_iv H) = 32" "length (Header_tag H) = 32"
  using assms slice_adjacent [of 10 42 74 "header_bytes H"] slice_adjacent [of 0 10 74 "header_bytes H"]
  by (cases H; simp add: Header_encoded_parameters_def Header_floe_iv_def Header_tag_def)+

section \<open>The derivations compute the specified keys\<close>

text \<open>
  The derivations of the FLOE specification, as functions of HMAC-SHA-384 alone.
\<close>

definition floe_kdf :: "prims \<Rightarrow> nat \<Rightarrow> bytes \<Rightarrow> Parameters \<Rightarrow> bytes \<Rightarrow> bytes \<Rightarrow> bytes \<Rightarrow> bytes" where
  "floe_kdf S N key P floe_iv purpose aad =
    take N (hmac_sha384 S key (Parameters_encode P @ floe_iv @ purpose @ aad @ [1]))"

definition floe_header_tag :: "prims \<Rightarrow> bytes \<Rightarrow> Parameters \<Rightarrow> bytes \<Rightarrow> bytes \<Rightarrow> bytes" where
  "floe_header_tag S key P iv aad = floe_kdf S 32 key P iv (ascii ''HEADER_TAG:'') aad"

definition floe_message_key :: "prims \<Rightarrow> bytes \<Rightarrow> Parameters \<Rightarrow> bytes \<Rightarrow> bytes \<Rightarrow> bytes" where
  "floe_message_key S key P iv aad = floe_kdf S 48 key P iv (ascii ''MESSAGE_KEY:'') aad"

definition floe_segment_key :: "prims \<Rightarrow> bytes \<Rightarrow> Parameters \<Rightarrow> bytes \<Rightarrow> bytes \<Rightarrow> nat \<Rightarrow> bytes" where
  "floe_segment_key S message_key P iv aad i =
    floe_kdf S 32 message_key P iv (ascii ''DEK:'' @ u64_to_be_bytes (word_of_nat (i div 2 ^ 20 * 2 ^ 20))) aad"

lemma floe_kdf_length: "prims_ok S \<Longrightarrow> N \<le> 48 \<Longrightarrow> length (floe_kdf S N key P iv purpose aad) = N"
  by (simp add: floe_kdf_def prims_okD)

lemma floe_key_lengths [simp]:
  assumes "prims_ok S"
  shows "length (floe_header_tag S key P iv aad) = 32" "length (floe_message_key S key P iv aad) = 48"
    "length (floe_segment_key S key P iv aad i) = 32"
  using assms by (simp_all add: floe_header_tag_def floe_message_key_def floe_segment_key_def floe_kdf_length)

lemma derive_header_tag_spec:
  "lawful E S \<Longrightarrow> derive_header_tag E p K (Parameters_encode P) iv aad = Ok (floe_header_tag S (key_bytes K) P iv aad)"
  by (simp add: derive_header_tag_def Provider_kdf_expand_spec floe_header_tag_def floe_kdf_def Key_as_bytes_def
      HEADER_TAG_PURPOSE_def)

lemma derive_message_key_spec:
  "lawful E S \<Longrightarrow> derive_message_key E p K (Parameters_encode P) iv aad = Ok (floe_message_key S (key_bytes K) P iv aad)"
  by (simp add: derive_message_key_def Provider_kdf_expand_spec floe_message_key_def floe_kdf_def Key_as_bytes_def
      MESSAGE_KEY_PURPOSE_def)

lemma masked_position_word:
  "Parameters_masked_position P position = word_of_nat (unat position div 2 ^ 20 * 2 ^ 20)"
  by (rule unat_eq_word_of_nat) (rule unat_masked_position)

lemma derive_segment_key_spec:
  "lawful E S \<Longrightarrow>
   derive_segment_key E p P mk iv aad (Parameters_masked_position P position) =
     AeadKey_new E p (floe_segment_key S mk P iv aad (unat position))"
  by (simp add: derive_segment_key_def Provider_kdf_expand_spec floe_segment_key_def floe_kdf_def
      SEGMENT_KEY_PURPOSE_def masked_position_word)

text \<open>Inputs of different derivations never coincide: the purpose starts at a fixed offset.\<close>

lemma kdf_input_inject:
  assumes "length iv = 32" "length iv' = 32"
    and "Parameters_encode P @ iv @ r = Parameters_encode P' @ iv' @ r'"
  shows "P = P' \<and> iv = iv' \<and> r = r'"
  using assms by (simp add: encode_eq be_bytes_inject)

section \<open>The key cache\<close>

definition cache_ok :: "'x env \<Rightarrow> MessageContext \<Rightarrow> 'x KeyCache \<Rightarrow> bool" where
  "cache_ok E C keys \<longleftrightarrow>
    (\<forall>cached. cached_key keys = Some cached \<longrightarrow> CachedKey_derive E C (ck_masked_position cached) = Ok cached)"

text \<open>The key of a position derived from scratch, without a cache.\<close>

definition fresh_segment_key :: "'x env \<Rightarrow> MessageContext \<Rightarrow> u64 \<Rightarrow> 'x AeadKey result" where
  "fresh_segment_key E C position =
    (if AEAD_MAX_SEGMENTS \<le> position then Err SegmentLimit
     else derive_segment_key E (mc_provider C) (mc_parameters C) (mc_message_key C) (mc_floe_iv C) (mc_aad C)
            (Parameters_masked_position (mc_parameters C) position))"

lemma CachedKey_derive_position: "CachedKey_derive E C m = Ok k \<Longrightarrow> ck_masked_position k = m"
  by (auto simp: CachedKey_derive_def)

lemma CachedKey_derive_self:
  "CachedKey_derive E C m = Ok k \<Longrightarrow> CachedKey_derive E C (ck_masked_position k) = Ok k"
  using CachedKey_derive_position by metis

lemma KeyCache_new_ok: "KeyCache_new E C = Ok keys \<Longrightarrow> cache_ok E C keys"
  by (auto simp: KeyCache_new_def cache_ok_def intro: CachedKey_derive_self)

lemma KeyCache_empty_ok: "cache_ok E C KeyCache_empty"
  by (simp add: KeyCache_empty_def cache_ok_def)

lemma CachedKey_derive_key:
  "map_ok ck_key (CachedKey_derive E C (Parameters_masked_position (mc_parameters C) position)) =
   derive_segment_key E (mc_provider C) (mc_parameters C) (mc_message_key C) (mc_floe_iv C) (mc_aad C)
     (Parameters_masked_position (mc_parameters C) position)"
  unfolding CachedKey_derive_def
  by (cases "derive_segment_key E (mc_provider C) (mc_parameters C) (mc_message_key C) (mc_floe_iv C) (mc_aad C)
     (Parameters_masked_position (mc_parameters C) position)") simp_all

lemma key_for_position_spec:
  assumes "cache_ok E C keys"
  shows "fst (KeyCache_key_for_position E keys C position) = fresh_segment_key E C position"
    and "cache_ok E C (snd (KeyCache_key_for_position E keys C position))"
proof -
  let ?m = "Parameters_masked_position (mc_parameters C) position"
  let ?d = "CachedKey_derive E C ?m"
  note key = CachedKey_derive_key [of E C position, symmetric]
  show "fst (KeyCache_key_for_position E keys C position) = fresh_segment_key E C position"
    using assms
    by (cases ?d; cases "cached_key keys")
      (auto simp: KeyCache_key_for_position_def fresh_segment_key_def cache_ok_def Let_def key)
  show "cache_ok E C (snd (KeyCache_key_for_position E keys C position))"
    using assms
    by (cases ?d; cases "cached_key keys")
      (auto simp: KeyCache_key_for_position_def cache_ok_def Let_def intro: CachedKey_derive_self)
qed

locale segment_key_source =
  fixes inv :: "'c \<Rightarrow> 's \<Rightarrow> bool"
    and lookup :: "'s \<Rightarrow> 'c \<Rightarrow> u64 \<Rightarrow> 'k result \<times> 's"
    and derive :: "'c \<Rightarrow> u64 \<Rightarrow> 'k result"
  assumes lookup_result: "inv c s \<Longrightarrow> fst (lookup s c i) = derive c i"
    and lookup_inv: "inv c s \<Longrightarrow> inv c (snd (lookup s c i))"
begin

lemma history_inv: "inv c s \<Longrightarrow> inv c (foldl (\<lambda>s i. snd (lookup s c i)) s is)"
  by (induction "is" arbitrary: s) (simp_all add: lookup_inv)

text \<open>Whatever was looked up before, a lookup returns the key derived from scratch.\<close>

lemma history_irrelevant: "inv c s \<Longrightarrow> fst (lookup (foldl (\<lambda>s i. snd (lookup s c i)) s is) c j) = derive c j"
  by (rule lookup_result) (rule history_inv)

lemma lookupE:
  assumes "inv c s"
  obtains s' where "lookup s c i = (derive c i, s')" "inv c s'"
  using lookup_result [OF assms] lookup_inv [OF assms] by (metis prod.collapse)

end

interpretation cache: segment_key_source "cache_ok E" "KeyCache_key_for_position E" "fresh_segment_key E" for E
  by unfold_locales (simp_all add: key_for_position_spec)

definition context_ok :: "MessageContext \<Rightarrow> bool" where
  "context_ok C \<longleftrightarrow> params_ok (mc_parameters C) \<and> length (mc_message_key C) = 48 \<and> length (mc_floe_iv C) = 32"

abbreviation context_key :: "prims \<Rightarrow> MessageContext \<Rightarrow> nat \<Rightarrow> bytes" where
  "context_key S C i \<equiv> floe_segment_key S (mc_message_key C) (mc_parameters C) (mc_floe_iv C) (mc_aad C) i"

lemma fresh_segment_key_spec:
  assumes "lawful E S"
  shows "fresh_segment_key E C position =
    (if 2 ^ 40 \<le> unat position then Err SegmentLimit else AeadKey_new E (mc_provider C) (context_key S C (unat position)))"
  using assms by (simp add: fresh_segment_key_def word_le_nat_alt derive_segment_key_spec)

text \<open>A lookup below the segment limit returns a key that computes AES-256-GCM under the specified bytes.\<close>

lemma key_lookupE:
  assumes "lawful E S" "cache_ok E C keys" "unat position < 2 ^ 40"
  obtains K keys' where "KeyCache_key_for_position E keys C position = (Ok K, keys')" "cache_ok E C keys'"
    "key_spec E S (context_key S C (unat position)) K"
proof -
  obtain K where "AeadKey_new E (mc_provider C) (context_key S C (unat position)) = Ok K"
    "key_spec E S (context_key S C (unat position)) K"
    using AeadKey_new_spec [OF assms(1)] lawfulD(1) [OF assms(1)] by force
  with that show ?thesis
    using cache.lookupE [OF assms(2), of position] fresh_segment_key_spec [OF assms(1), of C position] assms(3)
    by (metis not_le)
qed

lemma key_lookup_limit:
  assumes "cache_ok E C keys" "2 ^ 40 \<le> unat position"
  shows "KeyCache_key_for_position E keys C position = (Err SegmentLimit, keys)"
  using assms by (simp add: KeyCache_key_for_position_def word_le_nat_alt)

section \<open>The nonce generator\<close>

definition nonces_ok :: "'x NonceGenerator \<Rightarrow> bool" where
  "nonces_ok G \<longleftrightarrow> length (ng_bytes G) = 3072 \<and> ng_next G \<le> 3072 \<and> 12 dvd ng_next G"

lemma NonceGenerator_new_ok: "nonces_ok (NonceGenerator_new rng)"
  by (simp add: nonces_ok_def NonceGenerator_new_def)

lemma NonceGenerator_step:
  assumes "nonces_ok G" "ng_next G \<noteq> 3072"
  shows "NonceGenerator_next E G =
      (Ok (slice (ng_next G) (ng_next G + 12) (ng_bytes G)), G\<lparr> ng_next := ng_next G + 12 \<rparr>)"
    and "ng_next G + 12 \<le> 3072" "nonces_ok (G\<lparr> ng_next := ng_next G + 12 \<rparr>)"
proof -
  have "12 dvd (3072 - ng_next G)" "0 < 3072 - ng_next G"
    using assms by (auto simp: nonces_ok_def intro: dvd_diff_nat)
  then have "12 \<le> 3072 - ng_next G" by (rule dvd_imp_le)
  then show le: "ng_next G + 12 \<le> 3072" by linarith
  then show "NonceGenerator_next E G =
      (Ok (slice (ng_next G) (ng_next G + 12) (ng_bytes G)), G\<lparr> ng_next := ng_next G + 12 \<rparr>)"
    using assms by (simp add: NonceGenerator_next_def nonces_ok_def)
  show "nonces_ok (G\<lparr> ng_next := ng_next G + 12 \<rparr>)"
    using le assms by (simp add: nonces_ok_def)
qed

lemma NonceGenerator_refill:
  assumes "ng_next G = 3072"
  shows "NonceGenerator_next E G =
    (case ProviderRng_fill E (ng_rng G) (ng_bytes G) of
       (Ok _, bs, rng) \<Rightarrow> NonceGenerator_next E \<lparr> ng_rng = rng, ng_bytes = bs, ng_next = 0 \<rparr>
     | (Err e, bs, rng) \<Rightarrow> (Err e, G\<lparr> ng_rng := rng, ng_bytes := bs \<rparr>)
     | (Panic, bs, rng) \<Rightarrow> (Panic, G\<lparr> ng_rng := rng, ng_bytes := bs \<rparr>))"
proof -
  obtain r bs rng where fill: "ProviderRng_fill E (ng_rng G) (ng_bytes G) = (r, bs, rng)"
    by (cases "ProviderRng_fill E (ng_rng G) (ng_bytes G)") auto
  then show ?thesis using assms by (cases r; cases G) (simp_all add: NonceGenerator_next_def)
qed

lemma NonceGenerator_next_total:
  assumes "rng_ok E" "nonces_ok G"
  shows "nonces_ok (snd (NonceGenerator_next E G))"
    and "fst (NonceGenerator_next E G) = Err RngFailure \<or>
      (\<exists>nonce. fst (NonceGenerator_next E G) = Ok nonce \<and> length nonce = 12)"
proof -
  have "nonces_ok (snd (NonceGenerator_next E G)) \<and>
    (fst (NonceGenerator_next E G) = Err RngFailure \<or>
      (\<exists>nonce. fst (NonceGenerator_next E G) = Ok nonce \<and> length nonce = 12))"
  proof (cases "ng_next G = 3072")
    case False
    then show ?thesis using NonceGenerator_step [OF assms(2) False] assms(2) by (simp add: nonces_ok_def)
  next
    case True
    obtain r bs rng where fill: "ProviderRng_fill E (ng_rng G) (ng_bytes G) = (r, bs, rng)"
      by (cases "ProviderRng_fill E (ng_rng G) (ng_bytes G)") auto
    then have len: "length bs = 3072" and r: "r = Ok () \<or> r = Err RngFailure"
      using ProviderRng_fill_total [OF assms(1), of "ng_rng G" "ng_bytes G"] assms(2) by (simp_all add: nonces_ok_def)
    let ?G = "\<lparr> ng_rng = rng, ng_bytes = bs, ng_next = 0 \<rparr>"
    have "nonces_ok ?G" "ng_next ?G \<noteq> 3072" using len by (simp_all add: nonces_ok_def)
    from NonceGenerator_step [OF this] show ?thesis
      using r len True assms(2) by (auto simp: NonceGenerator_refill [OF True] fill nonces_ok_def)
  qed
  then show "nonces_ok (snd (NonceGenerator_next E G))"
    and "fst (NonceGenerator_next E G) = Err RngFailure \<or>
      (\<exists>nonce. fst (NonceGenerator_next E G) = Ok nonce \<and> length nonce = 12)" by auto
qed

locale nonce_source =
  fixes inv :: "'g \<Rightarrow> bool"
    and draw :: "'g \<Rightarrow> bytes result \<times> 'g"
  assumes draw_inv: "inv g \<Longrightarrow> inv (snd (draw g))"
    and draw_result: "inv g \<Longrightarrow> fst (draw g) = Err RngFailure \<or> (\<exists>n. fst (draw g) = Ok n \<and> length n = 12)"
begin

lemma drawE:
  assumes "inv g"
  obtains (failed) g' where "draw g = (Err RngFailure, g')" "inv g'"
    | (nonce) n g' where "draw g = (Ok n, g')" "length n = 12" "inv g'"
  using draw_inv [OF assms] draw_result [OF assms] by (metis prod.collapse)

lemma never_panics: "inv g \<Longrightarrow> fst (draw g) \<noteq> Panic"
  using draw_result by fastforce

end

interpretation nonces: nonce_source "\<lambda>G. rng_ok E \<and> nonces_ok G" "NonceGenerator_next E" for E
  by unfold_locales (simp_all add: NonceGenerator_next_total)

text \<open>Successive refills of the batch, and successive draws.\<close>

primrec nonce_batches :: "'x env \<Rightarrow> nat \<Rightarrow> 'x ProviderRng \<Rightarrow> bytes \<Rightarrow> bytes list result" where
  "nonce_batches E 0 rng bs = Ok []"
| "nonce_batches E (Suc k) rng bs =
    (case ProviderRng_fill E rng bs of
       (r, bs', rng') \<Rightarrow> bind r (\<lambda>_. map_ok (\<lambda>rest. bs' # rest) (nonce_batches E k rng' bs')))"

primrec draw_nonces :: "'x env \<Rightarrow> nat \<Rightarrow> 'x NonceGenerator \<Rightarrow> bytes list result" where
  "draw_nonces E 0 G = Ok []"
| "draw_nonces E (Suc n) G =
    (case NonceGenerator_next E G of (r, G') \<Rightarrow> bind r (\<lambda>nonce. map_ok (\<lambda>rest. nonce # rest) (draw_nonces E n G')))"

lemma draw_nonces_chunks:
  assumes "rng_ok E" "nonces_ok G" "nonce_batches E k (ng_rng G) (ng_bytes G) = Ok batches"
    and "12 * n \<le> 3072 - ng_next G + 3072 * k"
  shows "\<exists>ns. draw_nonces E n G = Ok ns \<and> length ns = n \<and> (\<forall>x \<in> set ns. length x = 12) \<and>
    concat ns = take (12 * n) (drop (ng_next G) (ng_bytes G) @ concat batches)"
  using assms(2-)
proof (induction n arbitrary: G k batches)
  case (Suc n)
  have step: "\<exists>ns. draw_nonces E (Suc n) G = Ok ns \<and> length ns = Suc n \<and> (\<forall>x \<in> set ns. length x = 12) \<and>
      concat ns = take (12 * Suc n) (drop (ng_next G) (ng_bytes G) @ concat batches)"
    if G: "nonces_ok G" "ng_next G \<noteq> 3072" and b: "nonce_batches E k (ng_rng G) (ng_bytes G) = Ok batches"
      and n: "12 * Suc n \<le> 3072 - ng_next G + 3072 * k" for G :: "'a NonceGenerator" and k batches
  proof -
    note S = NonceGenerator_step [OF G]
    let ?G = "G\<lparr> ng_next := ng_next G + 12 \<rparr>"
    obtain ns where ns: "draw_nonces E n ?G = Ok ns" "length ns = n" "\<forall>x \<in> set ns. length x = 12"
        "concat ns = take (12 * n) (drop (ng_next G + 12) (ng_bytes G) @ concat batches)"
    proof -
      have "12 * n \<le> 3072 - ng_next ?G + 3072 * k" using n S(2) by simp
      with Suc.IH [OF S(3), of k batches] b that show thesis by auto
    qed
    have "drop (ng_next G) (ng_bytes G) = slice (ng_next G) (ng_next G + 12) (ng_bytes G) @ drop (ng_next G + 12) (ng_bytes G)"
      by (simp add: slice_def) (metis add.commute append_take_drop_id drop_drop)
    moreover have "length (slice (ng_next G) (ng_next G + 12) (ng_bytes G)) = 12"
      using S(2) G(1) by (simp add: nonces_ok_def)
    ultimately show ?thesis using ns S(1) by simp
  qed
  show ?case
  proof (cases "ng_next G = 3072")
    case False
    with step Suc.prems show ?thesis by blast
  next
    case True
    with Suc.prems(3) obtain k' where k: "k = Suc k'" by (cases k) auto
    obtain r bs rng where fill: "ProviderRng_fill E (ng_rng G) (ng_bytes G) = (r, bs, rng)"
      by (cases "ProviderRng_fill E (ng_rng G) (ng_bytes G)") auto
    with Suc.prems(2) k obtain rest where b: "r = Ok ()" "nonce_batches E k' rng bs = Ok rest" "batches = bs # rest"
      by auto
    have len: "length bs = 3072"
      using ProviderRng_fill_total(1) [OF assms(1), of "ng_rng G" "ng_bytes G"] fill Suc.prems(1)
      by (simp add: nonces_ok_def)
    let ?G = "\<lparr> ng_rng = rng, ng_bytes = bs, ng_next = 0 \<rparr>"
    have "draw_nonces E (Suc n) G = draw_nonces E (Suc n) ?G"
      using b(1) by (simp add: NonceGenerator_refill [OF True] fill)
    moreover have "nonces_ok ?G" using len by (simp add: nonces_ok_def)
    ultimately show ?thesis
      using step [of ?G k' rest] b Suc.prems True k by (simp add: nonces_ok_def)
  qed
qed simp

lemma nonce_available:
  assumes "entropy_available E" "rng_ok E" "nonces_ok G"
  shows "fst (NonceGenerator_next E G) \<noteq> Err RngFailure"
proof -
  obtain bs rng where fill: "ProviderRng_fill E (ng_rng G) (ng_bytes G) = (Ok (), bs, rng)"
    using ProviderRng_fill_available [OF assms(1), of "ng_rng G" "ng_bytes G"] by (metis prod.collapse)
  have "length bs = 3072" using ProviderRng_fill_total(1) [OF assms(2), of "ng_rng G" "ng_bytes G"] fill assms(3)
    by (simp add: nonces_ok_def)
  then have "nonces_ok \<lparr> ng_rng = rng, ng_bytes = bs, ng_next = 0 \<rparr>" by (simp add: nonces_ok_def)
  from NonceGenerator_step(1) [OF this] show ?thesis
    using NonceGenerator_step(1) [OF assms(3)] NonceGenerator_refill [of G E] fill by (cases "ng_next G = 3072") auto
qed

section \<open>Properties\<close>

text \<open>
  C35: The key cache is transparent: whatever positions were looked up before, in whatever order,
  a lookup returns what deriving the key of that position from scratch returns, the segment
  limit error included.
\<close>

theorem key_cache_transparent:
  assumes "keys = KeyCache_empty \<or> KeyCache_new E C = Ok keys"
  shows "fst (KeyCache_key_for_position E (foldl (\<lambda>keys i. snd (KeyCache_key_for_position E keys C i)) keys history) C position) =
    fresh_segment_key E C position"
  by (rule cache.history_irrelevant) (use assms KeyCache_new_ok KeyCache_empty_ok in blast)

theorem key_cache_transparent_witness:
  "fst (KeyCache_key_for_position toy_env
     (foldl (\<lambda>keys i. snd (KeyCache_key_for_position toy_env keys
        (MessageContext_new Provider_RING SEGMENT_64_B (replicate 48 1) (replicate 32 2) [3]) i)) KeyCache_empty
        [0, 1048576, 5]) (MessageContext_new Provider_RING SEGMENT_64_B (replicate 48 1) (replicate 32 2) [3]) 7) =
   fresh_segment_key toy_env (MessageContext_new Provider_RING SEGMENT_64_B (replicate 48 1) (replicate 32 2) [3]) 7"
  by (rule key_cache_transparent) simp

text \<open>
  The nonces a generator hands out are the consecutive 12-byte pieces of the random batches
  it draws: no random byte is used twice and none is skipped.
\<close>

theorem nonces_partition_batches:
  assumes "rng_ok E" "nonce_batches E k rng (replicate 3072 0) = Ok batches" "n \<le> 256 * k"
  shows "\<exists>ns. draw_nonces E n (NonceGenerator_new rng) = Ok ns \<and> length ns = n \<and> (\<forall>x \<in> set ns. length x = 12) \<and>
    concat ns = take (12 * n) (concat batches)"
  using draw_nonces_chunks [OF assms(1) NonceGenerator_new_ok, of k rng batches n] assms(2,3)
  by (simp add: NonceGenerator_new_def)

theorem nonces_partition_batches_witness:
  "\<exists>ns. draw_nonces toy_env 300 (NonceGenerator_new (RingRng ([], []))) = Ok ns \<and> length ns = 300 \<and>
    (\<forall>x \<in> set ns. length x = 12) \<and>
    concat ns = take (12 * 300) (concat [replicate 3072 0, replicate 3072 (1 :: u8)])"
proof (rule nonces_partition_batches [where k = 2])
  show "rng_ok toy_env" by (rule lawfulD(6) [OF toy_lawful])
  show "nonce_batches toy_env 2 (RingRng ([], [])) (replicate 3072 0) = Ok [replicate 3072 0, replicate 3072 1]"
    by (simp add: numeral_2_eq_2 toy_env_def rng_system_fill_def toy_fill_def)
qed simp

lemma purpose_values:
  "HEADER_TAG_PURPOSE = [72, 69, 65, 68, 69, 82, 95, 84, 65, 71, 58]"
  "MESSAGE_KEY_PURPOSE = [77, 69, 83, 83, 65, 71, 69, 95, 75, 69, 89, 58]"
  "SEGMENT_KEY_PURPOSE = [68, 69, 75, 58]"
  by (simp_all add: HEADER_TAG_PURPOSE_def MESSAGE_KEY_PURPOSE_def SEGMENT_KEY_PURPOSE_def ascii_def)

text \<open>
  The three derivations never share an input: the header tag, the message key and the segment
  keys are derived from different byte strings, and a segment key input determines the parameters,
  the IV, the key index and the associated data.
\<close>

theorem kdf_domains_separated:
  assumes "length iv = 32" "length iv' = 32"
  shows "concat [Parameters_encode P, iv, HEADER_TAG_PURPOSE, aad] \<noteq>
      concat [Parameters_encode P', iv', MESSAGE_KEY_PURPOSE, aad'] \<and>
    concat [Parameters_encode P, iv, HEADER_TAG_PURPOSE, aad] \<noteq>
      concat [Parameters_encode P', iv', SEGMENT_KEY_PURPOSE, u64_to_be_bytes j, aad'] \<and>
    concat [Parameters_encode P, iv, MESSAGE_KEY_PURPOSE, aad] \<noteq>
      concat [Parameters_encode P', iv', SEGMENT_KEY_PURPOSE, u64_to_be_bytes j, aad'] \<and>
    (concat [Parameters_encode P, iv, SEGMENT_KEY_PURPOSE, u64_to_be_bytes i, aad] =
      concat [Parameters_encode P', iv', SEGMENT_KEY_PURPOSE, u64_to_be_bytes j, aad'] \<longleftrightarrow>
      P = P' \<and> iv = iv' \<and> i = j \<and> aad = aad')"
proof (intro conjI)
  have inj: "Parameters_encode P @ iv @ r = Parameters_encode P' @ iv' @ r' \<longleftrightarrow> P = P' \<and> iv = iv' \<and> r = r'" for r r'
    using kdf_input_inject [OF assms] by blast
  show "concat [Parameters_encode P, iv, HEADER_TAG_PURPOSE, aad] \<noteq>
      concat [Parameters_encode P', iv', MESSAGE_KEY_PURPOSE, aad']"
    "concat [Parameters_encode P, iv, HEADER_TAG_PURPOSE, aad] \<noteq>
      concat [Parameters_encode P', iv', SEGMENT_KEY_PURPOSE, u64_to_be_bytes j, aad']"
    "concat [Parameters_encode P, iv, MESSAGE_KEY_PURPOSE, aad] \<noteq>
      concat [Parameters_encode P', iv', SEGMENT_KEY_PURPOSE, u64_to_be_bytes j, aad']"
    by (simp_all add: inj purpose_values)
  show "concat [Parameters_encode P, iv, SEGMENT_KEY_PURPOSE, u64_to_be_bytes i, aad] =
      concat [Parameters_encode P', iv', SEGMENT_KEY_PURPOSE, u64_to_be_bytes j, aad'] \<longleftrightarrow>
      P = P' \<and> iv = iv' \<and> i = j \<and> aad = aad'"
    by (auto simp: inj)
qed

theorem kdf_domains_separated_witness:
  "concat [Parameters_encode SEGMENT_64_B, replicate 32 1, HEADER_TAG_PURPOSE, []] \<noteq>
      concat [Parameters_encode SEGMENT_4_KIB, replicate 32 2, MESSAGE_KEY_PURPOSE, [3]] \<and>
    concat [Parameters_encode SEGMENT_64_B, replicate 32 1, HEADER_TAG_PURPOSE, []] \<noteq>
      concat [Parameters_encode SEGMENT_4_KIB, replicate 32 2, SEGMENT_KEY_PURPOSE, u64_to_be_bytes 4, [3]] \<and>
    concat [Parameters_encode SEGMENT_64_B, replicate 32 1, MESSAGE_KEY_PURPOSE, []] \<noteq>
      concat [Parameters_encode SEGMENT_4_KIB, replicate 32 2, SEGMENT_KEY_PURPOSE, u64_to_be_bytes 4, [3]] \<and>
    (concat [Parameters_encode SEGMENT_64_B, replicate 32 1, SEGMENT_KEY_PURPOSE, u64_to_be_bytes 5, []] =
      concat [Parameters_encode SEGMENT_4_KIB, replicate 32 2, SEGMENT_KEY_PURPOSE, u64_to_be_bytes 4, [3]] \<longleftrightarrow>
      SEGMENT_64_B = SEGMENT_4_KIB \<and> replicate 32 (1 :: u8) = replicate 32 2 \<and> (5 :: u64) = 4 \<and> [] = [3 :: u8])"
  by (rule kdf_domains_separated) simp_all

text \<open>The nine bytes that authenticate a segment's place determine its position and kind.\<close>

theorem segment_aad_determines_place:
  "length (segment_aad i k) = 9 \<and> (segment_aad i k = segment_aad j l \<longleftrightarrow> i = j \<and> k = l)"
  using segment_aad_inject [of i k j l] by (simp add: segment_aad_eq)

end
