(* ===== verification/Floe_Segment.thy ===== *)
theory Floe_Segment
  imports Floe_Context
begin

text \<open>
  The segment functions of \<^verbatim>\<open>src/src/state.rs\<close>: validation and framing, encryption of one
  segment into a separate output or in place, and the two decryptions. Each function
  takes the key cache, the nonce generator and the output slice it borrows and returns
  them as it leaves them, on errors too.

  \<open>floe_segment\<close> is the segment of the FLOE specification. The refinement lemmas say that
  both encryptions write exactly it and that both decryptions accept exactly it.
\<close>

section \<open>Encryption\<close>

definition ciphertext_segment_size :: "'x env \<Rightarrow> MessageContext \<Rightarrow> nat \<Rightarrow> SegmentKind \<Rightarrow> nat result" where
  "ciphertext_segment_size E C plaintext_length kind =
    (let maximum = Parameters_plaintext_segment_length (mc_parameters C) in
     case kind of
       Final \<Rightarrow>
         if plaintext_length \<le> maximum
         then ok_or (usize_checked_add (pointer_width E) SEGMENT_OVERHEAD plaintext_length) LengthOverflow
         else Err (InvalidPlaintextLength plaintext_length (AtMost maximum))
     | NonFinal \<Rightarrow>
         if plaintext_length = maximum then Ok (Parameters_ciphertext_segment_length (mc_parameters C))
         else Err (InvalidPlaintextLength plaintext_length (Exactly maximum)))"

definition write_segment_framing ::
  "'x env \<Rightarrow> 'x NonceGenerator \<Rightarrow> bytes \<Rightarrow> SegmentKind \<Rightarrow> nat \<Rightarrow> bytes result \<times> 'x NonceGenerator \<times> bytes" where
  "write_segment_framing E nonces output kind required =
    try_in (case kind of
              NonFinal \<Rightarrow> Ok 4294967295
            | Final \<Rightarrow> if required < 2 ^ 32 then Ok (word_of_nat required) else Err LengthOverflow)
      (nonces, output) (\<lambda>prefix :: u32.
    let output1 = splice 0 (u32_to_be_bytes prefix) output in
    case NonceGenerator_next E nonces of (r, nonces') \<Rightarrow>
    try_in r (nonces', output1) (\<lambda>nonce.
    let output2 = splice SEGMENT_PREFIX_LENGTH nonce output1 in
    (Ok nonce, nonces', output2)))"

definition begin_segment_encryption ::
  "'x env \<Rightarrow> MessageContext \<Rightarrow> 'x KeyCache \<Rightarrow> 'x NonceGenerator \<Rightarrow> bytes \<Rightarrow> nat \<Rightarrow> u64 \<Rightarrow> SegmentKind \<Rightarrow>
   (nat \<times> bytes \<times> 'x AeadKey \<times> bytes) result \<times> 'x KeyCache \<times> 'x NonceGenerator \<times> bytes" where
  "begin_segment_encryption E C keys nonces output plaintext_length position kind =
    try_in (ciphertext_segment_size E C plaintext_length kind) (keys, nonces, output) (\<lambda>required.
    if length output < required then (Err (OutputTooSmall (length output) required), keys, nonces, output) else
    case write_segment_framing E nonces output kind required of (r, nonces', output') \<Rightarrow>
    try_in r (keys, nonces', output') (\<lambda>nonce.
    case KeyCache_key_for_position E keys C position of (r, keys') \<Rightarrow>
    try_in r (keys', nonces', output') (\<lambda>key.
    (Ok (required, nonce, key, segment_aad position kind), keys', nonces', output'))))"

definition encrypt_segment_into_inner ::
  "'x env \<Rightarrow> MessageContext \<Rightarrow> 'x KeyCache \<Rightarrow> 'x NonceGenerator \<Rightarrow> bytes \<Rightarrow> u64 \<Rightarrow> SegmentKind \<Rightarrow> bytes \<Rightarrow>
   nat result \<times> 'x KeyCache \<times> 'x NonceGenerator \<times> bytes" where
  "encrypt_segment_into_inner E C keys nonces plaintext position kind output =
    (case begin_segment_encryption E C keys nonces output (length plaintext) position kind of
       (r, keys', nonces', output') \<Rightarrow>
    try_in r (keys', nonces', output') (\<lambda>(required, nonce, key, aad).
    case AeadKey_seal_into E key nonce aad plaintext (slice SEGMENT_PAYLOAD_OFFSET required output') of (r, payload) \<Rightarrow>
    let output'' = splice SEGMENT_PAYLOAD_OFFSET payload output' in
    try_in r (keys', nonces', output'') (\<lambda>_. (Ok required, keys', nonces', output''))))"

definition encrypt_segment_in_place_inner ::
  "'x env \<Rightarrow> MessageContext \<Rightarrow> 'x KeyCache \<Rightarrow> 'x NonceGenerator \<Rightarrow> bytes \<Rightarrow> nat \<Rightarrow> u64 \<Rightarrow> SegmentKind \<Rightarrow>
   nat result \<times> 'x KeyCache \<times> 'x NonceGenerator \<times> bytes" where
  "encrypt_segment_in_place_inner E C keys nonces buffer plaintext_length position kind =
    (case begin_segment_encryption E C keys nonces buffer plaintext_length position kind of
       (r, keys', nonces', buffer') \<Rightarrow>
    try_in r (keys', nonces', buffer') (\<lambda>(required, nonce, key, aad).
    let tag_start = SEGMENT_PAYLOAD_OFFSET + plaintext_length; tag = replicate AEAD_TAG_LENGTH 0 in
    try_in (index_range SEGMENT_PAYLOAD_OFFSET tag_start buffer') (keys', nonces', buffer') (\<lambda>payload.
    case AeadKey_seal E key nonce aad payload tag of (r, payload', tag') \<Rightarrow>
    let buffer'' = splice SEGMENT_PAYLOAD_OFFSET payload' buffer' in
    try_in r (keys', nonces', buffer'') (\<lambda>_.
    try_in (bind (index_range tag_start required buffer'') (\<lambda>dst. copy_from_slice dst tag'))
      (keys', nonces', buffer'') (\<lambda>t.
    (Ok required, keys', nonces', splice tag_start t buffer''))))))"

section \<open>Decryption\<close>

definition validate_segment :: "MessageContext \<Rightarrow> bytes \<Rightarrow> SegmentKind \<Rightarrow> nat result" where
  "validate_segment C ciphertext_segment kind =
    (let maximum = Parameters_ciphertext_segment_length (mc_parameters C) in
     bind (case kind of
             Final \<Rightarrow> Parameters_validate_ciphertext_segment_length (mc_parameters C) (length ciphertext_segment)
           | NonFinal \<Rightarrow>
               if length ciphertext_segment \<noteq> maximum
               then Err (InvalidCiphertextLength (length ciphertext_segment) (Exactly maximum))
               else Ok ()) (\<lambda>_.
     bind (index_range 0 SEGMENT_PREFIX_LENGTH ciphertext_segment) (\<lambda>prefix_bytes.
     let prefix = u32_from_be_bytes prefix_bytes in
     case kind of
       Final \<Rightarrow>
         if (ucast prefix :: u64) \<noteq> length_usize_to_u64 (length ciphertext_segment)
         then Err (InvalidCiphertextLength (length ciphertext_segment) (Exactly (length_u32_to_usize prefix)))
         else Ok (length ciphertext_segment - SEGMENT_OVERHEAD)
     | NonFinal \<Rightarrow>
         if prefix \<noteq> 4294967295 then Err InvalidSegmentPrefix
         else Ok (length ciphertext_segment - SEGMENT_OVERHEAD))))"

definition validate_framed_length :: "nat \<Rightarrow> SegmentFraming \<Rightarrow> nat result" where
  "validate_framed_length actual framing =
    (let expected = sf_ciphertext_length framing in
     if actual \<noteq> expected then Err (InvalidCiphertextLength actual (Exactly expected))
     else Ok (sf_plaintext_length framing))"

definition decrypt_segment_into_inner ::
  "'x env \<Rightarrow> MessageContext \<Rightarrow> 'x KeyCache \<Rightarrow> bytes \<Rightarrow> u64 \<Rightarrow> SegmentKind \<Rightarrow> nat \<Rightarrow> bytes \<Rightarrow>
   nat result \<times> 'x KeyCache \<times> bytes" where
  "decrypt_segment_into_inner E C keys ciphertext_segment position kind plaintext_length output =
    (if length output < plaintext_length
     then (Err (OutputTooSmall (length output) plaintext_length), keys, output) else
     case KeyCache_key_for_position E keys C position of (r, keys') \<Rightarrow>
     try_in r (keys', output) (\<lambda>key.
     if length ciphertext_segment < AEAD_TAG_LENGTH then (Panic, keys', output) else
     let tag_start = length ciphertext_segment - AEAD_TAG_LENGTH; aad = segment_aad position kind in
     try_in (index_range SEGMENT_PREFIX_LENGTH SEGMENT_PAYLOAD_OFFSET ciphertext_segment) (keys', output) (\<lambda>nonce.
     let tag = slice tag_start (length ciphertext_segment) ciphertext_segment in
     try_in (index_range SEGMENT_PAYLOAD_OFFSET tag_start ciphertext_segment) (keys', output) (\<lambda>ciphertext.
     case AeadKey_open E key nonce aad ciphertext tag (take plaintext_length output) of (r, plain) \<Rightarrow>
     let output' = splice 0 plain output in
     try_in r (keys', output') (\<lambda>_. (Ok plaintext_length, keys', output'))))))"

definition open_segment_in_place ::
  "'x env \<Rightarrow> MessageContext \<Rightarrow> 'x KeyCache \<Rightarrow> bytes \<Rightarrow> u64 \<Rightarrow> SegmentKind \<Rightarrow> nat \<Rightarrow>
   bytes result \<times> 'x KeyCache \<times> bytes" where
  "open_segment_in_place E C keys ciphertext_segment position kind plaintext_length =
    (case KeyCache_key_for_position E keys C position of (r, keys') \<Rightarrow>
     try_in r (keys', ciphertext_segment) (\<lambda>key.
     if length ciphertext_segment < SEGMENT_PAYLOAD_OFFSET then (Panic, keys', ciphertext_segment) else
     let framing = take SEGMENT_PAYLOAD_OFFSET ciphertext_segment;
         ciphertext_and_tag = drop SEGMENT_PAYLOAD_OFFSET ciphertext_segment;
         nonce = drop SEGMENT_PREFIX_LENGTH framing
     in if length ciphertext_and_tag < plaintext_length then (Panic, keys', ciphertext_segment) else
     let ciphertext = take plaintext_length ciphertext_and_tag; tag = drop plaintext_length ciphertext_and_tag in
     if length tag \<noteq> AEAD_TAG_LENGTH then (Err CryptoFailure, keys', ciphertext_segment) else
     let aad = segment_aad position kind in
     case AeadKey_open_in_place E key nonce aad tag ciphertext of (r, plain) \<Rightarrow>
     let segment' = framing @ plain @ tag in
     try_in r (keys', segment') (\<lambda>_. (Ok plain, keys', segment'))))"

definition decrypt_segment_in_place_inner ::
  "'x env \<Rightarrow> MessageContext \<Rightarrow> 'x KeyCache \<Rightarrow> bytes \<Rightarrow> u64 \<Rightarrow> SegmentKind \<Rightarrow>
   bytes result \<times> 'x KeyCache \<times> bytes" where
  "decrypt_segment_in_place_inner E C keys ciphertext_segment position kind =
    try_in (validate_segment C ciphertext_segment kind) (keys, ciphertext_segment) (\<lambda>plaintext_length.
    open_segment_in_place E C keys ciphertext_segment position kind plaintext_length)"

definition validate_layout :: "MessageContext \<Rightarrow> SegmentLayout \<Rightarrow> unit result" where
  "validate_layout C segment = (if sl_parameters segment = mc_parameters C then Ok () else Err InvalidParameters)"

section \<open>The specified segment\<close>

definition floe_segment :: "prims \<Rightarrow> MessageContext \<Rightarrow> u64 \<Rightarrow> SegmentKind \<Rightarrow> bytes \<Rightarrow> bytes \<Rightarrow> bytes" where
  "floe_segment S C position kind nonce p =
    u32_to_be_bytes (segment_prefix_word kind (32 + length p)) @ nonce @
    (case aes_gcm_seal S (context_key S C (unat position)) nonce (segment_aad position kind) p of (c, t) \<Rightarrow> c @ t)"

definition segment_open :: "prims \<Rightarrow> MessageContext \<Rightarrow> u64 \<Rightarrow> SegmentKind \<Rightarrow> bytes \<Rightarrow> bytes option" where
  "segment_open S C position kind seg =
    aes_gcm_open S (context_key S C (unat position)) (slice 4 16 seg) (segment_aad position kind)
      (slice 16 (length seg - 16) seg) (drop (length seg - 16) seg)"

text \<open>The payload lengths a segment of each kind may carry.\<close>

definition seg_len_ok :: "MessageContext \<Rightarrow> SegmentKind \<Rightarrow> nat \<Rightarrow> bool" where
  "seg_len_ok C kind n \<longleftrightarrow> (case kind of Final \<Rightarrow> n \<le> psl (mc_parameters C) | NonFinal \<Rightarrow> n = psl (mc_parameters C))"

lemma seg_len_ok_le: "seg_len_ok C kind n \<Longrightarrow> n \<le> psl (mc_parameters C)"
  by (simp add: seg_len_ok_def split: SegmentKind.splits)

lemma seg_len_bounds:
  assumes "context_ok C" "n \<le> psl (mc_parameters C)"
  shows "n + 32 < 4294967295" "n + 32 \<le> usize_max w" "n \<le> AES_GCM_MAX" "n + 32 \<le> csl (mc_parameters C)"
proof -
  have P: "params_ok (mc_parameters C)" using assms(1) by (simp add: context_ok_def)
  show "n + 32 \<le> csl (mc_parameters C)" using csl_psl [OF P] assms(2) by linarith
  then show lt: "n + 32 < 4294967295" using P by (simp add: params_ok_def)
  then show "n + 32 \<le> usize_max w" using usize_max_ge [of w] by linarith
  from lt show "n \<le> AES_GCM_MAX" by simp
qed

lemma floe_segment_length:
  assumes "prims_ok S" "length nonce = 12"
  shows "length (floe_segment S C position kind nonce p) = length p + 32"
  using prims_okD(1,2) [OF assms(1), of "context_key S C (unat position)" nonce "segment_aad position kind" p] assms(2)
  by (auto simp: floe_segment_def split: prod.splits)

lemma floe_segment_parts:
  assumes "prims_ok S" "length nonce = 12"
  shows "take 4 (floe_segment S C position kind nonce p) = u32_to_be_bytes (segment_prefix_word kind (32 + length p))"
    "slice 4 16 (floe_segment S C position kind nonce p) = nonce"
  using assms by (auto simp: floe_segment_def slice_def split: prod.splits)

lemma segment_open_sealed:
  assumes "prims_ok S" "length nonce = 12"
  shows "segment_open S C position kind (floe_segment S C position kind nonce p) = Some p"
proof -
  let ?k = "context_key S C (unat position)" and ?a = "segment_aad position kind"
  obtain c t where ct: "aes_gcm_seal S ?k nonce ?a p = (c, t)" by (cases "aes_gcm_seal S ?k nonce ?a p")
  then have "length c = length p" "length t = 16" "aes_gcm_open S ?k nonce ?a c t = Some p"
    using prims_okD [OF assms(1)] by (metis fst_conv, metis snd_conv, simp)
  then show ?thesis using assms(2) by (simp add: segment_open_def floe_segment_def ct slice_def)
qed

lemma segment_split:
  assumes "32 \<le> length seg"
  shows "seg = take 4 seg @ slice 4 16 seg @ slice 16 (length seg - 16) seg @ drop (length seg - 16) seg"
proof -
  have "slice 0 4 seg @ slice 4 16 seg @ slice 16 (length seg - 16) seg @ slice (length seg - 16) (length seg) seg = seg"
    using assms by (simp add: slice_adjacent)
  moreover have "slice 0 4 seg = take 4 seg" "slice (length seg - 16) (length seg) seg = drop (length seg - 16) seg"
    by (simp_all add: slice_def)
  ultimately show ?thesis by simp
qed

text \<open>A framed segment opens to \<open>p\<close> exactly when it is the specified segment of \<open>p\<close>.\<close>

lemma segment_open_iff:
  assumes "prims_ok S" "32 \<le> length seg"
    and "take 4 seg = u32_to_be_bytes (segment_prefix_word kind (length seg))"
  shows "segment_open S C position kind seg = Some p \<longleftrightarrow>
    seg = floe_segment S C position kind (slice 4 16 seg) p"
proof
  assume "segment_open S C position kind seg = Some p"
  then have seal: "aes_gcm_seal S (context_key S C (unat position)) (slice 4 16 seg) (segment_aad position kind) p =
      (slice 16 (length seg - 16) seg, drop (length seg - 16) seg)"
    using prims_okD(3) [OF assms(1)] by (simp add: segment_open_def)
  then have "length p = length seg - 32"
    using prims_okD(1) [OF assms(1), of "context_key S C (unat position)" "slice 4 16 seg" "segment_aad position kind" p]
    by simp
  moreover have "seg = take 4 seg @ slice 4 16 seg @ slice 16 (length seg - 16) seg @ drop (length seg - 16) seg"
    by (rule segment_split [OF assms(2)])
  ultimately show "seg = floe_segment S C position kind (slice 4 16 seg) p"
    using assms(2,3) seal by (simp add: floe_segment_def)
next
  assume "seg = floe_segment S C position kind (slice 4 16 seg) p"
  moreover have "length (slice 4 16 seg) = 12" using assms(2) by simp
  ultimately show "segment_open S C position kind seg = Some p" using segment_open_sealed [OF assms(1)] by metis
qed

section \<open>Encryption writes the specified segment\<close>

lemma ciphertext_segment_size_ok:
  assumes "context_ok C" "seg_len_ok C kind n"
  shows "ciphertext_segment_size E C n kind = Ok (n + 32)"
proof -
  have P: "params_ok (mc_parameters C)" using assms(1) by (simp add: context_ok_def)
  then show ?thesis
    using seg_len_bounds(2) [OF assms(1) seg_len_ok_le [OF assms(2)], of "pointer_width E"] assms(2) csl_psl [OF P]
    by (cases kind) (simp_all add: ciphertext_segment_size_def seg_len_ok_def usize_checked_add_def add.commute)
qed

lemma ciphertext_segment_size_error:
  assumes "context_ok C" "\<not> seg_len_ok C kind n"
  shows "ciphertext_segment_size E C n kind = Err (InvalidPlaintextLength n
    (case kind of Final \<Rightarrow> AtMost (psl (mc_parameters C)) | NonFinal \<Rightarrow> Exactly (psl (mc_parameters C))))"
  using assms by (cases kind) (simp_all add: ciphertext_segment_size_def seg_len_ok_def context_ok_def)

lemma write_segment_framing_ok:
  assumes "NonceGenerator_next E nonces = (Ok nonce, nonces')" "length nonce = 12"
    and "n < 4294967295" "32 \<le> n" "n \<le> length out"
  shows "write_segment_framing E nonces out kind n =
    (Ok nonce, nonces', u32_to_be_bytes (segment_prefix_word kind n) @ nonce @ drop 16 out)"
  using assms
  by (cases kind) (simp_all add: write_segment_framing_def segment_prefix_word_def splice_splice_adjacent splice_def)

lemma write_segment_framing_rng:
  assumes "NonceGenerator_next E nonces = (Err e, nonces')" "n < 4294967295" "4 \<le> length out"
  shows "\<exists>out'. write_segment_framing E nonces out kind n = (Err e, nonces', out') \<and> length out' = length out \<and>
    drop 16 out' = drop 16 out"
  using assms by (cases kind) (simp_all add: write_segment_framing_def splice_def)

lemma begin_segment_encryption_ok:
  assumes "lawful E S" "context_ok C" "cache_ok E C keys" "seg_len_ok C kind n" "n + 32 \<le> length out"
    and "NonceGenerator_next E nonces = (Ok nonce, nonces')" "length nonce = 12" "unat position < 2 ^ 40"
  obtains K keys' where "begin_segment_encryption E C keys nonces out n position kind =
      (Ok (n + 32, nonce, K, segment_aad position kind), keys', nonces',
       u32_to_be_bytes (segment_prefix_word kind (n + 32)) @ nonce @ drop 16 out)"
    "cache_ok E C keys'" "key_spec E S (context_key S C (unat position)) K"
proof -
  obtain K keys' where K: "KeyCache_key_for_position E keys C position = (Ok K, keys')" "cache_ok E C keys'"
      "key_spec E S (context_key S C (unat position)) K"
    by (rule key_lookupE [OF assms(1,3,8)])
  have lt: "n + 32 < 4294967295" using seg_len_bounds(1) [OF assms(2) seg_len_ok_le [OF assms(4)]] .
  have "begin_segment_encryption E C keys nonces out n position kind =
      (Ok (n + 32, nonce, K, segment_aad position kind), keys', nonces',
       u32_to_be_bytes (segment_prefix_word kind (n + 32)) @ nonce @ drop 16 out)"
    using assms(5) K(1)
    by (simp add: begin_segment_encryption_def ciphertext_segment_size_ok [OF assms(2,4)]
        write_segment_framing_ok [OF assms(6,7) lt])
  then show thesis using K that by blast
qed

lemma encrypt_segment_into_ok:
  assumes "lawful E S" "context_ok C" "cache_ok E C keys" "seg_len_ok C kind (length p)" "length p + 32 \<le> length out"
    and "NonceGenerator_next E nonces = (Ok nonce, nonces')" "length nonce = 12" "unat position < 2 ^ 40"
  obtains keys' where "encrypt_segment_into_inner E C keys nonces p position kind out =
      (Ok (length p + 32), keys', nonces', floe_segment S C position kind nonce p @ drop (length p + 32) out)"
    "cache_ok E C keys'"
proof -
  let ?k = "context_key S C (unat position)" and ?a = "segment_aad position kind"
  obtain K keys' where B: "begin_segment_encryption E C keys nonces out (length p) position kind =
      (Ok (length p + 32, nonce, K, ?a), keys', nonces',
       u32_to_be_bytes (segment_prefix_word kind (length p + 32)) @ nonce @ drop 16 out)"
    "cache_ok E C keys'" and K: "key_spec E S ?k K"
    by (rule begin_segment_encryption_ok [OF assms])
  obtain c t where ct: "aes_gcm_seal S ?k nonce ?a p = (c, t)" by (cases "aes_gcm_seal S ?k nonce ?a p")
  then have len: "length c = length p" "length t = 16"
    using prims_okD(1,2) [OF lawfulD(1) [OF assms(1)]] by (metis fst_conv, metis snd_conv)
  note bounds = seg_len_bounds [OF assms(2) seg_len_ok_le [OF assms(4)]]
  have "AeadKey_seal_into E K nonce ?a p (slice 0 (length p + 16) (drop 16 out)) = (Ok (), c @ t)"
    using K assms(5,7) bounds(2) [of "pointer_width E"] bounds(3) ct by (simp add: key_spec_def)
  with B len assms(5,7) have "encrypt_segment_into_inner E C keys nonces p position kind out =
      (Ok (length p + 32), keys', nonces', floe_segment S C position kind nonce p @ drop (length p + 32) out)"
    by (simp add: encrypt_segment_into_inner_def slice_append_right splice_def floe_segment_def ct add.commute)
  then show thesis using B(2) that by blast
qed

lemma encrypt_segment_in_place_ok:
  assumes "lawful E S" "context_ok C" "cache_ok E C keys" "seg_len_ok C kind n" "n + 32 \<le> length buffer"
    and "NonceGenerator_next E nonces = (Ok nonce, nonces')" "length nonce = 12" "unat position < 2 ^ 40"
  obtains keys' where "encrypt_segment_in_place_inner E C keys nonces buffer n position kind =
      (Ok (n + 32), keys', nonces',
       floe_segment S C position kind nonce (slice 16 (16 + n) buffer) @ drop (n + 32) buffer)"
    "cache_ok E C keys'"
proof -
  let ?k = "context_key S C (unat position)" and ?a = "segment_aad position kind" and ?p = "slice 16 (16 + n) buffer"
  obtain K keys' where B: "begin_segment_encryption E C keys nonces buffer n position kind =
      (Ok (n + 32, nonce, K, ?a), keys', nonces',
       u32_to_be_bytes (segment_prefix_word kind (n + 32)) @ nonce @ drop 16 buffer)"
    "cache_ok E C keys'" and K: "key_spec E S ?k K"
    by (rule begin_segment_encryption_ok [OF assms])
  obtain c t where ct: "aes_gcm_seal S ?k nonce ?a ?p = (c, t)" by (cases "aes_gcm_seal S ?k nonce ?a ?p")
  moreover have lenp: "length ?p = n" using assms(5) by simp
  ultimately have len: "length c = n" "length t = 16"
    using prims_okD(1,2) [OF lawfulD(1) [OF assms(1)]] by (metis fst_conv, metis snd_conv)
  note bounds = seg_len_bounds [OF assms(2) seg_len_ok_le [OF assms(4)]]
  have "AeadKey_seal E K nonce ?a ?p (replicate 16 0) = (Ok (), c, t)"
    using K assms(7) bounds(3) ct lenp by (simp add: key_spec_def)
  moreover have idx: "index_range 16 (16 + n) (F @ drop 16 buffer) = Ok ?p"
      "splice 16 c (F @ drop 16 buffer) = F @ c @ drop (16 + n) buffer"
      "index_range (16 + n) (n + 32) (F @ c @ drop (16 + n) buffer) = Ok (slice (16 + n) (n + 32) buffer)"
      "splice (16 + n) t (F @ c @ drop (16 + n) buffer) = F @ c @ t @ drop (n + 32) buffer"
    if "length F = 16" for F
    using that len lenp assms(5) by (simp_all add: slice_append_right splice_def slice_def add.commute)
  note idx [of "u32_to_be_bytes (segment_prefix_word kind (n + 32)) @ nonce"]
  ultimately have "encrypt_segment_in_place_inner E C keys nonces buffer n position kind =
      (Ok (n + 32), keys', nonces', floe_segment S C position kind nonce ?p @ drop (n + 32) buffer)"
    using B(1) len lenp assms(5,7)
    by (simp add: encrypt_segment_in_place_inner_def floe_segment_def ct add.commute [of 32])
  then show thesis using B(2) that by blast
qed

subsection \<open>Every error of an encryption\<close>

text \<open>
  \<open>encrypt_error\<close> is the error the code returns when the guards are taken in the order of
  the source; the length checks come before the nonce is drawn and the position check after.
\<close>

definition encrypt_error :: "'x env \<Rightarrow> MessageContext \<Rightarrow> 'x NonceGenerator \<Rightarrow> nat \<Rightarrow> nat \<Rightarrow> u64 \<Rightarrow> SegmentKind \<Rightarrow> Error option" where
  "encrypt_error E C nonces out_len n position kind =
    (if \<not> seg_len_ok C kind n then Some (InvalidPlaintextLength n
       (case kind of Final \<Rightarrow> AtMost (psl (mc_parameters C)) | NonFinal \<Rightarrow> Exactly (psl (mc_parameters C))))
     else if out_len < n + 32 then Some (OutputTooSmall out_len (n + 32))
     else if \<not> is_ok (fst (NonceGenerator_next E nonces)) then Some RngFailure
     else if 2 ^ 40 \<le> unat position then Some SegmentLimit
     else None)"

lemma begin_segment_encryption_error:
  assumes "lawful E S" "context_ok C" "cache_ok E C keys" "nonces_ok nonces"
    and "encrypt_error E C nonces (length out) n position kind = Some e"
  obtains nonces' out' where "begin_segment_encryption E C keys nonces out n position kind = (Err e, keys, nonces', out')"
    "nonces_ok nonces'" "length out' = length out" "drop 16 out' = drop 16 out"
proof (cases "seg_len_ok C kind n \<and> n + 32 \<le> length out")
  case False
  with assms(5) have "begin_segment_encryption E C keys nonces out n position kind = (Err e, keys, nonces, out)"
    by (auto simp: begin_segment_encryption_def encrypt_error_def ciphertext_segment_size_ok [OF assms(2)]
        ciphertext_segment_size_error [OF assms(2)] split: if_splits)
  then show thesis using assms(4) that by blast
next
  case True
  then have len: "n + 32 < 4294967295" "32 \<le> n + 32" "n + 32 \<le> length out" "4 \<le> length out"
    using seg_len_bounds(1) [OF assms(2) seg_len_ok_le] by auto
  note size = ciphertext_segment_size_ok [OF assms(2), of kind n E]
  have inv: "rng_ok E \<and> nonces_ok nonces" using lawfulD(6) [OF assms(1)] assms(4) by simp
  show thesis
  proof (cases rule: nonces.drawE [OF inv])
    case (1 g')
    obtain out' where "write_segment_framing E nonces out kind (n + 32) = (Err RngFailure, g', out')"
        "length out' = length out" "drop 16 out' = drop 16 out"
      using write_segment_framing_rng [OF 1(1) len(1,4)] by blast
    then show thesis using True assms(5) 1 size that
      by (auto simp: begin_segment_encryption_def encrypt_error_def)
  next
    case (2 nonce g')
    then have "2 ^ 40 \<le> unat position" "e = SegmentLimit"
      using assms(5) True by (auto simp: encrypt_error_def split: if_splits)
    then show thesis
      using 2 True len size that key_lookup_limit [OF assms(3)]
      by (simp add: begin_segment_encryption_def write_segment_framing_ok [OF 2(1,2) len(1-3)])
  qed
qed

lemma encrypt_segment_error:
  assumes "begin_segment_encryption E C keys nonces out n position kind = (Err e, keys', nonces', out')"
  shows "n = length p \<Longrightarrow> encrypt_segment_into_inner E C keys nonces p position kind out = (Err e, keys', nonces', out')"
    and "encrypt_segment_in_place_inner E C keys nonces out n position kind = (Err e, keys', nonces', out')"
  using assms by (simp_all add: encrypt_segment_into_inner_def encrypt_segment_in_place_inner_def)

section \<open>Decryption accepts exactly the specified segments\<close>

lemma validate_segment_iff:
  assumes "context_ok C"
  shows "validate_segment C seg kind = Ok n \<longleftrightarrow>
    length seg = n + 32 \<and> seg_len_ok C kind n \<and> take 4 seg = u32_to_be_bytes (segment_prefix_word kind (length seg))"
proof -
  have P: "params_ok (mc_parameters C)" using assms by (simp add: context_ok_def)
  note csl = csl_psl [OF P] and bound = params_ok_bounds [OF P]
  have slice: "slice 0 4 seg = take 4 seg" by (simp add: slice_def)
  have prefix: "take 4 seg = u32_to_be_bytes w \<longleftrightarrow> u32_from_be_bytes (take 4 seg) = w" if "4 \<le> length seg" for w
    using that u32_to_from_be_bytes [of "take 4 seg"] by auto
  show ?thesis
  proof (cases kind)
    case NonFinal
    then show ?thesis using csl bound prefix
      by (auto simp: validate_segment_def seg_len_ok_def segment_prefix_word_def slice Let_def index_range_def split: if_splits)
  next
    case Final
    have word: "ucast w = length_usize_to_u64 m \<longleftrightarrow> w = word_of_nat m" if "m < 4294967295" for w :: u32 and m
      using that unat_of_nat_u64 [of m] unat_of_nat_u32 [of m]
      by (simp add: length_usize_to_u64_def word_unat_eq_iff)
    show ?thesis using Final csl bound prefix word [of "length seg"]
      by (auto simp: validate_segment_def seg_len_ok_def segment_prefix_word_def slice Let_def index_range_def split: if_splits)
  qed
qed

lemma segment_open_length:
  assumes "prims_ok S" "length seg = n + 32" "segment_open S C position kind seg = Some p"
  shows "length p = n"
  using aes_gcm_open_length [OF assms(1)] assms(2,3) by (fastforce simp: segment_open_def)

lemma decrypt_segment_into_spec:
  assumes "lawful E S" "context_ok C" "cache_ok E C keys" "length seg = n + 32" "n \<le> psl (mc_parameters C)"
    and "n \<le> length out" "unat position < 2 ^ 40"
  obtains keys' out' where "decrypt_segment_into_inner E C keys seg position kind n out =
      (case segment_open S C position kind seg of Some p \<Rightarrow> Ok n | None \<Rightarrow> Err AuthenticationFailed, keys', out')"
    "cache_ok E C keys'" "length out' = length out"
    "\<And>p. segment_open S C position kind seg = Some p \<Longrightarrow> out' = p @ drop n out"
proof -
  let ?k = "context_key S C (unat position)" and ?a = "segment_aad position kind"
  obtain K keys' where K: "KeyCache_key_for_position E keys C position = (Ok K, keys')" "cache_ok E C keys'"
      "key_spec E S ?k K"
    by (rule key_lookupE [OF assms(1,3,7)])
  let ?c = "slice 16 (16 + n) seg" and ?t = "slice (16 + n) (n + 32) seg"
  have open': "segment_open S C position kind seg = aes_gcm_open S ?k (slice 4 16 seg) ?a ?c ?t"
    using assms(4) by (simp add: segment_open_def slice_def add.commute)
  obtain r plain where op: "AeadKey_open E K (slice 4 16 seg) ?a ?c ?t (take n out) = (r, plain)" by fastforce
  moreover have "open_result S ?k (slice 4 16 seg) ?a ?c ?t (AeadKey_open E K (slice 4 16 seg) ?a ?c ?t (take n out))"
    using K(3) assms(4,6) seg_len_bounds(3) [OF assms(2,5)] by (simp add: key_spec_def)
  ultimately have r: "open_result S ?k (slice 4 16 seg) ?a ?c ?t (r, plain)" by simp
  have run: "decrypt_segment_into_inner E C keys seg position kind n out =
      try_in r (keys', splice 0 plain out) (\<lambda>_. (Ok n, keys', splice 0 plain out))"
    using assms(4,6) op by (simp add: decrypt_segment_into_inner_def K(1) add.commute [of 16] Let_def)
  show thesis
  proof (cases "segment_open S C position kind seg")
    case None
    then have "r = Err AuthenticationFailed" "length plain = n"
      using r open' assms(4) by (simp_all add: open_result_def)
    then show thesis using run None K(2) assms(6) that [of keys' "splice 0 plain out"] by simp
  next
    case (Some p)
    then have "r = Ok ()" "plain = p" "length p = n"
      using r open' segment_open_length [OF lawfulD(1) [OF assms(1)] assms(4) Some] by (simp_all add: open_result_def)
    then show thesis using run Some K(2) assms(6) that [of keys' "splice 0 plain out"] by (simp add: splice_def)
  qed
qed

lemma open_segment_in_place_spec:
  assumes "lawful E S" "context_ok C" "cache_ok E C keys" "length seg = n + 32" "n \<le> psl (mc_parameters C)"
    and "unat position < 2 ^ 40"
  obtains keys' seg' where "open_segment_in_place E C keys seg position kind n =
      (case segment_open S C position kind seg of Some p \<Rightarrow> Ok p | None \<Rightarrow> Err AuthenticationFailed, keys', seg')"
    "cache_ok E C keys'" "length seg' = length seg"
    "\<And>p. segment_open S C position kind seg = Some p \<Longrightarrow> seg' = take 16 seg @ p @ drop (16 + n) seg"
proof -
  let ?k = "context_key S C (unat position)" and ?a = "segment_aad position kind"
  obtain K keys' where K: "KeyCache_key_for_position E keys C position = (Ok K, keys')" "cache_ok E C keys'"
      "key_spec E S ?k K"
    by (rule key_lookupE [OF assms(1,3,6)])
  let ?n = "drop 4 (take 16 seg)" and ?c = "take n (drop 16 seg)" and ?t = "drop n (drop 16 seg)"
  have open': "segment_open S C position kind seg = aes_gcm_open S ?k ?n ?a ?c ?t"
    using assms(4) by (simp add: segment_open_def slice_def drop_take add.commute)
  obtain r plain where op: "AeadKey_open_in_place E K ?n ?a ?t ?c = (r, plain)" by fastforce
  moreover have "open_result S ?k ?n ?a ?c ?t (AeadKey_open_in_place E K ?n ?a ?t ?c)"
    using K(3) assms(4) seg_len_bounds(3) [OF assms(2,5)] by (simp add: key_spec_def)
  ultimately have r: "open_result S ?k ?n ?a ?c ?t (r, plain)" by simp
  let ?s = "take 16 seg @ plain @ drop (16 + n) seg"
  have run: "open_segment_in_place E C keys seg position kind n = try_in r (keys', ?s) (\<lambda>_. (Ok plain, keys', ?s))"
    using assms(4) op by (simp add: open_segment_in_place_def K(1) add.commute Let_def)
  show thesis
  proof (cases "segment_open S C position kind seg")
    case None
    then have "r = Err AuthenticationFailed" "length plain = n"
      using r open' assms(4) by (simp_all add: open_result_def)
    then show thesis using run None K(2) assms(4) that [of keys' ?s] by simp
  next
    case (Some p)
    then have "r = Ok ()" "plain = p" "length p = n"
      using r open' segment_open_length [OF lawfulD(1) [OF assms(1)] assms(4) Some] by (simp_all add: open_result_def)
    then show thesis using run Some K(2) assms(4) that [of keys' ?s] by simp
  qed
qed

lemma decrypt_errors:
  assumes "cache_ok E C keys"
  shows "length out < n \<Longrightarrow> decrypt_segment_into_inner E C keys seg position kind n out =
      (Err (OutputTooSmall (length out) n), keys, out)"
    and "n \<le> length out \<Longrightarrow> 2 ^ 40 \<le> unat position \<Longrightarrow>
      decrypt_segment_into_inner E C keys seg position kind n out = (Err SegmentLimit, keys, out)"
    and "2 ^ 40 \<le> unat position \<Longrightarrow> open_segment_in_place E C keys seg position kind n = (Err SegmentLimit, keys, seg)"
  using key_lookup_limit [OF assms] by (simp_all add: decrypt_segment_into_inner_def open_segment_in_place_def)

section \<open>Properties\<close>

text \<open>
  C38: Encrypting in place and encrypting into a separate output agree: on the same payload, cache,
  generator and capacity they return the same result, every error included, and on success they
  write the same segment.
\<close>

theorem in_place_agrees_with_into:
  assumes "lawful E S" "context_ok C" "cache_ok E C keys" "nonces_ok nonces"
    and "length p = n" "slice 16 (16 + n) buffer = p" "length out = length buffer"
  shows "fst (encrypt_segment_in_place_inner E C keys nonces buffer n position kind) =
      fst (encrypt_segment_into_inner E C keys nonces p position kind out) \<and>
    (case fst (encrypt_segment_in_place_inner E C keys nonces buffer n position kind) of
       Ok written \<Rightarrow> take written (snd (snd (snd (encrypt_segment_in_place_inner E C keys nonces buffer n position kind)))) =
         take written (snd (snd (snd (encrypt_segment_into_inner E C keys nonces p position kind out))))
     | _ \<Rightarrow> True)"
proof (cases "encrypt_error E C nonces (length buffer) n position kind")
  case (Some e)
  obtain ns o1 where "begin_segment_encryption E C keys nonces buffer n position kind = (Err e, keys, ns, o1)"
    by (rule begin_segment_encryption_error [OF assms(1-4) Some])
  moreover obtain ns' o2 where "begin_segment_encryption E C keys nonces out n position kind = (Err e, keys, ns', o2)"
    by (rule begin_segment_encryption_error [OF assms(1-4) Some [folded assms(7)]])
  ultimately show ?thesis using encrypt_segment_error [of E C keys nonces] assms(5) by simp
next
  case None
  then have ok: "seg_len_ok C kind n" "n + 32 \<le> length buffer" "n + 32 \<le> length out" "unat position < 2 ^ 40"
    and drawn: "is_ok (fst (NonceGenerator_next E nonces))"
    using assms(7) by (auto simp: encrypt_error_def split: if_splits)
  have inv: "rng_ok E \<and> nonces_ok nonces" using lawfulD(6) [OF assms(1)] assms(4) by simp
  show ?thesis
  proof (cases rule: nonces.drawE [OF inv])
    case (2 nonce g')
    obtain k1 where "encrypt_segment_in_place_inner E C keys nonces buffer n position kind =
        (Ok (n + 32), k1, g', floe_segment S C position kind nonce (slice 16 (16 + n) buffer) @ drop (n + 32) buffer)"
      by (rule encrypt_segment_in_place_ok [OF assms(1-3) ok(1,2) 2(1,2) ok(4)])
    moreover obtain k2 where "encrypt_segment_into_inner E C keys nonces p position kind out =
        (Ok (length p + 32), k2, g', floe_segment S C position kind nonce p @ drop (length p + 32) out)"
      using encrypt_segment_into_ok [OF assms(1-3) _ _ 2(1,2) ok(4), of kind p out] ok(1,3) assms(5) by auto
    ultimately show ?thesis using assms(5,6) floe_segment_length [OF lawfulD(1) [OF assms(1)] 2(2)] by simp
  qed (use drawn in simp)
qed

definition toy_context :: MessageContext where
  "toy_context = MessageContext_new Provider_RING SEGMENT_64_B (replicate 48 1) (replicate 32 2) [3]"

lemma toy_context: "context_ok toy_context" "mc_parameters toy_context = SEGMENT_64_B"
  by (simp_all add: toy_context_def context_ok_def MessageContext_new_def segment_64)

theorem in_place_agrees_with_into_witness:
  "fst (encrypt_segment_in_place_inner toy_env toy_context KeyCache_empty (NonceGenerator_new (RingRng ([], [])))
      (replicate 64 4) 5 0 Final) =
      fst (encrypt_segment_into_inner toy_env toy_context KeyCache_empty (NonceGenerator_new (RingRng ([], [])))
      (replicate 5 4) 0 Final (replicate 64 0)) \<and>
    (case fst (encrypt_segment_in_place_inner toy_env toy_context KeyCache_empty (NonceGenerator_new (RingRng ([], [])))
      (replicate 64 4) 5 0 Final) of Ok written \<Rightarrow>
      take written (snd (snd (snd (encrypt_segment_in_place_inner toy_env toy_context KeyCache_empty
        (NonceGenerator_new (RingRng ([], []))) (replicate 64 4) 5 0 Final)))) =
      take written (snd (snd (snd (encrypt_segment_into_inner toy_env toy_context KeyCache_empty
        (NonceGenerator_new (RingRng ([], []))) (replicate 5 4) 0 Final (replicate 64 0)))))
      | _ \<Rightarrow> True)"
  by (rule in_place_agrees_with_into [OF toy_lawful toy_context(1) KeyCache_empty_ok NonceGenerator_new_ok])
    (simp_all add: slice_def)

end
