(* ===== verification/Floe_Buffer.thy ===== *)
theory Floe_Buffer
  imports Floe_Backends
begin

text \<open>
  The reusable segment buffer of \<^verbatim>\<open>src/src/buffer.rs\<close>: one allocation of a full encrypted
  segment and a tag saying what it holds. A method that returns a mutable slice of the
  buffer returns the bytes of that slice here, and \<open>SegmentBuffer_write_plaintext\<close> and
  \<open>SegmentBuffer_write_ciphertext\<close> are the caller's writes through such a slice.
\<close>

datatype BufferState = Empty | Plaintext nat | Ciphertext nat

record SegmentBuffer =
  sb_parameters :: Parameters
  sb_bytes :: bytes
  sb_state :: BufferState

definition SegmentBuffer_new :: "Parameters \<Rightarrow> SegmentBuffer" where
  "SegmentBuffer_new P =
    \<lparr> sb_parameters = P, sb_bytes = replicate (Parameters_ciphertext_segment_length P) 0, sb_state = Empty \<rparr>"

definition SegmentBuffer_parameters :: "SegmentBuffer \<Rightarrow> Parameters" where
  "SegmentBuffer_parameters B = sb_parameters B"

text \<open>What dropping the buffer leaves in the memory it owned.\<close>

definition SegmentBuffer_drop :: "'x env \<Rightarrow> SegmentBuffer \<Rightarrow> bytes" where
  "SegmentBuffer_drop E B = zeroize E (sb_bytes B)"

definition SegmentBuffer_capacity :: "SegmentBuffer \<Rightarrow> nat" where
  "SegmentBuffer_capacity B = length (sb_bytes B)"

definition SegmentBuffer_prepare_plaintext :: "SegmentBuffer \<Rightarrow> nat \<Rightarrow> bytes result \<times> SegmentBuffer" where
  "SegmentBuffer_prepare_plaintext B len =
    (let maximum = Parameters_plaintext_segment_length (sb_parameters B) in
     if maximum < len then (Err (InvalidPlaintextLength len (AtMost maximum)), B)
     else let B' = B\<lparr> sb_state := Plaintext len \<rparr>; payload_end = SEGMENT_PAYLOAD_OFFSET + len in
       (index_range SEGMENT_PAYLOAD_OFFSET payload_end (sb_bytes B'), B'))"

definition SegmentBuffer_prepare_ciphertext :: "SegmentBuffer \<Rightarrow> nat \<Rightarrow> bytes result \<times> SegmentBuffer" where
  "SegmentBuffer_prepare_ciphertext B len =
    try_in (Parameters_validate_ciphertext_segment_length (sb_parameters B) len) B (\<lambda>_.
      let B' = B\<lparr> sb_state := Ciphertext len \<rparr> in (index_range 0 len (sb_bytes B'), B'))"

definition SegmentBuffer_plaintext :: "SegmentBuffer \<Rightarrow> bytes result" where
  "SegmentBuffer_plaintext B =
    (case sb_state B of
       Plaintext len \<Rightarrow> index_range SEGMENT_PAYLOAD_OFFSET (SEGMENT_PAYLOAD_OFFSET + len) (sb_bytes B)
     | Empty \<Rightarrow> Err InvalidBufferState
     | Ciphertext _ \<Rightarrow> Err InvalidBufferState)"

definition SegmentBuffer_ciphertext :: "SegmentBuffer \<Rightarrow> bytes result" where
  "SegmentBuffer_ciphertext B =
    (case sb_state B of
       Ciphertext len \<Rightarrow> index_range 0 len (sb_bytes B)
     | Empty \<Rightarrow> Err InvalidBufferState
     | Plaintext _ \<Rightarrow> Err InvalidBufferState)"

definition SegmentBuffer_clear :: "'x env \<Rightarrow> SegmentBuffer \<Rightarrow> SegmentBuffer" where
  "SegmentBuffer_clear E B = B\<lparr> sb_bytes := zeroize E (sb_bytes B), sb_state := Empty \<rparr>"

definition SegmentBuffer_plaintext_length :: "SegmentBuffer \<Rightarrow> nat result" where
  "SegmentBuffer_plaintext_length B =
    (case sb_state B of
       Plaintext len \<Rightarrow> Ok len
     | Empty \<Rightarrow> Err InvalidBufferState
     | Ciphertext _ \<Rightarrow> Err InvalidBufferState)"

definition SegmentBuffer_ciphertext_length :: "SegmentBuffer \<Rightarrow> nat result" where
  "SegmentBuffer_ciphertext_length B =
    (case sb_state B of
       Ciphertext len \<Rightarrow> Ok len
     | Empty \<Rightarrow> Err InvalidBufferState
     | Plaintext _ \<Rightarrow> Err InvalidBufferState)"

definition SegmentBuffer_extend_plaintext :: "SegmentBuffer \<Rightarrow> bytes \<Rightarrow> nat result \<times> SegmentBuffer" where
  "SegmentBuffer_extend_plaintext B input =
    (let len = (case sb_state B of Plaintext n \<Rightarrow> n | Empty \<Rightarrow> 0 | Ciphertext _ \<Rightarrow> 0);
         capacity = Parameters_plaintext_segment_length (sb_parameters B)
     in if capacity < len then (Panic, B) else
     let copied = min (length input) (capacity - len);
         start = SEGMENT_PAYLOAD_OFFSET + len
     in try_in (index_range start (start + copied) (sb_bytes B)) B (\<lambda>_.
       (Ok copied, B\<lparr> sb_bytes := splice start (take copied input) (sb_bytes B),
                      sb_state := Plaintext (len + copied) \<rparr>)))"

definition SegmentBuffer_truncate_plaintext :: "SegmentBuffer \<Rightarrow> nat \<Rightarrow> unit result \<times> SegmentBuffer" where
  "SegmentBuffer_truncate_plaintext B len =
    try_in (SegmentBuffer_plaintext_length B) B (\<lambda>current.
      if current < len then (Err (InvalidPlaintextLength len (AtMost current)), B)
      else (Ok (), B\<lparr> sb_state := Plaintext len \<rparr>))"

definition SegmentBuffer_raw_mut :: "SegmentBuffer \<Rightarrow> bytes" where
  "SegmentBuffer_raw_mut B = sb_bytes B"

definition SegmentBuffer_matches :: "SegmentBuffer \<Rightarrow> Parameters \<Rightarrow> bool" where
  "SegmentBuffer_matches B P \<longleftrightarrow> sb_parameters B = P"

definition SegmentBuffer_mark_ciphertext :: "SegmentBuffer \<Rightarrow> nat \<Rightarrow> SegmentBuffer" where
  "SegmentBuffer_mark_ciphertext B len = B\<lparr> sb_state := Ciphertext len \<rparr>"

text \<open>The closure of \<open>decrypt_with\<close> also updates the state it captures, here of type \<open>'s\<close>.\<close>

definition SegmentBuffer_decrypt_with ::
  "'x env \<Rightarrow> SegmentBuffer \<Rightarrow> (SegmentBuffer \<Rightarrow> nat result \<times> 's \<times> SegmentBuffer) \<Rightarrow>
   bytes result \<times> 's \<times> SegmentBuffer" where
  "SegmentBuffer_decrypt_with E B operation =
    (case operation B of
       (Ok len, s, B') \<Rightarrow>
         (let B'' = B'\<lparr> sb_state := Plaintext len \<rparr> in
          (index_range SEGMENT_PAYLOAD_OFFSET (SEGMENT_PAYLOAD_OFFSET + len) (sb_bytes B''), s, B''))
     | (Err error, s, B') \<Rightarrow> (Err error, s, SegmentBuffer_clear E B')
     | (Panic, s, B') \<Rightarrow> (Panic, s, B'))"

definition SegmentBuffer_write_plaintext :: "SegmentBuffer \<Rightarrow> bytes \<Rightarrow> SegmentBuffer" where
  "SegmentBuffer_write_plaintext B src = B\<lparr> sb_bytes := splice SEGMENT_PAYLOAD_OFFSET src (sb_bytes B) \<rparr>"

definition SegmentBuffer_write_ciphertext :: "SegmentBuffer \<Rightarrow> bytes \<Rightarrow> SegmentBuffer" where
  "SegmentBuffer_write_ciphertext B src = B\<lparr> sb_bytes := splice 0 src (sb_bytes B) \<rparr>"

section \<open>The buffer invariant\<close>

definition buffer_ok :: "SegmentBuffer \<Rightarrow> bool" where
  "buffer_ok B \<longleftrightarrow> params_ok (sb_parameters B) \<and> length (sb_bytes B) = csl (sb_parameters B) \<and>
    (case sb_state B of
       Empty \<Rightarrow> True
     | Plaintext len \<Rightarrow> len \<le> psl (sb_parameters B)
     | Ciphertext len \<Rightarrow> 32 \<le> len \<and> len \<le> csl (sb_parameters B))"

lemma buffer_okD:
  assumes "buffer_ok B"
  shows "params_ok (sb_parameters B)" "length (sb_bytes B) = psl (sb_parameters B) + 32"
    "sb_state B = Plaintext len \<Longrightarrow> len \<le> psl (sb_parameters B)"
    "sb_state B = Ciphertext len \<Longrightarrow> 32 \<le> len \<and> len \<le> psl (sb_parameters B) + 32"
  using assms csl_psl [of "sb_parameters B"] by (simp_all add: buffer_ok_def)

lemma buffer_okI [wf_intros]:
  assumes "params_ok (sb_parameters B)" "length (sb_bytes B) = psl (sb_parameters B) + 32"
    and "\<And>len. sb_state B = Plaintext len \<Longrightarrow> len \<le> psl (sb_parameters B)"
    and "\<And>len. sb_state B = Ciphertext len \<Longrightarrow> 32 \<le> len \<and> len \<le> psl (sb_parameters B) + 32"
  shows "buffer_ok B"
  using assms csl_psl [of "sb_parameters B"] by (simp add: buffer_ok_def split: BufferState.split)

lemma SegmentBuffer_new_ok [wf_intros]: "params_ok P \<Longrightarrow> buffer_ok (SegmentBuffer_new P)"
  by (rule buffer_okI) (simp_all add: SegmentBuffer_new_def csl_psl)

text \<open>No method panics on a well-formed buffer, and each one leaves it well-formed.\<close>

lemma prepare_plaintext_spec:
  assumes "buffer_ok B"
  shows "SegmentBuffer_prepare_plaintext B len =
    (if len \<le> psl (sb_parameters B)
     then (Ok (slice 16 (16 + len) (sb_bytes B)), B\<lparr> sb_state := Plaintext len \<rparr>)
     else (Err (InvalidPlaintextLength len (AtMost (psl (sb_parameters B)))), B))"
  using buffer_okD(1,2) [OF assms] by (simp add: SegmentBuffer_prepare_plaintext_def)

lemma prepare_ciphertext_spec:
  assumes "buffer_ok B" "32 \<le> len" "len \<le> csl (sb_parameters B)"
  shows "SegmentBuffer_prepare_ciphertext B len =
    (Ok (take len (sb_bytes B)), B\<lparr> sb_state := Ciphertext len \<rparr>)"
proof -
  have "Parameters_validate_ciphertext_segment_length (sb_parameters B) len = Ok ()" using assms by simp
  then show ?thesis using buffer_okD(2) [OF assms(1)] assms csl_psl [OF buffer_okD(1) [OF assms(1)]]
    by (simp add: SegmentBuffer_prepare_ciphertext_def slice_def)
qed

lemma prepare_ciphertext_error:
  assumes "\<not> (32 \<le> len \<and> len \<le> csl (sb_parameters B))"
  shows "\<exists>e. SegmentBuffer_prepare_ciphertext B len = (Err e, B)"
  using assms
  by (auto simp: SegmentBuffer_prepare_ciphertext_def Parameters_validate_ciphertext_segment_length_def Let_def)

lemma extend_plaintext_spec:
  fixes input :: bytes
  assumes B: "buffer_ok B"
  defines "len \<equiv> (case sb_state B of Plaintext n \<Rightarrow> n | _ \<Rightarrow> 0)"
  defines "copied \<equiv> min (length input) (psl (sb_parameters B) - len)"
  shows "SegmentBuffer_extend_plaintext B input =
    (Ok copied, B\<lparr> sb_bytes := splice (16 + len) (take copied input) (sb_bytes B),
                   sb_state := Plaintext (len + copied) \<rparr>)" and "len \<le> psl (sb_parameters B)"
proof -
  show le: "len \<le> psl (sb_parameters B)"
    using buffer_okD(3) [OF B] by (simp add: len_def split: BufferState.split)
  then show "SegmentBuffer_extend_plaintext B input =
    (Ok copied, B\<lparr> sb_bytes := splice (16 + len) (take copied input) (sb_bytes B),
                   sb_state := Plaintext (len + copied) \<rparr>)"
    using buffer_okD(1,2) [OF B]
    by (cases "sb_state B") (simp_all add: SegmentBuffer_extend_plaintext_def len_def copied_def Let_def)
qed

lemma buffer_ops_ok:
  assumes "buffer_ok B"
  shows "buffer_ok (snd (SegmentBuffer_prepare_plaintext B len))"
    and "buffer_ok (snd (SegmentBuffer_prepare_ciphertext B len))"
    and "buffer_ok (snd (SegmentBuffer_extend_plaintext B input))"
    and "buffer_ok (snd (SegmentBuffer_truncate_plaintext B len))"
proof -
  note D = buffer_okD [OF assms]
  show "buffer_ok (snd (SegmentBuffer_prepare_plaintext B len))"
    using assms by (auto simp: prepare_plaintext_spec [OF assms] D intro!: buffer_okI)
  show "buffer_ok (snd (SegmentBuffer_prepare_ciphertext B len))"
  proof (cases "32 \<le> len \<and> len \<le> csl (sb_parameters B)")
    case True then show ?thesis using prepare_ciphertext_spec [OF assms] D csl_psl [OF D(1)]
      by (auto intro!: buffer_okI)
  next
    case False then show ?thesis using prepare_ciphertext_error [OF False] assms by auto
  qed
  show "buffer_ok (snd (SegmentBuffer_extend_plaintext B input))"
    using extend_plaintext_spec(1) [OF assms, of input] extend_plaintext_spec(2) [OF assms] D by (auto intro!: buffer_okI)
  show "buffer_ok (snd (SegmentBuffer_truncate_plaintext B len))"
    using assms by (auto simp: SegmentBuffer_truncate_plaintext_def SegmentBuffer_plaintext_length_def D(1,2)
        split: BufferState.split intro!: buffer_okI dest!: D(3))
qed

lemma SegmentBuffer_clear_ok:
  assumes "lawful E S" "buffer_ok B"
  shows "buffer_ok (SegmentBuffer_clear E B)"
    "sb_bytes (SegmentBuffer_clear E B) = replicate (csl (sb_parameters B)) 0"
    "sb_state (SegmentBuffer_clear E B) = Empty" "sb_parameters (SegmentBuffer_clear E B) = sb_parameters B"
  using assms buffer_okD(1,2) [OF assms(2)]
  by (auto simp: SegmentBuffer_clear_def lawfulD(7) csl_psl intro!: buffer_okI)

section \<open>Properties\<close>

text \<open>
  C40: On a well-formed segment buffer preparing, extending, truncating, reading and clearing never
  panic and leave the buffer well formed, and clearing zeroes every byte of it.
\<close>

theorem buffer_operations_safe:
  assumes "buffer_ok B" "lawful E S"
  shows "fst (SegmentBuffer_prepare_plaintext B n) \<noteq> Panic \<and> buffer_ok (snd (SegmentBuffer_prepare_plaintext B n)) \<and>
    fst (SegmentBuffer_prepare_ciphertext B n) \<noteq> Panic \<and> buffer_ok (snd (SegmentBuffer_prepare_ciphertext B n)) \<and>
    fst (SegmentBuffer_extend_plaintext B input) \<noteq> Panic \<and> buffer_ok (snd (SegmentBuffer_extend_plaintext B input)) \<and>
    fst (SegmentBuffer_truncate_plaintext B n) \<noteq> Panic \<and> buffer_ok (snd (SegmentBuffer_truncate_plaintext B n)) \<and>
    SegmentBuffer_plaintext B \<noteq> Panic \<and> SegmentBuffer_ciphertext B \<noteq> Panic \<and>
    buffer_ok (SegmentBuffer_clear E B) \<and> sb_bytes (SegmentBuffer_clear E B) = replicate (csl (sb_parameters B)) 0"
proof (intro conjI buffer_ops_ok [OF assms(1)])
  note D = buffer_okD [OF assms(1)]
  show "fst (SegmentBuffer_prepare_plaintext B n) \<noteq> Panic" by (simp add: prepare_plaintext_spec [OF assms(1)])
  show "fst (SegmentBuffer_prepare_ciphertext B n) \<noteq> Panic"
    using prepare_ciphertext_spec [OF assms(1), of n] prepare_ciphertext_error [of n B] by fastforce
  show "fst (SegmentBuffer_extend_plaintext B input) \<noteq> Panic" using extend_plaintext_spec(1) [OF assms(1), of input] by simp
  show "fst (SegmentBuffer_truncate_plaintext B n) \<noteq> Panic"
    by (cases "sb_state B") (simp_all add: SegmentBuffer_truncate_plaintext_def SegmentBuffer_plaintext_length_def)
  show "SegmentBuffer_plaintext B \<noteq> Panic" "SegmentBuffer_ciphertext B \<noteq> Panic"
    using D(2,3,4) by (cases "sb_state B"; simp add: SegmentBuffer_plaintext_def SegmentBuffer_ciphertext_def)+
  show "buffer_ok (SegmentBuffer_clear E B)" "sb_bytes (SegmentBuffer_clear E B) = replicate (csl (sb_parameters B)) 0"
    by (rule SegmentBuffer_clear_ok [OF assms(2,1)])+
qed

theorem buffer_operations_safe_witness:
  "fst (SegmentBuffer_prepare_plaintext (SegmentBuffer_new SEGMENT_64_B) 40) \<noteq> Panic \<and>
    buffer_ok (snd (SegmentBuffer_prepare_plaintext (SegmentBuffer_new SEGMENT_64_B) 40)) \<and>
    fst (SegmentBuffer_prepare_ciphertext (SegmentBuffer_new SEGMENT_64_B) 40) \<noteq> Panic \<and>
    buffer_ok (snd (SegmentBuffer_prepare_ciphertext (SegmentBuffer_new SEGMENT_64_B) 40)) \<and>
    fst (SegmentBuffer_extend_plaintext (SegmentBuffer_new SEGMENT_64_B) [1, 2]) \<noteq> Panic \<and>
    buffer_ok (snd (SegmentBuffer_extend_plaintext (SegmentBuffer_new SEGMENT_64_B) [1, 2])) \<and>
    fst (SegmentBuffer_truncate_plaintext (SegmentBuffer_new SEGMENT_64_B) 40) \<noteq> Panic \<and>
    buffer_ok (snd (SegmentBuffer_truncate_plaintext (SegmentBuffer_new SEGMENT_64_B) 40)) \<and>
    SegmentBuffer_plaintext (SegmentBuffer_new SEGMENT_64_B) \<noteq> Panic \<and>
    SegmentBuffer_ciphertext (SegmentBuffer_new SEGMENT_64_B) \<noteq> Panic \<and>
    buffer_ok (SegmentBuffer_clear toy_env (SegmentBuffer_new SEGMENT_64_B)) \<and>
    sb_bytes (SegmentBuffer_clear toy_env (SegmentBuffer_new SEGMENT_64_B)) =
      replicate (csl (sb_parameters (SegmentBuffer_new SEGMENT_64_B))) 0"
  by (rule buffer_operations_safe [OF SegmentBuffer_new_ok [OF segment_64(1)] toy_lawful])

end
