(* ===== verification/Floe_State.thy ===== *)
theory Floe_State
  imports Floe_Segment Floe_Buffer
begin

text \<open>
  The random-access states of \<^verbatim>\<open>src/src/state.rs\<close>: \<open>EncryptionState\<close> and
  \<open>DecryptionState\<close> with all their segment operations, the shared contexts they fork
  from, and the functions that start an encryption or a decryption. A message context
  behind an \<^verbatim>\<open>Arc\<close> is immutable, so sharing it is copying its value.
\<close>

section \<open>Encryption states\<close>

record 'x EncryptionState =
  es_context :: MessageContext
  es_keys :: "'x KeyCache"
  es_nonces :: "'x NonceGenerator"

record SharedEncryptionContext =
  sec_context :: MessageContext

definition EncryptionState_provider :: "'x EncryptionState \<Rightarrow> Provider" where
  "EncryptionState_provider s = mc_provider (es_context s)"

definition EncryptionState_parameters :: "'x EncryptionState \<Rightarrow> Parameters" where
  "EncryptionState_parameters s = mc_parameters (es_context s)"

definition EncryptionState_into_shared :: "'x EncryptionState \<Rightarrow> SharedEncryptionContext" where
  "EncryptionState_into_shared s = \<lparr> sec_context = es_context s \<rparr>"

definition EncryptionState_validate_plaintext_layout :: "'x EncryptionState \<Rightarrow> nat \<Rightarrow> SegmentLayout \<Rightarrow> unit result" where
  "EncryptionState_validate_plaintext_layout s actual segment =
    bind (validate_layout (es_context s) segment) (\<lambda>_.
    let expected = sl_plaintext_length segment in
    if actual = expected then Ok () else Err (InvalidPlaintextLength actual (Exactly expected)))"

definition EncryptionState_encrypt_segment_into_at ::
  "'x env \<Rightarrow> 'x EncryptionState \<Rightarrow> bytes \<Rightarrow> u64 \<Rightarrow> SegmentKind \<Rightarrow> bytes \<Rightarrow> nat result \<times> 'x EncryptionState \<times> bytes" where
  "EncryptionState_encrypt_segment_into_at E s plaintext position kind output =
    (case encrypt_segment_into_inner E (es_context s) (es_keys s) (es_nonces s) plaintext position kind output of
       (r, keys, nonces, output') \<Rightarrow> (r, s\<lparr> es_keys := keys, es_nonces := nonces \<rparr>, output'))"

definition EncryptionState_encrypt_segment_in_place_raw_at ::
  "'x env \<Rightarrow> 'x EncryptionState \<Rightarrow> bytes \<Rightarrow> nat \<Rightarrow> u64 \<Rightarrow> SegmentKind \<Rightarrow> nat result \<times> 'x EncryptionState \<times> bytes" where
  "EncryptionState_encrypt_segment_in_place_raw_at E s buffer plaintext_length position kind =
    (case encrypt_segment_in_place_inner E (es_context s) (es_keys s) (es_nonces s) buffer plaintext_length position kind of
       (r, keys, nonces, buffer') \<Rightarrow> (r, s\<lparr> es_keys := keys, es_nonces := nonces \<rparr>, buffer'))"

definition EncryptionState_encrypt_segment_at ::
  "'x env \<Rightarrow> 'x EncryptionState \<Rightarrow> bytes \<Rightarrow> u64 \<Rightarrow> SegmentKind \<Rightarrow> bytes result \<times> 'x EncryptionState" where
  "EncryptionState_encrypt_segment_at E s plaintext position kind =
    try_in (ciphertext_segment_size E (es_context s) (length plaintext) kind) s (\<lambda>required.
    case EncryptionState_encrypt_segment_into_at E s plaintext position kind (replicate required 0) of (r, s', output) \<Rightarrow>
    try_in r s' (\<lambda>_. (Ok output, s')))"

definition EncryptionState_encrypt_segment ::
  "'x env \<Rightarrow> 'x EncryptionState \<Rightarrow> bytes \<Rightarrow> SegmentLayout \<Rightarrow> bytes result \<times> 'x EncryptionState" where
  "EncryptionState_encrypt_segment E s plaintext segment =
    try_in (EncryptionState_validate_plaintext_layout s (length plaintext) segment) s (\<lambda>_.
    EncryptionState_encrypt_segment_at E s plaintext (sl_position segment) (sl_kind segment))"

definition EncryptionState_encrypt_segment_into ::
  "'x env \<Rightarrow> 'x EncryptionState \<Rightarrow> bytes \<Rightarrow> SegmentLayout \<Rightarrow> bytes \<Rightarrow> nat result \<times> 'x EncryptionState \<times> bytes" where
  "EncryptionState_encrypt_segment_into E s plaintext segment output =
    try_in (EncryptionState_validate_plaintext_layout s (length plaintext) segment) (s, output) (\<lambda>_.
    EncryptionState_encrypt_segment_into_at E s plaintext (sl_position segment) (sl_kind segment) output)"

definition EncryptionState_encrypt_segment_in_place_at ::
  "'x env \<Rightarrow> 'x EncryptionState \<Rightarrow> SegmentBuffer \<Rightarrow> u64 \<Rightarrow> SegmentKind \<Rightarrow>
   bytes result \<times> 'x EncryptionState \<times> SegmentBuffer" where
  "EncryptionState_encrypt_segment_in_place_at E s buffer position kind =
    (if \<not> SegmentBuffer_matches buffer (EncryptionState_parameters s) then (Err InvalidParameters, s, buffer) else
     try_in (SegmentBuffer_plaintext_length buffer) (s, buffer) (\<lambda>plaintext_length.
     case EncryptionState_encrypt_segment_in_place_raw_at E s (SegmentBuffer_raw_mut buffer) plaintext_length position kind of
       (r, s', raw) \<Rightarrow>
     let buffer' = buffer\<lparr> sb_bytes := raw \<rparr> in
     (case r of
        Ok written \<Rightarrow>
          (let buffer'' = SegmentBuffer_mark_ciphertext buffer' written in
           (SegmentBuffer_ciphertext buffer'', s', buffer''))
      | Err error \<Rightarrow> (Err error, s', SegmentBuffer_clear E buffer')
      | Panic \<Rightarrow> (Panic, s', buffer'))))"

definition EncryptionState_encrypt_segment_in_place ::
  "'x env \<Rightarrow> 'x EncryptionState \<Rightarrow> SegmentBuffer \<Rightarrow> SegmentLayout \<Rightarrow>
   bytes result \<times> 'x EncryptionState \<times> SegmentBuffer" where
  "EncryptionState_encrypt_segment_in_place E s buffer segment =
    try_in (bind (SegmentBuffer_plaintext_length buffer) (\<lambda>len.
            EncryptionState_validate_plaintext_layout s len segment)) (s, buffer) (\<lambda>_.
    EncryptionState_encrypt_segment_in_place_at E s buffer (sl_position segment) (sl_kind segment))"

definition EncryptionState_encrypt_segment_in_place_raw ::
  "'x env \<Rightarrow> 'x EncryptionState \<Rightarrow> bytes \<Rightarrow> SegmentLayout \<Rightarrow> nat result \<times> 'x EncryptionState \<times> bytes" where
  "EncryptionState_encrypt_segment_in_place_raw E s buffer segment =
    try_in (validate_layout (es_context s) segment) (s, buffer) (\<lambda>_.
    let plaintext_length = sl_plaintext_length segment in
    EncryptionState_encrypt_segment_in_place_raw_at E s buffer plaintext_length (sl_position segment) (sl_kind segment))"

definition SharedEncryptionContext_provider :: "SharedEncryptionContext \<Rightarrow> Provider" where
  "SharedEncryptionContext_provider c = mc_provider (sec_context c)"

definition SharedEncryptionContext_parameters :: "SharedEncryptionContext \<Rightarrow> Parameters" where
  "SharedEncryptionContext_parameters c = mc_parameters (sec_context c)"

definition SharedEncryptionContext_fork :: "SharedEncryptionContext \<Rightarrow> 'x \<Rightarrow> 'x EncryptionState" where
  "SharedEncryptionContext_fork c w =
    \<lparr> es_context = sec_context c, es_keys = KeyCache_empty,
      es_nonces = NonceGenerator_new (ProviderRng_new (mc_provider (sec_context c)) w) \<rparr>"

section \<open>Decryption states\<close>

record 'x DecryptionState =
  ds_context :: MessageContext
  ds_keys :: "'x KeyCache"

record SharedDecryptionContext =
  sdc_context :: MessageContext

definition DecryptionState_provider :: "'x DecryptionState \<Rightarrow> Provider" where
  "DecryptionState_provider s = mc_provider (ds_context s)"

definition DecryptionState_parameters :: "'x DecryptionState \<Rightarrow> Parameters" where
  "DecryptionState_parameters s = mc_parameters (ds_context s)"

definition DecryptionState_into_shared :: "'x DecryptionState \<Rightarrow> SharedDecryptionContext" where
  "DecryptionState_into_shared s = \<lparr> sdc_context = ds_context s \<rparr>"

definition DecryptionState_validate_ciphertext_layout :: "'x DecryptionState \<Rightarrow> nat \<Rightarrow> SegmentLayout \<Rightarrow> unit result" where
  "DecryptionState_validate_ciphertext_layout s actual segment =
    bind (validate_layout (ds_context s) segment) (\<lambda>_.
    let expected = sl_ciphertext_length segment in
    if actual = expected then Ok () else Err (InvalidCiphertextLength actual (Exactly expected)))"

definition DecryptionState_decrypt_segment_at ::
  "'x env \<Rightarrow> 'x DecryptionState \<Rightarrow> bytes \<Rightarrow> u64 \<Rightarrow> SegmentKind \<Rightarrow> bytes result \<times> 'x DecryptionState" where
  "DecryptionState_decrypt_segment_at E s ciphertext_segment position kind =
    try_in (validate_segment (ds_context s) ciphertext_segment kind) s (\<lambda>plaintext_length.
    case decrypt_segment_into_inner E (ds_context s) (ds_keys s) ciphertext_segment position kind plaintext_length
           (replicate plaintext_length 0) of (r, keys, output) \<Rightarrow>
    let s' = s\<lparr> ds_keys := keys \<rparr> in
    try_in r s' (\<lambda>_. (Ok output, s')))"

definition DecryptionState_decrypt_segment_at_framed ::
  "'x env \<Rightarrow> 'x DecryptionState \<Rightarrow> bytes \<Rightarrow> u64 \<Rightarrow> SegmentFraming \<Rightarrow> bytes result \<times> 'x DecryptionState" where
  "DecryptionState_decrypt_segment_at_framed E s ciphertext_segment position framing =
    try_in (validate_framed_length (length ciphertext_segment) framing) s (\<lambda>plaintext_length.
    case decrypt_segment_into_inner E (ds_context s) (ds_keys s) ciphertext_segment position (sf_kind framing)
           plaintext_length (replicate plaintext_length 0) of (r, keys, output) \<Rightarrow>
    let s' = s\<lparr> ds_keys := keys \<rparr> in
    try_in r s' (\<lambda>_. (Ok output, s')))"

definition DecryptionState_decrypt_segment_into_at ::
  "'x env \<Rightarrow> 'x DecryptionState \<Rightarrow> bytes \<Rightarrow> u64 \<Rightarrow> SegmentKind \<Rightarrow> bytes \<Rightarrow> nat result \<times> 'x DecryptionState \<times> bytes" where
  "DecryptionState_decrypt_segment_into_at E s ciphertext_segment position kind output =
    try_in (validate_segment (ds_context s) ciphertext_segment kind) (s, output) (\<lambda>plaintext_length.
    case decrypt_segment_into_inner E (ds_context s) (ds_keys s) ciphertext_segment position kind plaintext_length output of
      (r, keys, output') \<Rightarrow> (r, s\<lparr> ds_keys := keys \<rparr>, output'))"

definition DecryptionState_decrypt_segment_into_at_framed ::
  "'x env \<Rightarrow> 'x DecryptionState \<Rightarrow> bytes \<Rightarrow> u64 \<Rightarrow> SegmentFraming \<Rightarrow> bytes \<Rightarrow> nat result \<times> 'x DecryptionState \<times> bytes" where
  "DecryptionState_decrypt_segment_into_at_framed E s ciphertext_segment position framing output =
    try_in (validate_framed_length (length ciphertext_segment) framing) (s, output) (\<lambda>plaintext_length.
    case decrypt_segment_into_inner E (ds_context s) (ds_keys s) ciphertext_segment position (sf_kind framing)
           plaintext_length output of
      (r, keys, output') \<Rightarrow> (r, s\<lparr> ds_keys := keys \<rparr>, output'))"

definition DecryptionState_decrypt_segment_in_place_raw_at ::
  "'x env \<Rightarrow> 'x DecryptionState \<Rightarrow> bytes \<Rightarrow> u64 \<Rightarrow> SegmentKind \<Rightarrow> bytes result \<times> 'x DecryptionState \<times> bytes" where
  "DecryptionState_decrypt_segment_in_place_raw_at E s ciphertext_segment position kind =
    (case decrypt_segment_in_place_inner E (ds_context s) (ds_keys s) ciphertext_segment position kind of
       (r, keys, segment') \<Rightarrow> (r, s\<lparr> ds_keys := keys \<rparr>, segment'))"

definition DecryptionState_decrypt_segment ::
  "'x env \<Rightarrow> 'x DecryptionState \<Rightarrow> bytes \<Rightarrow> SegmentLayout \<Rightarrow> bytes result \<times> 'x DecryptionState" where
  "DecryptionState_decrypt_segment E s ciphertext_segment segment =
    try_in (DecryptionState_validate_ciphertext_layout s (length ciphertext_segment) segment) s (\<lambda>_.
    DecryptionState_decrypt_segment_at E s ciphertext_segment (sl_position segment) (sl_kind segment))"

definition DecryptionState_decrypt_segment_into ::
  "'x env \<Rightarrow> 'x DecryptionState \<Rightarrow> bytes \<Rightarrow> SegmentLayout \<Rightarrow> bytes \<Rightarrow> nat result \<times> 'x DecryptionState \<times> bytes" where
  "DecryptionState_decrypt_segment_into E s ciphertext_segment segment output =
    try_in (DecryptionState_validate_ciphertext_layout s (length ciphertext_segment) segment) (s, output) (\<lambda>_.
    DecryptionState_decrypt_segment_into_at E s ciphertext_segment (sl_position segment) (sl_kind segment) output)"

definition DecryptionState_decrypt_segment_in_place ::
  "'x env \<Rightarrow> 'x DecryptionState \<Rightarrow> SegmentBuffer \<Rightarrow> SegmentLayout \<Rightarrow>
   bytes result \<times> 'x DecryptionState \<times> SegmentBuffer" where
  "DecryptionState_decrypt_segment_in_place E s buffer0 segment =
    SegmentBuffer_decrypt_with E buffer0 (\<lambda>buffer.
      try_in (SegmentBuffer_ciphertext_length buffer) (s, buffer) (\<lambda>ciphertext_length.
      try_in (DecryptionState_validate_ciphertext_layout s ciphertext_length segment) (s, buffer) (\<lambda>_.
      if \<not> SegmentBuffer_matches buffer (DecryptionState_parameters s) then (Err InvalidParameters, s, buffer) else
      try_in (index_range 0 ciphertext_length (SegmentBuffer_raw_mut buffer)) (s, buffer) (\<lambda>raw.
      case DecryptionState_decrypt_segment_in_place_raw_at E s raw (sl_position segment) (sl_kind segment) of
        (r, s', raw') \<Rightarrow> (map_ok length r, s', buffer\<lparr> sb_bytes := splice 0 raw' (sb_bytes buffer) \<rparr>)))))"

definition DecryptionState_decrypt_segment_in_place_at_framed ::
  "'x env \<Rightarrow> 'x DecryptionState \<Rightarrow> SegmentBuffer \<Rightarrow> u64 \<Rightarrow> SegmentFraming \<Rightarrow>
   nat result \<times> 'x DecryptionState \<times> SegmentBuffer" where
  "DecryptionState_decrypt_segment_in_place_at_framed E s buffer position framing =
    (if \<not> SegmentBuffer_matches buffer (DecryptionState_parameters s) then (Err InvalidParameters, s, buffer) else
     try_in (SegmentBuffer_ciphertext_length buffer) (s, buffer) (\<lambda>ciphertext_length.
     try_in (validate_framed_length ciphertext_length framing) (s, buffer) (\<lambda>plaintext_length.
     try_in (index_range 0 ciphertext_length (SegmentBuffer_raw_mut buffer)) (s, buffer) (\<lambda>raw.
     case open_segment_in_place E (ds_context s) (ds_keys s) raw position (sf_kind framing) plaintext_length of
       (r, keys, raw') \<Rightarrow>
         (map_ok length r, s\<lparr> ds_keys := keys \<rparr>, buffer\<lparr> sb_bytes := splice 0 raw' (sb_bytes buffer) \<rparr>)))))"

definition DecryptionState_decrypt_segment_in_place_raw ::
  "'x env \<Rightarrow> 'x DecryptionState \<Rightarrow> bytes \<Rightarrow> SegmentLayout \<Rightarrow> bytes result \<times> 'x DecryptionState \<times> bytes" where
  "DecryptionState_decrypt_segment_in_place_raw E s ciphertext_segment segment =
    try_in (validate_layout (ds_context s) segment) (s, ciphertext_segment) (\<lambda>_.
    let required = sl_ciphertext_length segment in
    if length ciphertext_segment < required
    then (Err (InvalidCiphertextLength (length ciphertext_segment) (AtLeast required)), s, ciphertext_segment)
    else case DecryptionState_decrypt_segment_in_place_raw_at E s (take required ciphertext_segment)
                (sl_position segment) (sl_kind segment) of
      (r, s', raw) \<Rightarrow> (r, s', splice 0 raw ciphertext_segment))"

definition SharedDecryptionContext_provider :: "SharedDecryptionContext \<Rightarrow> Provider" where
  "SharedDecryptionContext_provider c = mc_provider (sdc_context c)"

definition SharedDecryptionContext_parameters :: "SharedDecryptionContext \<Rightarrow> Parameters" where
  "SharedDecryptionContext_parameters c = mc_parameters (sdc_context c)"

definition SharedDecryptionContext_fork :: "SharedDecryptionContext \<Rightarrow> 'x DecryptionState" where
  "SharedDecryptionContext_fork c = \<lparr> ds_context = sdc_context c, ds_keys = KeyCache_empty \<rparr>"

section \<open>Starting a message\<close>

definition start_encryption ::
  "'x env \<Rightarrow> Key \<Rightarrow> bytes \<Rightarrow> Parameters \<Rightarrow> 'x \<Rightarrow> ('x EncryptionState \<times> Header) result" where
  "start_encryption E key aad P w =
    bind (Key_provider E key) (\<lambda>provider.
    let rng = ProviderRng_new provider w in
    case ProviderRng_fill E rng (replicate FLOE_IV_LENGTH 0) of (r, floe_iv, rng') \<Rightarrow>
    bind r (\<lambda>_.
    let encoded = Parameters_encode P in
    bind (derive_header_tag E provider key encoded floe_iv aad) (\<lambda>header_tag.
    bind (derive_message_key E provider key encoded floe_iv aad) (\<lambda>message_key.
    let header = Header_from_fields encoded floe_iv header_tag;
        context = MessageContext_new provider P message_key floe_iv aad
    in bind (KeyCache_new E context) (\<lambda>keys.
    let nonces = NonceGenerator_new rng' in
    Ok (\<lparr> es_context = context, es_keys = keys, es_nonces = nonces \<rparr>, header))))))"

definition start_decryption_with_provider ::
  "'x env \<Rightarrow> Key \<Rightarrow> Provider \<Rightarrow> bytes \<Rightarrow> Parameters \<Rightarrow> Header \<Rightarrow> 'x DecryptionState result" where
  "start_decryption_with_provider E key provider aad P header =
    (let encoded = Parameters_encode P in
     if Header_encoded_parameters header \<noteq> encoded then Err InvalidHeaderParameters else
     let floe_iv = Header_floe_iv header in
     bind (derive_header_tag E provider key encoded floe_iv aad) (\<lambda>expected_tag.
     let tag_matches = ct_eq E expected_tag (Header_tag header) in
     if \<not> tag_matches then Err InvalidHeaderTag else
     bind (derive_message_key E provider key encoded floe_iv aad) (\<lambda>message_key.
     let context = MessageContext_new provider P message_key floe_iv aad in
     bind (KeyCache_new E context) (\<lambda>keys.
     Ok \<lparr> ds_context = context, ds_keys = keys \<rparr>))))"

definition start_decryption ::
  "'x env \<Rightarrow> Key \<Rightarrow> bytes \<Rightarrow> Parameters \<Rightarrow> Header \<Rightarrow> 'x DecryptionState result" where
  "start_decryption E key aad P header =
    bind (Key_provider E key) (\<lambda>provider. start_decryption_with_provider E key provider aad P header)"

definition start_decryption_inferred ::
  "'x env \<Rightarrow> Key \<Rightarrow> bytes \<Rightarrow> Header \<Rightarrow> 'x DecryptionState result" where
  "start_decryption_inferred E key aad header =
    bind (Key_provider E key) (\<lambda>provider.
    bind (Header_unverified_parameters header) (\<lambda>P.
    start_decryption_with_provider E key provider aad P header))"

section \<open>State invariants\<close>

definition enc_state_ok :: "'x env \<Rightarrow> 'x EncryptionState \<Rightarrow> bool" where
  "enc_state_ok E s \<longleftrightarrow> context_ok (es_context s) \<and> cache_ok E (es_context s) (es_keys s) \<and> nonces_ok (es_nonces s)"

definition dec_state_ok :: "'x env \<Rightarrow> 'x DecryptionState \<Rightarrow> bool" where
  "dec_state_ok E s \<longleftrightarrow> context_ok (ds_context s) \<and> cache_ok E (ds_context s) (ds_keys s)"

text \<open>The context a key, a parameter set, an IV and associated data determine.\<close>

definition floe_context :: "prims \<Rightarrow> Provider \<Rightarrow> Key \<Rightarrow> Parameters \<Rightarrow> bytes \<Rightarrow> bytes \<Rightarrow> MessageContext" where
  "floe_context S provider key P iv aad =
    \<lparr> mc_provider = provider, mc_parameters = P, mc_message_key = floe_message_key S (key_bytes key) P iv aad,
      mc_floe_iv = iv, mc_aad = aad \<rparr>"

definition floe_header :: "prims \<Rightarrow> Key \<Rightarrow> Parameters \<Rightarrow> bytes \<Rightarrow> bytes \<Rightarrow> Header" where
  "floe_header S key P iv aad = Header (Parameters_encode P @ iv @ floe_header_tag S (key_bytes key) P iv aad)"

lemma floe_context_sel [simp]:
  "mc_provider (floe_context S p K P iv aad) = p" "mc_parameters (floe_context S p K P iv aad) = P"
  "mc_floe_iv (floe_context S p K P iv aad) = iv" "mc_aad (floe_context S p K P iv aad) = aad"
  by (simp_all add: floe_context_def)

text \<open>The bytes of a segment do not depend on the provider.\<close>

lemma floe_segment_provider:
  "floe_segment S (floe_context S p K P iv aad) = floe_segment S (floe_context S q K P iv aad)"
  "segment_open S (floe_context S p K P iv aad) = segment_open S (floe_context S q K P iv aad)"
  by (intro ext; simp add: floe_segment_def segment_open_def floe_context_def)+

lemma floe_context_ok: "prims_ok S \<Longrightarrow> params_ok P \<Longrightarrow> length iv = 32 \<Longrightarrow> context_ok (floe_context S p K P iv aad)"
  by (simp add: context_ok_def floe_context_def)

lemma KeyCache_new_total:
  assumes "lawful E S"
  shows "\<exists>keys. KeyCache_new E C = Ok keys \<and> cache_ok E C keys"
proof -
  have m: "Parameters_masked_position (mc_parameters C) 0 = 0" by (simp add: Parameters_masked_position_def)
  obtain K where "AeadKey_new E (mc_provider C) (context_key S C 0) = Ok K"
    using AeadKey_new_spec [OF assms] lawfulD(1) [OF assms] by force
  then have "CachedKey_derive E C 0 = Ok \<lparr> ck_masked_position = 0, ck_key = K \<rparr>"
    using derive_segment_key_spec [OF assms, of "mc_provider C" "mc_parameters C" "mc_message_key C" "mc_floe_iv C" "mc_aad C" 0]
    by (simp add: CachedKey_derive_def m)
  then have "KeyCache_new E C = Ok \<lparr> cached_key = Some \<lparr> ck_masked_position = 0, ck_key = K \<rparr> \<rparr>"
    by (simp add: KeyCache_new_def)
  then show ?thesis using KeyCache_new_ok by blast
qed

section \<open>Starting a message\<close>

lemma start_encryption_spec:
  assumes "lawful E S" "params_ok P" "Key_provider E key = Ok provider"
  obtains (failed) "start_encryption E key aad P w = Err RngFailure"
      "fst (ProviderRng_fill E (ProviderRng_new provider w) (replicate 32 0)) = Err RngFailure"
    | (started) s iv rng where "start_encryption E key aad P w = Ok (s, floe_header S key P iv aad)" "length iv = 32"
        "ProviderRng_fill E (ProviderRng_new provider w) (replicate 32 0) = (Ok (), iv, rng)"
        "es_context s = floe_context S provider key P iv aad" "enc_state_ok E s" "es_nonces s = NonceGenerator_new rng"
proof -
  obtain r iv rng where fill: "ProviderRng_fill E (ProviderRng_new provider w) (replicate 32 0) = (r, iv, rng)"
    by (cases "ProviderRng_fill E (ProviderRng_new provider w) (replicate 32 0)") auto
  then have iv: "length iv = 32" and r: "r = Ok () \<or> r = Err RngFailure"
    using ProviderRng_fill_total [OF lawfulD(6) [OF assms(1)], of "ProviderRng_new provider w" "replicate 32 0"]
    by simp_all
  obtain keys where keys: "KeyCache_new E (floe_context S provider key P iv aad) = Ok keys"
      "cache_ok E (floe_context S provider key P iv aad) keys"
    using KeyCache_new_total [OF assms(1)] by blast
  from r show thesis
  proof
    assume "r = Err RngFailure"
    then show thesis using fill assms(3) failed by (simp add: start_encryption_def)
  next
    assume ok: "r = Ok ()"
    let ?s = "\<lparr> es_context = floe_context S provider key P iv aad, es_keys = keys, es_nonces = NonceGenerator_new rng \<rparr>"
    have "start_encryption E key aad P w = Ok (?s, floe_header S key P iv aad)"
      using fill ok assms(3) keys(1) iv lawfulD(1) [OF assms(1)]
      by (simp add: start_encryption_def derive_header_tag_spec [OF assms(1)] derive_message_key_spec [OF assms(1)]
          MessageContext_new_def floe_header_def Header_from_fields_eq Let_def flip: floe_context_def)
    moreover have "enc_state_ok E ?s"
      using keys(2) floe_context_ok [OF lawfulD(1) [OF assms(1)] assms(2) iv] by (simp add: enc_state_ok_def NonceGenerator_new_ok)
    ultimately show thesis using started iv fill ok by simp
  qed
qed

text \<open>
  A header is accepted exactly when it is the header of the expected parameters, its own
  IV and the given key and associated data.
\<close>

lemma start_decryption_with_provider_spec:
  assumes "lawful E S" "params_ok P" "length (header_bytes H) = 74"
  shows "start_decryption_with_provider E key provider aad P H =
    (if Header_encoded_parameters H \<noteq> Parameters_encode P then Err InvalidHeaderParameters
     else if Header_tag H \<noteq> floe_header_tag S (key_bytes key) P (Header_floe_iv H) aad then Err InvalidHeaderTag
     else map_ok (\<lambda>keys. \<lparr> ds_context = floe_context S provider key P (Header_floe_iv H) aad, ds_keys = keys \<rparr>)
            (KeyCache_new E (floe_context S provider key P (Header_floe_iv H) aad)))"
proof -
  obtain keys where "KeyCache_new E (floe_context S provider key P (Header_floe_iv H) aad) = Ok keys"
    using KeyCache_new_total [OF assms(1)] by blast
  then show ?thesis
    by (auto simp: start_decryption_with_provider_def Let_def derive_header_tag_spec [OF assms(1)]
        derive_message_key_spec [OF assms(1)] MessageContext_new_def lawfulD(8) [OF assms(1)] simp flip: floe_context_def)
qed

lemma start_decryption_accepts:
  assumes "lawful E S" "params_ok P" "length (header_bytes H) = 74"
  shows "(\<exists>s. start_decryption_with_provider E key provider aad P H = Ok s) \<longleftrightarrow>
    H = floe_header S key P (Header_floe_iv H) aad"
proof -
  note spec = start_decryption_with_provider_spec [OF assms, of key provider aad]
  note F = Header_eq_fields [OF assms(3)]
  obtain keys where "KeyCache_new E (floe_context S provider key P (Header_floe_iv H) aad) = Ok keys"
    using KeyCache_new_total [OF assms(1)] by blast
  then have "(\<exists>s. start_decryption_with_provider E key provider aad P H = Ok s) \<longleftrightarrow>
    Header_encoded_parameters H = Parameters_encode P \<and>
    Header_tag H = floe_header_tag S (key_bytes key) P (Header_floe_iv H) aad"
    by (auto simp: spec)
  moreover have "H = floe_header S key P (Header_floe_iv H) aad \<longleftrightarrow>
    Header_encoded_parameters H = Parameters_encode P \<and>
    Header_tag H = floe_header_tag S (key_bytes key) P (Header_floe_iv H) aad"
    unfolding floe_header_def
    by (subst F(1)) (use F(2-4) in simp)
  ultimately show ?thesis by simp
qed

lemma start_decryption_okD:
  assumes "lawful E S" "params_ok P" "length (header_bytes H) = 74"
    and "start_decryption_with_provider E key provider aad P H = Ok s"
  shows "H = floe_header S key P (Header_floe_iv H) aad" "ds_context s = floe_context S provider key P (Header_floe_iv H) aad"
    "dec_state_ok E s"
proof -
  show "H = floe_header S key P (Header_floe_iv H) aad" using start_decryption_accepts [OF assms(1-3)] assms(4) by blast
  show "ds_context s = floe_context S provider key P (Header_floe_iv H) aad" "dec_state_ok E s"
    using assms(4) KeyCache_new_ok floe_context_ok [OF lawfulD(1) [OF assms(1)] assms(2)] Header_eq_fields(3) [OF assms(3)]
    by (auto simp: start_decryption_with_provider_spec [OF assms(1-3)] dec_state_ok_def split: if_splits)
qed

lemma start_decryption_floe_header:
  assumes "lawful E S" "params_ok P" "length iv = 32"
  obtains s where "start_decryption_with_provider E key provider aad P (floe_header S key P iv aad) = Ok s"
    "ds_context s = floe_context S provider key P iv aad" "dec_state_ok E s"
proof -
  let ?H = "floe_header S key P iv aad"
  have len: "length (header_bytes ?H) = 74" using assms(3) lawfulD(1) [OF assms(1)] by (simp add: floe_header_def)
  have "Header_floe_iv ?H = iv"
    using assms(3) lawfulD(1) [OF assms(1)] by (simp add: floe_header_def Header_fields)
  then show thesis
    using start_decryption_accepts [OF assms(1,2) len] start_decryption_okD [OF assms(1,2) len] that by metis
qed

section \<open>Encrypting a segment\<close>

lemma buffer_ok_bytes:
  "buffer_ok B \<Longrightarrow> length bs = length (sb_bytes B) \<Longrightarrow> buffer_ok (B\<lparr> sb_bytes := bs \<rparr>)"
  by (cases "sb_state B") (simp_all add: buffer_ok_def)

text \<open>
  What an encryption at a position and kind may do: fail for want of randomness, or
  produce the specified segment under a 12-byte nonce. The context never changes.
\<close>

lemma enc_state_okD:
  assumes "enc_state_ok E s"
  shows "context_ok (es_context s)" "cache_ok E (es_context s) (es_keys s)" "nonces_ok (es_nonces s)"
  using assms by (simp_all add: enc_state_ok_def)

lemma enc_state_okI:
  "enc_state_ok E s \<Longrightarrow> cache_ok E (es_context s) keys \<Longrightarrow> nonces_ok nonces \<Longrightarrow>
   enc_state_ok E (s\<lparr> es_keys := keys, es_nonces := nonces \<rparr>)"
  by (simp add: enc_state_ok_def)

lemma encrypt_into_at_cases:
  assumes "lawful E S" "enc_state_ok E s" "seg_len_ok (es_context s) kind (length p)" "length p + 32 \<le> length out"
    and "unat position < 2 ^ 40"
  obtains (failed) s' out' where "EncryptionState_encrypt_segment_into_at E s p position kind out = (Err RngFailure, s', out')"
      "enc_state_ok E s'" "es_context s' = es_context s" "length out' = length out" "fst (NonceGenerator_next E (es_nonces s)) = Err RngFailure"
    | (sealed) nonce s' where "EncryptionState_encrypt_segment_into_at E s p position kind out =
        (Ok (length p + 32), s', floe_segment S (es_context s) position kind nonce p @ drop (length p + 32) out)"
      "length nonce = 12" "enc_state_ok E s'" "es_context s' = es_context s"
      "NonceGenerator_next E (es_nonces s) = (Ok nonce, es_nonces s')"
proof -
  note D = enc_state_okD [OF assms(2)]
  have inv: "rng_ok E \<and> nonces_ok (es_nonces s)" using lawfulD(6) [OF assms(1)] D(3) by simp
  show thesis
  proof (cases rule: nonces.drawE [OF inv])
    case (1 g')
    then have err: "encrypt_error E (es_context s) (es_nonces s) (length out) (length p) position kind = Some RngFailure"
      using assms(3,4) by (simp add: encrypt_error_def)
    obtain nonces' out' where B: "begin_segment_encryption E (es_context s) (es_keys s) (es_nonces s) out (length p) position kind =
        (Err RngFailure, es_keys s, nonces', out')" "nonces_ok nonces'" "length out' = length out"
      by (rule begin_segment_encryption_error [OF assms(1) D err])
    show thesis
    proof (rule failed)
      show "EncryptionState_encrypt_segment_into_at E s p position kind out =
          (Err RngFailure, s\<lparr> es_keys := es_keys s, es_nonces := nonces' \<rparr>, out')"
        using encrypt_segment_error(1) [OF B(1)] by (simp add: EncryptionState_encrypt_segment_into_at_def)
      show "enc_state_ok E (s\<lparr> es_keys := es_keys s, es_nonces := nonces' \<rparr>)"
        by (rule enc_state_okI [OF assms(2) D(2) B(2)])
    qed (use B 1 in simp_all)
  next
    case (2 nonce g')
    obtain keys' where K: "encrypt_segment_into_inner E (es_context s) (es_keys s) (es_nonces s) p position kind out =
        (Ok (length p + 32), keys', g', floe_segment S (es_context s) position kind nonce p @ drop (length p + 32) out)"
        "cache_ok E (es_context s) keys'"
      by (rule encrypt_segment_into_ok [OF assms(1) D(1,2) assms(3,4) 2(1,2) assms(5)])
    show thesis
      by (rule sealed [of "s\<lparr> es_keys := keys', es_nonces := g' \<rparr>" nonce])
        (use K 2 assms(2) in \<open>simp_all add: EncryptionState_encrypt_segment_into_at_def enc_state_ok_def\<close>)
  qed
qed

lemma encrypt_at_cases:
  assumes "lawful E S" "enc_state_ok E s" "seg_len_ok (es_context s) kind (length p)" "unat position < 2 ^ 40"
  obtains (failed) s' where "EncryptionState_encrypt_segment_at E s p position kind = (Err RngFailure, s')"
      "enc_state_ok E s'" "es_context s' = es_context s" "fst (NonceGenerator_next E (es_nonces s)) = Err RngFailure"
    | (sealed) nonce s' where "EncryptionState_encrypt_segment_at E s p position kind =
        (Ok (floe_segment S (es_context s) position kind nonce p), s')"
      "length nonce = 12" "enc_state_ok E s'" "es_context s' = es_context s"
      "NonceGenerator_next E (es_nonces s) = (Ok nonce, es_nonces s')"
proof -
  have len: "length p + 32 \<le> length (replicate (length p + 32) (0 :: u8))" by simp
  note size = ciphertext_segment_size_ok [OF enc_state_okD(1) [OF assms(2)] assms(3)]
  show thesis
    by (cases rule: encrypt_into_at_cases [OF assms(1-3) len assms(4)])
      (use that in \<open>simp_all add: EncryptionState_encrypt_segment_at_def size\<close>)
qed

text \<open>
  Encrypting in a buffer that holds the plaintext leaves the same segment in the buffer;
  when it fails the buffer is wiped.
\<close>

lemma encrypt_in_place_at_cases:
  assumes "lawful E S" "enc_state_ok E s" "buffer_ok B" "sb_parameters B = mc_parameters (es_context s)"
    and "sb_state B = Plaintext n" "seg_len_ok (es_context s) kind n" "unat position < 2 ^ 40"
  defines "p \<equiv> slice 16 (16 + n) (sb_bytes B)"
  obtains (failed) s' B' where "EncryptionState_encrypt_segment_in_place_at E s B position kind = (Err RngFailure, s', B')"
      "enc_state_ok E s'" "es_context s' = es_context s" "buffer_ok B'" "sb_parameters B' = sb_parameters B" "sb_state B' = Empty"
      "sb_bytes B' = replicate (csl (sb_parameters B)) 0" "fst (NonceGenerator_next E (es_nonces s)) = Err RngFailure"
    | (sealed) nonce s' B' where "EncryptionState_encrypt_segment_in_place_at E s B position kind =
        (Ok (floe_segment S (es_context s) position kind nonce p), s', B')"
      "length nonce = 12" "enc_state_ok E s'" "es_context s' = es_context s"
      "NonceGenerator_next E (es_nonces s) = (Ok nonce, es_nonces s')"
      "buffer_ok B'" "sb_parameters B' = sb_parameters B" "sb_state B' = Ciphertext (n + 32)"
proof -
  note D = enc_state_okD [OF assms(2)] and BD = buffer_okD [OF assms(3)]
  let ?C = "es_context s"
  have n: "n \<le> psl (mc_parameters ?C)" "n + 32 \<le> length (sb_bytes B)"
    using seg_len_ok_le [OF assms(6)] BD(2) assms(4) by simp_all
  have inv: "rng_ok E \<and> nonces_ok (es_nonces s)" using lawfulD(6) [OF assms(1)] D(3) by simp
  note unf = EncryptionState_encrypt_segment_in_place_at_def SegmentBuffer_matches_def EncryptionState_parameters_def
    SegmentBuffer_plaintext_length_def EncryptionState_encrypt_segment_in_place_raw_at_def SegmentBuffer_raw_mut_def
  show thesis
  proof (cases rule: nonces.drawE [OF inv])
    case (1 g')
    then have err: "encrypt_error E ?C (es_nonces s) (length (sb_bytes B)) n position kind = Some RngFailure"
      using assms(6) n(2) by (simp add: encrypt_error_def)
    obtain nonces' out' where G: "begin_segment_encryption E ?C (es_keys s) (es_nonces s) (sb_bytes B) n position kind =
        (Err RngFailure, es_keys s, nonces', out')" "nonces_ok nonces'" "length out' = length (sb_bytes B)"
      by (rule begin_segment_encryption_error [OF assms(1) D err])
    let ?B = "B\<lparr> sb_bytes := out' \<rparr>"
    have "buffer_ok ?B" by (rule buffer_ok_bytes [OF assms(3) G(3)])
    note clear = SegmentBuffer_clear_ok [OF assms(1) this]
    show thesis
    proof (rule failed)
      show "EncryptionState_encrypt_segment_in_place_at E s B position kind =
          (Err RngFailure, s\<lparr> es_keys := es_keys s, es_nonces := nonces' \<rparr>, SegmentBuffer_clear E ?B)"
        using encrypt_segment_error(2) [OF G(1)] assms(4,5) by (simp add: unf)
      show "enc_state_ok E (s\<lparr> es_keys := es_keys s, es_nonces := nonces' \<rparr>)"
        by (rule enc_state_okI [OF assms(2) D(2) G(2)])
    qed (use clear 1 in simp_all)
  next
    case (2 nonce g')
    obtain keys' where K: "encrypt_segment_in_place_inner E ?C (es_keys s) (es_nonces s) (sb_bytes B) n position kind =
        (Ok (n + 32), keys', g', floe_segment S ?C position kind nonce p @ drop (n + 32) (sb_bytes B))"
        "cache_ok E ?C keys'"
      unfolding p_def by (rule encrypt_segment_in_place_ok [OF assms(1) D(1,2) assms(6) n(2) 2(1,2) assms(7)])
    let ?B = "B\<lparr> sb_bytes := floe_segment S ?C position kind nonce p @ drop (n + 32) (sb_bytes B), sb_state := Ciphertext (n + 32) \<rparr>"
    have "length p = n" using n(2) by (simp add: p_def)
    then have len: "length (floe_segment S ?C position kind nonce p) = n + 32"
      using floe_segment_length [OF lawfulD(1) [OF assms(1)] 2(2)] by simp
    show thesis
    proof (rule sealed)
      show "EncryptionState_encrypt_segment_in_place_at E s B position kind =
          (Ok (floe_segment S ?C position kind nonce p), s\<lparr> es_keys := keys', es_nonces := g' \<rparr>, ?B)"
        using K(1) len n(2) assms(4,5)
        by (simp add: unf SegmentBuffer_mark_ciphertext_def SegmentBuffer_ciphertext_def)
      show "enc_state_ok E (s\<lparr> es_keys := keys', es_nonces := g' \<rparr>)"
        by (rule enc_state_okI [OF assms(2) K(2) 2(3) [THEN conjunct2]])
      show "buffer_ok ?B" using BD len n assms(4) by (intro buffer_okI) simp_all
    qed (use 2 in simp_all)
  qed
qed

section \<open>Decrypting a segment\<close>

definition framing_ok :: "Parameters \<Rightarrow> SegmentFraming \<Rightarrow> bool" where
  "framing_ok P F \<longleftrightarrow> 32 \<le> sf_ciphertext_length F \<and> sf_ciphertext_length F \<le> csl P \<and>
    sf_plaintext_length F = sf_ciphertext_length F - 32 \<and> (sf_kind F = NonFinal \<longrightarrow> sf_ciphertext_length F = csl P)"

lemma framing_decode_ok: "params_ok P \<Longrightarrow> SegmentFraming_decode P prefix = Ok F \<Longrightarrow> framing_ok P F"
  using framing_decode_okD by (simp add: framing_ok_def)

lemma framing_okD:
  assumes "context_ok C" "framing_ok (mc_parameters C) F"
  shows "sf_ciphertext_length F = sf_plaintext_length F + 32" "sf_plaintext_length F \<le> psl (mc_parameters C)"
    "seg_len_ok C (sf_kind F) (sf_plaintext_length F)"
  using assms csl_psl [of "mc_parameters C"]
  by (auto simp: framing_ok_def context_ok_def seg_len_ok_def split: SegmentKind.split)

lemma dec_state_okD:
  assumes "dec_state_ok E s"
  shows "context_ok (ds_context s)" "cache_ok E (ds_context s) (ds_keys s)"
  using assms by (simp_all add: dec_state_ok_def)

lemma decrypt_into_at_framed_spec:
  assumes "lawful E S" "dec_state_ok E s" "framing_ok (mc_parameters (ds_context s)) F"
    and "length seg = sf_ciphertext_length F" "sf_plaintext_length F \<le> length out" "unat position < 2 ^ 40"
  obtains s' out' where "DecryptionState_decrypt_segment_into_at_framed E s seg position F out =
      (case segment_open S (ds_context s) position (sf_kind F) seg of
         Some p \<Rightarrow> Ok (sf_plaintext_length F) | None \<Rightarrow> Err AuthenticationFailed, s', out')"
    "dec_state_ok E s'" "ds_context s' = ds_context s" "length out' = length out"
    "\<And>p. segment_open S (ds_context s) position (sf_kind F) seg = Some p \<Longrightarrow>
       out' = p @ drop (sf_plaintext_length F) out"
proof -
  note D = dec_state_okD [OF assms(2)]
  note F = framing_okD [OF D(1) assms(3)]
  have len: "length seg = sf_plaintext_length F + 32" using assms(4) F(1) by simp
  obtain keys' out' where R: "decrypt_segment_into_inner E (ds_context s) (ds_keys s) seg position (sf_kind F) (sf_plaintext_length F) out =
      (case segment_open S (ds_context s) position (sf_kind F) seg of Some p \<Rightarrow> Ok (sf_plaintext_length F)
         | None \<Rightarrow> Err AuthenticationFailed, keys', out')"
    "cache_ok E (ds_context s) keys'" "length out' = length out"
    "\<And>p. segment_open S (ds_context s) position (sf_kind F) seg = Some p \<Longrightarrow> out' = p @ drop (sf_plaintext_length F) out"
    using decrypt_segment_into_spec [OF assms(1) D len F(2) assms(5,6)] by blast
  show thesis
  proof (rule that)
    show "DecryptionState_decrypt_segment_into_at_framed E s seg position F out =
      (case segment_open S (ds_context s) position (sf_kind F) seg of
         Some p \<Rightarrow> Ok (sf_plaintext_length F) | None \<Rightarrow> Err AuthenticationFailed, s\<lparr> ds_keys := keys' \<rparr>, out')"
      using R(1) assms(4) by (simp add: DecryptionState_decrypt_segment_into_at_framed_def validate_framed_length_def)
    show "dec_state_ok E (s\<lparr> ds_keys := keys' \<rparr>)" using D(1) R(2) by (simp add: dec_state_ok_def)
  qed (use R(3,4) in simp_all)
qed

lemma decrypt_at_framed_spec:
  assumes "lawful E S" "dec_state_ok E s" "framing_ok (mc_parameters (ds_context s)) F"
    and "length seg = sf_ciphertext_length F" "unat position < 2 ^ 40"
  obtains s' where "DecryptionState_decrypt_segment_at_framed E s seg position F =
      (case segment_open S (ds_context s) position (sf_kind F) seg of
         Some p \<Rightarrow> Ok p | None \<Rightarrow> Err AuthenticationFailed, s')"
    "dec_state_ok E s'" "ds_context s' = ds_context s"
proof -
  let ?n = "sf_plaintext_length F"
  have len: "?n \<le> length (replicate ?n (0 :: u8))" by simp
  obtain s' out' where R: "DecryptionState_decrypt_segment_into_at_framed E s seg position F (replicate ?n 0) =
      (case segment_open S (ds_context s) position (sf_kind F) seg of
         Some p \<Rightarrow> Ok ?n | None \<Rightarrow> Err AuthenticationFailed, s', out')"
    and s': "dec_state_ok E s'" "ds_context s' = ds_context s"
    and p: "\<And>p. segment_open S (ds_context s) position (sf_kind F) seg = Some p \<Longrightarrow> out' = p @ drop ?n (replicate ?n 0)"
    using decrypt_into_at_framed_spec [OF assms(1-4) len assms(5)] by metis
  obtain r keys out where I: "decrypt_segment_into_inner E (ds_context s) (ds_keys s) seg position (sf_kind F) ?n (replicate ?n 0) =
      (r, keys, out)" by (metis prod_cases3)
  with R assms(4) have "r = (case segment_open S (ds_context s) position (sf_kind F) seg of
         Some p \<Rightarrow> Ok ?n | None \<Rightarrow> Err AuthenticationFailed)" "s\<lparr> ds_keys := keys \<rparr> = s'" "out = out'"
    by (simp_all add: DecryptionState_decrypt_segment_into_at_framed_def validate_framed_length_def)
  then have "DecryptionState_decrypt_segment_at_framed E s seg position F =
      (case segment_open S (ds_context s) position (sf_kind F) seg of
         Some p \<Rightarrow> Ok p | None \<Rightarrow> Err AuthenticationFailed, s')"
    using I assms(4) p
    by (simp add: DecryptionState_decrypt_segment_at_framed_def validate_framed_length_def split: option.split)
  then show thesis using s' that by blast
qed

lemma decrypt_in_place_at_framed_spec:
  assumes "lawful E S" "dec_state_ok E s" "framing_ok (mc_parameters (ds_context s)) F" "buffer_ok B"
    and "sb_parameters B = mc_parameters (ds_context s)" "sb_state B = Ciphertext (sf_ciphertext_length F)"
    and "unat position < 2 ^ 40"
  defines "seg \<equiv> take (sf_ciphertext_length F) (sb_bytes B)"
  obtains s' B' where "DecryptionState_decrypt_segment_in_place_at_framed E s B position F =
      (case segment_open S (ds_context s) position (sf_kind F) seg of
         Some p \<Rightarrow> Ok (sf_plaintext_length F) | None \<Rightarrow> Err AuthenticationFailed, s', B')"
    "dec_state_ok E s'" "ds_context s' = ds_context s" "buffer_ok B'" "sb_parameters B' = sb_parameters B"
    "\<And>p. segment_open S (ds_context s) position (sf_kind F) seg = Some p \<Longrightarrow>
       slice 16 (16 + sf_plaintext_length F) (sb_bytes B') = p \<and> length p = sf_plaintext_length F"
proof -
  let ?n = "sf_plaintext_length F" and ?c = "sf_ciphertext_length F"
  note D = dec_state_okD [OF assms(2)] and BD = buffer_okD [OF assms(4)]
  note F = framing_okD [OF D(1) assms(3)]
  have c: "?c \<le> length (sb_bytes B)" using BD(2) F assms(5) by simp
  then have len: "length seg = ?n + 32" using F(1) by (simp add: seg_def)
  obtain keys' seg' where R: "open_segment_in_place E (ds_context s) (ds_keys s) seg position (sf_kind F) ?n =
      (case segment_open S (ds_context s) position (sf_kind F) seg of Some p \<Rightarrow> Ok p | None \<Rightarrow> Err AuthenticationFailed, keys', seg')"
    "cache_ok E (ds_context s) keys'" "length seg' = length seg"
    "\<And>p. segment_open S (ds_context s) position (sf_kind F) seg = Some p \<Longrightarrow> seg' = take 16 seg @ p @ drop (16 + ?n) seg"
    using open_segment_in_place_spec [OF assms(1) D len F(2) assms(7)] by blast
  let ?B = "B\<lparr> sb_bytes := splice 0 seg' (sb_bytes B) \<rparr>"
  have len': "length seg' \<le> length (sb_bytes B)" using R(3) c len F(1) by simp
  note plen = segment_open_length [OF lawfulD(1) [OF assms(1)] len]
  show thesis
  proof (rule that)
    show "DecryptionState_decrypt_segment_in_place_at_framed E s B position F =
      (case segment_open S (ds_context s) position (sf_kind F) seg of
         Some p \<Rightarrow> Ok ?n | None \<Rightarrow> Err AuthenticationFailed, s\<lparr> ds_keys := keys' \<rparr>, ?B)"
    proof -
      have "map_ok length (case segment_open S (ds_context s) position (sf_kind F) seg of
           Some p \<Rightarrow> Ok p | None \<Rightarrow> Err AuthenticationFailed) =
        (case segment_open S (ds_context s) position (sf_kind F) seg of
           Some p \<Rightarrow> Ok ?n | None \<Rightarrow> Err AuthenticationFailed)"
        using plen by (simp split: option.split)
      moreover have "slice 0 ?c (sb_bytes B) = seg" by (simp add: slice_def seg_def)
      ultimately show ?thesis using R(1) c assms(5,6)
        by (simp add: DecryptionState_decrypt_segment_in_place_at_framed_def SegmentBuffer_matches_def
            DecryptionState_parameters_def SegmentBuffer_ciphertext_length_def validate_framed_length_def
            SegmentBuffer_raw_mut_def)
    qed
    show "dec_state_ok E (s\<lparr> ds_keys := keys' \<rparr>)" using D(1) R(2) by (simp add: dec_state_ok_def)
    show "buffer_ok ?B" using len' by (intro buffer_ok_bytes [OF assms(4)]) simp
    fix p assume op: "segment_open S (ds_context s) position (sf_kind F) seg = Some p"
    then have "seg' = take 16 seg @ p @ drop (16 + ?n) seg" "length p = ?n" using R(4) plen by blast+
    then show "slice 16 (16 + ?n) (sb_bytes ?B) = p \<and> length p = ?n"
      using len' len by (simp add: splice_def slice_def)
  qed simp_all
qed

text \<open>
  The unframed decryptions check the prefix themselves; on a segment whose prefix decodes
  to a framing of its own length they agree with the framed one.
\<close>

lemma decrypt_at_framed_eq:
  assumes "context_ok (ds_context s)" "SegmentFraming_decode (mc_parameters (ds_context s)) (take 4 seg) = Ok F"
    and "length seg = sf_ciphertext_length F"
  shows "DecryptionState_decrypt_segment_at E s seg position (sf_kind F) =
    DecryptionState_decrypt_segment_at_framed E s seg position F"
proof -
  have P: "params_ok (mc_parameters (ds_context s))" using assms(1) by (simp add: context_ok_def)
  note F = framing_okD [OF assms(1) framing_decode_ok [OF P assms(2)]]
  have "take 4 seg = u32_to_be_bytes (segment_prefix_word (sf_kind F) (length seg))"
    using prefix_of_framing [OF P _ assms(2)] assms(3) F(1) by simp
  then have "validate_segment (ds_context s) seg (sf_kind F) = Ok (sf_plaintext_length F)"
    using F assms(3) by (simp add: validate_segment_iff [OF assms(1)])
  then show ?thesis using assms(3)
    by (simp add: DecryptionState_decrypt_segment_at_def DecryptionState_decrypt_segment_at_framed_def
        validate_framed_length_def)
qed

section \<open>Properties\<close>

text \<open>
  C22: Decrypting a segment at a position returns \<open>p\<close> exactly when the segment is the one the
  specification gives for \<open>p\<close> at that position and kind, under some nonce.
\<close>

theorem segment_decryption_exact:
  assumes "lawful E S" "dec_state_ok E s" "unat position < 2 ^ 40"
  shows "fst (DecryptionState_decrypt_segment_at E s seg position kind) = Ok p \<longleftrightarrow>
    seg_len_ok (ds_context s) kind (length p) \<and>
    (\<exists>nonce. length nonce = 12 \<and> seg = floe_segment S (ds_context s) position kind nonce p)"
proof -
  let ?C = "ds_context s"
  note D = dec_state_okD [OF assms(2)] and S = lawfulD(1) [OF assms(1)]
  have run: "fst (DecryptionState_decrypt_segment_at E s seg position kind) =
      (case segment_open S ?C position kind seg of Some p \<Rightarrow> Ok p | None \<Rightarrow> Err AuthenticationFailed)"
    if "validate_segment ?C seg kind = Ok n" for n
  proof -
    have n: "length seg = n + 32" "n \<le> psl (mc_parameters ?C)"
      using that seg_len_ok_le by (auto simp: validate_segment_iff [OF D(1)])
    have out: "n \<le> length (replicate n (0 :: u8))" by simp
    show ?thesis
      by (rule decrypt_segment_into_spec [OF assms(1) D n out assms(3), of kind])
        (auto simp: DecryptionState_decrypt_segment_at_def that split: option.splits)
  qed
  show ?thesis
  proof
    assume ok: "fst (DecryptionState_decrypt_segment_at E s seg position kind) = Ok p"
    then obtain n where v: "validate_segment ?C seg kind = Ok n"
      by (cases "validate_segment ?C seg kind") (auto simp: DecryptionState_decrypt_segment_at_def)
    then have n: "length seg = n + 32" "seg_len_ok ?C kind n" "take 4 seg = u32_to_be_bytes (segment_prefix_word kind (length seg))"
      by (auto simp: validate_segment_iff [OF D(1)])
    have op: "segment_open S ?C position kind seg = Some p" using run [OF v] ok by (auto split: option.splits)
    have "seg = floe_segment S ?C position kind (slice 4 16 seg) p" using segment_open_iff [OF S _ n(3)] op n(1) by auto
    moreover have "length (slice 4 16 seg) = 12" using n(1) by simp
    ultimately show "seg_len_ok ?C kind (length p) \<and> (\<exists>nonce. length nonce = 12 \<and> seg = floe_segment S ?C position kind nonce p)"
      using n(2) segment_open_length [OF S n(1) op] by blast
  next
    assume "seg_len_ok ?C kind (length p) \<and> (\<exists>nonce. length nonce = 12 \<and> seg = floe_segment S ?C position kind nonce p)"
    then obtain nonce where nonce: "length nonce = 12" "seg = floe_segment S ?C position kind nonce p" "seg_len_ok ?C kind (length p)"
      by blast
    then have "validate_segment ?C seg kind = Ok (length p)"
      using floe_segment_length [OF S nonce(1)] floe_segment_parts(1) [OF S nonce(1)]
      by (simp add: validate_segment_iff [OF D(1)] add.commute)
    then show "fst (DecryptionState_decrypt_segment_at E s seg position kind) = Ok p"
      using run nonce(2) segment_open_sealed [OF S nonce(1)] by simp
  qed
qed

definition toy_decryption_state :: "toy DecryptionState" where
  "toy_decryption_state = \<lparr> ds_context = toy_context, ds_keys = KeyCache_empty \<rparr>"

lemma toy_decryption_state: "dec_state_ok toy_env toy_decryption_state" "ds_context toy_decryption_state = toy_context"
  by (simp_all add: toy_decryption_state_def dec_state_ok_def toy_context KeyCache_empty_ok)

theorem segment_decryption_exact_witness:
  "fst (DecryptionState_decrypt_segment_at toy_env toy_decryption_state
      (floe_segment toy_prims toy_context 3 Final (replicate 12 6) [7, 8]) 3 Final) = Ok [7, 8]"
proof -
  have "seg_len_ok toy_context Final (length [7, 8 :: u8])" by (simp add: seg_len_ok_def toy_context segment_64)
  moreover have "length (replicate 12 (6 :: u8)) = 12" "unat (3 :: u64) < 2 ^ 40" by simp_all
  ultimately show ?thesis
    using segment_decryption_exact [OF toy_lawful toy_decryption_state(1), of 3
        "floe_segment toy_prims toy_context 3 Final (replicate 12 6) [7, 8]" Final "[7, 8]"]
    unfolding toy_decryption_state(2) by blast
qed

text \<open>
  C23: For a key that resolves to a provider, a header is accepted exactly when it is the authenticated header of the expected parameters,
  of its own IV, and of the given key and associated data, and the state then carries the context
  of that message; a header with other parameters is refused before the tag is looked at.
\<close>

theorem header_accepted_exactly:
  assumes "lawful E S" "params_ok P" "length (header_bytes H) = 74" "Key_provider E key = Ok provider"
  shows "case start_decryption E key aad P H of
      Ok s \<Rightarrow> H = floe_header S key P (Header_floe_iv H) aad \<and>
        ds_context s = floe_context S provider key P (Header_floe_iv H) aad
    | Err e \<Rightarrow> H \<noteq> floe_header S key P (Header_floe_iv H) aad \<and>
        e = (if Header_encoded_parameters H = Parameters_encode P then InvalidHeaderTag else InvalidHeaderParameters)
    | Panic \<Rightarrow> False"
proof -
  have eq: "start_decryption E key aad P H = start_decryption_with_provider E key provider aad P H"
    using assms(4) by (simp add: start_decryption_def)
  note spec = start_decryption_with_provider_spec [OF assms(1-3), of key provider aad]
    and accepts = start_decryption_accepts [OF assms(1-3), of key provider aad]
  obtain keys where keys: "KeyCache_new E (floe_context S provider key P (Header_floe_iv H) aad) = Ok keys"
    using KeyCache_new_total [OF assms(1)] by blast
  show ?thesis
  proof (cases "start_decryption_with_provider E key provider aad P H")
    case (Ok s)
    then show ?thesis using start_decryption_okD(1,2) [OF assms(1-3) Ok] unfolding eq by (simp only: rust.simps simp_thms)
  next
    case (Err e)
    then have "\<nexists>s. start_decryption_with_provider E key provider aad P H = Ok s" by simp
    moreover have "e = (if Header_encoded_parameters H = Parameters_encode P then InvalidHeaderTag else InvalidHeaderParameters)"
      using Err unfolding spec keys by (simp split: if_splits)
    ultimately show ?thesis using accepts unfolding eq Err by (simp only: rust.simps) blast
  next
    case Panic
    then show ?thesis unfolding spec keys by (simp split: if_splits)
  qed
qed

theorem header_accepted_exactly_witness:
  "case start_decryption toy_env (toy_key Provider_RING) [1] SEGMENT_64_B (Header (replicate 74 0)) of
      Ok s \<Rightarrow> Header (replicate 74 0) = floe_header toy_prims (toy_key Provider_RING) SEGMENT_64_B
          (Header_floe_iv (Header (replicate 74 0))) [1] \<and>
        ds_context s = floe_context toy_prims Provider_RING (toy_key Provider_RING) SEGMENT_64_B
          (Header_floe_iv (Header (replicate 74 0))) [1]
    | Err e \<Rightarrow> Header (replicate 74 0) \<noteq> floe_header toy_prims (toy_key Provider_RING) SEGMENT_64_B
          (Header_floe_iv (Header (replicate 74 0))) [1] \<and>
        e = (if Header_encoded_parameters (Header (replicate 74 0)) = Parameters_encode SEGMENT_64_B
             then InvalidHeaderTag else InvalidHeaderParameters)
    | Panic \<Rightarrow> False"
  by (rule header_accepted_exactly [OF toy_lawful segment_64(1) _ toy_key(2)]) simp

text \<open>
  What in-place encryption checks before it starts: the buffer must be of the message's parameters and
  hold a plaintext, and, for the method that is given a segment of a layout, the segment must be of these
  parameters and of that plaintext's length. What it does otherwise, on every path.
\<close>

definition in_place_refusal :: "MessageContext \<Rightarrow> SegmentBuffer \<Rightarrow> Error option" where
  "in_place_refusal C B =
    (if sb_parameters B \<noteq> mc_parameters C then Some InvalidParameters
     else case sb_state B of Plaintext n \<Rightarrow> None | _ \<Rightarrow> Some InvalidBufferState)"

definition layout_refusal :: "MessageContext \<Rightarrow> SegmentBuffer \<Rightarrow> SegmentLayout \<Rightarrow> Error option" where
  "layout_refusal C B segment =
    (case sb_state B of
       Plaintext n \<Rightarrow>
         if sl_parameters segment \<noteq> mc_parameters C then Some InvalidParameters
         else if n \<noteq> sl_plaintext_length segment then Some (InvalidPlaintextLength n (Exactly (sl_plaintext_length segment)))
         else in_place_refusal C B
     | _ \<Rightarrow> Some InvalidBufferState)"

fun sealed_or_wiped :: "'x env \<Rightarrow> prims \<Rightarrow> 'x EncryptionState \<Rightarrow> SegmentBuffer \<Rightarrow> u64 \<Rightarrow> SegmentKind \<Rightarrow>
    bytes result \<times> 'x EncryptionState \<times> SegmentBuffer \<Rightarrow> bool" where
  "sealed_or_wiped E S s B position kind (Ok seg, s', B') \<longleftrightarrow>
    (\<exists>n nonce. sb_state B = Plaintext n \<and> seg = floe_segment S (es_context s) position kind nonce (slice 16 (16 + n) (sb_bytes B)) \<and>
      length nonce = 12) \<and> SegmentBuffer_ciphertext B' = Ok seg \<and> buffer_ok B' \<and> enc_state_ok E s' \<and> es_context s' = es_context s"
| "sealed_or_wiped E S s B position kind (Err e, s', B') \<longleftrightarrow>
    (\<exists>n. sb_state B = Plaintext n \<and> encrypt_error E (es_context s) (es_nonces s) (length (sb_bytes B)) n position kind = Some e) \<and>
    sb_bytes B' = replicate (csl (sb_parameters B)) 0 \<and> sb_state B' = Empty \<and> buffer_ok B' \<and> enc_state_ok E s' \<and> es_context s' = es_context s"
| "sealed_or_wiped E S s B position kind (Panic, s', B') \<longleftrightarrow> False"

lemma in_place_at_refused:
  assumes "in_place_refusal (es_context s) B = Some e"
  shows "EncryptionState_encrypt_segment_in_place_at E s B position kind = (Err e, s, B)"
  using assms by (auto simp: in_place_refusal_def EncryptionState_encrypt_segment_in_place_at_def SegmentBuffer_matches_def
      EncryptionState_parameters_def SegmentBuffer_plaintext_length_def split: if_splits BufferState.splits)

lemma in_place_at_outcome:
  assumes "lawful E S" "enc_state_ok E s" "buffer_ok B" "in_place_refusal (es_context s) B = None"
  shows "sealed_or_wiped E S s B position kind (EncryptionState_encrypt_segment_in_place_at E s B position kind)"
proof -
  obtain n where B: "sb_parameters B = mc_parameters (es_context s)" "sb_state B = Plaintext n"
    using assms(4) by (auto simp: in_place_refusal_def split: if_splits BufferState.splits)
  note eq = EncryptionState_encrypt_segment_in_place_at_def SegmentBuffer_matches_def EncryptionState_parameters_def
      SegmentBuffer_plaintext_length_def
  show ?thesis
  proof (cases "encrypt_error E (es_context s) (es_nonces s) (length (sb_bytes B)) n position kind")
    case (Some e)
    note D = enc_state_okD [OF assms(2)]
    obtain ns out' where G: "begin_segment_encryption E (es_context s) (es_keys s) (es_nonces s) (sb_bytes B) n position kind =
        (Err e, es_keys s, ns, out')" "nonces_ok ns" "length out' = length (sb_bytes B)"
      by (rule begin_segment_encryption_error [OF assms(1) D Some])
    have "EncryptionState_encrypt_segment_in_place_at E s B position kind =
        (Err e, s\<lparr> es_keys := es_keys s, es_nonces := ns \<rparr>, SegmentBuffer_clear E (B\<lparr> sb_bytes := out' \<rparr>))"
      using encrypt_segment_error(2) [OF G(1)] B
      by (simp add: eq EncryptionState_encrypt_segment_in_place_raw_at_def SegmentBuffer_raw_mut_def)
    then show ?thesis
      using Some B SegmentBuffer_clear_ok [OF assms(1) buffer_ok_bytes [OF assms(3) G(3)]] enc_state_okI [OF assms(2) D(2) G(2)]
      by simp
  next
    case None
    then have ok: "seg_len_ok (es_context s) kind n" "unat position < 2 ^ 40" "is_ok (fst (NonceGenerator_next E (es_nonces s)))"
      by (auto simp: encrypt_error_def split: if_splits)
    show ?thesis
    proof (cases rule: encrypt_in_place_at_cases [OF assms(1-3) B ok(1,2)])
      case (2 nonce s' B')
      have "SegmentBuffer_ciphertext B' = Ok (floe_segment S (es_context s) position kind nonce (slice 16 (16 + n) (sb_bytes B)))"
        using 2(1) B by (auto simp: eq Let_def split: prod.splits rust.splits)
      then show ?thesis using 2 B(2) by auto
    qed (use ok(3) in simp)
  qed
qed

lemma in_place_at_state:
  assumes "lawful E S" "enc_state_ok E s" "buffer_ok B" "EncryptionState_encrypt_segment_in_place_at E s B position kind = (r, s', B')"
  shows "enc_state_ok E s' \<and> es_context s' = es_context s"
proof (cases "in_place_refusal (es_context s) B")
  case None
  from in_place_at_outcome [OF assms(1-3) None, of position kind] show ?thesis using assms(4) by (cases r) simp_all
qed (use assms(2,4) in_place_at_refused [of s B] in auto)

text \<open>
  C26: The outcomes of in-place encryption, with a layout's segment and at a position. A call that is
  refused by the checks made before it starts (a buffer of other parameters, a buffer that holds no
  plaintext; with a layout's segment, other parameters or another length) changes neither the state nor
  the buffer, which keeps its plaintext. Any other call never panics: on success the buffer holds the
  returned segment, the specified one of the plaintext it held; on any error (a length the segment kind
  does not admit, randomness, segment limit, in this order) the whole buffer is zero and empty.
\<close>

theorem in_place_encryption_wipes:
  assumes "lawful E S" "enc_state_ok E s" "buffer_ok B"
  shows "(case layout_refusal (es_context s) B segment of
       Some e \<Rightarrow> EncryptionState_encrypt_segment_in_place E s B segment = (Err e, s, B)
     | None \<Rightarrow> sealed_or_wiped E S s B (sl_position segment) (sl_kind segment) (EncryptionState_encrypt_segment_in_place E s B segment)) \<and>
    (case in_place_refusal (es_context s) B of
       Some e \<Rightarrow> EncryptionState_encrypt_segment_in_place_at E s B position kind = (Err e, s, B)
     | None \<Rightarrow> sealed_or_wiped E S s B position kind (EncryptionState_encrypt_segment_in_place_at E s B position kind))"
proof (rule conjI)
  show "case in_place_refusal (es_context s) B of
       Some e \<Rightarrow> EncryptionState_encrypt_segment_in_place_at E s B position kind = (Err e, s, B)
     | None \<Rightarrow> sealed_or_wiped E S s B position kind (EncryptionState_encrypt_segment_in_place_at E s B position kind)"
    using in_place_at_refused in_place_at_outcome [OF assms] by (auto split: option.split)
  show "case layout_refusal (es_context s) B segment of
       Some e \<Rightarrow> EncryptionState_encrypt_segment_in_place E s B segment = (Err e, s, B)
     | None \<Rightarrow> sealed_or_wiped E S s B (sl_position segment) (sl_kind segment) (EncryptionState_encrypt_segment_in_place E s B segment)"
    using in_place_at_refused [of s B] in_place_at_outcome [OF assms]
    by (auto simp: layout_refusal_def EncryptionState_encrypt_segment_in_place_def EncryptionState_validate_plaintext_layout_def
        validate_layout_def SegmentBuffer_plaintext_length_def split: option.split BufferState.split)
qed

definition toy_encryption_state :: "toy EncryptionState" where
  "toy_encryption_state = \<lparr> es_context = toy_context, es_keys = KeyCache_empty, es_nonces = NonceGenerator_new (RingRng ([], [])) \<rparr>"

lemma toy_encryption_state:
  "enc_state_ok toy_env toy_encryption_state" "es_context toy_encryption_state = toy_context"
  by (simp_all add: toy_encryption_state_def enc_state_ok_def toy_context KeyCache_empty_ok NonceGenerator_new_ok)

definition toy_buffer :: SegmentBuffer where
  "toy_buffer = \<lparr> sb_parameters = SEGMENT_64_B, sb_bytes = replicate 64 5, sb_state = Plaintext 20 \<rparr>"

lemma toy_buffer: "buffer_ok toy_buffer" "sb_parameters toy_buffer = SEGMENT_64_B" "sb_state toy_buffer = Plaintext 20"
  by (simp_all add: toy_buffer_def buffer_ok_def segment_64)

definition toy_segment :: "nat \<Rightarrow> SegmentLayout" where
  "toy_segment n = \<lparr> sl_parameters = SEGMENT_64_B, sl_position = 0, sl_plaintext_offset = 0, sl_plaintext_length = n,
    sl_ciphertext_offset = 74, sl_ciphertext_length = 32 + n, sl_kind = Final \<rparr>"

theorem in_place_encryption_wipes_witness:
  "EncryptionState_encrypt_segment_in_place toy_env toy_encryption_state toy_buffer (toy_segment 21) =
      (Err (InvalidPlaintextLength 20 (Exactly 21)), toy_encryption_state, toy_buffer) \<and>
    sealed_or_wiped toy_env toy_prims toy_encryption_state toy_buffer 0 Final
      (EncryptionState_encrypt_segment_in_place toy_env toy_encryption_state toy_buffer (toy_segment 20)) \<and>
    sealed_or_wiped toy_env toy_prims toy_encryption_state toy_buffer 0 NonFinal
      (EncryptionState_encrypt_segment_in_place_at toy_env toy_encryption_state toy_buffer 0 NonFinal)"
  using in_place_encryption_wipes [OF toy_lawful toy_encryption_state(1) toy_buffer(1), of "toy_segment 21" 0 NonFinal]
    in_place_encryption_wipes [OF toy_lawful toy_encryption_state(1) toy_buffer(1), of "toy_segment 20" 0 NonFinal]
  by (simp add: layout_refusal_def in_place_refusal_def toy_buffer toy_encryption_state toy_context toy_segment_def)

end
