(* ===== verification/Floe_Stream.thy ===== *)
theory Floe_Stream
  imports Floe_Error
begin

text \<open>
  The part of \<^verbatim>\<open>std::io\<close> the stream adapters use. A \<^verbatim>\<open>Read\<close> implementation is a function from
  its state and the caller's buffer to the result, the buffer and the new state; a \<^verbatim>\<open>Write\<close>
  implementation is a function from its state and the bytes to the result and the new state. Both
  may fail to return (\<open>None\<close>). The locales \<open>byte_source\<close> and \<open>byte_sink\<close> state what a
  well-behaved implementation promises; they are interpreted on the standard library's byte slices
  and vectors here, and the adapters are proved to satisfy \<open>byte_source\<close> in theories of their own.
\<close>

section \<open>Calls that may not return\<close>

type_synonym ('a, 's) io = "('a io_result \<times> 's) option"

text \<open>The question mark operator on a plain result and on an I/O call.\<close>

fun try_io :: "'a io_result \<Rightarrow> 's \<Rightarrow> ('a \<Rightarrow> ('b, 's) io) \<Rightarrow> ('b, 's) io" where
  "try_io (Ok x) s f = f x"
| "try_io (Err e) s f = Some (Err e, s)"
| "try_io Panic s f = Some (Panic, s)"

definition bind_io :: "('a, 's) io \<Rightarrow> ('a \<Rightarrow> 's \<Rightarrow> ('b, 's) io) \<Rightarrow> ('b, 's) io" where
  "bind_io m f = (case m of None \<Rightarrow> None | Some (r, s) \<Rightarrow> try_io r s (\<lambda>x. f x s))"

text \<open>A call on a part of the state, and a call that has no error branch.\<close>

definition map_state :: "('s \<Rightarrow> 't) \<Rightarrow> ('a, 's) io \<Rightarrow> ('a, 't) io" where
  "map_state f m = (case m of None \<Rightarrow> None | Some (r, s) \<Rightarrow> Some (r, f s))"

fun infallible :: "('e, 'a) rust \<Rightarrow> ('f, 'a) rust" where
  "infallible (Ok x) = Ok x"
| "infallible (Err e) = Panic"
| "infallible Panic = Panic"

fun is_err :: "('e, 'a) rust \<Rightarrow> bool" where
  "is_err (Ok x) = False"
| "is_err (Err e) = True"
| "is_err Panic = False"

lemma map_state_simps [simp]: "map_state f None = None" "map_state f (Some (r, s)) = Some (r, f s)"
  by (simp_all add: map_state_def)

lemma bind_io_simps [simp]:
  "bind_io None f = None" "bind_io (Some (r, s)) f = try_io r s (\<lambda>x. f x s)"
  by (simp_all add: bind_io_def)

lemma try_io_eq_Ok [simp]: "try_io r s f = Some (Ok y, t) \<longleftrightarrow> (\<exists>x. r = Ok x \<and> f x = Some (Ok y, t))"
  by (cases r) auto

text \<open>What a call that succeeded went through, and when two calls agree.\<close>

lemma bind_io_Ok:
  assumes "bind_io m f = Some (Ok y, t)"
  obtains x s where "m = Some (Ok x, s)" "f x s = Some (Ok y, t)"
proof (cases m)
  case (Some a)
  then show thesis using assms that by (cases a; cases "fst a") auto
qed (use assms in simp)

lemma try_io_Ok:
  assumes "try_io r s f = Some (Ok y, t)"
  obtains x where "r = Ok x" "f x = Some (Ok y, t)"
  using assms by (cases r) auto

lemma map_state_Ok:
  assumes "map_state f m = Some (Ok x, t)"
  obtains s where "m = Some (Ok x, s)" "t = f s"
  using assms by (auto simp: map_state_def split: option.splits)

lemma bind_io_same:
  assumes "\<And>x s. m = Some (Ok x, s) \<Longrightarrow> f x s = g x s"
  shows "bind_io m f = bind_io m g"
proof (cases m)
  case (Some a)
  then show ?thesis using assms by (cases a; cases "fst a") auto
qed simp

section \<open>Readers\<close>

type_synonym 'r reader = "'r \<Rightarrow> bytes \<Rightarrow> (nat, bytes \<times> 'r) io"

text \<open>\<^verbatim>\<open>impl Read for &[u8]\<close>\<close>

definition slice_read :: "bytes reader" where
  "slice_read self buf =
    (let amt = min (length buf) (length self) in
     Some (Ok amt, splice 0 (take amt self) buf, drop amt self))"

text \<open>
  A caller that reads with buffers of any non-zero sizes until it is told that nothing is left, and
  tries again when interrupted, has collected \<open>bs\<close>.
\<close>

inductive reads_to_end :: "'r reader \<Rightarrow> 'r \<Rightarrow> bytes \<Rightarrow> 'r \<Rightarrow> bool" for rd where
  at_end: "rd r buf = Some (Ok 0, buf', r') \<Longrightarrow> buf \<noteq> [] \<Longrightarrow> reads_to_end rd r [] r'"
| more: "rd r buf = Some (Ok n, buf', r') \<Longrightarrow> buf \<noteq> [] \<Longrightarrow> n \<noteq> 0 \<Longrightarrow> reads_to_end rd r' bs r'' \<Longrightarrow>
    reads_to_end rd r (take n buf' @ bs) r''"
| interrupted: "rd r buf = Some (Err e, buf', r') \<Longrightarrow> buf \<noteq> [] \<Longrightarrow> io_kind e = Interrupted \<Longrightarrow>
    reads_to_end rd r' bs r'' \<Longrightarrow> reads_to_end rd r bs r''"

text \<open>
  A well-behaved reader: \<open>yields r bs\<close> says that the reader in state \<open>r\<close> delivers exactly \<open>bs\<close>.
  A read with a non-empty buffer delivers a non-empty piece of what is left, or reports the end,
  or is interrupted without losing anything, and it is not interrupted forever.
\<close>

locale byte_source =
  fixes rd :: "'r reader" and yields :: "'r \<Rightarrow> bytes \<Rightarrow> bool" and patience :: "'r \<Rightarrow> nat"
  assumes read_step: "yields r bs \<Longrightarrow> buf \<noteq> [] \<Longrightarrow>
    (\<exists>n buf' r'. rd r buf = Some (Ok n, buf', r') \<and> n \<le> length buf \<and> length buf' = length buf \<and>
       n \<le> length bs \<and> take n buf' = take n bs \<and> (n = 0 \<longrightarrow> bs = []) \<and> yields r' (drop n bs)) \<or>
    (\<exists>e buf' r'. rd r buf = Some (Err e, buf', r') \<and> io_kind e = Interrupted \<and> length buf' = length buf \<and>
       yields r' bs \<and> patience r' < patience r)"
begin

lemma read_cases:
  assumes "yields r bs" "buf \<noteq> []"
  obtains (delivered) n buf' r' where "rd r buf = Some (Ok n, buf', r')" "n \<le> length buf" "length buf' = length buf"
      "n \<le> length bs" "take n buf' = take n bs" "n = 0 \<Longrightarrow> bs = []" "yields r' (drop n bs)"
    | (interrupted) e buf' r' where "rd r buf = Some (Err e, buf', r')" "io_kind e = Interrupted"
      "length buf' = length buf" "yields r' bs" "patience r' < patience r"
  using read_step [OF assms] by blast

text \<open>Whatever buffers the caller uses, reading to the end collects exactly what the source yields.\<close>

lemma reads_to_end_yields:
  assumes "reads_to_end rd r out r'" "yields r bs"
  shows "out = bs \<and> yields r' []"
  using assms
proof (induction arbitrary: bs rule: reads_to_end.induct)
  case (at_end r buf buf' r')
  then show ?case by (cases rule: read_cases [OF at_end(3,2)]) auto
next
  case (more r buf n buf' r' out r'')
  show ?case
  proof (cases rule: read_cases [OF more(6,2)])
    case (1 n' b r1)
    then have "take n buf' = take n bs" "yields r' (drop n bs)" using more(1) by auto
    then show ?thesis using more.IH [of "drop n bs"] by (metis append_take_drop_id)
  qed (use more(1) in simp)
next
  case (interrupted r buf e buf' r' out r'')
  show ?case
    by (cases rule: read_cases [OF interrupted(6,2)]) (use interrupted(1) interrupted.IH in auto)
qed

text \<open>Reading to the end succeeds with any buffer size.\<close>

lemma reads_to_end_exists:
  assumes "yields r bs"
  shows "\<exists>r'. reads_to_end rd r bs r'"
  using assms
proof (induction "(length bs, patience r)" arbitrary: r bs rule: wf_induct_rule [OF wf_lex_prod [OF wf_less_than wf_less_than]])
  case 1
  let ?buf = "[0 :: u8]"
  show ?case
  proof (cases rule: read_cases [OF 1(2), of ?buf])
    case (2 n buf' r')
    show ?thesis
    proof (cases "n = 0")
      case True
      then show ?thesis using 2 reads_to_end.at_end [of rd r ?buf buf' r'] by auto
    next
      case False
      then have "((length (drop n bs), patience r'), (length bs, patience r)) \<in> less_than <*lex*> less_than" using 2(4) by auto
      from 1(1) [OF this 2(7)] obtain r'' where "reads_to_end rd r' (drop n bs) r''" by auto
      from reads_to_end.more [OF 2(1) _ False this] show ?thesis using 2(5) by auto
    qed
  next
    case (3 e buf' r')
    then have "((length bs, patience r'), (length bs, patience r)) \<in> less_than <*lex*> less_than" by simp
    from 1(1) [OF this 3(4)] obtain r'' where "reads_to_end rd r' bs r''" by auto
    from reads_to_end.interrupted [OF 3(1) _ 3(2) this] show ?thesis by auto
  qed simp
qed

end

interpretation slice_source: byte_source slice_read "(=)" "\<lambda>_. 0"
  by unfold_locales (auto simp: slice_read_def Let_def splice_0_take min_def)

section \<open>Writers\<close>

type_synonym 'w writer = "'w \<Rightarrow> bytes \<Rightarrow> (nat, 'w) io"

text \<open>\<^verbatim>\<open>impl Write for Vec<u8>\<close>\<close>

definition vec_write :: "bytes writer" where
  "vec_write self buf = Some (Ok (length buf), self @ buf)"

definition vec_flush :: "bytes \<Rightarrow> (unit, bytes) io" where
  "vec_flush self = Some (Ok (), self)"

text \<open>The provided method \<^verbatim>\<open>Write::write_all\<close>\<close>

definition write_zero :: IoError where
  "write_zero = IoError WriteZero (MessageSource ''failed to write whole buffer'')"

partial_function (option) write_all :: "'w writer \<Rightarrow> 'w \<Rightarrow> bytes \<Rightarrow> (unit, 'w) io" where
  "write_all wr w buf =
    (if buf = [] then Some (Ok (), w) else
     case wr w buf of
       None \<Rightarrow> None
     | Some (r, w') \<Rightarrow>
        (case r of
           Ok n \<Rightarrow>
             if n = 0 then Some (Err write_zero, w')
             else if length buf < n then Some (Panic, w')
             else write_all wr w' (drop n buf)
         | Err e \<Rightarrow> if io_kind e = Interrupted then write_all wr w' buf else Some (Err e, w')
         | Panic \<Rightarrow> Some (Panic, w')))"

text \<open>A caller that writes a sequence of pieces, each with \<^verbatim>\<open>write_all\<close>.\<close>

fun write_pieces :: "'w writer \<Rightarrow> 'w \<Rightarrow> bytes list \<Rightarrow> (unit, 'w) io" where
  "write_pieces wr w [] = Some (Ok (), w)"
| "write_pieces wr w (piece # pieces) = bind_io (write_all wr w piece) (\<lambda>_ w'. write_pieces wr w' pieces)"

text \<open>
  A well-behaved writer: \<open>holds w bs\<close> says that the writer in state \<open>w\<close> has accepted exactly \<open>bs\<close>.
  Up to \<open>limit\<close> bytes in all, a write accepts a non-empty piece of its argument or is
  interrupted without accepting anything, and it is not interrupted forever.
\<close>

locale byte_sink =
  fixes wr :: "'w writer" and holds :: "'w \<Rightarrow> bytes \<Rightarrow> bool" and patience :: "'w \<Rightarrow> nat" and limit :: "nat \<Rightarrow> bool"
  assumes write_step: "holds w bs \<Longrightarrow> buf \<noteq> [] \<Longrightarrow> limit (length bs + length buf) \<Longrightarrow>
    (\<exists>n w'. wr w buf = Some (Ok n, w') \<and> 0 < n \<and> n \<le> length buf \<and> holds w' (bs @ take n buf)) \<or>
    (\<exists>e w'. wr w buf = Some (Err e, w') \<and> io_kind e = Interrupted \<and> holds w' bs \<and> patience w' < patience w)"
    and limit_mono: "limit m \<Longrightarrow> n \<le> m \<Longrightarrow> limit n"
begin

lemma write_cases:
  assumes "holds w bs" "buf \<noteq> []" "limit (length bs + length buf)"
  obtains (accepted) n w' where "wr w buf = Some (Ok n, w')" "0 < n" "n \<le> length buf" "holds w' (bs @ take n buf)"
    | (interrupted) e w' where "wr w buf = Some (Err e, w')" "io_kind e = Interrupted" "holds w' bs" "patience w' < patience w"
  using write_step [OF assms] by blast

lemma write_all_holds:
  assumes "holds w bs" "limit (length bs + length buf)"
  shows "\<exists>w'. write_all wr w buf = Some (Ok (), w') \<and> holds w' (bs @ buf)"
  using assms
proof (induction "(length buf, patience w)" arbitrary: w bs buf rule: wf_induct_rule [OF wf_lex_prod [OF wf_less_than wf_less_than]])
  case 1
  show ?case
  proof (cases "buf = []")
    case True
    then show ?thesis using 1(2) by (subst write_all.simps) simp
  next
    case False
    show ?thesis
    proof (cases rule: write_cases [OF 1(2) False 1(3)])
      case (1 n w')
      have "((length (drop n buf), patience w'), (length buf, patience w)) \<in> less_than <*lex*> less_than"
        using 1(2) False by auto
      from "1.hyps" [OF this 1(4)] "1.prems"(2) 1(2,3)
      obtain w'' where "write_all wr w' (drop n buf) = Some (Ok (), w'')" "holds w'' (bs @ buf)" by auto
      then show ?thesis using 1 False by (subst write_all.simps) simp
    next
      case (2 e w')
      then have "((length buf, patience w'), (length buf, patience w)) \<in> less_than <*lex*> less_than" by simp
      from "1.hyps" [OF this 2(3) "1.prems"(2)] obtain w'' where
        "write_all wr w' buf = Some (Ok (), w'')" "holds w'' (bs @ buf)" by auto
      then show ?thesis using 2 False by (subst write_all.simps) simp
    qed
  qed
qed

lemma write_pieces_holds:
  assumes "holds w bs" "limit (length bs + length (concat pieces))"
  shows "\<exists>w'. write_pieces wr w pieces = Some (Ok (), w') \<and> holds w' (bs @ concat pieces)"
  using assms
proof (induction pieces arbitrary: w bs)
  case (Cons piece pieces)
  have "limit (length bs + length piece)" by (rule limit_mono [OF Cons.prems(2)]) simp
  then obtain w1 where w1: "write_all wr w piece = Some (Ok (), w1)" "holds w1 (bs @ piece)"
    using write_all_holds [OF Cons.prems(1)] by blast
  then show ?case using Cons.IH [OF w1(2)] Cons.prems(2) by (auto simp: add.assoc)
qed simp

end

text \<open>A writer that can also be flushed, which changes nothing of what it has accepted.\<close>

locale flushing_sink = byte_sink +
  fixes fl :: "'a \<Rightarrow> (unit, 'a) io"
  assumes flush_step: "holds w bs \<Longrightarrow> \<exists>w'. fl w = Some (Ok (), w') \<and> holds w' bs"

interpretation vec_sink: flushing_sink vec_write "(=)" "\<lambda>_. 0" "\<lambda>_. True" vec_flush
  by unfold_locales (auto simp: vec_write_def vec_flush_def)

end
