(* ===== verification/Floe_Wire.thy ===== *)
theory Floe_Wire
  imports Floe_State Floe_Stream
begin

text \<open>
  The wire helpers of \<^verbatim>\<open>src/src/wire.rs\<close>: splitting a message into header and body, the
  wrapping of FLOE errors in I/O errors, and reading headers and segments from a stream.
\<close>

definition split_header :: "bytes \<Rightarrow> (Header \<times> bytes) result" where
  "split_header ciphertext =
    bind (if HEADER_LENGTH \<le> length ciphertext
          then Ok (take HEADER_LENGTH ciphertext, drop HEADER_LENGTH ciphertext)
          else Err (InvalidHeaderLength (length ciphertext))) (\<lambda>(header, body).
    bind (Header_try_from header) (\<lambda>h. Ok (h, body)))"

definition encryption_error :: "Error \<Rightarrow> IoError" where
  "encryption_error error = IoError Other (FloeSource error)"

definition decryption_error :: "Error \<Rightarrow> IoError" where
  "decryption_error error = IoError InvalidData (FloeSource error)"

definition length_overflow :: IoError where
  "length_overflow = IoError InvalidInput (FloeSource LengthOverflow)"

definition output_too_small :: "nat \<Rightarrow> nat \<Rightarrow> IoError" where
  "output_too_small actual required = IoError InvalidInput (FloeSource (OutputTooSmall actual required))"

lemma split_header_spec:
  "split_header bs =
    (if length bs < 74 then Err (InvalidHeaderLength (length bs)) else Ok (Header (take 74 bs), drop 74 bs))"
  by (simp add: split_header_def Header_try_from_def)

text \<open>Every wrapped error is recoverable with \<open>Error_io_source\<close>.\<close>

lemma wrapped_error_source:
  "Error_io_source (encryption_error e) = Some e" "Error_io_source (decryption_error e) = Some e"
  "Error_io_source length_overflow = Some LengthOverflow"
  "Error_io_source (output_too_small a r) = Some (OutputTooSmall a r)"
  by (simp_all add: Error_io_source_def encryption_error_def decryption_error_def length_overflow_def output_too_small_def)

section \<open>Reading from a stream\<close>

text \<open>
  The loop of \<open>read_fully\<close>: \<open>filled\<close> is the part of the buffer already read, \<open>output\<close> what the source
  calls \<^verbatim>\<open>output\<close>. It retries interrupted reads, so it ends only if the reader is not interrupted
  forever.
\<close>

partial_function (option) read_fully_loop :: "'r reader \<Rightarrow> 'r \<Rightarrow> bytes \<Rightarrow> bytes \<Rightarrow> (nat, bytes \<times> 'r) io" where
  "read_fully_loop rd r filled output =
    (if output = [] then Some (Ok (length filled), filled, r) else
     case rd r output of
       None \<Rightarrow> None
     | Some (res, output', r') \<Rightarrow>
        (case res of
           Ok read \<Rightarrow>
             if read = 0 then Some (Ok (length filled), filled @ output', r')
             else if length output' < read then Some (Panic, filled @ output', r')
             else read_fully_loop rd r' (filled @ take read output') (drop read output')
         | Err e \<Rightarrow>
             if io_kind e = Interrupted then read_fully_loop rd r' filled output'
             else Some (Err e, filled @ output', r')
         | Panic \<Rightarrow> Some (Panic, filled @ output', r')))"

definition read_fully :: "'r reader \<Rightarrow> 'r \<Rightarrow> bytes \<Rightarrow> (nat, bytes \<times> 'r) io" where
  "read_fully rd reader output = read_fully_loop rd reader [] output"

definition read_header :: "'r reader \<Rightarrow> 'r \<Rightarrow> (Header, 'r) io" where
  "read_header rd reader =
    (case read_fully rd reader (replicate HEADER_LENGTH 0) of
       None \<Rightarrow> None
     | Some (r, header, reader') \<Rightarrow>
         try_io r reader' (\<lambda>actual.
         if actual = length header then Some (Ok (Header header), reader')
         else Some (Err (decryption_error (InvalidHeaderLength actual)), reader')))"

definition read_exact_segment :: "'r reader \<Rightarrow> 'r \<Rightarrow> bytes \<Rightarrow> (unit, bytes \<times> 'r) io" where
  "read_exact_segment rd reader output =
    (let expected = length output in
     bind_io (read_fully rd reader output) (\<lambda>actual s.
     if actual = expected then Some (Ok (), s)
     else Some (Err (decryption_error (InvalidCiphertextLength actual (Exactly expected))), s)))"

section \<open>Reading from a well-behaved source\<close>

context byte_source begin

lemma read_fully_loop_yields:
  assumes "yields r bs"
  shows "\<exists>out r'. read_fully_loop rd r filled buf = Some (Ok (length filled + min (length buf) (length bs)), filled @ out, r') \<and>
    length out = length buf \<and> take (length bs) out = take (length buf) bs \<and> yields r' (drop (length buf) bs)"
  using assms
proof (induction "(length buf, patience r)" arbitrary: r bs filled buf
    rule: wf_induct_rule [OF wf_lex_prod [OF wf_less_than wf_less_than]])
  case 1
  show ?case
  proof (cases "buf = []")
    case True
    then show ?thesis using 1(2) by (subst read_fully_loop.simps) simp
  next
    case False
    show ?thesis
    proof (cases rule: read_cases [OF 1(2) False])
      case (1 n out r')
      show ?thesis
      proof (cases "n = 0")
        case True
        then show ?thesis using 1 False by (subst read_fully_loop.simps) simp
      next
        case n: False
        have "((length (drop n out), patience r'), (length buf, patience r)) \<in> less_than <*lex*> less_than"
          using 1(3) n False by auto
        from "1.hyps" [OF this 1(7), of "filled @ take n out"] obtain out' r'' where
          IH: "read_fully_loop rd r' (filled @ take n out) (drop n out) =
            Some (Ok (length (filled @ take n out) + min (length (drop n out)) (length (drop n bs))), (filled @ take n out) @ out', r'')"
          "length out' = length (drop n out)" "take (length (drop n bs)) out' = take (length (drop n out)) (drop n bs)"
          "yields r'' (drop (length (drop n out)) (drop n bs))" by auto
        have step: "read_fully_loop rd r filled buf = read_fully_loop rd r' (filled @ take n out) (drop n out)"
          using 1(1-3) n False by (subst read_fully_loop.simps) simp
        have "take (length bs) (take n out @ out') = take (length buf) bs"
        proof -
          have "take (length bs) (take n out @ out') = take n bs @ take (length bs - n) out'"
            using 1(2-5) by (simp add: min_def)
          also have "take (length bs - n) out' = take (length buf - n) (drop n bs)" using IH(3) 1(3) by simp
          also have "take n bs @ \<dots> = take (length buf) bs"
            using 1(2) by (metis le_add_diff_inverse take_add)
          finally show ?thesis .
        qed
        then show ?thesis using IH 1(2-4)
          by (intro exI [of _ "take n out @ out'"] exI [of _ r'']) (auto simp: step min_def)
      qed
    next
      case (2 e out r')
      then have "((length out, patience r'), (length buf, patience r)) \<in> less_than <*lex*> less_than" by simp
      from "1.hyps" [OF this 2(4), of filled] show ?thesis
        using 2 False by (subst read_fully_loop.simps) simp
    qed
  qed
qed

lemma read_fully_yields:
  assumes "yields r bs"
  obtains out r' where "read_fully rd r buf = Some (Ok (min (length buf) (length bs)), out, r')"
    "length out = length buf" "take (length bs) out = take (length buf) bs" "yields r' (drop (length buf) bs)"
  using read_fully_loop_yields [OF assms, of "[]" buf] by (auto simp: read_fully_def)

text \<open>A source that holds enough fills the buffer; one that does not is read to its end.\<close>

lemma read_fully_enough:
  assumes "yields r bs" "length buf \<le> length bs"
  obtains r' where "read_fully rd r buf = Some (Ok (length buf), take (length buf) bs, r')"
    "yields r' (drop (length buf) bs)"
  by (rule read_fully_yields [OF assms(1), of buf]) (use assms(2) that in \<open>auto simp: min_def\<close>)

lemma read_fully_short:
  assumes "yields r bs" "length bs < length buf"
  obtains out r' where "read_fully rd r buf = Some (Ok (length bs), bs @ out, r')" "length out = length buf - length bs"
    "yields r' []"
proof (rule read_fully_yields [OF assms(1), of buf])
  fix out r'
  assume *: "read_fully rd r buf = Some (Ok (min (length buf) (length bs)), out, r')" "length out = length buf"
    "take (length bs) out = take (length buf) bs" "yields r' (drop (length buf) bs)"
  then have "out = bs @ drop (length bs) out" using assms(2) by (metis append_take_drop_id less_imp_le take_all)
  then show thesis using * assms(2) that [of "drop (length bs) out" r'] by (auto simp: min_def)
qed

lemma read_header_yields:
  assumes "yields r bs"
  shows "if 74 \<le> length bs then \<exists>r'. read_header rd r = Some (Ok (Header (take 74 bs)), r') \<and> yields r' (drop 74 bs)
    else \<exists>r'. read_header rd r = Some (Err (decryption_error (InvalidHeaderLength (length bs))), r')"
proof (cases "74 \<le> length bs")
  case True
  then obtain r' where "read_fully rd r (replicate 74 0) = Some (Ok 74, take 74 bs, r')" "yields r' (drop 74 bs)"
    using read_fully_enough [OF assms, of "replicate 74 0"] by auto
  then show ?thesis using True by (simp add: read_header_def)
next
  case False
  then have lt: "length bs < length (replicate 74 (0 :: u8))" by simp
  obtain out r' where "read_fully rd r (replicate 74 0) = Some (Ok (length bs), bs @ out, r')" "length out = 74 - length bs"
    by (rule read_fully_short [OF assms lt]) simp
  then show ?thesis using False by (simp add: read_header_def)
qed

lemma read_exact_segment_yields:
  assumes "yields r bs"
  shows "if length buf \<le> length bs
    then \<exists>r'. read_exact_segment rd r buf = Some (Ok (), take (length buf) bs, r') \<and> yields r' (drop (length buf) bs)
    else \<exists>s. read_exact_segment rd r buf =
      Some (Err (decryption_error (InvalidCiphertextLength (length bs) (Exactly (length buf)))), s)"
proof (cases "length buf \<le> length bs")
  case True
  then show ?thesis using read_fully_enough [OF assms True] by (fastforce simp: read_exact_segment_def)
next
  case False
  then have lt: "length bs < length buf" by simp
  obtain out r' where "read_fully rd r buf = Some (Ok (length bs), bs @ out, r')" by (rule read_fully_short [OF assms lt])
  then show ?thesis using False by (simp add: read_exact_segment_def)
qed

end

end
