(* ===== verification/Floe_Online.thy ===== *)
theory Floe_Online
  imports Floe_Wire
begin

text \<open>
  Sequential processing, \<^verbatim>\<open>src/src/online.rs\<close>: the segment counter, the encryptor and
  decryptor built on it, and the one-shot functions. A closure passed to \<^verbatim>\<open>advance\<close> or
  \<^verbatim>\<open>finalize\<close> may also write to a buffer it captures; that buffer is the extra argument
  and result of type \<open>'o\<close>.
\<close>

section \<open>The segment counter\<close>

record SegmentCounter =
  sc_next :: u64
  sc_closed :: bool

definition SegmentCounter_new :: SegmentCounter where
  "SegmentCounter_new = \<lparr> sc_next = 0, sc_closed = False \<rparr>"

definition SegmentCounter_next_position :: "SegmentCounter \<Rightarrow> u64" where
  "SegmentCounter_next_position c = sc_next c"

definition SegmentCounter_is_finished :: "SegmentCounter \<Rightarrow> bool" where
  "SegmentCounter_is_finished c = sc_closed c"

definition SegmentCounter_position_for :: "SegmentCounter \<Rightarrow> SegmentKind \<Rightarrow> u64 result" where
  "SegmentCounter_position_for c kind =
    (if sc_closed c then Err Closed else
     case kind of
       NonFinal \<Rightarrow> if sc_next c = AEAD_MAX_SEGMENTS - 1 then Err SegmentLimit else Ok (sc_next c)
     | Final \<Rightarrow> if AEAD_MAX_SEGMENTS \<le> sc_next c then Err SegmentLimit else Ok (sc_next c))"

definition SegmentCounter_complete :: "SegmentCounter \<Rightarrow> SegmentKind \<Rightarrow> SegmentCounter" where
  "SegmentCounter_complete c kind =
    (case kind of
       NonFinal \<Rightarrow> c\<lparr> sc_next := sc_next c + 1 \<rparr>
     | Final \<Rightarrow> c\<lparr> sc_closed := True \<rparr>)"

definition SegmentCounter_finish :: "SegmentCounter \<Rightarrow> unit result" where
  "SegmentCounter_finish c = (if sc_closed c then Ok () else Err Truncated)"

section \<open>The encryptor\<close>

record 'x Encryptor =
  en_state :: "'x EncryptionState"
  en_header :: Header
  en_counter :: SegmentCounter

record 'x FinalEncryptError =
  fe_encryptor :: "'x Encryptor"
  fe_error :: Error

definition FinalEncryptError_error :: "'x FinalEncryptError \<Rightarrow> Error" where
  "FinalEncryptError_error f = fe_error f"

definition FinalEncryptError_into_encryptor :: "'x FinalEncryptError \<Rightarrow> 'x Encryptor" where
  "FinalEncryptError_into_encryptor f = fe_encryptor f"

definition FinalEncryptError_into_error :: "'x FinalEncryptError \<Rightarrow> Error" where
  "FinalEncryptError_into_error f = fe_error f"

definition FinalEncryptError_into_parts :: "'x FinalEncryptError \<Rightarrow> Error \<times> 'x Encryptor" where
  "FinalEncryptError_into_parts f = (fe_error f, fe_encryptor f)"

definition Encryptor_new :: "'x env \<Rightarrow> Key \<Rightarrow> bytes \<Rightarrow> Parameters \<Rightarrow> 'x \<Rightarrow> 'x Encryptor result" where
  "Encryptor_new E key aad P w =
    bind (start_encryption E key aad P w) (\<lambda>(state, header).
    Ok \<lparr> en_state = state, en_header = header, en_counter = SegmentCounter_new \<rparr>)"

definition Encryptor_header :: "'x Encryptor \<Rightarrow> Header" where
  "Encryptor_header e = en_header e"

definition Encryptor_provider :: "'x Encryptor \<Rightarrow> Provider" where
  "Encryptor_provider e = EncryptionState_provider (en_state e)"

definition Encryptor_parameters :: "'x Encryptor \<Rightarrow> Parameters" where
  "Encryptor_parameters e = EncryptionState_parameters (en_state e)"

definition Encryptor_next_position :: "'x Encryptor \<Rightarrow> u64" where
  "Encryptor_next_position e = SegmentCounter_next_position (en_counter e)"

definition Encryptor_advance ::
  "'x Encryptor \<Rightarrow> 'o \<Rightarrow> ('x EncryptionState \<Rightarrow> u64 \<Rightarrow> 't result \<times> 'x EncryptionState \<times> 'o) \<Rightarrow>
   't result \<times> 'x Encryptor \<times> 'o" where
  "Encryptor_advance e out op =
    try_in (SegmentCounter_position_for (en_counter e) NonFinal) (e, out) (\<lambda>position.
    case op (en_state e) position of (r, state', out') \<Rightarrow>
    let e' = e\<lparr> en_state := state' \<rparr> in
    try_in r (e', out') (\<lambda>v.
    (Ok v, e'\<lparr> en_counter := SegmentCounter_complete (en_counter e') NonFinal \<rparr>, out')))"

definition Encryptor_finalize ::
  "'x Encryptor \<Rightarrow> 'o \<Rightarrow> ('x EncryptionState \<Rightarrow> u64 \<Rightarrow> 't result \<times> 'x EncryptionState \<times> 'o) \<Rightarrow>
   ('x FinalEncryptError, 't) rust \<times> 'o" where
  "Encryptor_finalize e out op =
    (case try_in (SegmentCounter_position_for (en_counter e) Final) (en_state e, out) (\<lambda>position.
            op (en_state e) position) of (r, state', out') \<Rightarrow>
     (map_err (\<lambda>error. \<lparr> fe_encryptor = e\<lparr> en_state := state' \<rparr>, fe_error = error \<rparr>) r, out'))"

definition Encryptor_encrypt_non_final_segment ::
  "'x env \<Rightarrow> 'x Encryptor \<Rightarrow> bytes \<Rightarrow> bytes result \<times> 'x Encryptor" where
  "Encryptor_encrypt_non_final_segment E e plaintext =
    (case Encryptor_advance e () (\<lambda>state position.
            case EncryptionState_encrypt_segment_at E state plaintext position NonFinal of (r, s') \<Rightarrow> (r, s', ())) of
       (r, e', _) \<Rightarrow> (r, e'))"

definition Encryptor_encrypt_non_final_segment_into ::
  "'x env \<Rightarrow> 'x Encryptor \<Rightarrow> bytes \<Rightarrow> bytes \<Rightarrow> nat result \<times> 'x Encryptor \<times> bytes" where
  "Encryptor_encrypt_non_final_segment_into E e plaintext output =
    Encryptor_advance e output (\<lambda>state position.
      EncryptionState_encrypt_segment_into_at E state plaintext position NonFinal output)"

definition Encryptor_encrypt_non_final_segment_in_place ::
  "'x env \<Rightarrow> 'x Encryptor \<Rightarrow> SegmentBuffer \<Rightarrow> bytes result \<times> 'x Encryptor \<times> SegmentBuffer" where
  "Encryptor_encrypt_non_final_segment_in_place E e buffer =
    Encryptor_advance e buffer (\<lambda>state position.
      EncryptionState_encrypt_segment_in_place_at E state buffer position NonFinal)"

definition Encryptor_encrypt_final_segment ::
  "'x env \<Rightarrow> 'x Encryptor \<Rightarrow> bytes \<Rightarrow> ('x FinalEncryptError, bytes) rust" where
  "Encryptor_encrypt_final_segment E e plaintext =
    fst (Encryptor_finalize e () (\<lambda>state position.
      case EncryptionState_encrypt_segment_at E state plaintext position Final of (r, s') \<Rightarrow> (r, s', ())))"

definition Encryptor_encrypt_final_segment_into ::
  "'x env \<Rightarrow> 'x Encryptor \<Rightarrow> bytes \<Rightarrow> bytes \<Rightarrow> ('x FinalEncryptError, nat) rust \<times> bytes" where
  "Encryptor_encrypt_final_segment_into E e plaintext output =
    Encryptor_finalize e output (\<lambda>state position.
      EncryptionState_encrypt_segment_into_at E state plaintext position Final output)"

definition Encryptor_encrypt_final_segment_in_place ::
  "'x env \<Rightarrow> 'x Encryptor \<Rightarrow> SegmentBuffer \<Rightarrow> ('x FinalEncryptError, bytes) rust \<times> SegmentBuffer" where
  "Encryptor_encrypt_final_segment_in_place E e buffer =
    Encryptor_finalize e buffer (\<lambda>state position.
      EncryptionState_encrypt_segment_in_place_at E state buffer position Final)"

section \<open>The decryptor\<close>

record 'x Decryptor =
  de_state :: "'x DecryptionState"
  de_counter :: SegmentCounter

definition Decryptor_new :: "'x env \<Rightarrow> Key \<Rightarrow> bytes \<Rightarrow> Header \<Rightarrow> 'x Decryptor result" where
  "Decryptor_new E key aad header =
    bind (start_decryption_inferred E key aad header) (\<lambda>state.
    Ok \<lparr> de_state = state, de_counter = SegmentCounter_new \<rparr>)"

definition Decryptor_new_with_parameters ::
  "'x env \<Rightarrow> Key \<Rightarrow> bytes \<Rightarrow> Parameters \<Rightarrow> Header \<Rightarrow> 'x Decryptor result" where
  "Decryptor_new_with_parameters E key aad P header =
    bind (start_decryption E key aad P header) (\<lambda>state.
    Ok \<lparr> de_state = state, de_counter = SegmentCounter_new \<rparr>)"

definition Decryptor_provider :: "'x Decryptor \<Rightarrow> Provider" where
  "Decryptor_provider d = DecryptionState_provider (de_state d)"

definition Decryptor_parameters :: "'x Decryptor \<Rightarrow> Parameters" where
  "Decryptor_parameters d = DecryptionState_parameters (de_state d)"

definition Decryptor_next_position :: "'x Decryptor \<Rightarrow> u64" where
  "Decryptor_next_position d = SegmentCounter_next_position (de_counter d)"

definition Decryptor_is_finished :: "'x Decryptor \<Rightarrow> bool" where
  "Decryptor_is_finished d = SegmentCounter_is_finished (de_counter d)"

definition Decryptor_advance ::
  "'x Decryptor \<Rightarrow> SegmentKind \<Rightarrow> 'o \<Rightarrow> ('x DecryptionState \<Rightarrow> u64 \<Rightarrow> 't result \<times> 'x DecryptionState \<times> 'o) \<Rightarrow>
   't result \<times> 'x Decryptor \<times> 'o" where
  "Decryptor_advance d kind out op =
    try_in (SegmentCounter_position_for (de_counter d) kind) (d, out) (\<lambda>position.
    case op (de_state d) position of (r, state', out') \<Rightarrow>
    let d' = d\<lparr> de_state := state' \<rparr> in
    try_in r (d', out') (\<lambda>v.
    (Ok v, d'\<lparr> de_counter := SegmentCounter_complete (de_counter d') kind \<rparr>, out')))"

definition segment_prefix :: "bytes \<Rightarrow> Parameters \<Rightarrow> bytes result" where
  "segment_prefix ciphertext_segment P =
    (if length ciphertext_segment < SEGMENT_PREFIX_LENGTH
     then Err (InvalidCiphertextLength (length ciphertext_segment)
            (Between SEGMENT_PREFIX_LENGTH (Parameters_ciphertext_segment_length P)))
     else Ok (take SEGMENT_PREFIX_LENGTH ciphertext_segment))"

definition Decryptor_framing :: "'x Decryptor \<Rightarrow> bytes \<Rightarrow> SegmentFraming result" where
  "Decryptor_framing d ciphertext_segment =
    bind (segment_prefix ciphertext_segment (Decryptor_parameters d)) (\<lambda>prefix.
    SegmentFraming_decode (Decryptor_parameters d) prefix)"

definition Decryptor_decrypt_segment ::
  "'x env \<Rightarrow> 'x Decryptor \<Rightarrow> bytes \<Rightarrow> bytes result \<times> 'x Decryptor" where
  "Decryptor_decrypt_segment E d ciphertext_segment =
    try_in (Decryptor_framing d ciphertext_segment) d (\<lambda>framing.
    case Decryptor_advance d (sf_kind framing) () (\<lambda>state position.
           case DecryptionState_decrypt_segment_at_framed E state ciphertext_segment position framing of
             (r, s') \<Rightarrow> (r, s', ())) of
      (r, d', _) \<Rightarrow> (r, d'))"

definition Decryptor_decrypt_segment_into_framed ::
  "'x env \<Rightarrow> 'x Decryptor \<Rightarrow> bytes \<Rightarrow> SegmentFraming \<Rightarrow> bytes \<Rightarrow> nat result \<times> 'x Decryptor \<times> bytes" where
  "Decryptor_decrypt_segment_into_framed E d ciphertext_segment framing output =
    Decryptor_advance d (sf_kind framing) output (\<lambda>state position.
      DecryptionState_decrypt_segment_into_at_framed E state ciphertext_segment position framing output)"

definition Decryptor_decrypt_segment_into ::
  "'x env \<Rightarrow> 'x Decryptor \<Rightarrow> bytes \<Rightarrow> bytes \<Rightarrow> nat result \<times> 'x Decryptor \<times> bytes" where
  "Decryptor_decrypt_segment_into E d ciphertext_segment output =
    try_in (Decryptor_framing d ciphertext_segment) (d, output) (\<lambda>framing.
    Decryptor_decrypt_segment_into_framed E d ciphertext_segment framing output)"

definition Decryptor_decrypt_segment_in_place ::
  "'x env \<Rightarrow> 'x Decryptor \<Rightarrow> SegmentBuffer \<Rightarrow> bytes result \<times> 'x Decryptor \<times> SegmentBuffer" where
  "Decryptor_decrypt_segment_in_place E d buffer0 =
    SegmentBuffer_decrypt_with E buffer0 (\<lambda>buffer.
      try_in (bind (SegmentBuffer_ciphertext buffer) (Decryptor_framing d)) (d, buffer) (\<lambda>framing.
      Decryptor_advance d (sf_kind framing) buffer (\<lambda>state position.
        DecryptionState_decrypt_segment_in_place_at_framed E state buffer position framing)))"

definition Decryptor_finish :: "'x Decryptor \<Rightarrow> unit result" where
  "Decryptor_finish d = SegmentCounter_finish (de_counter d)"

section \<open>One-shot encryption and decryption\<close>

text \<open>
  The \<^verbatim>\<open>for\<close> loop of \<open>encrypt_body\<close>: the encryptor is an option because the final segment
  consumes it.
\<close>

fun encrypt_body_loop ::
  "'x env \<Rightarrow> bytes \<Rightarrow> SegmentLayout list \<Rightarrow> 'x Encryptor option \<Rightarrow> bytes \<Rightarrow> bytes result" where
  "encrypt_body_loop E plaintext [] encryptor ciphertext = Ok ciphertext"
| "encrypt_body_loop E plaintext (segment # segments) encryptor ciphertext =
    bind (ok_or (usize_try_from (pointer_width E) (sl_plaintext_offset segment)) LengthOverflow) (\<lambda>plaintext_start.
    bind (ok_or (usize_checked_add (pointer_width E) plaintext_start (sl_plaintext_length segment)) LengthOverflow) (\<lambda>plaintext_end.
    let output_start = length ciphertext in
    bind (ok_or (usize_checked_add (pointer_width E) output_start (sl_ciphertext_length segment)) LengthOverflow) (\<lambda>output_end.
    bind (index_range plaintext_start plaintext_end plaintext) (\<lambda>chunk.
    let output = replicate (output_end - output_start) 0 in
    case sl_kind segment of
      NonFinal \<Rightarrow>
        bind (expect encryptor) (\<lambda>e.
        case Encryptor_encrypt_non_final_segment_into E e chunk output of (r, e', output') \<Rightarrow>
        bind r (\<lambda>_. encrypt_body_loop E plaintext segments (Some e') (ciphertext @ output')))
    | Final \<Rightarrow>
        bind (expect encryptor) (\<lambda>e.
        case Encryptor_encrypt_final_segment_into E e chunk output of (r, output') \<Rightarrow>
        bind (map_err FinalEncryptError_into_error r) (\<lambda>_.
        encrypt_body_loop E plaintext segments None (ciphertext @ output')))))))"

definition encrypt_body :: "'x env \<Rightarrow> 'x Encryptor \<Rightarrow> bytes \<Rightarrow> bytes result" where
  "encrypt_body E encryptor plaintext =
    (let plaintext_length = length_usize_to_u64 (length plaintext); P = Encryptor_parameters encryptor in
     bind (Parameters_plaintext_layout P plaintext_length) (\<lambda>layout.
     bind (ok_or (usize_try_from (pointer_width E) (ml_ciphertext_length layout)) LengthOverflow) (\<lambda>capacity.
     let ciphertext = Header_as_bytes (Encryptor_header encryptor) in
     bind (Segments_collect (pointer_width E) (MessageLayout_segments layout)) (\<lambda>segments.
     encrypt_body_loop E plaintext segments (Some encryptor) ciphertext))))"

definition encrypt :: "'x env \<Rightarrow> Key \<Rightarrow> bytes \<Rightarrow> Parameters \<Rightarrow> bytes \<Rightarrow> 'x \<Rightarrow> bytes result" where
  "encrypt E key aad P plaintext w =
    bind (Encryptor_new E key aad P w) (\<lambda>encryptor. encrypt_body E encryptor plaintext)"

text \<open>
  The \<^verbatim>\<open>while\<close> loop of \<open>decrypt_body\<close>. It ends because every segment it accepts is at
  least as long as a tag.
\<close>

lemma decrypt_inner_nonempty:
  assumes "decrypt_segment_into_inner E C keys seg position kind n out = (Ok m, keys', out')"
  shows "16 \<le> length seg"
proof -
  obtain r k where "KeyCache_key_for_position E keys C position = (r, k)" by fastforce
  with assms show ?thesis by (cases r) (auto simp: decrypt_segment_into_inner_def split: if_splits)
qed

lemma Decryptor_advance_eq_Ok:
  "Decryptor_advance d kind out op = (Ok v, d', out') \<longleftrightarrow>
   (\<exists>position state'. SegmentCounter_position_for (de_counter d) kind = Ok position \<and>
      op (de_state d) position = (Ok v, state', out') \<and>
      d' = d\<lparr> de_state := state', de_counter := SegmentCounter_complete (de_counter d) kind \<rparr>)"
proof (cases "SegmentCounter_position_for (de_counter d) kind")
  case (Ok position)
  obtain r state' out'' where "op (de_state d) position = (r, state', out'')" by (metis prod_cases3)
  with Ok show ?thesis by (cases r) (auto simp: Decryptor_advance_def)
qed (simp_all add: Decryptor_advance_def)

lemma decrypt_into_framed_nonempty:
  assumes "Decryptor_decrypt_segment_into_framed E d seg framing out = (Ok n, d', out')"
  shows "16 \<le> length seg"
proof -
  obtain position s where "DecryptionState_decrypt_segment_into_at_framed E (de_state d) seg position framing out = (Ok n, s, out')"
    using assms by (auto simp: Decryptor_decrypt_segment_into_framed_def Decryptor_advance_eq_Ok)
  then obtain m where "(case decrypt_segment_into_inner E (ds_context (de_state d)) (ds_keys (de_state d)) seg position
      (sf_kind framing) m out of (r, keys, output') \<Rightarrow> (r, de_state d\<lparr> ds_keys := keys \<rparr>, output')) = (Ok n, s, out')"
    by (auto simp: DecryptionState_decrypt_segment_into_at_framed_def)
  then show ?thesis by (auto split: prod.split_asm intro: decrypt_inner_nonempty)
qed

function decrypt_body_loop :: "'x env \<Rightarrow> Parameters \<Rightarrow> 'x Decryptor \<Rightarrow> bytes \<Rightarrow> bytes \<Rightarrow> bytes result" where
  "decrypt_body_loop E P decryptor body plaintext =
    (if body = [] then bind (Decryptor_finish decryptor) (\<lambda>_. Ok plaintext) else
     bind (segment_prefix body P) (\<lambda>prefix.
     bind (SegmentFraming_decode P prefix) (\<lambda>framing.
     let segment_length = sf_ciphertext_length framing in
     if length body < segment_length
     then Err (InvalidCiphertextLength (length body) (AtLeast segment_length))
     else if SegmentFraming_is_final framing \<and> segment_length \<noteq> length body
     then Err (InvalidCiphertextLength (length body) (Exactly segment_length))
     else let segment = take segment_length body; rest = drop segment_length body;
              output = replicate (sf_plaintext_length framing) 0
     in (case Decryptor_decrypt_segment_into_framed E decryptor segment framing output of
           (Ok _, decryptor', output') \<Rightarrow> decrypt_body_loop E P decryptor' rest (plaintext @ output')
         | (Err e, _, _) \<Rightarrow> Err e
         | (Panic, _, _) \<Rightarrow> Panic))))"
  by pat_completeness auto
termination
proof (relation "measure (\<lambda>(E, P, d, body, plaintext). length body)", goal_cases)
  case (2 E P d body plaintext prefix framing n seg rest buf r res s' d' buf')
  then have "16 \<le> length seg" by (metis decrypt_into_framed_nonempty)
  with 2 show ?case by auto
qed simp

declare decrypt_body_loop.simps [simp del]

definition decrypt_body :: "'x env \<Rightarrow> 'x Decryptor \<Rightarrow> bytes \<Rightarrow> bytes result" where
  "decrypt_body E decryptor body = decrypt_body_loop E (Decryptor_parameters decryptor) decryptor body []"

definition decrypt :: "'x env \<Rightarrow> Key \<Rightarrow> bytes \<Rightarrow> bytes \<Rightarrow> bytes result" where
  "decrypt E key aad ciphertext =
    bind (split_header ciphertext) (\<lambda>(header, body).
    bind (Decryptor_new E key aad header) (\<lambda>decryptor. decrypt_body E decryptor body))"

definition decrypt_with_parameters :: "'x env \<Rightarrow> Key \<Rightarrow> bytes \<Rightarrow> Parameters \<Rightarrow> bytes \<Rightarrow> bytes result" where
  "decrypt_with_parameters E key aad P ciphertext =
    bind (split_header ciphertext) (\<lambda>(header, body).
    bind (Decryptor_new_with_parameters E key aad P header) (\<lambda>decryptor. decrypt_body E decryptor body))"

section \<open>The counter as a state machine\<close>

definition counter_ok :: "SegmentCounter \<Rightarrow> bool" where
  "counter_ok c \<longleftrightarrow> unat (sc_next c) < 2 ^ 40"

lemma counter_new_ok [wf_intros]: "counter_ok SegmentCounter_new"
  by (simp add: counter_ok_def SegmentCounter_new_def)

lemma position_for_cases:
  assumes "counter_ok c"
  shows "SegmentCounter_position_for c kind =
    (if sc_closed c then Err Closed
     else if kind = NonFinal \<and> unat (sc_next c) = 2 ^ 40 - 1 then Err SegmentLimit
     else Ok (sc_next c))"
proof -
  have "sc_next c = 1099511627775 \<longleftrightarrow> unat (sc_next c) = 1099511627775"
    by (simp add: word_unat_eq_iff)
  then show ?thesis using assms
    by (cases kind) (simp_all add: SegmentCounter_position_for_def counter_ok_def word_le_nat_alt)
qed

lemma complete_ok:
  assumes "counter_ok c" "SegmentCounter_position_for c kind = Ok position"
  shows "counter_ok (SegmentCounter_complete c kind)" "position = sc_next c" "unat position < 2 ^ 40" "\<not> sc_closed c"
    "kind = NonFinal \<Longrightarrow> unat (sc_next (SegmentCounter_complete c kind)) = Suc (unat (sc_next c))"
proof -
  note P = assms(2) [unfolded position_for_cases [OF assms(1)]]
  show "position = sc_next c" "\<not> sc_closed c" using P by (auto split: if_splits)
  then show "unat position < 2 ^ 40" using assms(1) by (simp add: counter_ok_def)
  show *: "unat (sc_next (SegmentCounter_complete c kind)) = Suc (unat (sc_next c))" if "kind = NonFinal"
    using that assms(1) by (subst SegmentCounter_complete_def) (simp add: counter_ok_def unat_add_small)
  show "counter_ok (SegmentCounter_complete c kind)"
  proof (cases kind)
    case NonFinal
    then have "unat (sc_next c) \<noteq> 2 ^ 40 - 1" using P by (auto split: if_splits)
    then show ?thesis using * [OF NonFinal] assms(1) by (simp add: counter_ok_def)
  next
    case Final
    then show ?thesis using assms(1) by (simp add: counter_ok_def SegmentCounter_complete_def)
  qed
qed

text \<open>
  The runs of a counter: each step reserves the position of one segment and completes it.
  The label records the position and the kind of the segment.
\<close>

inductive counter_run :: "SegmentCounter \<Rightarrow> (u64 \<times> SegmentKind) list \<Rightarrow> SegmentCounter \<Rightarrow> bool" where
  run_start: "counter_run c [] c"
| run_step: "counter_run c evs c' \<Longrightarrow> SegmentCounter_position_for c' kind = Ok position \<Longrightarrow>
    counter_run c (evs @ [(position, kind)]) (SegmentCounter_complete c' kind)"

inductive_cases counter_runE: "counter_run c evs c'"

lemma counter_run_ok: "counter_run c evs c' \<Longrightarrow> counter_ok c \<Longrightarrow> counter_ok c'"
  by (induction rule: counter_run.induct) (auto intro: complete_ok(1))

lemma counter_run_shape:
  assumes "counter_run SegmentCounter_new evs c"
  shows "map (unat \<circ> fst) evs = [0..<length evs]"
    and "\<exists>n. map snd evs = replicate n NonFinal \<and> \<not> sc_closed c \<and> unat (sc_next c) = n \<or>
      map snd evs = replicate n NonFinal @ [Final] \<and> sc_closed c"
proof -
  have "map (unat \<circ> fst) evs = [0..<length evs] \<and>
    (\<exists>n. map snd evs = replicate n NonFinal \<and> \<not> sc_closed c \<and> unat (sc_next c) = n \<or>
      map snd evs = replicate n NonFinal @ [Final] \<and> sc_closed c)"
    using assms
  proof (induction SegmentCounter_new evs c rule: counter_run.induct)
    case run_start
    then show ?case by (simp add: SegmentCounter_new_def)
  next
    case (run_step evs c' kind position)
    have "counter_ok c'" using counter_run_ok [OF run_step(1) counter_new_ok] .
    note C = complete_ok [OF this run_step(3)]
    from run_step(2) C(4) obtain n where n: "map snd evs = replicate n NonFinal" "unat (sc_next c') = n" by blast
    then have "length evs = n" by (metis length_map length_replicate)
    with run_step(2) n C(2) have pos: "map (unat \<circ> fst) (evs @ [(position, kind)]) = [0..<length (evs @ [(position, kind)])]"
      by simp
    show ?case
    proof (cases kind)
      case Final
      then show ?thesis using pos n by (simp add: SegmentCounter_complete_def)
    next
      case NonFinal
      have "\<not> sc_closed (SegmentCounter_complete c' NonFinal)" using C(4) by (simp add: SegmentCounter_complete_def)
      moreover have "map snd (evs @ [(position, kind)]) = replicate (Suc n) NonFinal"
        using n(1) NonFinal by (simp add: replicate_append_same)
      ultimately show ?thesis using pos C(5) NonFinal n(2) by auto
    qed
  qed
  then show "map (unat \<circ> fst) evs = [0..<length evs]"
    and "\<exists>n. map snd evs = replicate n NonFinal \<and> \<not> sc_closed c \<and> unat (sc_next c) = n \<or>
      map snd evs = replicate n NonFinal @ [Final] \<and> sc_closed c" by blast+
qed

section \<open>The encryptor\<close>

definition encryptor_ok :: "'x env \<Rightarrow> 'x Encryptor \<Rightarrow> bool" where
  "encryptor_ok E e \<longleftrightarrow> enc_state_ok E (en_state e) \<and> counter_ok (en_counter e)"

text \<open>The counter moves only when the segment operation succeeded, and then by one segment.\<close>

lemma Encryptor_advance_eq:
  "Encryptor_advance e out op =
    (case SegmentCounter_position_for (en_counter e) NonFinal of
       Err err \<Rightarrow> (Err err, e, out)
     | Panic \<Rightarrow> (Panic, e, out)
     | Ok position \<Rightarrow>
        (case op (en_state e) position of
           (Ok v, state', out') \<Rightarrow>
             (Ok v, e\<lparr> en_state := state', en_counter := SegmentCounter_complete (en_counter e) NonFinal \<rparr>, out')
         | (Err err, state', out') \<Rightarrow> (Err err, e\<lparr> en_state := state' \<rparr>, out')
         | (Panic, state', out') \<Rightarrow> (Panic, e\<lparr> en_state := state' \<rparr>, out')))"
  by (simp add: Encryptor_advance_def Let_def split: rust.split prod.split)

lemma Encryptor_finalize_eq:
  "Encryptor_finalize e out op =
    (case SegmentCounter_position_for (en_counter e) Final of
       Err err \<Rightarrow> (Err \<lparr> fe_encryptor = e, fe_error = err \<rparr>, out)
     | Panic \<Rightarrow> (Panic, out)
     | Ok position \<Rightarrow>
        (case op (en_state e) position of
           (Ok v, state', out') \<Rightarrow> (Ok v, out')
         | (Err err, state', out') \<Rightarrow> (Err \<lparr> fe_encryptor = e\<lparr> en_state := state' \<rparr>, fe_error = err \<rparr>, out')
         | (Panic, state', out') \<Rightarrow> (Panic, out')))"
  by (cases e) (simp add: Encryptor_finalize_def split: rust.split prod.split)

text \<open>An encryptor at a known, open position.\<close>

definition encryptor_at :: "'x env \<Rightarrow> 'x Encryptor \<Rightarrow> nat \<Rightarrow> bool" where
  "encryptor_at E e i \<longleftrightarrow> encryptor_ok E e \<and> \<not> sc_closed (en_counter e) \<and> unat (sc_next (en_counter e)) = i"

lemma encryptor_position:
  assumes "encryptor_at E e i"
  shows "i < 2 ^ 40" "sc_next (en_counter e) = word_of_nat i"
    "SegmentCounter_position_for (en_counter e) Final = Ok (word_of_nat i)"
    "i \<noteq> 2 ^ 40 - 1 \<Longrightarrow> SegmentCounter_position_for (en_counter e) NonFinal = Ok (word_of_nat i)"
proof -
  have ok: "counter_ok (en_counter e)" using assms by (simp add: encryptor_at_def encryptor_ok_def)
  then show "i < 2 ^ 40" using assms by (simp add: encryptor_at_def counter_ok_def)
  show *: "sc_next (en_counter e) = word_of_nat i" using assms by (auto simp: encryptor_at_def)
  show "SegmentCounter_position_for (en_counter e) Final = Ok (word_of_nat i)"
    "i \<noteq> 2 ^ 40 - 1 \<Longrightarrow> SegmentCounter_position_for (en_counter e) NonFinal = Ok (word_of_nat i)"
    using assms * by (auto simp: position_for_cases [OF ok] encryptor_at_def)
qed

lemma encryptor_at_Suc:
  assumes "encryptor_at E e i" "i \<noteq> 2 ^ 40 - 1" "enc_state_ok E s'"
  shows "encryptor_at E (e\<lparr> en_state := s', en_counter := SegmentCounter_complete (en_counter e) NonFinal \<rparr>) (Suc i)"
proof -
  have ok: "counter_ok (en_counter e)" using assms by (simp add: encryptor_at_def encryptor_ok_def)
  note C = complete_ok [OF ok encryptor_position(4) [OF assms(1,2)]]
  have "\<not> sc_closed (SegmentCounter_complete (en_counter e) NonFinal)"
    using C(4) by (simp add: SegmentCounter_complete_def)
  then show ?thesis using C(1,5) assms(1,3) by (simp add: encryptor_at_def encryptor_ok_def)
qed

lemma non_final_into_cases:
  assumes "lawful E S" "encryptor_at E e i" "i \<noteq> 2 ^ 40 - 1" "length p = psl (Encryptor_parameters e)"
    and "length p + 32 \<le> length out"
  defines "C \<equiv> es_context (en_state e)"
  obtains (failed) e' out' where "Encryptor_encrypt_non_final_segment_into E e p out = (Err RngFailure, e', out')"
      "encryptor_at E e' i" "es_context (en_state e') = C"
      "fst (NonceGenerator_next E (es_nonces (en_state e))) = Err RngFailure"
    | (sealed) nonce e' where "Encryptor_encrypt_non_final_segment_into E e p out =
        (Ok (length p + 32), e', floe_segment S C (word_of_nat i) NonFinal nonce p @ drop (length p + 32) out)"
      "encryptor_at E e' (Suc i)" "es_context (en_state e') = C" "length nonce = 12"
      "NonceGenerator_next E (es_nonces (en_state e)) = (Ok nonce, es_nonces (en_state e'))" "en_header e' = en_header e"
proof -
  have st: "enc_state_ok E (en_state e)" using assms(2) by (simp add: encryptor_at_def encryptor_ok_def)
  have len: "seg_len_ok C NonFinal (length p)"
    using assms(4) by (simp add: C_def seg_len_ok_def Encryptor_parameters_def EncryptionState_parameters_def)
  note P = encryptor_position [OF assms(2)]
  have pos: "unat (word_of_nat i :: u64) < 2 ^ 40" using P(1) by (simp add: unat_of_nat_u64)
  note eq = Encryptor_encrypt_non_final_segment_into_def Encryptor_advance_eq P(4) [OF assms(3)]
  show thesis
  proof (cases rule: encrypt_into_at_cases [OF assms(1) st len [unfolded C_def] assms(5) pos])
    case (1 s' out')
    then have "encryptor_at E (e\<lparr> en_state := s' \<rparr>) i" using assms(2) by (simp add: encryptor_at_def encryptor_ok_def)
    then show thesis using 1 failed [of "e\<lparr> en_state := s' \<rparr>" out'] by (simp add: eq C_def)
  next
    case (2 nonce s')
    then show thesis
      using sealed [OF _ encryptor_at_Suc [OF assms(2,3) 2(3)]] by (simp add: eq C_def)
  qed
qed

lemma final_into_cases:
  assumes "lawful E S" "encryptor_at E e i" "length p \<le> psl (Encryptor_parameters e)" "length p + 32 \<le> length out"
  defines "C \<equiv> es_context (en_state e)"
  obtains (failed) e' out' where "Encryptor_encrypt_final_segment_into E e p out =
        (Err \<lparr> fe_encryptor = e', fe_error = RngFailure \<rparr>, out')"
      "encryptor_at E e' i" "es_context (en_state e') = C"
      "fst (NonceGenerator_next E (es_nonces (en_state e))) = Err RngFailure"
    | (sealed) nonce g' where "Encryptor_encrypt_final_segment_into E e p out =
        (Ok (length p + 32), floe_segment S C (word_of_nat i) Final nonce p @ drop (length p + 32) out)"
      "length nonce = 12" "NonceGenerator_next E (es_nonces (en_state e)) = (Ok nonce, g')"
proof -
  have st: "enc_state_ok E (en_state e)" using assms(2) by (simp add: encryptor_at_def encryptor_ok_def)
  have len: "seg_len_ok C Final (length p)"
    using assms(3) by (simp add: C_def seg_len_ok_def Encryptor_parameters_def EncryptionState_parameters_def)
  note P = encryptor_position [OF assms(2)]
  have pos: "unat (word_of_nat i :: u64) < 2 ^ 40" using P(1) by (simp add: unat_of_nat_u64)
  note eq = Encryptor_encrypt_final_segment_into_def Encryptor_finalize_eq P(3)
  show thesis
  proof (cases rule: encrypt_into_at_cases [OF assms(1) st len [unfolded C_def] assms(4) pos])
    case (1 s' out')
    then have "encryptor_at E (e\<lparr> en_state := s' \<rparr>) i" using assms(2) by (simp add: encryptor_at_def encryptor_ok_def)
    then show thesis using 1 failed [of "e\<lparr> en_state := s' \<rparr>" out'] by (simp add: eq C_def)
  next
    case (2 nonce s')
    then show thesis using sealed by (simp add: eq C_def)
  qed
qed

section \<open>Properties\<close>

text \<open>
  C27: In every run of the segment counter the positions are 0, 1, 2 and so on without gaps or
  repeats, all segments but possibly the last are non-final, the counter is closed exactly when a
  final segment was completed, and no run is longer than \<open>2 ^ 40\<close> segments.
\<close>

theorem counter_positions:
  assumes "counter_run SegmentCounter_new evs c"
  shows "map (unat \<circ> fst) evs = [0..<length evs] \<and> length evs \<le> 2 ^ 40 \<and>
    list_all (\<lambda>(_, kind). kind = NonFinal) (butlast evs) \<and>
    (sc_closed c \<longleftrightarrow> evs \<noteq> [] \<and> snd (last evs) = Final)"
proof -
  note pos = counter_run_shape(1) [OF assms]
  obtain n where n: "map snd evs = replicate n NonFinal \<and> \<not> sc_closed c \<and> unat (sc_next c) = n \<or>
      map snd evs = replicate n NonFinal @ [Final] \<and> sc_closed c"
    using counter_run_shape(2) [OF assms] by blast
  have "set (butlast (map snd evs)) \<subseteq> {NonFinal}"
    using n by (auto simp: butlast_append dest: in_set_butlastD)
  then have kinds: "list_all (\<lambda>(_, kind). kind = NonFinal) (butlast evs)"
    by (auto simp: list_all_iff map_butlast [symmetric])
  have closed: "sc_closed c \<longleftrightarrow> evs \<noteq> [] \<and> snd (last evs) = Final"
  proof (cases "evs = []")
    case False
    then have "snd (last evs) = last (map snd evs)" by (simp add: last_map)
    then show ?thesis using n False by (cases "n = 0") (auto simp: last_replicate)
  qed (use n in auto)
  have "length evs \<le> 2 ^ 40"
    using assms
  proof cases
    case (run_step evs' c' kind position)
    have ok: "counter_ok c'" by (rule counter_run_ok [OF run_step(3) counter_new_ok])
    note C = complete_ok [OF ok run_step(4)]
    have "length evs' = unat (sc_next c')"
      using counter_run_shape(2) [OF run_step(3)] C(4) by (metis length_map length_replicate)
    then show ?thesis using C(2,3) run_step(1) by simp
  qed simp
  then show ?thesis using pos kinds closed by blast
qed

theorem counter_positions_witness:
  "map (unat \<circ> fst) [(0 :: u64, NonFinal), (1, Final)] = [0..<length [(0 :: u64, NonFinal), (1, Final)]] \<and>
   length [(0 :: u64, NonFinal), (1, Final)] \<le> 2 ^ 40 \<and>
   list_all (\<lambda>(_, kind). kind = NonFinal) (butlast [(0 :: u64, NonFinal), (1, Final)]) \<and>
   (sc_closed \<lparr> sc_next = 1, sc_closed = True \<rparr> \<longleftrightarrow>
     [(0 :: u64, NonFinal), (1, Final)] \<noteq> [] \<and> snd (last [(0 :: u64, NonFinal), (1, Final)]) = Final)"
proof (rule counter_positions)
  have "counter_run SegmentCounter_new ([] @ [(0, NonFinal)]) (SegmentCounter_complete SegmentCounter_new NonFinal)"
    by (intro counter_run.intros) (simp add: SegmentCounter_position_for_def SegmentCounter_new_def)
  then have "counter_run SegmentCounter_new (([] @ [(0, NonFinal)]) @ [(1, Final)])
      (SegmentCounter_complete (SegmentCounter_complete SegmentCounter_new NonFinal) Final)"
    by (rule counter_run.intros) (simp add: SegmentCounter_position_for_def SegmentCounter_new_def SegmentCounter_complete_def word_le_nat_alt)
  then show "counter_run SegmentCounter_new [(0, NonFinal), (1, Final)] \<lparr> sc_next = 1, sc_closed = True \<rparr>"
    by (simp add: SegmentCounter_new_def SegmentCounter_complete_def)
qed

lemma encrypt_into_at_total:
  assumes "lawful E S" "enc_state_ok E s" "EncryptionState_encrypt_segment_into_at E s p position kind out = (r, s', out')"
  shows "enc_state_ok E s' \<and> es_context s' = es_context s \<and> r \<noteq> Panic \<and> length out' = length out"
proof (cases "encrypt_error E (es_context s) (es_nonces s) (length out) (length p) position kind")
  case (Some e)
  note D = enc_state_okD [OF assms(2)]
  obtain ns o' where G: "begin_segment_encryption E (es_context s) (es_keys s) (es_nonces s) out (length p) position kind =
      (Err e, es_keys s, ns, o')" "nonces_ok ns" "length o' = length out"
    by (rule begin_segment_encryption_error [OF assms(1) D Some])
  then have "r = Err e" "s' = s\<lparr> es_keys := es_keys s, es_nonces := ns \<rparr>" "out' = o'"
    using assms(3) encrypt_segment_error(1) [OF G(1)] by (simp_all add: EncryptionState_encrypt_segment_into_at_def)
  then show ?thesis using G enc_state_okI [OF assms(2) D(2) G(2)] by simp
next
  case None
  then have ok: "seg_len_ok (es_context s) kind (length p)" "length p + 32 \<le> length out" "unat position < 2 ^ 40"
    by (auto simp: encrypt_error_def split: if_splits)
  show ?thesis
    by (rule encrypt_into_at_cases [OF assms(1,2) ok])
      (use assms(3) ok(2) floe_segment_length [OF lawfulD(1) [OF assms(1)]] in auto)
qed

text \<open>What a failed finalization leaves in the error it returns.\<close>

lemma final_recovers:
  assumes "encryptor_at E e i"
    and "\<And>r s' out'. op (en_state e) (word_of_nat i) = (r, s', out') \<Longrightarrow> enc_state_ok E s' \<and> es_context s' = es_context (en_state e)"
    and "fst (Encryptor_finalize e out op) = Err f"
  shows "encryptor_at E (fe_encryptor f) i \<and> en_header (fe_encryptor f) = en_header e \<and>
    es_context (en_state (fe_encryptor f)) = es_context (en_state e)"
proof -
  note P = encryptor_position [OF assms(1)]
  obtain r s' out' where op: "op (en_state e) (word_of_nat i) = (r, s', out')" by (metis prod_cases3)
  have "fe_encryptor f = e\<lparr> en_state := s' \<rparr>" using assms(3) op by (cases r) (auto simp: Encryptor_finalize_eq P(3))
  then show ?thesis using assms(1) assms(2) [OF op] by (simp add: encryptor_at_def encryptor_ok_def)
qed

lemma encrypt_segment_at_state:
  assumes "lawful E S" "enc_state_ok E s" "EncryptionState_encrypt_segment_at E s p position kind = (r, s')"
  shows "enc_state_ok E s' \<and> es_context s' = es_context s"
proof (cases "ciphertext_segment_size E (es_context s) (length p) kind")
  case (Ok n)
  obtain r1 s1 o1 where into: "EncryptionState_encrypt_segment_into_at E s p position kind (replicate n 0) = (r1, s1, o1)" by (metis prod_cases3)
  have "s' = s1" using assms(3) Ok into by (cases r1) (auto simp: EncryptionState_encrypt_segment_at_def)
  then show ?thesis using encrypt_into_at_total [OF assms(1,2) into] by simp
qed (use assms(2,3) in \<open>auto simp: EncryptionState_encrypt_segment_at_def\<close>)

text \<open>
  C28: A failed final segment can be retried, whatever made it fail (lengths, output size, a buffer that is
  refused, or the random source) and whichever of the three methods was called: the encryptor recovered
  from the error is at the same position with the same header, and encrypting a final payload the
  parameters and the output admit with it produces the final segment of that position under the next
  nonce. The retry itself fails only when the random source fails then, and its error can be recovered
  from in the same way; a random source that does not fail makes it succeed.
\<close>

theorem failed_final_can_be_retried:
  assumes "lawful E S" "encryptor_at E e i" "buffer_ok B"
    and "Encryptor_encrypt_final_segment E e p = Err f \<or> fst (Encryptor_encrypt_final_segment_into E e p out) = Err f \<or>
      fst (Encryptor_encrypt_final_segment_in_place E e B) = Err f"
    and "length q \<le> psl (Encryptor_parameters e)" "length q + 32 \<le> length buffer"
  defines "e' \<equiv> FinalEncryptError_into_encryptor f"
  shows "en_header e' = en_header e \<and> Encryptor_next_position e' = word_of_nat i \<and>
    (case NonceGenerator_next E (es_nonces (en_state e')) of
       (Ok nonce, _) \<Rightarrow> length nonce = 12 \<and> Encryptor_encrypt_final_segment_into E e' q buffer =
         (Ok (length q + 32), floe_segment S (es_context (en_state e)) (word_of_nat i) Final nonce q @ drop (length q + 32) buffer)
     | (Err _, _) \<Rightarrow> \<not> entropy_available E \<and>
         (\<exists>f' buffer'. Encryptor_encrypt_final_segment_into E e' q buffer = (Err f', buffer') \<and> fe_error f' = RngFailure \<and>
           encryptor_at E (FinalEncryptError_into_encryptor f') i)
     | (Panic, _) \<Rightarrow> False)"
proof -
  have st: "enc_state_ok E (en_state e)" using assms(2) by (simp add: encryptor_at_def encryptor_ok_def)
  have "encryptor_at E (fe_encryptor f) i \<and> en_header (fe_encryptor f) = en_header e \<and>
      es_context (en_state (fe_encryptor f)) = es_context (en_state e)"
    using assms(4)
  proof (elim disjE)
    assume "Encryptor_encrypt_final_segment E e p = Err f"
    then show ?thesis unfolding Encryptor_encrypt_final_segment_def
      by (rule final_recovers [OF assms(2), rotated]) (auto dest!: encrypt_segment_at_state [OF assms(1) st] split: prod.splits)
  next
    assume "fst (Encryptor_encrypt_final_segment_into E e p out) = Err f"
    then show ?thesis unfolding Encryptor_encrypt_final_segment_into_def
      by (rule final_recovers [OF assms(2), rotated]) (auto dest!: encrypt_into_at_total [OF assms(1) st])
  next
    assume "fst (Encryptor_encrypt_final_segment_in_place E e B) = Err f"
    then show ?thesis unfolding Encryptor_encrypt_final_segment_in_place_def
      by (rule final_recovers [OF assms(2), rotated]) (auto dest!: in_place_at_state [OF assms(1) st assms(3)])
  qed
  then have at: "encryptor_at E e' i" "en_header e' = en_header e" "es_context (en_state e') = es_context (en_state e)"
    by (simp_all add: e'_def FinalEncryptError_into_encryptor_def)
  have len: "length q \<le> psl (Encryptor_parameters e')"
    using assms(5) at(3) by (simp add: Encryptor_parameters_def EncryptionState_parameters_def)
  have ok: "nonces_ok (es_nonces (en_state e'))" using at(1) by (simp add: encryptor_at_def encryptor_ok_def enc_state_ok_def)
  have position: "Encryptor_next_position e' = word_of_nat i"
    using encryptor_position(2) [OF at(1)] by (simp add: Encryptor_next_position_def SegmentCounter_next_position_def)
  show ?thesis
  proof (cases rule: final_into_cases [OF assms(1) at(1) len assms(6)])
    case (1 e'' out')
    then have "\<not> entropy_available E" using nonce_available [OF _ lawfulD(6) [OF assms(1)] ok] by blast
    moreover obtain g where "NonceGenerator_next E (es_nonces (en_state e')) = (Err RngFailure, g)" using 1(4) by (metis fst_conv surj_pair)
    ultimately show ?thesis using 1(1,2) at(2) position by (simp add: FinalEncryptError_into_encryptor_def)
  next
    case (2 nonce g)
    then show ?thesis using at(2,3) position by simp
  qed
qed

definition toy_encryptor :: "toy Encryptor" where
  "toy_encryptor = \<lparr> en_state = toy_encryption_state, en_header = Header (replicate 74 0), en_counter = SegmentCounter_new \<rparr>"

lemma toy_encryptor: "encryptor_at toy_env toy_encryptor 0" "Encryptor_parameters toy_encryptor = SEGMENT_64_B"
  by (simp_all add: toy_encryptor_def encryptor_at_def encryptor_ok_def toy_encryption_state counter_new_ok
      Encryptor_parameters_def EncryptionState_parameters_def toy_context) (simp add: SegmentCounter_new_def)

theorem failed_final_can_be_retried_witness:
  "\<exists>f. Encryptor_encrypt_final_segment_into toy_env toy_encryptor (replicate 33 1) (replicate 64 0) = (Err f, replicate 64 0) \<and>
    en_header (FinalEncryptError_into_encryptor f) = en_header toy_encryptor \<and>
    Encryptor_next_position (FinalEncryptError_into_encryptor f) = word_of_nat 0 \<and>
    (\<exists>nonce. length nonce = 12 \<and>
      Encryptor_encrypt_final_segment_into toy_env (FinalEncryptError_into_encryptor f) [4] (replicate 64 0) =
      (Ok (length [4 :: u8] + 32), floe_segment toy_prims (es_context (en_state toy_encryptor)) (word_of_nat 0) Final nonce [4] @
        drop (length [4 :: u8] + 32) (replicate 64 0)))"
proof -
  have "ciphertext_segment_size toy_env toy_context 33 Final = Err (InvalidPlaintextLength 33 (AtMost 32))"
    by (simp add: ciphertext_segment_size_error [OF toy_context(1)] seg_len_ok_def toy_context segment_64)
  then obtain f where f: "Encryptor_encrypt_final_segment_into toy_env toy_encryptor (replicate 33 1) (replicate 64 0) = (Err f, replicate 64 0)"
    using encryptor_position(3) [OF toy_encryptor(1)]
    by (auto simp: Encryptor_encrypt_final_segment_into_def Encryptor_finalize_eq EncryptionState_encrypt_segment_into_at_def
        encrypt_segment_into_inner_def begin_segment_encryption_def toy_encryptor_def toy_encryption_state_def)
  then have "fst (Encryptor_encrypt_final_segment_into toy_env toy_encryptor (replicate 33 1) (replicate 64 0)) = Err f" by simp
  from failed_final_can_be_retried [OF toy_lawful toy_encryptor(1) toy_buffer(1) disjI2 [OF disjI1 [OF this]], of "[4]" "replicate 64 0"]
  show ?thesis using f toy_entropy by (intro exI [of _ f]) (auto simp: toy_encryptor(2) segment_64 split: prod.splits rust.splits)
qed

lemma in_place_framed_outcome:
  assumes "lawful E S" "dec_state_ok E s" "buffer_ok B" "sb_state B = Ciphertext n"
    and "framing_ok (mc_parameters (ds_context s)) F" "unat position < 2 ^ 40"
    and "DecryptionState_decrypt_segment_in_place_at_framed E s B position F = (r, s', B')"
  shows "buffer_ok B' \<and> sb_parameters B' = sb_parameters B \<and> dec_state_ok E s' \<and>
    (case r of Panic \<Rightarrow> False | Err e \<Rightarrow> True
     | Ok m \<Rightarrow> m = sf_plaintext_length F \<and> n = sf_ciphertext_length F \<and>
         sb_parameters B = mc_parameters (ds_context s) \<and> m \<le> psl (sb_parameters B) \<and>
         segment_open S (ds_context s) position (sf_kind F) (take n (sb_bytes B)) = Some (slice 16 (16 + m) (sb_bytes B')))"
proof (cases "sb_parameters B = mc_parameters (ds_context s) \<and> n = sf_ciphertext_length F")
  case False
  then have "\<exists>e. r = Err e" "s' = s" "B' = B"
    using assms(4,7) by (auto simp: DecryptionState_decrypt_segment_in_place_at_framed_def SegmentBuffer_matches_def
        DecryptionState_parameters_def SegmentBuffer_ciphertext_length_def validate_framed_length_def split: if_splits)
  then show ?thesis using assms(2,3) by auto
next
  case True
  note F = framing_okD [OF dec_state_okD(1) [OF assms(2)] assms(5)]
  obtain s1 B1 where R: "DecryptionState_decrypt_segment_in_place_at_framed E s B position F =
      (case segment_open S (ds_context s) position (sf_kind F) (take (sf_ciphertext_length F) (sb_bytes B)) of
         Some p \<Rightarrow> Ok (sf_plaintext_length F) | None \<Rightarrow> Err AuthenticationFailed, s1, B1)"
    "dec_state_ok E s1" "buffer_ok B1" "sb_parameters B1 = sb_parameters B"
    "\<And>p. segment_open S (ds_context s) position (sf_kind F) (take (sf_ciphertext_length F) (sb_bytes B)) = Some p \<Longrightarrow>
       slice 16 (16 + sf_plaintext_length F) (sb_bytes B1) = p \<and> length p = sf_plaintext_length F"
    using decrypt_in_place_at_framed_spec [OF assms(1,2,5,3)] True assms(4,6) by blast
  then show ?thesis using assms(7) True F(2) by (auto split: option.splits)
qed

lemma decrypt_with_outcome:
  assumes "lawful E S" "operation B = (r, s, B')" "buffer_ok B'" "r \<noteq> Panic"
    and "\<And>m. r = Ok m \<Longrightarrow> m \<le> psl (sb_parameters B')"
  shows "SegmentBuffer_decrypt_with E B operation =
    (case r of
       Ok m \<Rightarrow> (Ok (slice 16 (16 + m) (sb_bytes B')), s, B'\<lparr> sb_state := Plaintext m \<rparr>)
     | Err e \<Rightarrow> (Err e, s, SegmentBuffer_clear E B'))"
  using assms buffer_okD(2) [OF assms(3)] by (cases r) (auto simp: SegmentBuffer_decrypt_with_def)

lemma in_place_operation_outcome:
  assumes "lawful E S" "dec_state_ok E (de_state d)" "counter_ok (de_counter d)" "buffer_ok B"
    and "try_in (bind (SegmentBuffer_ciphertext B) (Decryptor_framing d)) (d, B) (\<lambda>framing.
      Decryptor_advance d (sf_kind framing) B (\<lambda>state position.
        DecryptionState_decrypt_segment_in_place_at_framed E state B position framing)) = (r, d', B')"
  shows "buffer_ok B' \<and> sb_parameters B' = sb_parameters B \<and> dec_state_ok E (de_state d') \<and>
    (case r of Panic \<Rightarrow> False | Err e \<Rightarrow> de_counter d' = de_counter d
     | Ok m \<Rightarrow> m \<le> psl (sb_parameters B) \<and> counter_ok (de_counter d') \<and>
         (\<exists>n kind. sb_state B = Ciphertext n \<and> de_counter d' = SegmentCounter_complete (de_counter d) kind \<and>
           take n (sb_bytes B) = floe_segment S (ds_context (de_state d)) (Decryptor_next_position d) kind
             (slice 4 16 (sb_bytes B)) (slice 16 (16 + m) (sb_bytes B'))))"
proof (cases "bind (SegmentBuffer_ciphertext B) (Decryptor_framing d)")
  case (Ok F)
  then obtain n where n: "sb_state B = Ciphertext n" by (cases "sb_state B") (auto simp: SegmentBuffer_ciphertext_def)
  have nb: "32 \<le> n" "n \<le> length (sb_bytes B)" using buffer_okD(2,4) [OF assms(4)] n by auto
  then have dec: "SegmentFraming_decode (mc_parameters (ds_context (de_state d))) (take 4 (sb_bytes B)) = Ok F"
    using Ok n by (simp add: SegmentBuffer_ciphertext_def Decryptor_framing_def segment_prefix_def slice_def
        Decryptor_parameters_def DecryptionState_parameters_def)
  have P: "params_ok (mc_parameters (ds_context (de_state d)))" using dec_state_okD(1) [OF assms(2)] by (simp add: context_ok_def)
  note fok = framing_decode_ok [OF P dec]
  show ?thesis
  proof (cases "SegmentCounter_position_for (de_counter d) (sf_kind F)")
    case (Err e)
    then show ?thesis using assms Ok by (auto simp: Decryptor_advance_def)
  next
    case Panic
    then show ?thesis using position_for_cases [OF assms(3)] by (simp split: if_splits)
  next
    case pos: (Ok position)
    note C = complete_ok [OF assms(3) pos]
    obtain r1 s1 B1 where D: "DecryptionState_decrypt_segment_in_place_at_framed E (de_state d) B position F = (r1, s1, B1)"
      by (metis prod_cases3)
    note O = in_place_framed_outcome [OF assms(1,2,4) n fok C(3) D]
    show ?thesis
    proof (cases r1)
      case (Ok m)
      let ?seg = "take n (sb_bytes B)"
      have pre: "take 4 ?seg = u32_to_be_bytes (segment_prefix_word (sf_kind F) (length ?seg))"
        using prefix_of_framing [OF P _ dec] O Ok nb by (simp add: min_def)
      have "?seg = floe_segment S (ds_context (de_state d)) position (sf_kind F) (slice 4 16 ?seg) (slice 16 (16 + m) (sb_bytes B1))"
      proof -
        have "32 \<le> length ?seg" using nb by simp
        moreover have "segment_open S (ds_context (de_state d)) position (sf_kind F) ?seg = Some (slice 16 (16 + m) (sb_bytes B1))"
          using O unfolding Ok rust.case by blast
        ultimately show ?thesis using segment_open_iff [OF lawfulD(1) [OF assms(1)] _ pre] by blast
      qed
      moreover have "slice 4 16 ?seg = slice 4 16 (sb_bytes B)" using nb(1) by (simp add: slice_take_drop min_def)
      ultimately show ?thesis using assms(5) O C n Ok \<open>bind _ _ = Ok F\<close> pos D
        by (auto simp: Decryptor_advance_def Decryptor_next_position_def SegmentCounter_next_position_def)
    qed (use assms(5) O Ok pos D in \<open>auto simp: Decryptor_advance_def\<close>)
  qed
next
  case Panic
  have "SegmentFraming_decode P x \<noteq> Panic" for P x by (auto simp: SegmentFraming_decode_def Let_def bind_eq_Panic)
  with Panic buffer_okD(2,4) [OF assms(4)] show ?thesis
    by (cases "sb_state B") (auto simp: bind_eq_Panic SegmentBuffer_ciphertext_def Decryptor_framing_def segment_prefix_def)
qed (use assms in auto)

text \<open>
  C25: In-place decryption through a decryptor never panics. It succeeds only on the specified
  segment of the returned plaintext at the next position, and the buffer then holds that plaintext;
  on every error the whole buffer is zero and empty and the position has not moved.
\<close>

theorem in_place_decryption_wipes:
  assumes "lawful E S" "dec_state_ok E (de_state d)" "counter_ok (de_counter d)" "buffer_ok B"
  shows "case Decryptor_decrypt_segment_in_place E d B of
      (Ok p, d', B') \<Rightarrow> SegmentBuffer_plaintext B' = Ok p \<and> dec_state_ok E (de_state d') \<and> counter_ok (de_counter d') \<and>
        (\<exists>n kind. sb_state B = Ciphertext n \<and> de_counter d' = SegmentCounter_complete (de_counter d) kind \<and>
          take n (sb_bytes B) = floe_segment S (ds_context (de_state d)) (Decryptor_next_position d) kind (slice 4 16 (sb_bytes B)) p)
    | (Err e, d', B') \<Rightarrow> sb_bytes B' = replicate (csl (sb_parameters B)) 0 \<and> sb_state B' = Empty \<and>
        de_counter d' = de_counter d \<and> dec_state_ok E (de_state d')
    | (Panic, _, _) \<Rightarrow> False"
proof -
  let ?op = "\<lambda>buffer. try_in (bind (SegmentBuffer_ciphertext buffer) (Decryptor_framing d)) (d, buffer) (\<lambda>framing.
      Decryptor_advance d (sf_kind framing) buffer (\<lambda>state position.
        DecryptionState_decrypt_segment_in_place_at_framed E state buffer position framing))"
  obtain r d' B' where op: "?op B = (r, d', B')" by (cases "?op B") auto
  note O = in_place_operation_outcome [OF assms op]
  have B': "buffer_ok B'" "r \<noteq> Panic" "\<And>m. r = Ok m \<Longrightarrow> m \<le> psl (sb_parameters B')" using O by auto
  have run: "Decryptor_decrypt_segment_in_place E d B =
      (case r of Ok m \<Rightarrow> (Ok (slice 16 (16 + m) (sb_bytes B')), d', B'\<lparr> sb_state := Plaintext m \<rparr>)
       | Err e \<Rightarrow> (Err e, d', SegmentBuffer_clear E B'))"
    unfolding Decryptor_decrypt_segment_in_place_def
    by (rule decrypt_with_outcome [where operation = ?op, OF assms(1) op B'])
  show ?thesis
  proof (cases r)
    case (Ok m)
    have "16 + m \<le> length (sb_bytes B')" using B'(1,3) Ok buffer_okD(2) [OF B'(1)] by simp
    then show ?thesis using run O Ok by (auto simp: SegmentBuffer_plaintext_def)
  next
    case (Err e)
    then show ?thesis using run O SegmentBuffer_clear_ok [OF assms(1) B'(1)] by simp
  qed (use B'(2) in simp)
qed

definition toy_decryptor :: "toy Decryptor" where
  "toy_decryptor = \<lparr> de_state = toy_decryption_state, de_counter = SegmentCounter_new \<rparr>"

theorem in_place_decryption_wipes_witness:
  "case Decryptor_decrypt_segment_in_place toy_env toy_decryptor toy_buffer of
      (Ok p, d', B') \<Rightarrow> SegmentBuffer_plaintext B' = Ok p \<and> dec_state_ok toy_env (de_state d') \<and> counter_ok (de_counter d') \<and>
        (\<exists>n kind. sb_state toy_buffer = Ciphertext n \<and> de_counter d' = SegmentCounter_complete (de_counter toy_decryptor) kind \<and>
          take n (sb_bytes toy_buffer) = floe_segment toy_prims (ds_context (de_state toy_decryptor))
            (Decryptor_next_position toy_decryptor) kind (slice 4 16 (sb_bytes toy_buffer)) p)
    | (Err e, d', B') \<Rightarrow> sb_bytes B' = replicate (csl (sb_parameters toy_buffer)) 0 \<and> sb_state B' = Empty \<and>
        de_counter d' = de_counter toy_decryptor \<and> dec_state_ok toy_env (de_state d')
    | (Panic, _, _) \<Rightarrow> False"
  by (rule in_place_decryption_wipes [OF toy_lawful _ _ toy_buffer(1)])
    (simp_all add: toy_decryptor_def toy_decryption_state counter_new_ok)

end
