(* ===== verification/Floe_Message.thy ===== *)
theory Floe_Message
  imports Floe_Online
begin

text \<open>
  Whole messages. \<open>floe_message\<close> is the byte string the FLOE specification gives for a key,
  parameters, an IV, associated data and a list of chunks with their nonces;
  \<open>is_floe_message\<close> says that a byte string is such a message of a given plaintext. The
  one-shot functions of \<^verbatim>\<open>src/src/online.rs\<close> are shown to produce and to accept exactly these
  messages.
\<close>

section \<open>Specified messages\<close>

text \<open>
  The body of a message: every chunk but the last is a non-final segment, the last is the
  final one; the chunk with index \<open>i\<close> is sealed at position \<open>i\<close>.
\<close>

fun floe_body :: "prims \<Rightarrow> MessageContext \<Rightarrow> nat \<Rightarrow> (bytes \<times> bytes) list \<Rightarrow> bytes" where
  "floe_body S C i [] = []"
| "floe_body S C i [(nonce, p)] = floe_segment S C (word_of_nat i) Final nonce p"
| "floe_body S C i ((nonce, p) # q # rest) =
    floe_segment S C (word_of_nat i) NonFinal nonce p @ floe_body S C (Suc i) (q # rest)"

fun chunks_ok :: "Parameters \<Rightarrow> bytes list \<Rightarrow> bool" where
  "chunks_ok P [] \<longleftrightarrow> False"
| "chunks_ok P [p] \<longleftrightarrow> length p \<le> psl P"
| "chunks_ok P (p # q # rest) \<longleftrightarrow> length p = psl P \<and> chunks_ok P (q # rest)"

definition floe_message :: "prims \<Rightarrow> Key \<Rightarrow> Parameters \<Rightarrow> bytes \<Rightarrow> bytes \<Rightarrow> (bytes \<times> bytes) list \<Rightarrow> bytes" where
  "floe_message S key P iv aad nps =
    header_bytes (floe_header S key P iv aad) @ floe_body S (floe_context S Provider_RUSTCRYPTO key P iv aad) 0 nps"

text \<open>A byte string is a FLOE message of the plaintext \<open>p\<close> under a key, parameters and associated data.\<close>

definition is_floe_message :: "prims \<Rightarrow> Key \<Rightarrow> Parameters \<Rightarrow> bytes \<Rightarrow> bytes \<Rightarrow> bytes \<Rightarrow> bool" where
  "is_floe_message S key P aad p c \<longleftrightarrow>
    (\<exists>iv nps. length iv = 32 \<and> (\<forall>(nonce, _) \<in> set nps. length nonce = 12) \<and> length nps \<le> 2 ^ 40 \<and>
       chunks_ok P (map snd nps) \<and> p = concat (map snd nps) \<and> c = floe_message S key P iv aad nps)"

lemma is_floe_messageE:
  assumes "is_floe_message S key P aad p c"
  obtains iv nps where "length iv = 32" "\<forall>(nonce, _) \<in> set nps. length nonce = 12" "length nps \<le> 2 ^ 40" "chunks_ok P (map snd nps)"
    "p = concat (map snd nps)" "c = floe_message S key P iv aad nps"
  using assms unfolding is_floe_message_def by blast

lemma floe_body_provider:
  "floe_body S (floe_context S p K P iv aad) i nps = floe_body S (floe_context S q K P iv aad) i nps"
  by (induction S "floe_context S p K P iv aad" i nps rule: floe_body.induct)
    (simp_all add: floe_segment_provider(1) [where p = p and q = q])

lemma floe_body_Cons:
  "nps \<noteq> [] \<Longrightarrow> floe_body S C i ((nonce, p) # nps) =
    floe_segment S C (word_of_nat i) NonFinal nonce p @ floe_body S C (Suc i) nps"
  by (cases nps) auto

lemma chunks_ok_Cons: "ps \<noteq> [] \<Longrightarrow> chunks_ok P (p # ps) \<longleftrightarrow> length p = psl P \<and> chunks_ok P ps"
  by (cases ps) auto

section \<open>One-shot encryption\<close>

text \<open>The chunk of a plaintext that the segment \<open>i\<close> of a layout carries.\<close>

definition chunk :: "MessageLayout \<Rightarrow> bytes \<Rightarrow> nat \<Rightarrow> bytes" where
  "chunk L xs i = slice (i * psl (ml_parameters L)) (i * psl (ml_parameters L) + seg_plain_len L i) xs"

lemma chunk_length:
  assumes "layout_ok L" "length xs = unat (ml_plaintext_length L)" "i < unat (ml_segment_count L)"
  shows "length (chunk L xs i) = seg_plain_len L i"
  using layout_no_overflow(1) [OF assms(1,3)] assms(2) by (simp add: chunk_def)

lemma chunks_of_layout:
  assumes "layout_ok L" "length xs = unat (ml_plaintext_length L)" "i < unat (ml_segment_count L)"
  shows "chunks_ok (ml_parameters L) (map (chunk L xs) [i..<unat (ml_segment_count L)])"
  using assms(3)
proof (induction "unat (ml_segment_count L) - Suc i" arbitrary: i)
  case 0
  then have "[i..<unat (ml_segment_count L)] = [i]" by (simp add: upt_conv_Cons)
  then show ?case
    using chunk_length [OF assms(1,2) 0(2)] seg_plain_len_le [OF assms(1) 0(2)] by simp
next
  case (Suc k)
  then have up: "[i..<unat (ml_segment_count L)] = i # [Suc i..<unat (ml_segment_count L)]"
    "[Suc i..<unat (ml_segment_count L)] \<noteq> []" by (simp_all add: upt_conv_Cons)
  moreover have "seg_plain_len L i = psl (ml_parameters L)" using Suc.hyps(2) by (auto simp: seg_plain_len_def)
  ultimately show ?case
    using Suc.hyps(1) [of "Suc i"] Suc.hyps(2) chunk_length [OF assms(1,2) Suc.prems]
    by (simp add: chunks_ok_Cons)
qed

lemma draw_nonces_cases:
  assumes "rng_ok E" "nonces_ok G"
  shows "draw_nonces E n G = Err RngFailure \<or>
    (\<exists>ns. draw_nonces E n G = Ok ns \<and> length ns = n \<and> (\<forall>x \<in> set ns. length x = 12))"
  using assms(2)
proof (induction n arbitrary: G)
  case (Suc n)
  have inv: "rng_ok E \<and> nonces_ok G" using assms(1) Suc.prems by simp
  show ?case
  proof (cases rule: nonces.drawE [OF inv])
    case (2 nonce g')
    then show ?thesis using Suc.IH [of g'] by auto
  qed simp
qed simp

text \<open>
  The loop of \<open>encrypt_body\<close>, from segment \<open>i\<close> on, appends the specified segments of the
  remaining chunks under the nonces the generator yields, and fails only when it yields none.
\<close>

declare encrypt_body_loop.simps(2) [simp del]

lemma encrypt_body_step:
  assumes L: "layout_ok L" "length xs = unat (ml_plaintext_length L)" "i < unat (ml_segment_count L)"
    and fits: "unat (ml_ciphertext_length L) \<le> usize_max (pointer_width E)"
    and acc: "length acc = 74 + i * csl (ml_parameters L)"
  shows "encrypt_body_loop E xs (segment_spec L i # segs) enc acc =
    (let out = replicate (length (chunk L xs i) + 32) 0 in
     if Suc i = unat (ml_segment_count L)
     then bind (expect enc) (\<lambda>e. case Encryptor_encrypt_final_segment_into E e (chunk L xs i) out of (r, out') \<Rightarrow>
       bind (map_err FinalEncryptError_into_error r) (\<lambda>_. encrypt_body_loop E xs segs None (acc @ out')))
     else bind (expect enc) (\<lambda>e. case Encryptor_encrypt_non_final_segment_into E e (chunk L xs i) out of (r, e', out') \<Rightarrow>
       bind r (\<lambda>_. encrypt_body_loop E xs segs (Some e') (acc @ out'))))"
proof -
  note no = layout_no_overflow [OF L(1,3)]
  let ?o = "i * psl (ml_parameters L)" and ?n = "seg_plain_len L i"
  have le: "?o + ?n \<le> unat (ml_ciphertext_length L)" using no(1) layout_okD(4) [OF L(1)] by linarith
  then have "?o < 2 ^ 64" using unat_less_64 [of "ml_ciphertext_length L"] unfolding u64_bound by linarith
  then have "usize_try_from (pointer_width E) (word_of_nat ?o) = Some ?o"
    using le fits by (simp add: usize_try_from_def unat_of_nat_u64 del: of_nat_mult)
  moreover have "usize_checked_add (pointer_width E) ?o ?n = Some (?o + ?n)"
    using le fits by (simp add: usize_checked_add_def)
  moreover have "usize_checked_add (pointer_width E) (length acc) (32 + ?n) = Some (length acc + (32 + ?n))"
    using no(2) fits acc by (simp add: usize_checked_add_def)
  moreover have "index_range ?o (?o + ?n) xs = (Ok (chunk L xs i) :: bytes result)"
    using no(1) L(2) by (simp add: chunk_def)
  ultimately show ?thesis using chunk_length [OF L]
    by (simp add: segment_spec_def Let_def add.commute encrypt_body_loop.simps(2) del: of_nat_mult)
qed

lemma encrypt_body_loop_spec:
  assumes "lawful E S" and L: "layout_ok L" "length xs = unat (ml_plaintext_length L)"
    and fits: "unat (ml_ciphertext_length L) \<le> usize_max (pointer_width E)"
    and "i < unat (ml_segment_count L)" "encryptor_at E e i" "Encryptor_parameters e = ml_parameters L"
    and "length acc = 74 + i * csl (ml_parameters L)"
  shows "encrypt_body_loop E xs (map (segment_spec L) [i..<unat (ml_segment_count L)]) (Some e) acc =
    map_ok (\<lambda>ns. acc @ floe_body S (es_context (en_state e)) i (zip ns (map (chunk L xs) [i..<unat (ml_segment_count L)])))
      (draw_nonces E (unat (ml_segment_count L) - i) (es_nonces (en_state e)))"
  using assms(5-)
proof (induction "unat (ml_segment_count L) - Suc i" arbitrary: i e acc)
  case 0
  then have up: "[i..<unat (ml_segment_count L)] = [i]" "unat (ml_segment_count L) - i = Suc 0" "Suc i = unat (ml_segment_count L)"
    by (simp_all add: upt_conv_Cons)
  have len: "length (chunk L xs i) \<le> psl (Encryptor_parameters e)"
      "length (chunk L xs i) + 32 \<le> length (replicate (length (chunk L xs i) + 32) (0 :: u8))"
    using chunk_length [OF L 0(2)] seg_plain_len_le [OF L(1) 0(2)] 0(4) by simp_all
  note step = encrypt_body_step [OF L 0(2) fits 0(5), of "[]" "Some e"]
  show ?case
  proof (cases rule: final_into_cases [OF assms(1) 0(3) len])
    case (1 e' out')
    obtain g' where "NonceGenerator_next E (es_nonces (en_state e)) = (Err RngFailure, g')"
      using 1(4) by (metis fst_conv surj_pair)
    then show ?thesis using 1 up(3) by (simp add: up step Let_def FinalEncryptError_into_error_def)
  next
    case (2 nonce g')
    then show ?thesis using up(3) by (simp add: up step Let_def)
  qed
next
  case (Suc k)
  let ?n = "unat (ml_segment_count L)" and ?C = "es_context (en_state e)"
  have up: "[i..<?n] = i # [Suc i..<?n]" "[Suc i..<?n] \<noteq> []" "?n - i = Suc (?n - Suc i)" "Suc i \<noteq> ?n" "Suc i < ?n"
    using Suc.hyps(2) Suc.prems(1) by (simp_all add: upt_conv_Cons)
  have i: "i \<noteq> 2 ^ 40 - 1" using up(5) layout_okD(3) [OF L(1)] by simp
  have plen: "length (chunk L xs i) = psl (ml_parameters L)"
    using chunk_length [OF L Suc.prems(1)] up(4) by (simp add: seg_plain_len_def)
  then have len: "length (chunk L xs i) = psl (Encryptor_parameters e)"
      "length (chunk L xs i) + 32 \<le> length (replicate (length (chunk L xs i) + 32) (0 :: u8))"
    using Suc.prems(3) by simp_all
  note step = encrypt_body_step [OF L Suc.prems(1) fits Suc.prems(4), of "map (segment_spec L) [Suc i..<?n]" "Some e"]
  show ?case
  proof (cases rule: non_final_into_cases [OF assms(1) Suc.prems(2) i len])
    case (1 e' out')
    obtain g' where "NonceGenerator_next E (es_nonces (en_state e)) = (Err RngFailure, g')"
      using 1(4) by (metis fst_conv surj_pair)
    then show ?thesis using 1 up(4) by (simp add: up(1,3) step Let_def)
  next
    case (2 nonce e')
    let ?acc = "acc @ floe_segment S ?C (word_of_nat i) NonFinal nonce (chunk L xs i)"
    have "k = ?n - Suc (Suc i)" using Suc.hyps(2) by simp
    moreover have "Encryptor_parameters e' = ml_parameters L"
      using 2(3) Suc.prems(3) by (simp add: Encryptor_parameters_def EncryptionState_parameters_def)
    moreover have "length ?acc = 74 + Suc i * csl (ml_parameters L)"
      using Suc.prems(4) plen csl_psl [OF layout_okD(1) [OF L(1)]] floe_segment_length [OF lawfulD(1) [OF assms(1)] 2(4)] by simp
    ultimately have IH: "encrypt_body_loop E xs (map (segment_spec L) [Suc i..<?n]) (Some e') ?acc =
        map_ok (\<lambda>ns. ?acc @ floe_body S ?C (Suc i) (zip ns (map (chunk L xs) [Suc i..<?n])))
          (draw_nonces E (?n - Suc i) (es_nonces (en_state e')))"
      using Suc.hyps(1) [of "Suc i" e' ?acc] up(5) 2(2,3) by simp
    have ne: "nonces_ok (es_nonces (en_state e'))" using 2(2) by (simp add: encryptor_at_def encryptor_ok_def enc_state_ok_def)
    have body: "floe_body S ?C i ((nonce, chunk L xs i) # zip ns (map (chunk L xs) [Suc i..<?n])) =
        floe_segment S ?C (word_of_nat i) NonFinal nonce (chunk L xs i) @ floe_body S ?C (Suc i) (zip ns (map (chunk L xs) [Suc i..<?n]))"
      if "length ns = ?n - Suc i" for ns
      using that up(2,5) by (intro floe_body_Cons) (cases ns; simp add: upt_conv_Cons)
    show ?thesis
      using draw_nonces_cases [OF lawfulD(6) [OF assms(1)] ne, of "?n - Suc i"] 2 up(4) IH body
      by (auto simp: up(1,3) step Let_def)
  qed
qed

lemma encrypt_spec:
  assumes "lawful E S" "params_ok P" "Key_provider E key = Ok provider" "length p \<le> usize_max (pointer_width E)"
  shows "encrypt E key aad P p w =
    (case ProviderRng_fill E (ProviderRng_new provider w) (replicate 32 0) of
       (r, iv, rng) \<Rightarrow> bind r (\<lambda>_.
         bind (Parameters_plaintext_layout P (word_of_nat (length p))) (\<lambda>L.
         if usize_max (pointer_width E) < unat (ml_ciphertext_length L) then Err LengthOverflow
         else map_ok (\<lambda>ns. floe_message S key P iv aad (zip ns (map (chunk L p) [0..<unat (ml_segment_count L)])))
                (draw_nonces E (unat (ml_segment_count L)) (NonceGenerator_new rng)))))"
proof (cases rule: start_encryption_spec [OF assms(1-3), of aad w])
  case 1
  moreover obtain iv rng where "ProviderRng_fill E (ProviderRng_new provider w) (replicate 32 0) = (Err RngFailure, iv, rng)"
    using 1(2) by (metis fst_conv prod_cases3)
  ultimately show ?thesis by (simp add: encrypt_def Encryptor_new_def)
next
  case (2 s iv rng)
  let ?e = "\<lparr> en_state = s, en_header = floe_header S key P iv aad, en_counter = SegmentCounter_new \<rparr>"
  have params: "Encryptor_parameters ?e = P" using 2(4) by (simp add: Encryptor_parameters_def EncryptionState_parameters_def)
  have at0: "encryptor_at E ?e 0"
    using 2(5) counter_new_ok by (simp add: encryptor_at_def encryptor_ok_def SegmentCounter_new_def)
  have len: "unat (word_of_nat (length p) :: u64) = length p"
    using assms(4) usize_max_lt [of "pointer_width E"] by (intro unat_of_nat_u64) linarith
  have body: "encrypt_body E ?e p =
      bind (Parameters_plaintext_layout P (word_of_nat (length p))) (\<lambda>L.
         if usize_max (pointer_width E) < unat (ml_ciphertext_length L) then Err LengthOverflow
         else map_ok (\<lambda>ns. floe_message S key P iv aad (zip ns (map (chunk L p) [0..<unat (ml_segment_count L)])))
                (draw_nonces E (unat (ml_segment_count L)) (NonceGenerator_new rng)))"
  proof (cases "Parameters_plaintext_layout P (word_of_nat (length p))")
    case (Ok L)
    note L = plaintext_layout_okD [OF assms(2) Ok]
    show ?thesis
    proof (cases "usize_max (pointer_width E) < unat (ml_ciphertext_length L)")
      case False
      have ctx: "es_context s = floe_context S provider key P iv aad" by (rule 2(4))
      have "length (header_bytes (floe_header S key P iv aad)) = 74"
        using 2(2) lawfulD(1) [OF assms(1)] by (simp add: floe_header_def)
      then have "encrypt_body_loop E p (map (segment_spec L) [0..<unat (ml_segment_count L)]) (Some ?e)
            (header_bytes (floe_header S key P iv aad)) =
          map_ok (\<lambda>ns. floe_message S key P iv aad (zip ns (map (chunk L p) [0..<unat (ml_segment_count L)])))
                (draw_nonces E (unat (ml_segment_count L)) (NonceGenerator_new rng))"
        using encrypt_body_loop_spec [OF assms(1) L(1) _ _ _ at0, of p "header_bytes (floe_header S key P iv aad)"]
          L len params False layout_okD(2) [OF L(1)] 2(6) ctx
        by (simp add: floe_message_def floe_body_provider [of S provider key P iv aad _ _ Provider_RUSTCRYPTO])
      moreover have "Segments_collect (pointer_width E) (MessageLayout_segments L) =
          (Ok (map (segment_spec L) [0..<unat (ml_segment_count L)]) :: SegmentLayout list result)"
        using Segments_collect_spec [of "MessageLayout_segments L"] L(1) by (simp add: MessageLayout_segments_def)
      ultimately show ?thesis using Ok False params
        by (simp add: encrypt_body_def usize_try_from_def length_usize_to_u64_def Encryptor_header_def Header_as_bytes_def)
    qed (simp add: Ok encrypt_body_def params length_usize_to_u64_def usize_try_from_def)
  qed (simp_all add: encrypt_body_def params length_usize_to_u64_def)
  then show ?thesis using 2(1,3) by (simp add: encrypt_def Encryptor_new_def)
qed

text \<open>The specification of a message fixes its length.\<close>

lemma floe_body_length:
  assumes "prims_ok S" "\<forall>(nonce, _) \<in> set nps. length nonce = 12"
  shows "length (floe_body S C i nps) = length (concat (map snd nps)) + 32 * length nps"
  using assms by (induction S C i nps rule: floe_body.induct) (auto simp: floe_segment_length)

section \<open>One-shot decryption\<close>

definition decryptor_at :: "'x env \<Rightarrow> 'x Decryptor \<Rightarrow> nat \<Rightarrow> bool" where
  "decryptor_at E d i \<longleftrightarrow> dec_state_ok E (de_state d) \<and> counter_ok (de_counter d) \<and>
    \<not> sc_closed (de_counter d) \<and> unat (sc_next (de_counter d)) = i"

lemma decrypt_into_framed_outcome:
  assumes "lawful E S" "decryptor_at E d i" "framing_ok (Decryptor_parameters d) F" "length seg = sf_ciphertext_length F"
    and "sf_plaintext_length F \<le> length out"
  defines "C \<equiv> ds_context (de_state d)"
  obtains (limit) "Decryptor_decrypt_segment_into_framed E d seg F out = (Err SegmentLimit, d, out)"
      "sf_kind F = NonFinal" "i = 2 ^ 40 - 1"
    | (rejected) d' out' where "Decryptor_decrypt_segment_into_framed E d seg F out = (Err AuthenticationFailed, d', out')"
      "segment_open S C (word_of_nat i) (sf_kind F) seg = None" "decryptor_at E d' i" "ds_context (de_state d') = C"
    | (opened) p d' where "Decryptor_decrypt_segment_into_framed E d seg F out = 
        (Ok (sf_plaintext_length F), d', p @ drop (sf_plaintext_length F) out)"
      "segment_open S C (word_of_nat i) (sf_kind F) seg = Some p" "ds_context (de_state d') = C"
      "sf_kind F = NonFinal \<Longrightarrow> i \<noteq> 2 ^ 40 - 1 \<and> decryptor_at E d' (Suc i)" "sf_kind F = Final \<Longrightarrow> sc_closed (de_counter d')"
      "dec_state_ok E (de_state d')" "counter_ok (de_counter d')"
proof -
  have st: "dec_state_ok E (de_state d)" and ct: "counter_ok (de_counter d)" "\<not> sc_closed (de_counter d)"
    and next_i: "sc_next (de_counter d) = word_of_nat i" "unat (sc_next (de_counter d)) = i"
    using assms(2) by (auto simp: decryptor_at_def)
  have F: "framing_ok (mc_parameters C) F" using assms(3) by (simp add: C_def Decryptor_parameters_def DecryptionState_parameters_def)
  note pos = position_for_cases [OF ct(1), of "sf_kind F"]
  show thesis
  proof (cases "sf_kind F = NonFinal \<and> i = 2 ^ 40 - 1")
    case True
    then show thesis using limit ct(2) pos next_i(2)
      by (simp add: Decryptor_decrypt_segment_into_framed_def Decryptor_advance_def)
  next
    case False
    then have P: "SegmentCounter_position_for (de_counter d) (sf_kind F) = Ok (word_of_nat i)"
      using ct(2) pos next_i by auto
    note CC = complete_ok [OF ct(1) P]
    obtain s' out' where R: "DecryptionState_decrypt_segment_into_at_framed E (de_state d) seg (word_of_nat i) F out =
        (case segment_open S C (word_of_nat i) (sf_kind F) seg of
           Some p \<Rightarrow> Ok (sf_plaintext_length F) | None \<Rightarrow> Err AuthenticationFailed, s', out')"
      "dec_state_ok E s'" "ds_context s' = C" "length out' = length out"
      "\<And>p. segment_open S C (word_of_nat i) (sf_kind F) seg = Some p \<Longrightarrow> out' = p @ drop (sf_plaintext_length F) out"
      using decrypt_into_at_framed_spec [OF assms(1) st F [unfolded C_def] assms(4,5) CC(3), folded C_def] by blast
    show thesis
    proof (cases "segment_open S C (word_of_nat i) (sf_kind F) seg")
      case None
      have "decryptor_at E (d\<lparr> de_state := s' \<rparr>) i" using R(2) ct next_i(2) by (simp add: decryptor_at_def)
      then show thesis using rejected [of "d\<lparr> de_state := s' \<rparr>" out'] None R P
        by (simp add: Decryptor_decrypt_segment_into_framed_def Decryptor_advance_def)
    next
      case (Some p)
      let ?d = "d\<lparr> de_state := s', de_counter := SegmentCounter_complete (de_counter d) (sf_kind F) \<rparr>"
      show thesis
      proof (rule opened)
        show "Decryptor_decrypt_segment_into_framed E d seg F out = 
            (Ok (sf_plaintext_length F), ?d, p @ drop (sf_plaintext_length F) out)"
          using Some R P by (simp add: Decryptor_decrypt_segment_into_framed_def Decryptor_advance_def)
        show "i \<noteq> 2 ^ 40 - 1 \<and> decryptor_at E ?d (Suc i)" if "sf_kind F = NonFinal"
        proof -
          have "\<not> sc_closed (de_counter ?d)" using that ct(2) by (simp add: SegmentCounter_complete_def)
          then show ?thesis using that False CC(1,5) R(2) next_i(2) by (simp add: decryptor_at_def)
        qed
        show "sc_closed (de_counter ?d)" if "sf_kind F = Final" using that by (simp add: SegmentCounter_complete_def)
      qed (use Some R(2,3) CC(1) in simp_all)
    qed
  qed
qed

lemma decrypt_into_framed_cases:
  assumes "lawful E S" "decryptor_at E d i" "framing_ok (Decryptor_parameters d) F" "length seg = sf_ciphertext_length F"
  defines "C \<equiv> ds_context (de_state d)" and "out \<equiv> replicate (sf_plaintext_length F) 0"
  obtains (limit) "Decryptor_decrypt_segment_into_framed E d seg F out = (Err SegmentLimit, d, out)"
      "sf_kind F = NonFinal" "i = 2 ^ 40 - 1"
    | (rejected) d' out' where "Decryptor_decrypt_segment_into_framed E d seg F out = (Err AuthenticationFailed, d', out')"
      "segment_open S C (word_of_nat i) (sf_kind F) seg = None" "decryptor_at E d' i" "ds_context (de_state d') = C"
    | (opened) p d' where "Decryptor_decrypt_segment_into_framed E d seg F out = (Ok (sf_plaintext_length F), d', p)"
      "segment_open S C (word_of_nat i) (sf_kind F) seg = Some p" "ds_context (de_state d') = C"
      "sf_kind F = NonFinal \<Longrightarrow> i \<noteq> 2 ^ 40 - 1 \<and> decryptor_at E d' (Suc i)" "sf_kind F = Final \<Longrightarrow> sc_closed (de_counter d')"
      "dec_state_ok E (de_state d')" "counter_ok (de_counter d')"
  using decrypt_into_framed_outcome [OF assms(1-4), of out] that unfolding C_def out_def by simp blast

lemma SegmentKind_is_final_iff [simp]: "SegmentKind_is_final k \<longleftrightarrow> k = Final"
  by (cases k) simp_all

lemma decrypt_body_step:
  assumes "body \<noteq> []" "SegmentFraming_decode P (take 4 body) = Ok F" "4 \<le> length body"
    and "sf_ciphertext_length F \<le> length body" "sf_kind F = Final \<Longrightarrow> length body = sf_ciphertext_length F"
  shows "decrypt_body_loop E P d body acc =
    (case Decryptor_decrypt_segment_into_framed E d (take (sf_ciphertext_length F) body) F
            (replicate (sf_plaintext_length F) 0) of
       (Ok _, d', out') \<Rightarrow> decrypt_body_loop E P d' (drop (sf_ciphertext_length F) body) (acc @ out')
     | (Err e, _, _) \<Rightarrow> Err e
     | (Panic, _, _) \<Rightarrow> Panic)"
  using assms
  by (subst decrypt_body_loop.simps; cases "sf_kind F")
    (simp_all add: segment_prefix_def SegmentFraming_is_final_def Let_def split: rust.split prod.split)

lemma decrypt_body_okD:
  assumes "decrypt_body_loop E P d body acc = Ok pl" "body \<noteq> []"
  obtains F n out' d' where "SegmentFraming_decode P (take 4 body) = Ok F" "4 \<le> length body"
    "sf_ciphertext_length F \<le> length body" "sf_kind F = Final \<Longrightarrow> length body = sf_ciphertext_length F"
    "Decryptor_decrypt_segment_into_framed E d (take (sf_ciphertext_length F) body) F
       (replicate (sf_plaintext_length F) 0) = (Ok n, d', out')"
    "decrypt_body_loop E P d' (drop (sf_ciphertext_length F) body) (acc @ out') = Ok pl"
proof -
  obtain F where F: "SegmentFraming_decode P (take 4 body) = Ok F" "4 \<le> length body"
    "sf_ciphertext_length F \<le> length body" "sf_kind F = Final \<Longrightarrow> length body = sf_ciphertext_length F"
    using assms
    by (subst (asm) decrypt_body_loop.simps)
      (auto simp: segment_prefix_def SegmentFraming_is_final_def Let_def split: if_splits)
  note step = decrypt_body_step [OF assms(2) F, of E d acc]
  obtain r d' out' where D: "Decryptor_decrypt_segment_into_framed E d (take (sf_ciphertext_length F) body) F
       (replicate (sf_plaintext_length F) 0) = (r, d', out')" by (metis prod_cases3)
  then obtain n where "r = Ok n" using assms(1) step by (cases r) auto
  then show thesis using that [OF F] D assms(1) step by auto
qed

text \<open>Soundness: what the loop accepts is a specified body, and what it returns is its plaintext.\<close>

lemma decrypt_body_sound:
  assumes "lawful E S" "decryptor_at E d i" "P = Decryptor_parameters d"
    and "decrypt_body_loop E P d body acc = Ok pl"
  shows "\<exists>nps. body = floe_body S (ds_context (de_state d)) i nps \<and> chunks_ok P (map snd nps) \<and>
    (\<forall>(nonce, _) \<in> set nps. length nonce = 12) \<and> i + length nps \<le> 2 ^ 40 \<and> pl = acc @ concat (map snd nps)"
  using assms(2-)
proof (induction "length body" arbitrary: d i body acc rule: less_induct)
  case less
  let ?C = "ds_context (de_state d)"
  have st: "dec_state_ok E (de_state d)" and i: "i < 2 ^ 40" using less(2) by (auto simp: decryptor_at_def counter_ok_def)
  then have P: "params_ok P" and ctx: "context_ok ?C"
    using less(3) by (auto simp: dec_state_ok_def context_ok_def Decryptor_parameters_def DecryptionState_parameters_def)
  have ne: "body \<noteq> []"
    using less(2,4) by (subst (asm) decrypt_body_loop.simps) (auto simp: Decryptor_finish_def SegmentCounter_finish_def decryptor_at_def)
  obtain F out' d' n where F: "SegmentFraming_decode P (take 4 body) = Ok F" "4 \<le> length body"
      "sf_ciphertext_length F \<le> length body" "sf_kind F = Final \<Longrightarrow> length body = sf_ciphertext_length F"
    and D: "Decryptor_decrypt_segment_into_framed E d (take (sf_ciphertext_length F) body) F
       (replicate (sf_plaintext_length F) 0) = (Ok n, d', out')"
    and rec: "decrypt_body_loop E P d' (drop (sf_ciphertext_length F) body) (acc @ out') = Ok pl"
    using decrypt_body_okD [OF less(4) ne] by metis
  let ?seg = "take (sf_ciphertext_length F) body" and ?rest = "drop (sf_ciphertext_length F) body"
  have fok: "framing_ok (Decryptor_parameters d) F" using framing_decode_ok [OF P F(1)] less(3) by simp
  have len: "length ?seg = sf_ciphertext_length F" using F(3) by simp
  have clen: "32 \<le> sf_ciphertext_length F" using fok by (simp add: framing_ok_def)
  have pre: "take 4 ?seg = u32_to_be_bytes (segment_prefix_word (sf_kind F) (length ?seg))"
    using prefix_of_framing [OF P _ F(1)] F(2,3) clen by (simp add: min_def)
  show ?case
  proof (cases rule: decrypt_into_framed_cases [OF assms(1) less(2) fok len])
    case (3 p d'')
    then have eq: "d'' = d'" "out' = p" using D by auto
    let ?nonce = "slice 4 16 ?seg"
    have seg: "?seg = floe_segment S ?C (word_of_nat i) (sf_kind F) ?nonce p"
      using segment_open_iff [OF lawfulD(1) [OF assms(1)] _ pre] 3(2) len clen by auto
    have nl: "length ?nonce = 12" using len clen by simp
    have pl: "length p = sf_plaintext_length F"
      using segment_open_length [OF lawfulD(1) [OF assms(1)] _ 3(2)] len fok by (simp add: framing_ok_def)
    note Fd = framing_okD [OF ctx] 
    have fr: "framing_ok (mc_parameters ?C) F" using fok by (simp add: Decryptor_parameters_def DecryptionState_parameters_def)
    have Ceq: "psl (mc_parameters ?C) = psl P" using less(3) by (simp add: Decryptor_parameters_def DecryptionState_parameters_def)
    show ?thesis
    proof (cases "sf_kind F")
      case Final
      then have rest: "?rest = []" and body: "?seg = body" using F(4) by simp_all
      have "sc_closed (de_counter d')" using 3(5) Final eq by simp
      then have "pl = acc @ p" using rec rest eq
        by (subst (asm) decrypt_body_loop.simps) (simp add: Decryptor_finish_def SegmentCounter_finish_def)
      moreover have "length p \<le> psl P" using Fd(2) [OF fr] pl Ceq by simp
      ultimately show ?thesis using seg nl i body Final by (intro exI [of _ "[(?nonce, p)]"]) simp
    next
      case NonFinal
      have at: "decryptor_at E d' (Suc i)" "ds_context (de_state d') = ?C" using 3(3,4) NonFinal eq by simp_all
      have "length ?rest < length body" using clen F(3) by simp
      moreover have "P = Decryptor_parameters d'" using at(2) less(3) by (simp add: Decryptor_parameters_def DecryptionState_parameters_def)
      ultimately obtain nps where nps: "?rest = floe_body S ?C (Suc i) nps" "chunks_ok P (map snd nps)"
          "\<forall>(nonce, _) \<in> set nps. length nonce = 12" "Suc i + length nps \<le> 2 ^ 40" "pl = (acc @ p) @ concat (map snd nps)"
        using less(1) [of ?rest d' "Suc i" "acc @ p"] at rec eq by auto
      have ne': "nps \<noteq> []" using nps(2) by auto
      have "body = ?seg @ ?rest" by simp
      then have "body = floe_body S ?C i ((?nonce, p) # nps)"
        using seg nps(1) ne' NonFinal by (simp add: floe_body_Cons)
      moreover have "length p = psl P" using Fd(3) [OF fr] pl NonFinal Ceq by (simp add: seg_len_ok_def)
      ultimately show ?thesis using nps ne' nl
        by (intro exI [of _ "(?nonce, p) # nps"]) (simp add: chunks_ok_Cons)
    qed
  qed (use D in auto)
qed

text \<open>Completeness: the loop accepts every specified body.\<close>

lemma decrypt_body_complete:
  assumes "lawful E S" "decryptor_at E d i" "P = Decryptor_parameters d"
    and "chunks_ok P (map snd nps)" "\<forall>(nonce, _) \<in> set nps. length nonce = 12" "i + length nps \<le> 2 ^ 40"
  shows "decrypt_body_loop E P d (floe_body S (ds_context (de_state d)) i nps) acc = Ok (acc @ concat (map snd nps))"
  using assms(2-)
proof (induction nps arbitrary: d i acc)
  case (Cons np nps)
  obtain nonce p where np: "np = (nonce, p)" by fastforce
  let ?C = "ds_context (de_state d)" and ?kind = "if nps = [] then Final else NonFinal"
  let ?seg = "floe_segment S ?C (word_of_nat i) ?kind nonce p"
  let ?F = "\<lparr> sf_ciphertext_length = length p + 32, sf_plaintext_length = length p, sf_kind = ?kind \<rparr>"
  note S = lawfulD(1) [OF assms(1)]
  have P: "params_ok P"
    using Cons.prems(1,2) by (auto simp: decryptor_at_def dec_state_ok_def context_ok_def Decryptor_parameters_def DecryptionState_parameters_def)
  have nl: "length nonce = 12" using Cons.prems(4) np by simp
  have len: "length ?seg = length p + 32" using floe_segment_length [OF S nl] .
  have plen: "length p \<le> psl P" "nps \<noteq> [] \<Longrightarrow> length p = psl P"
    using Cons.prems(3) np by (cases nps; simp)+
  let ?rest = "if nps = [] then [] else floe_body S ?C (Suc i) nps"
  have body: "floe_body S ?C i (np # nps) = ?seg @ ?rest" using np by (cases nps) simp_all
  have dec: "SegmentFraming_decode P (take 4 (?seg @ ?rest)) = Ok ?F"
    using framing_of_prefix [OF P, of "length p + 32" ?kind] plen csl_psl [OF P] len
      floe_segment_parts(1) [OF S nl, of ?C "word_of_nat i" ?kind p]
    by (auto simp: add.commute)
  have fok: "framing_ok (Decryptor_parameters d) ?F" using framing_decode_ok [OF P dec] Cons.prems(2) by simp
  have step: "decrypt_body_loop E P d (?seg @ ?rest) acc =
     (case Decryptor_decrypt_segment_into_framed E d ?seg ?F (replicate (length p) 0) of
       (Ok _, d', out') \<Rightarrow> decrypt_body_loop E P d' ?rest (acc @ out')
     | (Err e, _, _) \<Rightarrow> Err e
     | (Panic, _, _) \<Rightarrow> Panic)"
  proof -
    have eqs: "take (sf_ciphertext_length ?F) (?seg @ ?rest) = ?seg" "drop (sf_ciphertext_length ?F) (?seg @ ?rest) = ?rest"
      using len by simp_all
    have "?seg @ ?rest \<noteq> []" "4 \<le> length (?seg @ ?rest)" "sf_ciphertext_length ?F \<le> length (?seg @ ?rest)"
        "sf_kind ?F = Final \<Longrightarrow> length (?seg @ ?rest) = sf_ciphertext_length ?F"
      using len by (auto split: if_splits)
    from decrypt_body_step [OF this(1) dec this(2-4), of E d acc, unfolded eqs] show ?thesis by simp
  qed
  have op: "segment_open S ?C (word_of_nat i) ?kind ?seg = Some p" by (rule segment_open_sealed [OF S nl])
  have seglen: "length ?seg = sf_ciphertext_length ?F" using len by simp
  show ?case
  proof (cases rule: decrypt_into_framed_cases [OF assms(1) Cons.prems(1) fok seglen])
    case 1
    then have False using Cons.prems(5) by (cases nps) auto
    then show ?thesis ..
  next
    case (2 d' out')
    then show ?thesis using op by simp
  next
    case (3 p' d')
    then have p': "p' = p" using op by simp
    show ?thesis
    proof (cases "nps = []")
      case True
      then have "sc_closed (de_counter d')" using 3(5) by simp
      then show ?thesis using 3(1) p' np True step body
        by (simp add: decrypt_body_loop.simps [of E P d' "[]"] Decryptor_finish_def SegmentCounter_finish_def)
    next
      case False
      have at: "decryptor_at E d' (Suc i)" "ds_context (de_state d') = ?C" using 3(3,4) False by simp_all
      have "P = Decryptor_parameters d'" using at(2) Cons.prems(2) by (simp add: Decryptor_parameters_def DecryptionState_parameters_def)
      then have "decrypt_body_loop E P d' (floe_body S ?C (Suc i) nps) (acc @ p) = Ok ((acc @ p) @ concat (map snd nps))"
        using Cons.IH [OF at(1)] at(2) Cons.prems(3-) False np by (simp add: chunks_ok_Cons)
      then show ?thesis using 3(1) p' np False step body by simp
    qed
  qed
qed simp

section \<open>Accepted messages are the specified ones\<close>

lemma floe_header_length [simp]: "prims_ok S \<Longrightarrow> length iv = 32 \<Longrightarrow> length (header_bytes (floe_header S key P iv aad)) = 74"
  by (simp add: floe_header_def)

lemma new_decryptor_at:
  "dec_state_ok E s \<Longrightarrow> decryptor_at E \<lparr> de_state = s, de_counter = SegmentCounter_new \<rparr> 0"
  using counter_new_ok by (simp add: decryptor_at_def SegmentCounter_new_def)

lemma new_decryptor_parameters:
  "Decryptor_parameters \<lparr> de_state = s, de_counter = c \<rparr> = mc_parameters (ds_context s)"
  by (simp add: Decryptor_parameters_def DecryptionState_parameters_def)

lemma decrypt_message_iff:
  assumes "lawful E S" "params_ok P" "length (header_bytes H) = 74"
  shows "(\<exists>s. start_decryption_with_provider E key provider aad P H = Ok s \<and>
      decrypt_body E \<lparr> de_state = s, de_counter = SegmentCounter_new \<rparr> body = Ok p) \<longleftrightarrow>
    is_floe_message S key P aad p (header_bytes H @ body)"
proof
  assume "\<exists>s. start_decryption_with_provider E key provider aad P H = Ok s \<and>
      decrypt_body E \<lparr> de_state = s, de_counter = SegmentCounter_new \<rparr> body = Ok p"
  then obtain s where s: "start_decryption_with_provider E key provider aad P H = Ok s"
      "decrypt_body E \<lparr> de_state = s, de_counter = SegmentCounter_new \<rparr> body = Ok p" by blast
  note D = start_decryption_okD [OF assms s(1)]
  let ?iv = "Header_floe_iv H" and ?d = "\<lparr> de_state = s, de_counter = SegmentCounter_new \<rparr>"
  have "decrypt_body_loop E P ?d body [] = Ok p" "P = Decryptor_parameters ?d"
    using s(2) D(2) by (simp_all add: decrypt_body_def new_decryptor_parameters)
  from decrypt_body_sound [OF assms(1) new_decryptor_at [OF D(3)] this(2,1)]
  obtain nps where nps: "body = floe_body S (floe_context S provider key P ?iv aad) 0 nps" "chunks_ok P (map snd nps)"
      "\<forall>(nonce, _) \<in> set nps. length nonce = 12" "length nps \<le> 2 ^ 40" "p = concat (map snd nps)"
    using D(2) by auto
  then have "header_bytes H @ body = floe_message S key P ?iv aad nps"
    using D(1) floe_body_provider [of S provider key P ?iv aad 0 nps Provider_RUSTCRYPTO] by (simp add: floe_message_def)
  then show "is_floe_message S key P aad p (header_bytes H @ body)"
    unfolding is_floe_message_def using nps Header_eq_fields(3) [OF assms(3)] by blast
next
  assume "is_floe_message S key P aad p (header_bytes H @ body)"
  then obtain iv nps where M: "length iv = 32" "\<forall>(nonce, _) \<in> set nps. length nonce = 12" "length nps \<le> 2 ^ 40"
      "chunks_ok P (map snd nps)" "p = concat (map snd nps)" "header_bytes H @ body = floe_message S key P iv aad nps"
    unfolding is_floe_message_def by blast
  note S = lawfulD(1) [OF assms(1)]
  have "header_bytes H = header_bytes (floe_header S key P iv aad)"
      "body = floe_body S (floe_context S Provider_RUSTCRYPTO key P iv aad) 0 nps"
    using M(6) assms(3) floe_header_length [OF S M(1), of key P aad] by (auto simp: floe_message_def)
  then have H: "H = floe_header S key P iv aad"
    and body: "body = floe_body S (floe_context S provider key P iv aad) 0 nps"
    using floe_body_provider [of S provider key P iv aad 0 nps Provider_RUSTCRYPTO] by (simp_all add: Header.expand)
  obtain s where s: "start_decryption_with_provider E key provider aad P H = Ok s"
      "ds_context s = floe_context S provider key P iv aad" "dec_state_ok E s"
    using start_decryption_floe_header [OF assms(1,2) M(1), of key provider aad] H by blast
  let ?d = "\<lparr> de_state = s, de_counter = SegmentCounter_new \<rparr>"
  have P: "P = Decryptor_parameters ?d" using s(2) by (simp add: new_decryptor_parameters)
  have "0 + length nps \<le> 2 ^ 40" using M(3) by simp
  from decrypt_body_complete [OF assms(1) new_decryptor_at [OF s(3)] P M(4,2) this, of "[]"]
  have "decrypt_body E ?d body = Ok p" using s(2) body M(5) P by (simp add: decrypt_body_def)
  with s(1) show "\<exists>s. start_decryption_with_provider E key provider aad P H = Ok s \<and>
      decrypt_body E \<lparr> de_state = s, de_counter = SegmentCounter_new \<rparr> body = Ok p" by blast
qed

lemma decrypt_with_parameters_accepts:
  assumes "lawful E S" "params_ok P" "Key_provider E key = Ok provider"
  shows "decrypt_with_parameters E key aad P c = Ok p \<longleftrightarrow> 74 \<le> length c \<and> is_floe_message S key P aad p c"
proof (cases "74 \<le> length c")
  case True
  then have len: "length (header_bytes (Header (take 74 c))) = 74" by simp
  show ?thesis
    using decrypt_message_iff [OF assms(1,2) len, of key provider aad "drop 74 c" p] True assms(3)
    by (auto simp: decrypt_with_parameters_def split_header_spec Decryptor_new_with_parameters_def start_decryption_def)
qed (simp add: decrypt_with_parameters_def split_header_spec)

lemma is_floe_message_length:
  assumes "prims_ok S" "is_floe_message S key P aad p c"
  shows "74 \<le> length c"
  using assms by (auto simp: is_floe_message_def floe_message_def)

lemma is_floe_message_parameters:
  assumes "prims_ok S" "is_floe_message S key P aad p c"
  shows "take 10 c = Parameters_encode P"
  using assms by (auto simp: is_floe_message_def floe_message_def floe_header_def)

lemma decrypt_accepts:
  assumes "lawful E S" "Key_provider E key = Ok provider"
  shows "decrypt E key aad c = Ok p \<longleftrightarrow> (\<exists>P. params_ok P \<and> is_floe_message S key P aad p c)"
proof (cases "74 \<le> length c")
  case False
  then show ?thesis using is_floe_message_length [OF lawfulD(1) [OF assms(1)]]
    by (auto simp: decrypt_def split_header_spec)
next
  case True
  then have len: "length (header_bytes (Header (take 74 c))) = 74" by simp
  have enc: "Header_encoded_parameters (Header (take 74 c)) = take 10 c"
    by (simp add: Header_encoded_parameters_def slice_def)
  have "decrypt E key aad c = Ok p \<longleftrightarrow> (\<exists>P. Parameters_decode (take 10 c) = Ok P \<and>
      is_floe_message S key P aad p c)"
  proof -
    have "decrypt E key aad c = Ok p \<longleftrightarrow> (\<exists>P. Parameters_decode (take 10 c) = Ok P \<and>
        (\<exists>s. start_decryption_with_provider E key provider aad P (Header (take 74 c)) = Ok s \<and>
          decrypt_body E \<lparr> de_state = s, de_counter = SegmentCounter_new \<rparr> (drop 74 c) = Ok p))"
      using True assms(2)
      by (auto simp: decrypt_def split_header_spec Decryptor_new_def start_decryption_inferred_def
          Header_unverified_parameters_def enc)
    then show ?thesis
      using decrypt_message_iff [OF assms(1) _ len, of _ key provider aad "drop 74 c" p] by (auto simp: decode_iff)
  qed
  then show ?thesis using is_floe_message_parameters [OF lawfulD(1) [OF assms(1)]] by (auto simp: decode_iff)
qed

section \<open>Encryption produces a specified message\<close>

lemma chunks_concat:
  assumes "layout_ok L" "length xs = unat (ml_plaintext_length L)"
  shows "concat (map (chunk L xs) [0..<unat (ml_segment_count L)]) = xs"
  unfolding chunk_def by (rule plaintext_tiling [OF assms])

lemma encrypt_okE:
  assumes "lawful E S" "params_ok P" "Key_provider E key = Ok provider" "length p \<le> usize_max (pointer_width E)"
    and "encrypt E key aad P p w = Ok c"
  obtains iv rng L nps where "ProviderRng_fill E (ProviderRng_new provider w) (replicate 32 0) = (Ok (), iv, rng)" "length iv = 32"
    "Parameters_plaintext_layout P (word_of_nat (length p)) = Ok L" "length nps = unat (ml_segment_count L)"
    "draw_nonces E (length nps) (NonceGenerator_new rng) = Ok (map fst nps)"
    "\<forall>(nonce, _) \<in> set nps. length nonce = 12" "chunks_ok P (map snd nps)" "concat (map snd nps) = p" "length nps \<le> 2 ^ 40"
    "c = floe_message S key P iv aad nps"
proof -
  obtain r iv rng where fill: "ProviderRng_fill E (ProviderRng_new provider w) (replicate 32 0) = (r, iv, rng)"
    by (metis prod_cases3)
  then have iv: "length iv = 32"
    using ProviderRng_fill_total(1) [OF lawfulD(6) [OF assms(1)], of "ProviderRng_new provider w" "replicate 32 0"] by simp
  obtain L ns where L: "r = Ok ()" "Parameters_plaintext_layout P (word_of_nat (length p)) = Ok L"
      "draw_nonces E (unat (ml_segment_count L)) (NonceGenerator_new rng) = Ok ns"
      "c = floe_message S key P iv aad (zip ns (map (chunk L p) [0..<unat (ml_segment_count L)]))"
    using assms(5) by (cases r) (auto simp: encrypt_spec [OF assms(1-4)] fill split: if_splits)
  note LD = plaintext_layout_okD [OF assms(2) L(2)]
  let ?n = "unat (ml_segment_count L)" and ?nps = "zip ns (map (chunk L p) [0..<unat (ml_segment_count L)])"
  have plen: "length p = unat (ml_plaintext_length L)"
    using LD(3) assms(4) usize_max_lt [of "pointer_width E"] by (simp add: unat_of_nat_u64)
  have ns: "length ns = ?n" "\<forall>x \<in> set ns. length x = 12"
    using draw_nonces_cases [OF lawfulD(6) [OF assms(1)] NonceGenerator_new_ok, of ?n rng] L(3) by auto
  have maps: "map snd ?nps = map (chunk L p) [0..<?n]" "map fst ?nps = ns" "length ?nps = ?n" using ns(1) by simp_all
  have nonces: "\<forall>(nonce, _) \<in> set ?nps. length nonce = 12" using ns(2) by (auto dest: set_zip_leftD)
  have chunks: "chunks_ok P (map snd ?nps)" "concat (map snd ?nps) = p"
    using chunks_of_layout [OF LD(1) plen, of 0] chunks_concat [OF LD(1) plen] layout_okD(2) [OF LD(1)] LD(2)
    unfolding maps(1) by simp_all
  have draws: "draw_nonces E (length ?nps) (NonceGenerator_new rng) = Ok (map fst ?nps)" using L(3) maps by simp
  show thesis
    by (rule that [OF fill [unfolded L(1)] iv L(2) maps(3) draws nonces chunks _ L(4)]) (use layout_okD(3) [OF LD(1)] maps(3) in simp)
qed

lemma encrypt_okD:
  assumes "lawful E S" "params_ok P" "Key_provider E key = Ok provider" "length p \<le> usize_max (pointer_width E)"
    and "encrypt E key aad P p w = Ok c"
  shows "is_floe_message S key P aad p c"
    and "\<exists>L. Parameters_plaintext_layout P (word_of_nat (length p)) = Ok L \<and> length c = unat (ml_ciphertext_length L)"
proof -
  obtain iv rng L nps where m: "length iv = 32" "Parameters_plaintext_layout P (word_of_nat (length p)) = Ok L" "length nps = unat (ml_segment_count L)"
      "\<forall>(nonce, _) \<in> set nps. length nonce = 12" "chunks_ok P (map snd nps)" "concat (map snd nps) = p" "length nps \<le> 2 ^ 40"
      "c = floe_message S key P iv aad nps"
    by (rule encrypt_okE [OF assms])
  show "is_floe_message S key P aad p c" unfolding is_floe_message_def using m by blast
  note LD = plaintext_layout_okD [OF assms(2) m(2)]
  have "length c = 74 + (length p + 32 * length nps)"
    using floe_body_length [OF lawfulD(1) [OF assms(1)] m(4)] m(1,6) lawfulD(1) [OF assms(1)] by (simp add: m(8) floe_message_def)
  moreover have "length p = unat (ml_plaintext_length L)" using LD(3) assms(4) usize_max_lt [of "pointer_width E"] by (simp add: unat_of_nat_u64)
  ultimately show "\<exists>L. Parameters_plaintext_layout P (word_of_nat (length p)) = Ok L \<and> length c = unat (ml_ciphertext_length L)"
    using m(2,3) layout_okD(4) [OF LD(1)] by simp
qed

section \<open>Consequences of the specification\<close>

lemma is_floe_message_key: "key_bytes key' = key_bytes key \<Longrightarrow> is_floe_message S key' = is_floe_message S key"
  by (intro ext) (simp add: is_floe_message_def floe_message_def floe_header_def floe_context_def)

lemma draw_nonces_available:
  assumes "entropy_available E" "rng_ok E" "nonces_ok G"
  shows "\<exists>ns. draw_nonces E n G = Ok ns"
  using assms(3)
proof (induction n arbitrary: G)
  case (Suc n)
  have inv: "rng_ok E \<and> nonces_ok G" using assms(2) Suc.prems by simp
  show ?case
  proof (cases rule: nonces.drawE [OF inv])
    case (1 g')
    then show ?thesis using nonce_available [OF assms(1,2) Suc.prems] by simp
  next
    case (2 nonce g')
    then show ?thesis using Suc.IH [of g'] by auto
  qed
qed simp

lemma prefix_inject:
  assumes "params_ok P" "32 \<le> n" "n \<le> csl P" "k = NonFinal \<Longrightarrow> n = csl P"
    and "32 \<le> n'" "n' \<le> csl P" "k' = NonFinal \<Longrightarrow> n' = csl P"
    and "u32_to_be_bytes (segment_prefix_word k n) = u32_to_be_bytes (segment_prefix_word k' n')"
  shows "k = k' \<and> n = n'"
proof -
  have f: "SegmentFraming_decode P (u32_to_be_bytes (segment_prefix_word k n)) =
      Ok \<lparr> sf_ciphertext_length = n, sf_plaintext_length = n - 32, sf_kind = k \<rparr>"
    by (rule framing_of_prefix [OF assms(1-3)]) (rule assms(4))
  have "SegmentFraming_decode P (u32_to_be_bytes (segment_prefix_word k' n')) =
      Ok \<lparr> sf_ciphertext_length = n', sf_plaintext_length = n' - 32, sf_kind = k' \<rparr>"
    by (rule framing_of_prefix [OF assms(1,5,6)]) (rule assms(7))
  from f [unfolded assms(8), symmetric, THEN trans, OF this] show ?thesis by simp
qed

lemma floe_segment_prefix_eq:
  assumes "prims_ok S" "params_ok P" "length n = 12" "length n' = 12"
    and "length p \<le> psl P" "k = NonFinal \<Longrightarrow> length p = psl P" "length p' \<le> psl P" "k' = NonFinal \<Longrightarrow> length p' = psl P"
    and "floe_segment S C i k n p @ x = floe_segment S C' i' k' n' p' @ y"
  shows "k = k' \<and> length p = length p'"
proof -
  have "take 4 (floe_segment S C i k n p @ x) = u32_to_be_bytes (segment_prefix_word k (32 + length p))"
      "take 4 (floe_segment S C' i' k' n' p' @ y) = u32_to_be_bytes (segment_prefix_word k' (32 + length p'))"
    using floe_segment_parts(1) [OF assms(1,3)] floe_segment_parts(1) [OF assms(1,4)] floe_segment_length [OF assms(1,3)]
      floe_segment_length [OF assms(1,4)] by simp_all
  then show ?thesis
    using prefix_inject [OF assms(2), of "32 + length p" k "32 + length p'" k'] assms(5-9) csl_psl [OF assms(2)] by auto
qed

text \<open>A specified body says where it ends: no body is a strict prefix of another.\<close>

lemma floe_body_prefix_free:
  assumes "prims_ok S" "params_ok P"
    and "chunks_ok P (map snd nps)" "\<forall>(nonce, _) \<in> set nps. length nonce = 12"
    and "chunks_ok P (map snd nps')" "\<forall>(nonce, _) \<in> set nps'. length nonce = 12"
    and "floe_body S C i nps @ x = floe_body S C' i' nps'"
  shows "x = []"
  using assms(3-)
proof (induction nps arbitrary: i i' nps')
  case (Cons np nps)
  obtain n p where np: "np = (n, p)" by fastforce
  obtain n' p' rest' where nps': "nps' = (n', p') # rest'" using Cons.prems(3) by (cases nps') auto
  let ?k = "if nps = [] then Final else NonFinal" and ?k' = "if rest' = [] then Final else NonFinal"
  let ?s = "floe_segment S C (word_of_nat i) ?k n p" and ?s' = "floe_segment S C' (word_of_nat i') ?k' n' p'"
  have b: "floe_body S C i (np # nps) = ?s @ (if nps = [] then [] else floe_body S C (Suc i) nps)"
      "floe_body S C' i' nps' = ?s' @ (if rest' = [] then [] else floe_body S C' (Suc i') rest')"
    using np nps' by (cases nps; cases rest'; simp)+
  have len: "length n = 12" "length n' = 12" "length p \<le> psl P" "?k = NonFinal \<Longrightarrow> length p = psl P"
      "length p' \<le> psl P" "?k' = NonFinal \<Longrightarrow> length p' = psl P"
    using Cons.prems(1-4) np nps' by (cases nps; cases rest'; auto)+
  have eq: "?s @ ((if nps = [] then [] else floe_body S C (Suc i) nps) @ x) =
      ?s' @ (if rest' = [] then [] else floe_body S C' (Suc i') rest')"
    using Cons.prems(5) b by simp
  from floe_segment_prefix_eq [OF assms(1,2) len eq] have k: "nps = [] \<longleftrightarrow> rest' = []" "length p = length p'"
    by (auto split: if_splits)
  then have "(if nps = [] then [] else floe_body S C (Suc i) nps) @ x = (if rest' = [] then [] else floe_body S C' (Suc i') rest')"
    using eq floe_segment_length [OF assms(1) len(1)] floe_segment_length [OF assms(1) len(2)] by (simp add: append_eq_append_conv)
  then show ?case using k(1) Cons.IH [of rest' "Suc i" "Suc i'"] Cons.prems(1-4) nps' np
    by (cases "nps = []") (auto simp: chunks_ok_Cons)
qed simp

lemma is_floe_message_prefix_free:
  assumes "prims_ok S" "params_ok P" "is_floe_message S key P aad p c" "is_floe_message S key' P aad' p' (c @ x)"
  shows "x = []"
proof -
  obtain iv nps where M: "length iv = 32" "\<forall>(nonce, _) \<in> set nps. length nonce = 12" "chunks_ok P (map snd nps)"
      "c = floe_message S key P iv aad nps"
    using assms(3) unfolding is_floe_message_def by blast
  obtain iv' nps' where M': "length iv' = 32" "\<forall>(nonce, _) \<in> set nps'. length nonce = 12" "chunks_ok P (map snd nps')"
      "c @ x = floe_message S key' P iv' aad' nps'"
    using assms(4) unfolding is_floe_message_def by blast
  have "floe_body S (floe_context S Provider_RUSTCRYPTO key P iv aad) 0 nps @ x =
      floe_body S (floe_context S Provider_RUSTCRYPTO key' P iv' aad') 0 nps'"
    using M(4) M'(4) floe_header_length [OF assms(1) M(1), of key P aad] floe_header_length [OF assms(1) M'(1), of key' P aad']
    by (auto simp: floe_message_def append_eq_append_conv)
  from floe_body_prefix_free [OF assms(1,2) M(3,2) M'(3,2) this] show ?thesis .
qed

section \<open>Decryption never panics\<close>

lemma framing_decode_no_panic: "SegmentFraming_decode P prefix \<noteq> Panic"
  by (auto simp: SegmentFraming_decode_def Let_def bind_eq_Panic Parameters_validate_ciphertext_segment_length_def)

lemma parameters_decode_no_panic: "Parameters_decode bs \<noteq> Panic"
  by (auto simp: Parameters_decode_def Let_def bind_eq_Panic Parameters_with_segment_length_def split: if_splits)

lemma decrypt_body_no_panic:
  assumes "lawful E S" "dec_state_ok E (de_state d)" "counter_ok (de_counter d)" "P = Decryptor_parameters d"
  shows "decrypt_body_loop E P d body acc \<noteq> Panic"
  using assms(2-)
proof (induction "length body" arbitrary: d body acc rule: less_induct)
  case less
  have P: "params_ok P"
    using less(2,4) by (auto simp: dec_state_ok_def context_ok_def Decryptor_parameters_def DecryptionState_parameters_def)
  show ?case
  proof (cases "body = [] \<or> length body < 4")
    case True
    then show ?thesis
      by (subst decrypt_body_loop.simps) (auto simp: bind_eq_Panic Decryptor_finish_def SegmentCounter_finish_def segment_prefix_def)
  next
    case False
    show ?thesis
    proof (cases "SegmentFraming_decode P (take 4 body)")
      case (Ok F)
      let ?seg = "take (sf_ciphertext_length F) body" and ?rest = "drop (sf_ciphertext_length F) body"
      let ?out = "replicate (sf_plaintext_length F) 0"
      show ?thesis
      proof (cases "length body < sf_ciphertext_length F \<or> sf_kind F = Final \<and> sf_ciphertext_length F \<noteq> length body")
        case True
        then show ?thesis using False Ok
          by (subst decrypt_body_loop.simps) (auto simp: segment_prefix_def SegmentFraming_is_final_def Let_def)
      next
        case fits: False
        have fok: "framing_ok (Decryptor_parameters d) F" using framing_decode_ok [OF P Ok] less(4) by simp
        then have len: "length ?seg = sf_ciphertext_length F" "length ?rest < length body"
          using fits by (auto simp: framing_ok_def)
        have step: "decrypt_body_loop E P d body acc = (case Decryptor_decrypt_segment_into_framed E d ?seg F ?out of
             (Ok _, d', out') \<Rightarrow> decrypt_body_loop E P d' ?rest (acc @ out') | (Err e, _, _) \<Rightarrow> Err e | (Panic, _, _) \<Rightarrow> Panic)"
          by (rule decrypt_body_step [OF _ Ok]) (use False fits in auto)
        show ?thesis
        proof (cases "sc_closed (de_counter d)")
          case True
          then show ?thesis by (simp add: step Decryptor_decrypt_segment_into_framed_def Decryptor_advance_def
                position_for_cases [OF less(3)])
        next
          case closed: False
          then have at: "decryptor_at E d (unat (sc_next (de_counter d)))" using less(2,3) by (simp add: decryptor_at_def)
          show ?thesis
          proof (cases rule: decrypt_into_framed_cases [OF assms(1) at fok len(1)])
            case (3 p d')
            have "P = Decryptor_parameters d'" using 3(3) less(4) by (simp add: Decryptor_parameters_def DecryptionState_parameters_def)
            from less(1) [OF len(2) 3(6,7) this, of "acc @ p"] show ?thesis using 3(1) unfolding step by simp
          qed (simp_all add: step)
        qed
      qed
    next
      case (Err e)
      then show ?thesis using False by (subst decrypt_body_loop.simps) (simp add: segment_prefix_def)
    next
      case Panic
      then show ?thesis using framing_decode_no_panic by blast
    qed
  qed
qed

lemma start_decryption_no_panic:
  assumes "lawful E S" "params_ok P" "length (header_bytes H) = 74"
  shows "start_decryption_with_provider E key provider aad P H \<noteq> Panic"
proof -
  obtain keys where "KeyCache_new E (floe_context S provider key P (Header_floe_iv H) aad) = Ok keys"
    using KeyCache_new_total [OF assms(1)] by blast
  then show ?thesis by (simp add: start_decryption_with_provider_spec [OF assms])
qed

lemma Key_provider_no_panic: "Key_provider E key \<noteq> Panic"
  by (simp add: Key_provider_def split: option.split)

lemma decrypt_message_no_panic:
  assumes "lawful E S" "params_ok P" "length (header_bytes H) = 74"
  shows "bind (start_decryption_with_provider E key provider aad P H) (\<lambda>s.
    decrypt_body E \<lparr> de_state = s, de_counter = SegmentCounter_new \<rparr> body) \<noteq> Panic"
proof
  assume "bind (start_decryption_with_provider E key provider aad P H) (\<lambda>s.
    decrypt_body E \<lparr> de_state = s, de_counter = SegmentCounter_new \<rparr> body) = Panic"
  with start_decryption_no_panic [OF assms] obtain s where
    s: "start_decryption_with_provider E key provider aad P H = Ok s"
    "decrypt_body E \<lparr> de_state = s, de_counter = SegmentCounter_new \<rparr> body = Panic"
    by (auto simp: bind_eq_Panic)
  have "dec_state_ok E (de_state \<lparr> de_state = s, de_counter = SegmentCounter_new \<rparr>)"
    using start_decryption_okD(3) [OF assms s(1)] by simp
  from decrypt_body_no_panic [OF assms(1) this] s(2) counter_new_ok show False by (simp add: decrypt_body_def)
qed

section \<open>Random access\<close>

lemma fork_ok:
  "enc_state_ok E s \<Longrightarrow> enc_state_ok E (SharedEncryptionContext_fork (EncryptionState_into_shared s) w)"
  "es_context (SharedEncryptionContext_fork (EncryptionState_into_shared s) w) = es_context s"
  "dec_state_ok E d \<Longrightarrow> dec_state_ok E (SharedDecryptionContext_fork (DecryptionState_into_shared d))"
  "ds_context (SharedDecryptionContext_fork (DecryptionState_into_shared d)) = ds_context d"
  by (simp_all add: SharedEncryptionContext_fork_def EncryptionState_into_shared_def enc_state_ok_def
      SharedDecryptionContext_fork_def DecryptionState_into_shared_def dec_state_ok_def KeyCache_empty_ok NonceGenerator_new_ok)

lemma segment_for_positionD:
  assumes "layout_ok L" "MessageLayout_segment_for_position t L position = Some sl"
  shows "unat position < unat (ml_segment_count L)" "sl = segment_spec L (unat position)" "unat position < 2 ^ 40"
    "sl_position sl = position" "sl_parameters sl = ml_parameters L" "sl_ciphertext_length sl = sl_plaintext_length sl + 32"
    "sl_plaintext_length sl \<le> psl (ml_parameters L)" "sl_kind sl = NonFinal \<Longrightarrow> sl_plaintext_length sl = psl (ml_parameters L)"
proof -
  show lt: "unat position < unat (ml_segment_count L)"
    using assms(2) by (auto simp: MessageLayout_segment_for_position_def word_le_nat_alt split: if_splits)
  then show sl: "sl = segment_spec L (unat position)" using segment_for_position_spec [OF assms(1)] assms(2) by simp
  show "unat position < 2 ^ 40" using lt layout_okD(3) [OF assms(1)] by linarith
  show "sl_position sl = position" "sl_parameters sl = ml_parameters L" "sl_ciphertext_length sl = sl_plaintext_length sl + 32"
    "sl_plaintext_length sl \<le> psl (ml_parameters L)" "sl_kind sl = NonFinal \<Longrightarrow> sl_plaintext_length sl = psl (ml_parameters L)"
    using seg_plain_len_le [OF assms(1) lt] by (simp_all add: sl segment_spec_def seg_plain_len_def split: if_splits)
qed

lemma seg_len_ok_of_layout:
  assumes "layout_ok L" "MessageLayout_segment_for_position t L position = Some sl" "mc_parameters C = ml_parameters L"
  shows "seg_len_ok C (sl_kind sl) (sl_plaintext_length sl)"
  using segment_for_positionD(7,8) [OF assms(1,2)] assms(3) by (simp add: seg_len_ok_def split: SegmentKind.split)

text \<open>The public encryption of a layout segment is the encryption at its position and kind.\<close>

lemma encrypt_segment_layout:
  assumes "sl_parameters sl = mc_parameters (es_context s)" "length p = sl_plaintext_length sl"
  shows "EncryptionState_encrypt_segment E s p sl = EncryptionState_encrypt_segment_at E s p (sl_position sl) (sl_kind sl)"
  using assms
  by (simp add: EncryptionState_encrypt_segment_def EncryptionState_validate_plaintext_layout_def validate_layout_def)

text \<open>The public decryption of a specified segment returns its plaintext.\<close>

lemma decrypt_segment_sealed:
  assumes "lawful E S" "dec_state_ok E d" "layout_ok L" "MessageLayout_segment_for_position t L position = Some sl"
    and "mc_parameters (ds_context d) = ml_parameters L" "length p = sl_plaintext_length sl" "length nonce = 12"
  shows "fst (DecryptionState_decrypt_segment E d (floe_segment S (ds_context d) position (sl_kind sl) nonce p) sl) = Ok p"
proof -
  let ?C = "ds_context d" let ?seg = "floe_segment S ?C position (sl_kind sl) nonce p"
  note SL = segment_for_positionD [OF assms(3,4)] and S = lawfulD(1) [OF assms(1)] and D = dec_state_okD [OF assms(2)]
  let ?F = "\<lparr> sf_ciphertext_length = length p + 32, sf_plaintext_length = length p, sf_kind = sl_kind sl \<rparr>"
  have len: "length ?seg = length p + 32" by (rule floe_segment_length [OF S assms(7)])
  have P: "params_ok (ml_parameters L)" by (rule layout_okD(1) [OF assms(3)])
  have dec: "SegmentFraming_decode (mc_parameters ?C) (take 4 ?seg) = Ok ?F"
    using framing_of_prefix [OF P, of "length p + 32" "sl_kind sl"] SL(7,8) csl_psl [OF P] assms(5,6)
    by (simp add: floe_segment_parts(1) [OF S assms(7)] add.commute)
  have fok: "framing_ok (mc_parameters ?C) ?F" using framing_decode_ok [OF _ dec] P assms(5) by simp
  obtain d' where "DecryptionState_decrypt_segment_at_framed E d ?seg position ?F =
      (case segment_open S ?C position (sl_kind sl) ?seg of Some p \<Rightarrow> Ok p | None \<Rightarrow> Err AuthenticationFailed, d')"
    using decrypt_at_framed_spec [OF assms(1,2) fok _ SL(3), of ?seg] len by auto
  then have "DecryptionState_decrypt_segment_at E d ?seg position (sl_kind sl) = (Ok p, d')"
    using decrypt_at_framed_eq [OF D(1) dec, of E position] len segment_open_sealed [OF S assms(7)] by simp
  then show ?thesis using SL(4-6) assms(5,6) len
    by (simp add: DecryptionState_decrypt_segment_def DecryptionState_validate_ciphertext_layout_def validate_layout_def)
qed

section \<open>Encryption succeeds when entropy is available\<close>

lemma encrypt_available:
  assumes "lawful E S" "entropy_available E" "params_ok P" "Key_provider E key = Ok provider"
    and "length p \<le> usize_max (pointer_width E)"
    and "Parameters_plaintext_layout P (word_of_nat (length p)) = Ok L"
    and "unat (ml_ciphertext_length L) \<le> usize_max (pointer_width E)"
  shows "\<exists>c. encrypt E key aad P p w = Ok c"
proof -
  obtain iv rng where fill: "ProviderRng_fill E (ProviderRng_new provider w) (replicate 32 0) = (Ok (), iv, rng)"
    using ProviderRng_fill_available [OF assms(2)] by (metis prod.collapse)
  obtain ns where "draw_nonces E (unat (ml_segment_count L)) (NonceGenerator_new rng) = Ok ns"
    using draw_nonces_available [OF assms(2) lawfulD(6) [OF assms(1)] NonceGenerator_new_ok] by blast
  then show ?thesis using assms(6,7) fill by (simp add: encrypt_spec [OF assms(1,3-5)])
qed

text \<open>A message for the witnesses: 70 bytes in three segments, which every provider decrypts.\<close>

lemma toy_encrypted:
  obtains c where "encrypt toy_env (toy_key provider) aad SEGMENT_64_B (replicate 70 9) ([], []) = Ok c" "length c = 240"
    "\<And>provider'. decrypt toy_env (toy_key provider') aad c = Ok (replicate 70 9)"
    "\<And>provider'. decrypt_with_parameters toy_env (toy_key provider') aad SEGMENT_64_B c = Ok (replicate 70 9)"
proof -
  have u: "length (replicate 70 9 :: bytes) \<le> usize_max (pointer_width toy_env)" using usize_max_ge [of "pointer_width toy_env"] by simp
  obtain c where c: "encrypt toy_env (toy_key provider) aad SEGMENT_64_B (replicate 70 9) ([], []) = Ok c"
    using encrypt_available [OF toy_lawful toy_entropy segment_64(1) toy_key(2), of "replicate 70 9" toy_layout provider aad]
      usize_max_ge [of "pointer_width toy_env"] by (auto simp: toy_layout)
  note D = encrypt_okD [OF toy_lawful segment_64(1) toy_key(2) u c]
  have m: "is_floe_message toy_prims (toy_key provider') SEGMENT_64_B aad (replicate 70 9) c" for provider'
    using D(1) is_floe_message_key [of "toy_key provider'" "toy_key provider"] by (simp add: toy_key)
  show thesis
  proof (rule that [OF c])
    show "length c = 240" using D(2) by (auto simp: toy_layout)
    show "decrypt toy_env (toy_key provider') aad c = Ok (replicate 70 9)" for provider'
      using m decrypt_accepts [OF toy_lawful toy_key(2)] segment_64(1) by blast
    show "decrypt_with_parameters toy_env (toy_key provider') aad SEGMENT_64_B c = Ok (replicate 70 9)" for provider'
      using m decrypt_with_parameters_accepts [OF toy_lawful segment_64(1) toy_key(2)]
        is_floe_message_length [OF lawfulD(1) [OF toy_lawful]] by blast
  qed
qed

end
