(* ===== verification/Floe_Integrity.thy ===== *)
theory Floe_Integrity
  imports Floe_Message
begin

text \<open>
  What the format of a whole message binds. A message is read back into the calls of the primitives
  behind it: HMAC on the header's input and one call of AES-256-GCM per segment. Whatever decrypts
  under a key was encrypted under it, or contains a forgery of one of the primitives; a ciphertext
  commits to its key and associated data; and a message uses no random byte twice.
\<close>

section \<open>The calls behind a message\<close>

text \<open>
  A message is read back into the calls of the primitives that authenticate it. The body falls into
  segments of the length the parameters fix, the last one possibly shorter; each segment is one call
  of AES-256-GCM: key, nonce, associated data, ciphertext and tag.
\<close>

type_synonym aead_call = "bytes \<times> bytes \<times> bytes \<times> bytes \<times> bytes"

fun body_chunks :: "nat \<Rightarrow> bytes \<Rightarrow> bytes list" where
  "body_chunks k xs = (if k = 0 \<or> length xs \<le> k then [xs] else take k xs # body_chunks k (drop k xs))"

declare body_chunks.simps [simp del]

definition place_kind :: "nat \<Rightarrow> nat \<Rightarrow> SegmentKind" where
  "place_kind n j = (if Suc j = n then Final else NonFinal)"

definition segment_call :: "prims \<Rightarrow> MessageContext \<Rightarrow> nat \<Rightarrow> SegmentKind \<Rightarrow> bytes \<Rightarrow> aead_call" where
  "segment_call S C j kind seg =
    (context_key S C j, slice 4 16 seg, segment_aad (word_of_nat j) kind, slice 16 (length seg - 16) seg, drop (length seg - 16) seg)"

definition message_calls :: "prims \<Rightarrow> Key \<Rightarrow> bytes \<Rightarrow> bytes \<Rightarrow> aead_call list" where
  "message_calls S key aad c =
    (case Parameters_decode (take 10 c) of
       Ok P \<Rightarrow>
         let C = floe_context S Provider_RUSTCRYPTO key P (slice 10 42 c) aad;
             segs = body_chunks (csl P) (drop 74 c)
         in map (\<lambda>j. segment_call S C j (place_kind (length segs) j) (segs ! j)) [0..<length segs]
     | _ \<Rightarrow> [])"

definition call_opens :: "prims \<Rightarrow> aead_call \<Rightarrow> bool" where
  "call_opens S call = (case call of (k, n, a, c, t) \<Rightarrow> aes_gcm_open S k n a c t \<noteq> None)"

text \<open>The inputs of HMAC under the caller's key: for the header tag, and for the message key.\<close>

definition header_input :: "bytes \<Rightarrow> bytes \<Rightarrow> bytes" where
  "header_input aad c = take 42 c @ ascii ''HEADER_TAG:'' @ aad @ [1]"

definition message_key_input :: "bytes \<Rightarrow> bytes \<Rightarrow> bytes" where
  "message_key_input aad c = take 42 c @ ascii ''MESSAGE_KEY:'' @ aad @ [1]"

section \<open>The calls of a specified message\<close>

lemma body_chunks_short: "length xs \<le> k \<Longrightarrow> body_chunks k xs = [xs]"
  by (simp add: body_chunks.simps)

lemma body_chunks_append: "length xs = k \<Longrightarrow> 0 < k \<Longrightarrow> ys \<noteq> [] \<Longrightarrow> body_chunks k (xs @ ys) = xs # body_chunks k ys"
  by (subst body_chunks.simps) simp

lemma map_upt_shift: "map f [0..<Suc n] = f 0 # map (\<lambda>j. f (Suc j)) [0..<n]"
  by (rule map_upt_Suc)

lemma body_chunks_floe:
  assumes "prims_ok S" "params_ok P" "\<forall>(nonce, _) \<in> set nps. length nonce = 12" "chunks_ok P (map snd nps)"
  shows "body_chunks (csl P) (floe_body S C i nps) =
    map (\<lambda>j. floe_segment S C (word_of_nat (i + j)) (place_kind (length nps) j) (fst (nps ! j)) (snd (nps ! j))) [0..<length nps]"
  using assms(3,4)
proof (induction nps arbitrary: i)
  case (Cons np nps)
  obtain n p where np: "np = (n, p)" by fastforce
  have n: "length n = 12" using Cons.prems(1) np by simp
  show ?case
  proof (cases "nps = []")
    case True
    then show ?thesis using np Cons.prems(2) floe_segment_length [OF assms(1) n] csl_psl [OF assms(2)]
      by (simp add: body_chunks_short place_kind_def)
  next
    case False
    have rest: "chunks_ok P (map snd nps)" "length p = psl P" using Cons.prems(2) np False by (simp_all add: chunks_ok_Cons)
    have "32 * length nps \<le> length (floe_body S C (Suc i) nps)" using floe_body_length [OF assms(1), of nps C "Suc i"] Cons.prems(1) by simp
    then have ne: "floe_body S C (Suc i) nps \<noteq> []" using False by (cases nps) auto
    have kinds: "place_kind (Suc (length nps)) (Suc j) = place_kind (length nps) j" for j by (simp add: place_kind_def)
    have "body_chunks (csl P) (floe_body S C i (np # nps)) =
        floe_segment S C (word_of_nat i) NonFinal n p # body_chunks (csl P) (floe_body S C (Suc i) nps)"
      unfolding np floe_body_Cons [OF False]
      by (rule body_chunks_append [OF _ _ ne]) (use floe_segment_length [OF assms(1) n] rest(2) csl_psl [OF assms(2)] in simp_all)
    then show ?thesis using Cons.IH [OF _ rest(1), of "Suc i"] Cons.prems(1) np False
      by (simp add: map_upt_shift kinds del: upt_Suc) (simp add: place_kind_def ac_simps)
  qed
qed simp

lemma segment_call_floe:
  fixes C :: MessageContext and kind :: SegmentKind
  assumes "prims_ok S" "length nonce = 12" "j < 2 ^ 40"
  defines "k \<equiv> context_key S C j" and "a \<equiv> segment_aad (word_of_nat j) kind"
  shows "segment_call S C j kind (floe_segment S C (word_of_nat j) kind nonce p) = (k, nonce, a, aes_gcm_seal S k nonce a p)"
proof -
  have u: "unat (word_of_nat j :: u64) = j" using assms(3) by (intro unat_of_nat_u64) simp
  obtain c t where ct: "aes_gcm_seal S k nonce a p = (c, t)" by fastforce
  then have len: "length c = length p" "length t = 16" using prims_okD(1,2) [OF assms(1), of k nonce a p] by simp_all
  have "floe_segment S C (word_of_nat j) kind nonce p = u32_to_be_bytes (segment_prefix_word kind (32 + length p)) @ nonce @ c @ t"
    using ct u by (simp add: floe_segment_def k_def a_def)
  then show ?thesis using ct len assms(2) by (simp add: segment_call_def k_def a_def slice_def)
qed

definition floe_call :: "prims \<Rightarrow> MessageContext \<Rightarrow> (bytes \<times> bytes) list \<Rightarrow> nat \<Rightarrow> aead_call" where
  "floe_call S C nps j =
    (let k = context_key S C j; a = segment_aad (word_of_nat j) (place_kind (length nps) j); (nonce, p) = nps ! j
     in (k, nonce, a, aes_gcm_seal S k nonce a p))"

lemma message_calls_floe:
  fixes key :: Key and aad :: bytes
  assumes "prims_ok S" "params_ok P" "length iv = 32" "\<forall>(nonce, _) \<in> set nps. length nonce = 12" "chunks_ok P (map snd nps)" "length nps \<le> 2 ^ 40"
  defines "C \<equiv> floe_context S Provider_RUSTCRYPTO key P iv aad"
  shows "message_calls S key aad (floe_message S key P iv aad nps) =
    map (floe_call S C nps) [0..<length nps]"
proof -
  let ?c = "floe_message S key P iv aad nps"
  let ?seg = "\<lambda>j. floe_segment S C (word_of_nat j) (place_kind (length nps) j) (fst (nps ! j)) (snd (nps ! j))"
  have t: "length (floe_header_tag S (key_bytes key) P iv aad) = 32" using assms(1) by simp
  have parts: "take 10 ?c = Parameters_encode P" "slice 10 42 ?c = iv" "drop 74 ?c = floe_body S C 0 nps"
    using assms(3) t by (simp_all add: floe_message_def floe_header_def slice_def C_def)
  have segs: "body_chunks (csl P) (drop 74 ?c) = map ?seg [0..<length nps]"
    unfolding parts(3) using body_chunks_floe [OF assms(1,2,4,5), of C 0] by simp
  have "Parameters_decode (take 10 ?c) = Ok P" using parts(1) assms(2) by (simp add: decode_encode)
  then have "message_calls S key aad ?c =
      map (\<lambda>j. segment_call S C j (place_kind (length nps) j) (?seg j)) [0..<length nps]"
    using parts(2) segs by (simp add: message_calls_def C_def Let_def)
  moreover have "length (fst (nps ! j)) = 12" if "j < length nps" for j using assms(4) nth_mem [OF that] by (simp add: split_beta)
  ultimately show ?thesis using assms(6)
    by (simp add: segment_call_floe [OF assms(1)] floe_call_def Let_def split_beta)
qed

lemma seal_inject:
  assumes "prims_ok S" "aes_gcm_seal S k n a p = aes_gcm_seal S k n a p'"
  shows "p = p'"
  using prims_okD(3) [OF assms(1), of k n a "fst (aes_gcm_seal S k n a p)" "snd (aes_gcm_seal S k n a p)"] assms(2)
  by (metis option.inject prod.collapse)

text \<open>Every segment of a message was sealed at its own place: the calls of a message determine it.\<close>

lemma calls_determine:
  fixes C :: MessageContext
  assumes "prims_ok S" "nps' \<noteq> []" "length nps \<le> 2 ^ 40" "length nps' \<le> 2 ^ 40"
    and "\<And>j. j < length nps' \<Longrightarrow> floe_call S C nps' j \<in> set (map (floe_call S C nps) [0..<length nps])"
  shows "nps' = nps"
proof -
  have same: "j < length nps \<and> nps' ! j = nps ! j \<and> place_kind (length nps') j = place_kind (length nps) j" if j: "j < length nps'" for j
  proof -
    obtain l where l: "l < length nps" "floe_call S C nps' j = floe_call S C nps l" using assms(5) [OF j] by auto
    have "segment_aad (word_of_nat j) (place_kind (length nps') j) = segment_aad (word_of_nat l) (place_kind (length nps) l)"
      using l(2) by (simp add: floe_call_def Let_def split_beta)
    then have kind: "(word_of_nat j :: u64) = word_of_nat l" "place_kind (length nps') j = place_kind (length nps) l"
      by (simp_all add: segment_aad_inject)
    have "unat (word_of_nat j :: u64) = j" "unat (word_of_nat l :: u64) = l"
      using j l(1) assms(3,4) by (auto intro!: unat_of_nat_u64)
    then have "j = l" using kind(1) by metis
    moreover from this have "fst (nps' ! j) = fst (nps ! j)" "snd (nps' ! j) = snd (nps ! j)"
      using l(2) kind(2) seal_inject [OF assms(1)] by (auto simp: floe_call_def Let_def split_beta)
    ultimately show ?thesis using l(1) kind(2) by (simp add: prod_eq_iff)
  qed
  have "length nps' - 1 < length nps'" using assms(2) by simp
  from same [OF this] have "length nps' = length nps" using assms(2) by (auto simp: place_kind_def split: if_splits)
  then show ?thesis using same by (intro nth_equalityI) auto
qed

section \<open>Forgeries\<close>

text \<open>
  \<open>issued E key M\<close>: every (associated data, plaintext, ciphertext) of \<open>M\<close> came from a call of \<open>encrypt\<close>.
  A header is forged when its tag verifies although HMAC was never computed, under this key, on its
  input; a segment is forged when it opens although no message of \<open>M\<close> with the same header and associated
  data contains its call.
\<close>

definition issued :: "'x env \<Rightarrow> Key \<Rightarrow> (bytes \<times> bytes \<times> bytes) set \<Rightarrow> bool" where
  "issued E key M \<longleftrightarrow> (\<forall>(aad, p, c) \<in> M. \<exists>P w. params_ok P \<and> length p \<le> usize_max (pointer_width E) \<and> encrypt E key aad P p w = Ok c)"

definition fresh_headers :: "(bytes \<times> bytes \<times> bytes) set \<Rightarrow> bool" where
  "fresh_headers M \<longleftrightarrow> (\<forall>(aad, p, c) \<in> M. \<forall>(aad', p', c') \<in> M. aad' = aad \<longrightarrow> take 74 c' = take 74 c \<longrightarrow> c' = c)"

definition header_verifies :: "prims \<Rightarrow> Key \<Rightarrow> bytes \<Rightarrow> bytes \<Rightarrow> bool" where
  "header_verifies S key aad c \<longleftrightarrow> take 32 (hmac_sha384 S (key_bytes key) (header_input aad c)) = slice 42 74 c"

definition header_forgery :: "prims \<Rightarrow> Key \<Rightarrow> (bytes \<times> bytes \<times> bytes) set \<Rightarrow> bytes \<Rightarrow> bytes \<Rightarrow> bool" where
  "header_forgery S key M aad c \<longleftrightarrow> header_verifies S key aad c \<and>
    (\<forall>(aad', p', c') \<in> M. header_input aad c \<notin> {header_input aad' c', message_key_input aad' c'})"

definition segment_forgery :: "prims \<Rightarrow> Key \<Rightarrow> (bytes \<times> bytes \<times> bytes) set \<Rightarrow> bytes \<Rightarrow> bytes \<Rightarrow> bool" where
  "segment_forgery S key M aad c \<longleftrightarrow> (\<exists>call \<in> set (message_calls S key aad c). call_opens S call \<and>
    (\<forall>(aad', p', c') \<in> M. aad' = aad \<longrightarrow> take 74 c' = take 74 c \<longrightarrow> call \<notin> set (message_calls S key aad' c')))"

text \<open>The parts of a specified message.\<close>

lemma floe_message_parts:
  assumes "prims_ok S" "length iv = 32"
  shows "take 42 (floe_message S key P iv aad nps) = Parameters_encode P @ iv"
    "take 74 (floe_message S key P iv aad nps) = header_bytes (floe_header S key P iv aad)"
    "slice 42 74 (floe_message S key P iv aad nps) = floe_header_tag S (key_bytes key) P iv aad"
  using assms by (simp_all add: floe_message_def floe_header_def slice_def)

lemma floe_message_verifies:
  assumes "prims_ok S" "length iv = 32"
  shows "header_verifies S key aad (floe_message S key P iv aad nps)"
  using floe_message_parts(1,3) [OF assms, of key P aad nps]
  by (simp add: header_verifies_def header_input_def floe_header_tag_def floe_kdf_def)

lemma decrypt_verifies:
  assumes "lawful E S" "Key_provider E key = Ok provider" "decrypt E key aad c = Ok p"
  shows "header_verifies S key aad c"
proof -
  obtain P where "is_floe_message S key P aad p c" using assms(3) decrypt_accepts [OF assms(1,2)] by blast
  then show ?thesis by (rule is_floe_messageE) (use floe_message_verifies [OF lawfulD(1) [OF assms(1)]] in blast)
qed

lemma header_input_inject:
  assumes "length iv = 32" "length iv' = 32" "take 42 c = Parameters_encode P @ iv" "take 42 c' = Parameters_encode P' @ iv'"
    and "header_input aad c = header_input aad' c'"
  shows "P = P' \<and> iv = iv' \<and> aad = aad'"
proof -
  let ?t = "ascii ''HEADER_TAG:''"
  have "Parameters_encode P @ iv @ (?t @ aad @ [1]) = Parameters_encode P' @ iv' @ (?t @ aad' @ [1])"
    using assms(3-5) by (simp add: header_input_def)
  from kdf_input_inject [OF assms(1,2) this] show ?thesis by simp
qed

text \<open>A header input is never a message key input: the purposes differ.\<close>

lemma inputs_separated:
  assumes "42 \<le> length c" "42 \<le> length c'"
  shows "header_input aad c \<noteq> message_key_input aad' c'"
proof
  assume "header_input aad c = message_key_input aad' c'"
  then have "ascii ''HEADER_TAG:'' @ aad @ [1] = ascii ''MESSAGE_KEY:'' @ aad' @ [1]"
    using assms by (simp add: header_input_def message_key_input_def)
  then show False by (simp add: ascii_def of_char_def)
qed

text \<open>A decrypted message whose header and calls belong to one specified message is that message.\<close>

lemma calls_from_message:
  assumes "prims_ok S" "params_ok P" "is_floe_message S key P aad p c" "is_floe_message S key P' aad p' c'" "params_ok P'"
    and "take 42 c = take 42 c'" "set (message_calls S key aad c') \<subseteq> set (message_calls S key aad c)"
  shows "c' = c"
proof -
  obtain iv nps where m: "length iv = 32" "\<forall>(nonce, _) \<in> set nps. length nonce = 12" "length nps \<le> 2 ^ 40" "chunks_ok P (map snd nps)"
      "c = floe_message S key P iv aad nps"
    by (rule is_floe_messageE [OF assms(3)])
  obtain iv' nps' where m': "length iv' = 32" "\<forall>(nonce, _) \<in> set nps'. length nonce = 12" "length nps' \<le> 2 ^ 40" "chunks_ok P' (map snd nps')"
      "c' = floe_message S key P' iv' aad nps'"
    by (rule is_floe_messageE [OF assms(4)])
  have eq: "P' = P" "iv' = iv"
    using kdf_input_inject [OF m(1) m'(1), of P "[]" P' "[]"] assms(6) floe_message_parts(1) [OF assms(1)] m(1,5) m'(1,5) by auto
  note calls = message_calls_floe [OF assms(1,2) m(1,2,4,3), of key aad] message_calls_floe [OF assms(1,5) m'(1,2,4,3), of key aad]
  have ne: "nps' \<noteq> []" using m'(4) by auto
  let ?C = "floe_context S Provider_RUSTCRYPTO key P iv aad"
  have sub: "set (map (floe_call S ?C nps') [0..<length nps']) \<subseteq> set (map (floe_call S ?C nps) [0..<length nps])"
    using assms(7) calls(2) unfolding m(5) m'(5) calls(1) eq by simp
  have "floe_call S ?C nps' j \<in> set (map (floe_call S ?C nps) [0..<length nps])" if "j < length nps'" for j
    by (rule subsetD [OF sub]) (use that in simp)
  from calls_determine [OF assms(1) ne m(3) m'(3) this] have "nps' = nps" .
  then show ?thesis using m(5) m'(5) eq by simp
qed

lemma message_calls_open:
  assumes "prims_ok S" "params_ok P" "is_floe_message S key P aad p c" "call \<in> set (message_calls S key aad c)"
  shows "call_opens S call"
proof -
  obtain iv nps where m: "length iv = 32" "\<forall>(nonce, _) \<in> set nps. length nonce = 12" "length nps \<le> 2 ^ 40" "chunks_ok P (map snd nps)"
      "c = floe_message S key P iv aad nps"
    by (rule is_floe_messageE [OF assms(3)])
  obtain j where "call = floe_call S (floe_context S Provider_RUSTCRYPTO key P iv aad) nps j"
    using assms(4) message_calls_floe [OF assms(1,2) m(1,2,4,3), of key aad] by (auto simp: m(5))
  then show ?thesis using prims_okD(3) [OF assms(1)]
    by (fastforce simp: floe_call_def call_opens_def Let_def split: prod.splits)
qed

lemma issuedE:
  assumes "lawful E S" "Key_provider E key = Ok provider" "issued E key M" "(aad, p, c) \<in> M"
  obtains P where "params_ok P" "is_floe_message S key P aad p c"
proof -
  obtain P w where "params_ok P" "length p \<le> usize_max (pointer_width E)" "encrypt E key aad P p w = Ok c"
    using assms(3,4) unfolding issued_def by blast
  then show thesis using that encrypt_okD(1) [OF assms(1) _ assms(2)] by blast
qed

lemma floe_message_unique:
  assumes "lawful E S" "Key_provider E key = Ok provider" "params_ok P" "params_ok P'"
    and "is_floe_message S key P aad p c" "is_floe_message S key P' aad p' c"
  shows "p = p'"
proof -
  have "decrypt E key aad c = Ok p" "decrypt E key aad c = Ok p'" using assms(3-) decrypt_accepts [OF assms(1,2)] by blast+
  then show ?thesis by simp
qed

lemma not_issued_forged:
  assumes "lawful E S" "Key_provider E key = Ok provider" "issued E key M" "fresh_headers M"
    and "params_ok P'" "is_floe_message S key P' aad p c" "\<not> header_forgery S key M aad c" "\<not> segment_forgery S key M aad c"
  shows "(aad, p, c) \<in> M"
proof -
  note S = lawfulD(1) [OF assms(1)]
  obtain iv' nps' where m': "length iv' = 32" "c = floe_message S key P' iv' aad nps'" by (rule is_floe_messageE [OF assms(6)])
  note c42 = floe_message_parts(1) [OF S m'(1), of key P' aad nps', folded m'(2)]
  have long: "42 \<le> length c'" if "is_floe_message S key Q b q c'" for Q b q c' using is_floe_message_length [OF S that] by simp
  have "header_verifies S key aad c" unfolding m'(2) by (rule floe_message_verifies [OF S m'(1)])
  then obtain aad0 p0 c0 where in0: "(aad0, p0, c0) \<in> M" and hit: "header_input aad c \<in> {header_input aad0 c0, message_key_input aad0 c0}"
    using assms(7) unfolding header_forgery_def by blast
  obtain P0 where P0: "params_ok P0" "is_floe_message S key P0 aad0 p0 c0" by (rule issuedE [OF assms(1-3) in0])
  obtain iv0 nps0 where m0: "length iv0 = 32" "c0 = floe_message S key P0 iv0 aad0 nps0" by (rule is_floe_messageE [OF P0(2)])
  note c042 = floe_message_parts(1) [OF S m0(1), of key P0 aad0 nps0, folded m0(2)]
  have "header_input aad c = header_input aad0 c0" using hit inputs_separated [OF long [OF assms(6)] long [OF P0(2)]] by blast
  then have eq: "P' = P0" "iv' = iv0" "aad = aad0" using header_input_inject [OF m'(1) m0(1) c42 c042] by blast+
  then have heads: "take 74 c0 = take 74 c" "take 42 c0 = take 42 c"
    using c42 c042 floe_message_parts(2) [OF S] m'(1) by (simp_all add: m'(2) m0(2))
  have "call \<in> set (message_calls S key aad c0)" if call: "call \<in> set (message_calls S key aad c)" for call
  proof -
    have "call_opens S call" by (rule message_calls_open [OF S assms(5,6) call])
    then obtain p1 c1 where c1: "(aad, p1, c1) \<in> M" "take 74 c1 = take 74 c" "call \<in> set (message_calls S key aad c1)"
      using assms(8) call unfolding segment_forgery_def by blast
    then have "c1 = c0" using assms(4) in0 heads(1) eq(3) unfolding fresh_headers_def by fastforce
    then show ?thesis using c1(3) by simp
  qed
  then have same: "c = c0" using calls_from_message [OF S P0(1) P0(2) [folded eq(3)] assms(6,5) heads(2)] by blast
  have "is_floe_message S key P0 aad p0 c" using P0(2) eq(3) same by simp
  then have "p = p0" by (rule floe_message_unique [OF assms(1,2,5) P0(1) assms(6)])
  then show ?thesis using in0 eq(3) same by simp
qed

section \<open>Properties\<close>

text \<open>
  C4: Integrity of ciphertexts, without assumptions on the strength of the primitives. Let M be any
  messages a build encrypted under a key, no two of them with the same header and associated data
  (the IVs are random). Whatever any build then decrypts under the same key bytes, with any provider,
  is one of these messages with its associated data and plaintext, or it contains a forgery: a header
  tag that verifies on an input for which HMAC was never computed under the key, or a segment that
  AES-256-GCM opens although it was not sealed, with this key, nonce and position, in the
  message with this header. Reordered, duplicated, dropped, truncated or appended segments and
  segments of other messages are no way around it.
\<close>

theorem message_integrity:
  assumes "lawful E S" "lawful F S" "Key_provider E key = Ok provider" "Key_provider F key' = Ok provider'"
    and "key_bytes key' = key_bytes key" "issued E key M" "fresh_headers M" "decrypt F key' aad c = Ok p"
  shows "(aad, p, c) \<in> M \<or> header_forgery S key M aad c \<or> segment_forgery S key M aad c"
proof -
  obtain P where "params_ok P" "is_floe_message S key P aad p c"
    using assms(8) decrypt_accepts [OF assms(2,4)] is_floe_message_key [OF assms(5)] by auto
  from not_issued_forged [OF assms(1,3,6,7) this] show ?thesis by blast
qed

theorem message_integrity_witness:
  "\<exists>c c'. decrypt toy_env (toy_key Provider_BORING) [5] c = Ok (replicate 70 9) \<and>
    encrypt toy_env (toy_key Provider_RING) [6] SEGMENT_64_B (replicate 70 9) ([], []) = Ok c' \<and>
    (header_forgery toy_prims (toy_key Provider_RING) {([6], replicate 70 9, c')} [5] c \<or>
     segment_forgery toy_prims (toy_key Provider_RING) {([6], replicate 70 9, c')} [5] c)"
proof -
  obtain c where c: "\<And>provider. decrypt toy_env (toy_key provider) [5] c = Ok (replicate 70 9)"
    using toy_encrypted [of _ "[5]"] by blast
  obtain c' where c': "encrypt toy_env (toy_key Provider_RING) [6] SEGMENT_64_B (replicate 70 9) ([], []) = Ok c'"
    using toy_encrypted [of Provider_RING "[6]"] by blast
  let ?M = "{([6], replicate 70 9, c')} :: (bytes \<times> bytes \<times> bytes) set"
  have "length (replicate 70 9 :: bytes) \<le> usize_max (pointer_width toy_env)" using usize_max_ge [of "pointer_width toy_env"] by simp
  then have M: "issued toy_env (toy_key Provider_RING) ?M" "fresh_headers ?M"
    using c' segment_64(1) by (auto simp: issued_def fresh_headers_def simp del: length_replicate)
  from message_integrity [OF toy_lawful toy_lawful toy_key(2) toy_key(2) _ M c] c c' show ?thesis
    by (intro exI [of _ c] exI [of _ c']) (simp add: toy_key)
qed

text \<open>
  C5: A ciphertext commits to the key and the associated data. If one byte string decrypts under two
  keys or with two associated data, on whatever builds and providers, the two agree in key bytes,
  associated data and plaintext, or the header tag is a collision of HMAC-SHA-384, truncated to 32
  bytes, on two different pairs of key and input.
\<close>

theorem ciphertext_commits:
  assumes "lawful E S" "lawful F S" "Key_provider E key = Ok provider" "Key_provider F key' = Ok provider'"
    and "decrypt E key aad c = Ok p" "decrypt F key' aad' c = Ok p'"
  shows "key_bytes key = key_bytes key' \<and> aad = aad' \<and> p = p' \<or>
    (key_bytes key, header_input aad c) \<noteq> (key_bytes key', header_input aad' c) \<and>
    take 32 (hmac_sha384 S (key_bytes key) (header_input aad c)) = take 32 (hmac_sha384 S (key_bytes key') (header_input aad' c))"
proof (cases "key_bytes key = key_bytes key' \<and> aad = aad'")
  case True
  have "decrypt E key aad c = Ok p'"
    using assms(6) decrypt_accepts [OF assms(1,3)] decrypt_accepts [OF assms(2,4)] is_floe_message_key [of key' key S] True by auto
  then show ?thesis using True assms(5) by simp
next
  case False
  have "header_verifies S key aad c" "header_verifies S key' aad' c"
    using decrypt_verifies [OF assms(1,3,5)] decrypt_verifies [OF assms(2,4,6)] .
  moreover have "header_input aad c = header_input aad' c \<Longrightarrow> aad = aad'" by (simp add: header_input_def)
  ultimately show ?thesis using False by (auto simp: header_verifies_def)
qed

theorem ciphertext_commits_witness:
  "\<exists>c. decrypt toy_env (toy_key Provider_RING) [5] c = Ok (replicate 70 9) \<and> decrypt toy_env (toy_key Provider_BORING) [5] c = Ok (replicate 70 9) \<and>
    (key_bytes (toy_key Provider_RING) = key_bytes (toy_key Provider_BORING) \<and> [5 :: u8] = [5] \<and> (replicate 70 9 :: bytes) = replicate 70 9 \<or>
     (key_bytes (toy_key Provider_RING), header_input [5] c) \<noteq> (key_bytes (toy_key Provider_BORING), header_input [5] c) \<and>
     take 32 (hmac_sha384 toy_prims (key_bytes (toy_key Provider_RING)) (header_input [5] c)) =
     take 32 (hmac_sha384 toy_prims (key_bytes (toy_key Provider_BORING)) (header_input [5] c)))"
proof -
  obtain c where c: "\<And>provider. decrypt toy_env (toy_key provider) [5] c = Ok (replicate 70 9)"
    using toy_encrypted [of _ "[5]"] by blast
  from ciphertext_commits [OF toy_lawful toy_lawful toy_key(2) toy_key(2) c c] c show ?thesis by blast
qed

text \<open>
  C36: All randomness of a message, and that none of it is used twice: the IV in the header is the
  first output of the generator, and the nonces of the segments, in order, are the consecutive
  12-byte pieces of the batches of 3072 bytes it yields next, with no byte repeated or skipped.
\<close>

theorem message_randomness:
  assumes "lawful E S" "params_ok P" "Key_provider E key = Ok provider" "length p \<le> usize_max (pointer_width E)"
    and "encrypt E key aad P p w = Ok c" "ProviderRng_fill E (ProviderRng_new provider w) (replicate 32 0) = (r, iv, rng)"
    and "Parameters_plaintext_layout P (word_of_nat (length p)) = Ok L" "unat (ml_segment_count L) \<le> 256 * k"
    and "nonce_batches E k rng (replicate 3072 0) = Ok batches"
  shows "slice 10 42 c = iv \<and> length (message_calls S key aad c) = unat (ml_segment_count L) \<and>
    concat (map (\<lambda>(_, nonce, _). nonce) (message_calls S key aad c)) = take (12 * unat (ml_segment_count L)) (concat batches)"
proof -
  note S = lawfulD(1) [OF assms(1)]
  obtain iv0 rng0 nps L0 where e: "ProviderRng_fill E (ProviderRng_new provider w) (replicate 32 0) = (Ok (), iv0, rng0)" "length iv0 = 32"
      "Parameters_plaintext_layout P (word_of_nat (length p)) = Ok L0" "length nps = unat (ml_segment_count L0)"
      "draw_nonces E (length nps) (NonceGenerator_new rng0) = Ok (map fst nps)" "\<forall>(nonce, _) \<in> set nps. length nonce = 12"
      "chunks_ok P (map snd nps)" "length nps \<le> 2 ^ 40" "c = floe_message S key P iv0 aad nps"
    by (rule encrypt_okE [OF assms(1-5)])
  have eq: "iv0 = iv" "rng0 = rng" "L0 = L" using e(1,3) assms(6,7) by simp_all
  note calls = message_calls_floe [OF S assms(2) e(2,6,7,8), of key aad]
  have "map (\<lambda>(_, nonce, _). nonce) (message_calls S key aad c) = map fst (map ((!) nps) [0..<length nps])"
    unfolding e(9) calls by (simp add: floe_call_def Let_def split_beta)
  then have nonces: "map (\<lambda>(_, nonce, _). nonce) (message_calls S key aad c) = map fst nps" by (simp only: map_nth)
  have "\<exists>ns. draw_nonces E (length nps) (NonceGenerator_new rng) = Ok ns \<and> concat ns = take (12 * length nps) (concat batches)"
    using draw_nonces_chunks [OF lawfulD(6) [OF assms(1)] NonceGenerator_new_ok, of k rng batches "length nps"] assms(8,9) e(4) eq(3)
    by (auto simp: NonceGenerator_new_def)
  then have "concat (map fst nps) = take (12 * length nps) (concat batches)" using e(5) eq(2) by simp
  moreover have "slice 10 42 c = iv" using e(2) by (simp add: e(9) eq(1) floe_message_def floe_header_def slice_def)
  moreover have "length (message_calls S key aad c) = length nps" unfolding e(9) calls by simp
  ultimately show ?thesis using nonces e(4) eq(3) by simp
qed

theorem message_randomness_witness:
  "\<exists>c. encrypt toy_env (toy_key Provider_RING) [5] SEGMENT_64_B (replicate 70 9) ([], []) = Ok c \<and> slice 10 42 c = replicate 32 0 \<and>
    length (message_calls toy_prims (toy_key Provider_RING) [5] c) = 3 \<and>
    concat (map (\<lambda>(_, nonce, _). nonce) (message_calls toy_prims (toy_key Provider_RING) [5] c)) = replicate 36 1"
proof -
  obtain c where c: "encrypt toy_env (toy_key Provider_RING) [5] SEGMENT_64_B (replicate 70 9) ([], []) = Ok c"
    using toy_encrypted [of Provider_RING "[5]"] by blast
  have u: "length (replicate 70 9 :: bytes) \<le> usize_max (pointer_width toy_env)" using usize_max_ge [of "pointer_width toy_env"] by simp
  have L: "Parameters_plaintext_layout SEGMENT_64_B (word_of_nat (length (replicate 70 9 :: bytes))) = Ok toy_layout"
    "unat (ml_segment_count toy_layout) \<le> 256 * 1" by (simp_all add: toy_layout)
  have fill: "ProviderRng_fill toy_env (ProviderRng_new Provider_RING ([], [])) (replicate 32 0) = (Ok (), replicate 32 0, RingRng ([0], []))"
    and batches: "nonce_batches toy_env 1 (RingRng ([0], [])) (replicate 3072 0) = Ok [replicate 3072 1]"
    by (simp_all add: toy_env_def rng_system_fill_def toy_fill_def ProviderRng_new_def Provider_RING_def)
  from message_randomness [OF toy_lawful segment_64(1) toy_key(2) u c fill L batches] c show ?thesis
    by (intro exI [of _ c]) (simp add: toy_layout)
qed

end
