(* ===== verification/Floe_Io.thy ===== *)
theory Floe_Io
  imports Floe_Message
begin

text \<open>
  The stream adapters of \<^verbatim>\<open>src/src/io.rs\<close>, over an arbitrary wrapped reader \<open>rd\<close> or writer
  \<open>wr\<close> with its \<^verbatim>\<open>flush\<close> function \<open>fl\<close>. An adapter is a record of the fields of the source; a method
  returns its result and the adapter, or does not return when the wrapped stream does not.
\<close>

section \<open>Shared parts\<close>

datatype StreamStatus = Open | Finished | Failed

datatype DecryptStatus = DecryptOpen | FrameComplete | StreamComplete | DecryptFailed

definition poisoned_error :: IoError where
  "poisoned_error = IoError Other (MessageSource ''FLOE stream is poisoned after an earlier error'')"

record 'w FinishError =
  fi_inner :: 'w
  fi_error :: IoError

definition FinishError_error :: "'w FinishError \<Rightarrow> IoError" where
  "FinishError_error f = fi_error f"

definition FinishError_into_error :: "'w FinishError \<Rightarrow> IoError" where
  "FinishError_into_error f = fi_error f"

definition FinishError_into_inner :: "'w FinishError \<Rightarrow> 'w" where
  "FinishError_into_inner f = fi_inner f"

definition FinishError_into_parts :: "'w FinishError \<Rightarrow> IoError \<times> 'w" where
  "FinishError_into_parts f = (fi_error f, fi_inner f)"

definition FinishError_wrap :: "unit io_result \<Rightarrow> 'w \<Rightarrow> ('w FinishError, 'w) rust" where
  "FinishError_wrap r inner =
    (case r of
       Ok _ \<Rightarrow> Ok inner
     | Err error \<Rightarrow> Err \<lparr> fi_inner = inner, fi_error = error \<rparr>
     | Panic \<Rightarrow> Panic)"

section \<open>The encrypting writer\<close>

record ('x, 'w) EncryptWriter =
  ew_inner :: 'w
  ew_encryptor :: "'x Encryptor option"
  ew_header :: Header
  ew_buffer :: SegmentBuffer
  ew_status :: StreamStatus

text \<open>The writer is moved into the constructor; its state is returned beside the result.\<close>

definition EncryptWriter_new ::
  "'x env \<Rightarrow> 'w writer \<Rightarrow> 'w \<Rightarrow> Key \<Rightarrow> bytes \<Rightarrow> Parameters \<Rightarrow> 'x \<Rightarrow> (('x, 'w) EncryptWriter, 'w) io" where
  "EncryptWriter_new E wr inner key aad P w =
    try_io (map_err encryption_error (Encryptor_new E key aad P w)) inner (\<lambda>encryptor.
    let header = Encryptor_header encryptor in
    bind_io (write_all wr inner (Header_as_bytes header)) (\<lambda>_ inner'.
    Some (Ok \<lparr> ew_inner = inner', ew_encryptor = Some encryptor, ew_header = header,
               ew_buffer = SegmentBuffer_new P, ew_status = Open \<rparr>, inner')))"

definition EncryptWriter_header :: "('x, 'w) EncryptWriter \<Rightarrow> Header" where
  "EncryptWriter_header W = ew_header W"

definition EncryptWriter_parameters :: "('x, 'w) EncryptWriter \<Rightarrow> Parameters" where
  "EncryptWriter_parameters W = SegmentBuffer_parameters (ew_buffer W)"

definition EncryptWriter_get_ref :: "('x, 'w) EncryptWriter \<Rightarrow> 'w" where
  "EncryptWriter_get_ref W = ew_inner W"

text \<open>The caller of \<open>get_mut\<close> may replace the wrapped stream; the adapter itself does not change.\<close>

definition EncryptWriter_get_mut :: "('x, 'w) EncryptWriter \<Rightarrow> 'w \<times> ('w \<Rightarrow> ('x, 'w) EncryptWriter)" where
  "EncryptWriter_get_mut W = (ew_inner W, \<lambda>inner. W\<lparr> ew_inner := inner \<rparr>)"

definition EncryptWriter_is_finished :: "('x, 'w) EncryptWriter \<Rightarrow> bool" where
  "EncryptWriter_is_finished W \<longleftrightarrow> ew_status W = Finished"

definition EncryptWriter_into_inner_unfinished :: "('x, 'w) EncryptWriter \<Rightarrow> 'w" where
  "EncryptWriter_into_inner_unfinished W = ew_inner W"

definition EncryptWriter_poison_on_error ::
  "('x, 'w) EncryptWriter \<Rightarrow> (('x, 'w) EncryptWriter \<Rightarrow> (unit, ('x, 'w) EncryptWriter) io) \<Rightarrow>
   (unit, ('x, 'w) EncryptWriter) io" where
  "EncryptWriter_poison_on_error W operation =
    (case operation W of
       None \<Rightarrow> None
     | Some (r, W') \<Rightarrow> Some (r, if is_err r then W'\<lparr> ew_status := Failed \<rparr> else W'))"

definition EncryptWriter_finish_message ::
  "'x env \<Rightarrow> 'w writer \<Rightarrow> ('w \<Rightarrow> (unit, 'w) io) \<Rightarrow> ('x, 'w) EncryptWriter \<Rightarrow> (unit, ('x, 'w) EncryptWriter) io" where
  "EncryptWriter_finish_message E wr fl W =
    try_io (ok_or (ew_encryptor W) poisoned_error) W (\<lambda>encryptor.
    let W1 = W\<lparr> ew_encryptor := None \<rparr> in
    bind_io (if is_err (SegmentBuffer_plaintext_length (ew_buffer W1))
             then case SegmentBuffer_prepare_plaintext (ew_buffer W1) 0 of (r, buffer) \<Rightarrow>
               Some (map_err encryption_error (map_ok (\<lambda>_. ()) r), W1\<lparr> ew_buffer := buffer \<rparr>)
             else Some (Ok (), W1)) (\<lambda>_ W2.
    case Encryptor_encrypt_final_segment_in_place E encryptor (ew_buffer W2) of (r, buffer) \<Rightarrow>
    let W3 = W2\<lparr> ew_buffer := buffer \<rparr> in
    try_io (map_err (\<lambda>error. encryption_error (FinalEncryptError_into_error error)) r) W3 (\<lambda>_.
    try_io (map_err encryption_error (SegmentBuffer_ciphertext (ew_buffer W3))) W3 (\<lambda>ciphertext.
    bind_io (map_state (\<lambda>inner. W3\<lparr> ew_inner := inner \<rparr>) (write_all wr (ew_inner W3) ciphertext)) (\<lambda>_ W4.
    bind_io (map_state (\<lambda>inner. W4\<lparr> ew_inner := inner \<rparr>) (fl (ew_inner W4))) (\<lambda>_ W5.
    Some (Ok (), W5\<lparr> ew_status := Finished \<rparr>)))))))"

definition EncryptWriter_try_finish ::
  "'x env \<Rightarrow> 'w writer \<Rightarrow> ('w \<Rightarrow> (unit, 'w) io) \<Rightarrow> ('x, 'w) EncryptWriter \<Rightarrow> (unit, ('x, 'w) EncryptWriter) io" where
  "EncryptWriter_try_finish E wr fl W =
    (case ew_status W of
       Finished \<Rightarrow> Some (Ok (), W)
     | Failed \<Rightarrow> Some (Err poisoned_error, W)
     | Open \<Rightarrow> EncryptWriter_poison_on_error W (EncryptWriter_finish_message E wr fl))"

definition EncryptWriter_finish ::
  "'x env \<Rightarrow> 'w writer \<Rightarrow> ('w \<Rightarrow> (unit, 'w) io) \<Rightarrow> ('x, 'w) EncryptWriter \<Rightarrow> ('w FinishError, 'w) rust option" where
  "EncryptWriter_finish E wr fl W =
    (case EncryptWriter_try_finish E wr fl W of
       None \<Rightarrow> None
     | Some (r, W') \<Rightarrow> Some (FinishError_wrap r (ew_inner W')))"

definition EncryptWriter_emit_non_final ::
  "'x env \<Rightarrow> 'w writer \<Rightarrow> ('x, 'w) EncryptWriter \<Rightarrow> (unit, ('x, 'w) EncryptWriter) io" where
  "EncryptWriter_emit_non_final E wr W =
    EncryptWriter_poison_on_error W (\<lambda>writer.
      try_io (ok_or (ew_encryptor writer) poisoned_error) writer (\<lambda>encryptor.
      case Encryptor_encrypt_non_final_segment_in_place E encryptor (ew_buffer writer) of (r, encryptor', buffer) \<Rightarrow>
      let writer' = writer\<lparr> ew_encryptor := Some encryptor', ew_buffer := buffer \<rparr> in
      try_io (map_err encryption_error r) writer' (\<lambda>_.
      try_io (map_err encryption_error (SegmentBuffer_ciphertext buffer)) writer' (\<lambda>ciphertext.
      map_state (\<lambda>inner. writer'\<lparr> ew_inner := inner \<rparr>) (write_all wr (ew_inner writer') ciphertext)))))"

definition EncryptWriter_write_segment_direct ::
  "'x env \<Rightarrow> 'w writer \<Rightarrow> ('x, 'w) EncryptWriter \<Rightarrow> bytes \<Rightarrow> (nat, ('x, 'w) EncryptWriter) io" where
  "EncryptWriter_write_segment_direct E wr W segment_chunk =
    bind_io (EncryptWriter_poison_on_error W (\<lambda>writer.
      try_io (ok_or (ew_encryptor writer) poisoned_error) writer (\<lambda>encryptor.
      case Encryptor_encrypt_non_final_segment_into E encryptor segment_chunk (SegmentBuffer_raw_mut (ew_buffer writer)) of
        (r, encryptor', raw) \<Rightarrow>
      let writer' = writer\<lparr> ew_encryptor := Some encryptor', ew_buffer := (ew_buffer writer)\<lparr> sb_bytes := raw \<rparr> \<rparr> in
      try_io (map_err encryption_error r) writer' (\<lambda>written.
      let buffer = SegmentBuffer_mark_ciphertext (ew_buffer writer') written;
          writer'' = writer'\<lparr> ew_buffer := buffer \<rparr>
      in try_io (map_err encryption_error (SegmentBuffer_ciphertext buffer)) writer'' (\<lambda>ciphertext.
      map_state (\<lambda>inner. writer''\<lparr> ew_inner := inner \<rparr>) (write_all wr (ew_inner writer'') ciphertext))))))
    (\<lambda>_ W'. Some (Ok (length segment_chunk), W'))"

definition already_finished_error :: IoError where
  "already_finished_error = IoError BrokenPipe (MessageSource ''FLOE encrypting writer is already finished'')"

definition EncryptWriter_write :: "'x env \<Rightarrow> 'w writer \<Rightarrow> ('x, 'w) EncryptWriter writer" where
  "EncryptWriter_write E wr W input =
    (if input = [] then Some (Ok 0, W) else
     case ew_status W of
       Finished \<Rightarrow> Some (Err already_finished_error, W)
     | Failed \<Rightarrow> Some (Err poisoned_error, W)
     | Open \<Rightarrow>
       let capacity = Parameters_plaintext_segment_length (EncryptWriter_parameters W) in
       if capacity \<le> length input \<and> is_err (SegmentBuffer_plaintext_length (ew_buffer W))
       then EncryptWriter_write_segment_direct E wr W (take capacity input)
       else case SegmentBuffer_extend_plaintext (ew_buffer W) input of (r, buffer) \<Rightarrow>
       let W1 = W\<lparr> ew_buffer := buffer \<rparr> in
       try_io (infallible r) W1 (\<lambda>copied.
       if copied > 0 then Some (Ok copied, W1) else
       bind_io (EncryptWriter_emit_non_final E wr W1) (\<lambda>_ W2.
       if capacity \<le> length input then EncryptWriter_write_segment_direct E wr W2 (take capacity input) else
       case SegmentBuffer_extend_plaintext (ew_buffer W2) input of (r, buffer) \<Rightarrow>
       let W3 = W2\<lparr> ew_buffer := buffer \<rparr> in
       try_io (infallible r) W3 (\<lambda>copied. Some (Ok copied, W3)))))"

definition EncryptWriter_flush ::
  "('w \<Rightarrow> (unit, 'w) io) \<Rightarrow> ('x, 'w) EncryptWriter \<Rightarrow> (unit, ('x, 'w) EncryptWriter) io" where
  "EncryptWriter_flush fl W =
    (if ew_status W = Failed then Some (Err poisoned_error, W)
     else map_state (\<lambda>inner. W\<lparr> ew_inner := inner \<rparr>) (fl (ew_inner W)))"

section \<open>The encrypting reader\<close>

record ('x, 'r) EncryptReader =
  er_inner :: 'r
  er_encryptor :: "'x Encryptor option"
  er_header :: Header
  er_header_position :: nat
  er_buffer :: SegmentBuffer
  er_ciphertext_position :: nat
  er_ciphertext_length :: nat
  er_lookahead :: "u8 option"
  er_status :: StreamStatus

definition EncryptReader_new ::
  "'x env \<Rightarrow> 'r \<Rightarrow> Key \<Rightarrow> bytes \<Rightarrow> Parameters \<Rightarrow> 'x \<Rightarrow> ('x, 'r) EncryptReader io_result" where
  "EncryptReader_new E inner key aad P w =
    bind (map_err encryption_error (Encryptor_new E key aad P w)) (\<lambda>encryptor.
    let header = Encryptor_header encryptor in
    Ok \<lparr> er_inner = inner, er_encryptor = Some encryptor, er_header = header, er_header_position = 0,
         er_buffer = SegmentBuffer_new P, er_ciphertext_position = 0, er_ciphertext_length = 0,
         er_lookahead = None, er_status = Open \<rparr>)"

definition EncryptReader_header :: "('x, 'r) EncryptReader \<Rightarrow> Header" where
  "EncryptReader_header R = er_header R"

definition EncryptReader_parameters :: "('x, 'r) EncryptReader \<Rightarrow> Parameters" where
  "EncryptReader_parameters R = SegmentBuffer_parameters (er_buffer R)"

definition EncryptReader_get_ref :: "('x, 'r) EncryptReader \<Rightarrow> 'r" where
  "EncryptReader_get_ref R = er_inner R"

definition EncryptReader_get_mut :: "('x, 'r) EncryptReader \<Rightarrow> 'r \<times> ('r \<Rightarrow> ('x, 'r) EncryptReader)" where
  "EncryptReader_get_mut R = (er_inner R, \<lambda>inner. R\<lparr> er_inner := inner \<rparr>)"

definition EncryptReader_is_finished :: "('x, 'r) EncryptReader \<Rightarrow> bool" where
  "EncryptReader_is_finished R \<longleftrightarrow> er_status R = Finished \<and> er_ciphertext_position R = er_ciphertext_length R"

definition EncryptReader_into_inner_unfinished :: "('x, 'r) EncryptReader \<Rightarrow> 'r" where
  "EncryptReader_into_inner_unfinished R = er_inner R"

text \<open>
  \<open>plaintext\<close> is the slice of the buffer that \<open>prepare_plaintext\<close> lends; what is written to it is
  written back to the buffer before the buffer is used again.
\<close>

definition EncryptReader_fill_plaintext ::
  "'r reader \<Rightarrow> ('x, 'r) EncryptReader \<Rightarrow> (bool, ('x, 'r) EncryptReader) io" where
  "EncryptReader_fill_plaintext rd R =
    (let capacity = Parameters_plaintext_segment_length (EncryptReader_parameters R) in
     case SegmentBuffer_prepare_plaintext (er_buffer R) capacity of (r, buffer) \<Rightarrow>
     let R1 = R\<lparr> er_buffer := buffer \<rparr> in
     try_io (map_err encryption_error r) R1 (\<lambda>plaintext.
     let R2 = R1\<lparr> er_lookahead := None \<rparr> in
     try_io (case er_lookahead R1 of
               Some byte \<Rightarrow> if plaintext = [] then Panic else Ok (plaintext[0 := byte], 1)
             | None \<Rightarrow> Ok (plaintext, 0)) R2 (\<lambda>(plaintext, plaintext_length).
     try_io (index_range plaintext_length capacity plaintext) R2 (\<lambda>rest.
     case read_fully rd (er_inner R2) rest of None \<Rightarrow> None | Some (r, rest', inner) \<Rightarrow>
     let plaintext' = splice plaintext_length rest' plaintext;
         R3 = R2\<lparr> er_inner := inner, er_buffer := SegmentBuffer_write_plaintext (er_buffer R2) plaintext' \<rparr>
     in try_io r R3 (\<lambda>read.
     let plaintext_length = plaintext_length + read in
     bind_io (if plaintext_length < capacity then Some (Ok True, R3)
              else case read_fully rd (er_inner R3) [0] of None \<Rightarrow> None | Some (r, trailing, inner) \<Rightarrow>
                let R4 = R3\<lparr> er_inner := inner \<rparr> in
                try_io r R4 (\<lambda>read.
                if read = 0 then Some (Ok True, R4)
                else try_io (if trailing = [] then Panic else Ok (trailing ! 0)) R4 (\<lambda>byte.
                  Some (Ok False, R4\<lparr> er_lookahead := Some byte \<rparr>)))) (\<lambda>is_final R5.
     case SegmentBuffer_truncate_plaintext (er_buffer R5) plaintext_length of (r, buffer) \<Rightarrow>
     let R6 = R5\<lparr> er_buffer := buffer \<rparr> in
     try_io (map_err encryption_error r) R6 (\<lambda>_. Some (Ok is_final, R6))))))))"

definition EncryptReader_try_load_segment ::
  "'x env \<Rightarrow> 'r reader \<Rightarrow> ('x, 'r) EncryptReader \<Rightarrow> (unit, ('x, 'r) EncryptReader) io" where
  "EncryptReader_try_load_segment E rd R =
    bind_io (EncryptReader_fill_plaintext rd R) (\<lambda>is_final R0.
    let R1 = R0\<lparr> er_ciphertext_position := 0 \<rparr> in
    try_io (ok_or (er_encryptor R1) poisoned_error) R1 (\<lambda>encryptor.
    if is_final then
      (case Encryptor_encrypt_final_segment_in_place E encryptor (er_buffer R1) of (r, buffer) \<Rightarrow>
       let R2 = R1\<lparr> er_encryptor := None, er_buffer := buffer \<rparr> in
       try_io (map_err (\<lambda>error. encryption_error (FinalEncryptError_into_error error)) r) R2 (\<lambda>encrypted.
       Some (Ok (), R2\<lparr> er_status := Finished, er_ciphertext_length := length encrypted \<rparr>)))
    else
      (case Encryptor_encrypt_non_final_segment_in_place E encryptor (er_buffer R1) of (r, encryptor', buffer) \<Rightarrow>
       let R2 = R1\<lparr> er_encryptor := Some encryptor', er_buffer := buffer \<rparr> in
       try_io (map_err encryption_error r) R2 (\<lambda>encrypted.
       Some (Ok (), R2\<lparr> er_ciphertext_length := length encrypted \<rparr>)))))"

definition EncryptReader_poison :: "('a, ('x, 'r) EncryptReader) io \<Rightarrow> ('a, ('x, 'r) EncryptReader) io" where
  "EncryptReader_poison m =
    (case m of None \<Rightarrow> None | Some (r, R) \<Rightarrow> Some (r, if is_err r then R\<lparr> er_status := Failed \<rparr> else R))"

definition EncryptReader_load_segment ::
  "'x env \<Rightarrow> 'r reader \<Rightarrow> ('x, 'r) EncryptReader \<Rightarrow> (unit, ('x, 'r) EncryptReader) io" where
  "EncryptReader_load_segment E rd R = EncryptReader_poison (EncryptReader_try_load_segment E rd R)"

definition EncryptReader_try_emit_segment_direct ::
  "'x env \<Rightarrow> 'r reader \<Rightarrow> ('x, 'r) EncryptReader \<Rightarrow> bytes \<Rightarrow> (nat, bytes \<times> ('x, 'r) EncryptReader) io" where
  "EncryptReader_try_emit_segment_direct E rd R out =
    (case EncryptReader_fill_plaintext rd R of None \<Rightarrow> None | Some (r, R1) \<Rightarrow>
     try_io r (out, R1) (\<lambda>is_final.
     try_io (ok_or (er_encryptor R1) poisoned_error) (out, R1) (\<lambda>encryptor.
     if is_final then
       (let R2 = R1\<lparr> er_encryptor := None \<rparr> in
        try_io (map_err encryption_error (SegmentBuffer_plaintext (er_buffer R2))) (out, R2) (\<lambda>plaintext.
        case Encryptor_encrypt_final_segment_into E encryptor plaintext out of (r, out') \<Rightarrow>
        try_io (map_err (\<lambda>error. encryption_error (FinalEncryptError_into_error error)) r) (out', R2) (\<lambda>written.
        Some (Ok written, out', R2\<lparr> er_status := Finished \<rparr>))))
     else
       try_io (map_err encryption_error (SegmentBuffer_plaintext (er_buffer R1))) (out, R1) (\<lambda>plaintext.
       case Encryptor_encrypt_non_final_segment_into E encryptor plaintext out of (r, encryptor', out') \<Rightarrow>
       Some (map_err encryption_error r, out', R1\<lparr> er_encryptor := Some encryptor' \<rparr>)))))"

definition EncryptReader_emit_segment_direct ::
  "'x env \<Rightarrow> 'r reader \<Rightarrow> ('x, 'r) EncryptReader \<Rightarrow> bytes \<Rightarrow> (nat, bytes \<times> ('x, 'r) EncryptReader) io" where
  "EncryptReader_emit_segment_direct E rd R out =
    (case EncryptReader_try_emit_segment_direct E rd R out of
       None \<Rightarrow> None
     | Some (r, out', R') \<Rightarrow> Some (r, out', if is_err r then R'\<lparr> er_status := Failed \<rparr> else R'))"

definition EncryptReader_read :: "'x env \<Rightarrow> 'r reader \<Rightarrow> ('x, 'r) EncryptReader reader" where
  "EncryptReader_read E rd R out =
    (if out = [] then Some (Ok 0, out, R) else
     if er_status R = Failed then Some (Err poisoned_error, out, R) else
     if er_header_position R < HEADER_LENGTH then
       (let read = min (length out) (HEADER_LENGTH - er_header_position R);
            end = er_header_position R + read
        in try_io (index_range (er_header_position R) end (Header_as_bytes (er_header R))) (out, R) (\<lambda>piece.
           Some (Ok read, splice 0 piece out, R\<lparr> er_header_position := end \<rparr>)))
     else
       (let finish = (\<lambda>R. 
          try_io (map_err encryption_error (SegmentBuffer_ciphertext (er_buffer R))) (out, R) (\<lambda>ciphertext.
          if er_ciphertext_length R < er_ciphertext_position R then Some (Panic, out, R) else
          let read = min (length out) (er_ciphertext_length R - er_ciphertext_position R);
              end = er_ciphertext_position R + read
          in try_io (index_range (er_ciphertext_position R) end ciphertext) (out, R) (\<lambda>piece.
             Some (Ok read, splice 0 piece out, R\<lparr> er_ciphertext_position := end \<rparr>))))
        in if er_ciphertext_position R = er_ciphertext_length R then
             (if er_status R = Finished then Some (Ok 0, out, R)
              else if Parameters_ciphertext_segment_length (EncryptReader_parameters R) \<le> length out
              then EncryptReader_emit_segment_direct E rd R out
              else case EncryptReader_load_segment E rd R of None \<Rightarrow> None | Some (r, R1) \<Rightarrow>
                try_io r (out, R1) (\<lambda>_. finish R1))
           else finish R))"

section \<open>The decrypting reader\<close>

record ('x, 'r) DecryptReader =
  dr_inner :: 'r
  dr_decryptor :: "'x Decryptor option"
  dr_header :: Header
  dr_buffer :: SegmentBuffer
  dr_plaintext_consumed :: nat
  dr_plaintext_available :: nat
  dr_status :: DecryptStatus

definition DecryptReader_from_decryptor :: "'r \<Rightarrow> 'x Decryptor \<Rightarrow> Header \<Rightarrow> ('x, 'r) DecryptReader" where
  "DecryptReader_from_decryptor inner decryptor header =
    (let P = Decryptor_parameters decryptor in
     \<lparr> dr_inner = inner, dr_decryptor = Some decryptor, dr_header = header, dr_buffer = SegmentBuffer_new P,
       dr_plaintext_consumed = 0, dr_plaintext_available = 0, dr_status = DecryptOpen \<rparr>)"

definition DecryptReader_new ::
  "'x env \<Rightarrow> 'r reader \<Rightarrow> 'r \<Rightarrow> Key \<Rightarrow> bytes \<Rightarrow> (('x, 'r) DecryptReader, 'r) io" where
  "DecryptReader_new E rd inner key aad =
    bind_io (read_header rd inner) (\<lambda>header inner'.
    try_io (map_err decryption_error (Decryptor_new E key aad header)) inner' (\<lambda>decryptor.
    Some (Ok (DecryptReader_from_decryptor inner' decryptor header), inner')))"

definition DecryptReader_new_with_parameters ::
  "'x env \<Rightarrow> 'r reader \<Rightarrow> 'r \<Rightarrow> Key \<Rightarrow> bytes \<Rightarrow> Parameters \<Rightarrow> (('x, 'r) DecryptReader, 'r) io" where
  "DecryptReader_new_with_parameters E rd inner key aad P =
    bind_io (read_header rd inner) (\<lambda>header inner'.
    try_io (map_err decryption_error (Decryptor_new_with_parameters E key aad P header)) inner' (\<lambda>decryptor.
    Some (Ok (DecryptReader_from_decryptor inner' decryptor header), inner')))"

definition DecryptReader_header :: "('x, 'r) DecryptReader \<Rightarrow> Header" where
  "DecryptReader_header R = dr_header R"

definition DecryptReader_parameters :: "('x, 'r) DecryptReader \<Rightarrow> Parameters" where
  "DecryptReader_parameters R = SegmentBuffer_parameters (dr_buffer R)"

definition DecryptReader_get_ref :: "('x, 'r) DecryptReader \<Rightarrow> 'r" where
  "DecryptReader_get_ref R = dr_inner R"

definition DecryptReader_get_mut :: "('x, 'r) DecryptReader \<Rightarrow> 'r \<times> ('r \<Rightarrow> ('x, 'r) DecryptReader)" where
  "DecryptReader_get_mut R =
    (let R' = (if dr_status R = StreamComplete then R\<lparr> dr_status := FrameComplete \<rparr> else R) in
     (dr_inner R', \<lambda>inner. R'\<lparr> dr_inner := inner \<rparr>))"

definition message_complete :: "DecryptStatus \<Rightarrow> bool" where
  "message_complete status \<longleftrightarrow> status = FrameComplete \<or> status = StreamComplete"

definition DecryptReader_is_finished :: "('x, 'r) DecryptReader \<Rightarrow> bool" where
  "DecryptReader_is_finished R \<longleftrightarrow>
    message_complete (dr_status R) \<and> dr_plaintext_consumed R = dr_plaintext_available R"

definition DecryptReader_fetch_segment ::
  "'r reader \<Rightarrow> ('x, 'r) DecryptReader \<Rightarrow> (SegmentFraming, ('x, 'r) DecryptReader) io" where
  "DecryptReader_fetch_segment rd R =
    (case read_fully rd (dr_inner R) (replicate SEGMENT_PREFIX_LENGTH 0) of None \<Rightarrow> None | Some (r, prefix, inner) \<Rightarrow>
     let R1 = R\<lparr> dr_inner := inner \<rparr> in
     try_io r R1 (\<lambda>actual.
     if actual \<noteq> length prefix then Some (Err (decryption_error Truncated), R1) else
     try_io (map_err decryption_error (SegmentFraming_decode (DecryptReader_parameters R1) prefix)) R1 (\<lambda>framing.
     let ciphertext_length = sf_ciphertext_length framing in
     case SegmentBuffer_prepare_ciphertext (dr_buffer R1) ciphertext_length of (r, buffer) \<Rightarrow>
     let R2 = R1\<lparr> dr_buffer := buffer \<rparr> in
     try_io (map_err decryption_error r) R2 (\<lambda>ciphertext.
     if length ciphertext < length prefix then Some (Panic, R2) else
     case read_fully rd (dr_inner R2) (drop (length prefix) ciphertext) of None \<Rightarrow> None | Some (r, remainder, inner) \<Rightarrow>
     let R3 = R2\<lparr> dr_inner := inner, dr_buffer := SegmentBuffer_write_ciphertext buffer (prefix @ remainder) \<rparr> in
     try_io r R3 (\<lambda>actual.
     let expected_remainder = ciphertext_length - length prefix in
     if actual \<noteq> expected_remainder
     then Some (Err (decryption_error (InvalidCiphertextLength (length prefix + actual) (Exactly ciphertext_length))), R3)
     else Some (Ok framing, R3))))))"

definition DecryptReader_finish_if_final ::
  "('x, 'r) DecryptReader \<Rightarrow> SegmentFraming \<Rightarrow> (unit, ('x, 'r) DecryptReader) io" where
  "DecryptReader_finish_if_final R framing =
    (if SegmentFraming_is_final framing then
       try_io (ok_or (dr_decryptor R) poisoned_error) R (\<lambda>decryptor.
       let R1 = R\<lparr> dr_decryptor := None \<rparr> in
       try_io (map_err decryption_error (Decryptor_finish decryptor)) R1 (\<lambda>_.
       Some (Ok (), R1\<lparr> dr_status := FrameComplete \<rparr>)))
     else Some (Ok (), R))"

definition DecryptReader_try_load_segment ::
  "'x env \<Rightarrow> 'r reader \<Rightarrow> ('x, 'r) DecryptReader \<Rightarrow> (unit, ('x, 'r) DecryptReader) io" where
  "DecryptReader_try_load_segment E rd R =
    bind_io (DecryptReader_fetch_segment rd R) (\<lambda>framing R1.
    try_io (ok_or (dr_decryptor R1) poisoned_error) R1 (\<lambda>decryptor.
    case Decryptor_decrypt_segment_in_place E decryptor (dr_buffer R1) of (r, decryptor', buffer) \<Rightarrow>
    let R2 = R1\<lparr> dr_decryptor := Some decryptor', dr_buffer := buffer \<rparr> in
    try_io (map_err decryption_error r) R2 (\<lambda>plaintext.
    bind_io (DecryptReader_finish_if_final R2 framing) (\<lambda>_ R3.
    Some (Ok (), R3\<lparr> dr_plaintext_consumed := 0, dr_plaintext_available := length plaintext \<rparr>)))))"

definition DecryptReader_load_segment ::
  "'x env \<Rightarrow> 'r reader \<Rightarrow> ('x, 'r) DecryptReader \<Rightarrow> (unit, ('x, 'r) DecryptReader) io" where
  "DecryptReader_load_segment E rd R =
    (case DecryptReader_try_load_segment E rd R of
       None \<Rightarrow> None
     | Some (r, R') \<Rightarrow> Some (r, if is_err r then R'\<lparr> dr_status := DecryptFailed \<rparr> else R'))"

definition DecryptReader_try_read_segment_direct ::
  "'x env \<Rightarrow> 'r reader \<Rightarrow> ('x, 'r) DecryptReader \<Rightarrow> bytes \<Rightarrow> (nat, bytes \<times> ('x, 'r) DecryptReader) io" where
  "DecryptReader_try_read_segment_direct E rd R out =
    (case DecryptReader_fetch_segment rd R of None \<Rightarrow> None | Some (r, R1) \<Rightarrow>
     try_io r (out, R1) (\<lambda>framing.
     try_io (ok_or (dr_decryptor R1) poisoned_error) (out, R1) (\<lambda>decryptor.
     try_io (map_err decryption_error (SegmentBuffer_ciphertext (dr_buffer R1))) (out, R1) (\<lambda>ciphertext.
     case Decryptor_decrypt_segment_into_framed E decryptor ciphertext framing out of (r, decryptor', out') \<Rightarrow>
     let R2 = R1\<lparr> dr_decryptor := Some decryptor' \<rparr> in
     try_io (map_err decryption_error r) (out', R2) (\<lambda>written.
     case DecryptReader_finish_if_final R2 framing of None \<Rightarrow> None | Some (r, R3) \<Rightarrow>
     try_io r (out', R3) (\<lambda>_.
     Some (Ok written, out', R3\<lparr> dr_plaintext_consumed := 0, dr_plaintext_available := 0 \<rparr>)))))))"

definition DecryptReader_read_segment_direct ::
  "'x env \<Rightarrow> 'r reader \<Rightarrow> ('x, 'r) DecryptReader \<Rightarrow> bytes \<Rightarrow> (nat, bytes \<times> ('x, 'r) DecryptReader) io" where
  "DecryptReader_read_segment_direct E rd R out =
    (case DecryptReader_try_read_segment_direct E rd R out of
       None \<Rightarrow> None
     | Some (r, out', R') \<Rightarrow> Some (r, out', if is_err r then R'\<lparr> dr_status := DecryptFailed \<rparr> else R'))"

text \<open>
  The last part of \<open>read\<close>, which copies buffered plaintext out. The \<^verbatim>\<open>debug_assert!\<close> of \<open>read\<close> is a
  check, as in a debug build.
\<close>

definition DecryptReader_copy_out :: "('x, 'r) DecryptReader \<Rightarrow> bytes \<Rightarrow> (nat, bytes \<times> ('x, 'r) DecryptReader) io" where
  "DecryptReader_copy_out R out =
    try_io (map_err decryption_error (SegmentBuffer_plaintext (dr_buffer R))) (out, R) (\<lambda>plaintext.
    if dr_plaintext_available R < dr_plaintext_consumed R then Some (Panic, out, R) else
    let read = min (length out) (dr_plaintext_available R - dr_plaintext_consumed R);
        end = dr_plaintext_consumed R + read
    in try_io (index_range (dr_plaintext_consumed R) end plaintext) (out, R) (\<lambda>piece.
       Some (Ok read, splice 0 piece out, R\<lparr> dr_plaintext_consumed := end \<rparr>)))"

definition DecryptReader_read :: "'x env \<Rightarrow> 'r reader \<Rightarrow> ('x, 'r) DecryptReader reader" where
  "DecryptReader_read E rd R out =
    (if out = [] then Some (Ok 0, out, R) else
     if dr_status R = DecryptFailed then Some (Err poisoned_error, out, R) else
     if dr_plaintext_consumed R = dr_plaintext_available R then
       (if message_complete (dr_status R) then Some (Ok 0, out, R) else
        if Parameters_plaintext_segment_length (DecryptReader_parameters R) \<le> length out
        then DecryptReader_read_segment_direct E rd R out else
        case DecryptReader_load_segment E rd R of None \<Rightarrow> None | Some (r, R1) \<Rightarrow>
        try_io r (out, R1) (\<lambda>_.
        if dr_plaintext_consumed R1 = dr_plaintext_available R1
        then if message_complete (dr_status R1) then Some (Ok 0, out, R1) else Some (Panic, out, R1)
        else DecryptReader_copy_out R1 out))
     else DecryptReader_copy_out R out)"

partial_function (option) DecryptReader_drain_loop ::
  "'x env \<Rightarrow> 'r reader \<Rightarrow> ('x, 'r) DecryptReader \<Rightarrow> (unit, ('x, 'r) DecryptReader) io" where
  "DecryptReader_drain_loop E rd R =
    (if dr_status R \<noteq> DecryptOpen then Some (Ok (), R) else
     case DecryptReader_load_segment E rd R of
       None \<Rightarrow> None
     | Some (r, R') \<Rightarrow>
        (case r of
           Ok _ \<Rightarrow> DecryptReader_drain_loop E rd (R'\<lparr> dr_plaintext_consumed := dr_plaintext_available R' \<rparr>)
         | Err e \<Rightarrow> Some (Err e, R')
         | Panic \<Rightarrow> Some (Panic, R')))"

definition DecryptReader_drain_message ::
  "'x env \<Rightarrow> 'r reader \<Rightarrow> ('x, 'r) DecryptReader \<Rightarrow> (unit, ('x, 'r) DecryptReader) io" where
  "DecryptReader_drain_message E rd R =
    bind_io (DecryptReader_drain_loop E rd (R\<lparr> dr_plaintext_consumed := dr_plaintext_available R \<rparr>)) (\<lambda>_ R'.
    if dr_status R' = DecryptFailed then Some (Err poisoned_error, R') else Some (Ok (), R'))"

definition trailing_data_error :: IoError where
  "trailing_data_error = IoError InvalidData (MessageSource ''FLOE ciphertext has data after its final segment'')"

definition DecryptReader_try_finish ::
  "'x env \<Rightarrow> 'r reader \<Rightarrow> ('x, 'r) DecryptReader \<Rightarrow> (unit, ('x, 'r) DecryptReader) io" where
  "DecryptReader_try_finish E rd R =
    (if dr_status R = StreamComplete then Some (Ok (), R) else
     bind_io (DecryptReader_drain_message E rd R) (\<lambda>_ R1.
     case read_fully rd (dr_inner R1) [0] of None \<Rightarrow> None | Some (r, trailing, inner) \<Rightarrow>
     let R2 = R1\<lparr> dr_inner := inner \<rparr> in
     (case r of
        Ok n \<Rightarrow>
          if n = 0 then Some (Ok (), R2\<lparr> dr_status := StreamComplete \<rparr>)
          else Some (Err trailing_data_error, R2\<lparr> dr_status := DecryptFailed \<rparr>)
      | Err error \<Rightarrow> Some (Err error, R2\<lparr> dr_status := DecryptFailed \<rparr>)
      | Panic \<Rightarrow> Some (Panic, R2))))"

definition DecryptReader_try_finish_frame ::
  "'x env \<Rightarrow> 'r reader \<Rightarrow> ('x, 'r) DecryptReader \<Rightarrow> (unit, ('x, 'r) DecryptReader) io" where
  "DecryptReader_try_finish_frame E rd R = DecryptReader_drain_message E rd R"

definition DecryptReader_finish ::
  "'x env \<Rightarrow> 'r reader \<Rightarrow> ('x, 'r) DecryptReader \<Rightarrow> ('r FinishError, 'r) rust option" where
  "DecryptReader_finish E rd R =
    (case DecryptReader_try_finish E rd R of
       None \<Rightarrow> None
     | Some (r, R') \<Rightarrow> Some (FinishError_wrap r (dr_inner R')))"

definition DecryptReader_finish_frame ::
  "'x env \<Rightarrow> 'r reader \<Rightarrow> ('x, 'r) DecryptReader \<Rightarrow> ('r FinishError, 'r) rust option" where
  "DecryptReader_finish_frame E rd R =
    (case DecryptReader_try_finish_frame E rd R of
       None \<Rightarrow> None
     | Some (r, R') \<Rightarrow> Some (FinishError_wrap r (dr_inner R')))"

definition DecryptReader_into_inner_unchecked :: "('x, 'r) DecryptReader \<Rightarrow> 'r" where
  "DecryptReader_into_inner_unchecked R = dr_inner R"

end
