(* ===== verification/Floe_Decrypt_Reader.thy ===== *)
theory Floe_Decrypt_Reader
  imports Floe_Io
begin

text \<open>
  The streaming decryption reader of src/io.rs over any lawful byte source (the locale
  \<open>byte_source\<close>): what one load of a segment does, that the reader is itself a byte source of the
  message's plaintext, and what a read to the end says of the stream's contents.
\<close>

section \<open>Opening a segment in place\<close>

lemma decrypt_in_place_framed:
  assumes "buffer_ok B" "sb_parameters B = Decryptor_parameters d" "sb_state B = Ciphertext (sf_ciphertext_length F)"
    and "SegmentFraming_decode (Decryptor_parameters d) (take 4 (sb_bytes B)) = Ok F"
  obtains op where "Decryptor_decrypt_segment_in_place E d B = SegmentBuffer_decrypt_with E B op"
    "op B = Decryptor_advance d (sf_kind F) B (\<lambda>state position.
       DecryptionState_decrypt_segment_in_place_at_framed E state B position F)"
proof -
  note BD = buffer_okD [OF assms(1)]
  have "bind (SegmentBuffer_ciphertext B) (Decryptor_framing d) = Ok F"
    using assms(2-4) BD(2,4) framing_decode_okD(1,2) [OF BD(1), unfolded assms(2), OF assms(4)]
    by (simp add: SegmentBuffer_ciphertext_def Decryptor_framing_def segment_prefix_def slice_def)
  then show thesis by (intro that [OF Decryptor_decrypt_segment_in_place_def]) (simp only: try_in.simps)
qed

lemma decrypt_in_place_cases:
  assumes "lawful E S" "decryptor_at E d i" "buffer_ok B" "sb_parameters B = Decryptor_parameters d"
    and "sb_state B = Ciphertext (sf_ciphertext_length F)"
    and "SegmentFraming_decode (Decryptor_parameters d) (take 4 (sb_bytes B)) = Ok F"
  defines "C \<equiv> ds_context (de_state d)" and "seg \<equiv> take (sf_ciphertext_length F) (sb_bytes B)"
  obtains (limit) d' B' where "Decryptor_decrypt_segment_in_place E d B = (Err SegmentLimit, d', B')"
      "sf_kind F = NonFinal" "i = 2 ^ 40 - 1"
    | (rejected) d' B' where "Decryptor_decrypt_segment_in_place E d B = (Err AuthenticationFailed, d', B')"
      "segment_open S C (word_of_nat i) (sf_kind F) seg = None"
    | (opened) p d' B' where "Decryptor_decrypt_segment_in_place E d B = (Ok p, d', B')"
      "segment_open S C (word_of_nat i) (sf_kind F) seg = Some p" "ds_context (de_state d') = C"
      "sf_kind F = NonFinal \<Longrightarrow> i \<noteq> 2 ^ 40 - 1 \<and> decryptor_at E d' (Suc i)" "sf_kind F = Final \<Longrightarrow> sc_closed (de_counter d')"
      "buffer_ok B'" "sb_parameters B' = sb_parameters B" "sb_state B' = Plaintext (length p)" "length p = sf_plaintext_length F"
      "slice 16 (16 + length p) (sb_bytes B') = p"
proof -
  obtain op where run: "Decryptor_decrypt_segment_in_place E d B = SegmentBuffer_decrypt_with E B op"
    and op: "op B = Decryptor_advance d (sf_kind F) B (\<lambda>state position.
      DecryptionState_decrypt_segment_in_place_at_framed E state B position F)"
    by (rule decrypt_in_place_framed [OF assms(3-6)])
  have st: "dec_state_ok E (de_state d)" and ct: "counter_ok (de_counter d)" "\<not> sc_closed (de_counter d)"
    and next_i: "sc_next (de_counter d) = word_of_nat i" "unat (sc_next (de_counter d)) = i"
    using assms(2) by (auto simp: decryptor_at_def)
  have par: "Decryptor_parameters d = mc_parameters C" by (simp add: C_def Decryptor_parameters_def DecryptionState_parameters_def)
  note BD = buffer_okD [OF assms(3)]
  have F: "framing_ok (mc_parameters C) F" using framing_decode_ok [OF _ assms(6)] BD(1) assms(4) par by simp
  note FD = framing_okD [OF dec_state_okD(1) [OF st] F [unfolded C_def]]
  note pos = position_for_cases [OF ct(1), of "sf_kind F"]
  show thesis
  proof (cases "sf_kind F = NonFinal \<and> i = 2 ^ 40 - 1")
    case True
    then have "op B = (Err SegmentLimit, d, B)" using op ct(2) pos next_i(2) by (simp add: Decryptor_advance_def)
    from decrypt_with_outcome [where operation = op, OF assms(1) this assms(3)] True show thesis
      by (intro limit) (auto simp: run)
  next
    case False
    then have P: "SegmentCounter_position_for (de_counter d) (sf_kind F) = Ok (word_of_nat i)"
      using ct(2) pos next_i by auto
    note CC = complete_ok [OF ct(1) P]
    obtain s' B' where R: "DecryptionState_decrypt_segment_in_place_at_framed E (de_state d) B (word_of_nat i) F =
        (case segment_open S C (word_of_nat i) (sf_kind F) seg of
           Some p \<Rightarrow> Ok (sf_plaintext_length F) | None \<Rightarrow> Err AuthenticationFailed, s', B')"
      "dec_state_ok E s'" "ds_context s' = C" "buffer_ok B'" "sb_parameters B' = sb_parameters B"
      "\<And>p. segment_open S C (word_of_nat i) (sf_kind F) seg = Some p \<Longrightarrow>
         slice 16 (16 + sf_plaintext_length F) (sb_bytes B') = p \<and> length p = sf_plaintext_length F"
      using decrypt_in_place_at_framed_spec [OF assms(1) st F [unfolded C_def] assms(3) _ assms(5) CC(3), folded C_def seg_def]
        assms(4) par by auto
    show thesis
    proof (cases "segment_open S C (word_of_nat i) (sf_kind F) seg")
      case None
      then have "op B = (Err AuthenticationFailed, d\<lparr> de_state := s' \<rparr>, B')" using op P R(1) by (simp add: Decryptor_advance_def)
      from decrypt_with_outcome [where operation = op, OF assms(1) this R(4)] None show thesis
        by (intro rejected) (auto simp: run)
    next
      case (Some p)
      let ?d = "d\<lparr> de_state := s', de_counter := SegmentCounter_complete (de_counter d) (sf_kind F) \<rparr>"
      have *: "op B = (Ok (sf_plaintext_length F), ?d, B')" using Some op P R(1) by (simp add: Decryptor_advance_def)
      have res: "Decryptor_decrypt_segment_in_place E d B =
          (Ok p, ?d, B'\<lparr> sb_state := Plaintext (sf_plaintext_length F) \<rparr>)"
        using decrypt_with_outcome [where operation = op, OF assms(1) * R(4)] FD(2) R(5) R(6) [OF Some] assms(4) par
        by (simp add: run C_def)
      show thesis
      proof (rule opened [OF res Some])
        show "i \<noteq> 2 ^ 40 - 1 \<and> decryptor_at E ?d (Suc i)" if "sf_kind F = NonFinal"
        proof -
          have "\<not> sc_closed (de_counter ?d)" using that ct(2) by (simp add: SegmentCounter_complete_def)
          then show ?thesis using that False CC(1,5) R(2) next_i(2) by (simp add: decryptor_at_def)
        qed
        show "sc_closed (de_counter ?d)" if "sf_kind F = Final" using that by (simp add: SegmentCounter_complete_def)
        show "buffer_ok (B'\<lparr> sb_state := Plaintext (sf_plaintext_length F) \<rparr>)"
          using buffer_okD(1,2) [OF R(4)] FD(2) R(5) assms(4) par by (intro buffer_okI) (auto simp: C_def)
      qed (use R(3,5) R(6) [OF Some] in simp_all)
    qed
  qed
qed

section \<open>Fetching a segment\<close>

text \<open>A fetched segment \<open>seg\<close> is at the front of the buffer, and its framing has been checked.\<close>

definition holds_segment :: "Parameters \<Rightarrow> SegmentFraming \<Rightarrow> SegmentBuffer \<Rightarrow> bytes \<Rightarrow> bool" where
  "holds_segment P F B seg \<longleftrightarrow> buffer_ok B \<and> sb_parameters B = P \<and> sb_state B = Ciphertext (sf_ciphertext_length F) \<and>
    seg = take (sf_ciphertext_length F) (sb_bytes B) \<and> SegmentFraming_decode P (take 4 seg) = Ok F"

lemma holds_segmentD:
  assumes "holds_segment P F B seg"
  shows "buffer_ok B" "sb_parameters B = P" "sb_state B = Ciphertext (sf_ciphertext_length F)"
    "seg = take (sf_ciphertext_length F) (sb_bytes B)" "SegmentFraming_decode P (take 4 seg) = Ok F"
    "length seg = sf_ciphertext_length F" "sf_ciphertext_length F \<le> length (sb_bytes B)"
  using assms buffer_okD(2,4) [of B] by (auto simp: holds_segment_def)

text \<open>
  \<open>fetch_rest\<close>: what fetching a segment does once its prefix was read into \<open>prefix\<close> and gave the framing \<open>F\<close>.
\<close>

lemma fetch_rest:
  assumes "buffer_ok (dr_buffer R)" "read_fully rd (dr_inner R) (replicate 4 0) = Some (Ok 4, prefix, inner)" "length prefix = 4"
    and "SegmentFraming_decode (sb_parameters (dr_buffer R)) prefix = Ok F"
  defines "n \<equiv> sf_ciphertext_length F" and "old \<equiv> sb_bytes (dr_buffer R)"
  shows "DecryptReader_fetch_segment rd R =
      (case read_fully rd inner (drop 4 (take n old)) of None \<Rightarrow> None | Some (r, remainder, inner') \<Rightarrow>
       let R' = R\<lparr> dr_inner := inner', dr_buffer := SegmentBuffer_write_ciphertext
         ((dr_buffer R)\<lparr> sb_state := Ciphertext n \<rparr>) (prefix @ remainder) \<rparr> in
       try_io r R' (\<lambda>actual. if actual \<noteq> n - 4
         then Some (Err (decryption_error (InvalidCiphertextLength (4 + actual) (Exactly n))), R') else Some (Ok F, R')))"
    "length (drop 4 (take n old)) = n - 4" "32 \<le> n" "n \<le> length old"
    "length remainder = n - 4 \<Longrightarrow> holds_segment (sb_parameters (dr_buffer R)) F (SegmentBuffer_write_ciphertext
       ((dr_buffer R)\<lparr> sb_state := Ciphertext n \<rparr>) (prefix @ remainder)) (prefix @ remainder)"
proof -
  let ?P = "sb_parameters (dr_buffer R)"
  have n: "32 \<le> n" "n \<le> csl ?P" using framing_decode_ok [OF buffer_okD(1) [OF assms(1)] assms(4)] by (auto simp: framing_ok_def n_def)
  have len: "length old = csl ?P" using assms(1) by (simp add: buffer_ok_def old_def)
  have "SegmentBuffer_prepare_ciphertext (dr_buffer R) n = (Ok (take n old), (dr_buffer R)\<lparr> sb_state := Ciphertext n \<rparr>)"
    using prepare_ciphertext_spec [OF assms(1) n(1)] n(2) by (simp add: old_def)
  then show "DecryptReader_fetch_segment rd R =
      (case read_fully rd inner (drop 4 (take n old)) of None \<Rightarrow> None | Some (r, remainder, inner') \<Rightarrow>
       let R' = R\<lparr> dr_inner := inner', dr_buffer := SegmentBuffer_write_ciphertext
         ((dr_buffer R)\<lparr> sb_state := Ciphertext n \<rparr>) (prefix @ remainder) \<rparr> in
       try_io r R' (\<lambda>actual. if actual \<noteq> n - 4
         then Some (Err (decryption_error (InvalidCiphertextLength (4 + actual) (Exactly n))), R') else Some (Ok F, R')))"
    using assms(2-4) n len by (simp add: DecryptReader_fetch_segment_def DecryptReader_parameters_def SegmentBuffer_parameters_def
        n_def [symmetric] Let_def cong: option.case_cong if_cong)
  show "length (drop 4 (take n old)) = n - 4" "32 \<le> n" "n \<le> length old" using n len by simp_all
  show "holds_segment ?P F (SegmentBuffer_write_ciphertext ((dr_buffer R)\<lparr> sb_state := Ciphertext n \<rparr>) (prefix @ remainder))
      (prefix @ remainder)" if "length remainder = n - 4"
    using that assms n len by (auto simp: holds_segment_def buffer_ok_def SegmentBuffer_write_ciphertext_def splice_def old_def)
qed

text \<open>
  \<open>fetch_reads\<close>: the one or two reads that fetching a segment makes, and what they leave.
\<close>

lemma fetch_reads:
  assumes "\<forall>r buf res out r'. read_fully rd r buf = Some (res, out, r') \<longrightarrow> length out = length buf"
    and "buffer_ok (dr_buffer R)" "DecryptReader_fetch_segment rd R = Some (res, R')"
  defines "P \<equiv> sb_parameters (dr_buffer R)"
  obtains (prefix) res1 pre inner where "read_fully rd (dr_inner R) (replicate 4 0) = Some (res1, pre, inner)"
      "R' = R\<lparr> dr_inner := inner, dr_buffer := dr_buffer R \<rparr>" "\<And>F. res \<noteq> Ok F" "res = Panic \<Longrightarrow> res1 = Panic"
    | (segment) F pre i1 buf res2 remainder inner B where "read_fully rd (dr_inner R) (replicate 4 0) = Some (Ok 4, pre, i1)"
      "read_fully rd i1 buf = Some (res2, remainder, inner)" "R' = R\<lparr> dr_inner := inner, dr_buffer := B \<rparr>"
      "holds_segment P F B (pre @ remainder)" "length pre = 4" "\<And>G. res = Ok G \<Longrightarrow> G = F \<and> res2 = Ok (length remainder)"
      "res = Panic \<Longrightarrow> res2 = Panic"
proof -
  note unf = DecryptReader_fetch_segment_def DecryptReader_parameters_def SegmentBuffer_parameters_def
  obtain res1 pre i1 where r1: "read_fully rd (dr_inner R) (replicate 4 0) = Some (res1, pre, i1)"
    using assms(3) by (auto simp: unf split: option.splits)
  have len: "length pre = 4" using assms(1) r1 by (metis length_replicate)
  let ?R1 = "R\<lparr> dr_inner := i1, dr_buffer := dr_buffer R \<rparr>"
  show thesis
  proof (cases "res1 = Ok 4 \<and> (\<exists>F. SegmentFraming_decode P pre = Ok F)")
    case False
    have "R' = ?R1 \<and> (\<forall>F. res \<noteq> Ok F) \<and> (res = Panic \<longrightarrow> res1 = Panic)"
    proof (cases res1)
      case (Ok n)
      show ?thesis
      proof (cases "n = 4")
        case True
        then obtain e where "SegmentFraming_decode P pre = Err e"
          using False Ok framing_decode_no_panic [of P pre] by (cases "SegmentFraming_decode P pre") auto
        then show ?thesis using assms(3) r1 len Ok True by (auto simp: unf P_def)
      qed (use assms(3) r1 len Ok in \<open>auto simp: unf\<close>)
    qed (use assms(3) r1 in \<open>auto simp: unf\<close>)
    then show thesis using prefix [OF r1] by blast
  next
    case True
    then obtain F where F: "SegmentFraming_decode P pre = Ok F" by blast
    have r1': "read_fully rd (dr_inner R) (replicate 4 0) = Some (Ok 4, pre, i1)" using r1 True by simp
    note FR = fetch_rest [OF assms(2) r1' len F [unfolded P_def]]
    let ?n = "sf_ciphertext_length F" and ?rest = "drop 4 (take (sf_ciphertext_length F) (sb_bytes (dr_buffer R)))"
    obtain res2 remainder i2 where r2: "read_fully rd i1 ?rest = Some (res2, remainder, i2)"
      using assms(3) FR(1) by (auto split: option.splits)
    let ?B = "SegmentBuffer_write_ciphertext ((dr_buffer R)\<lparr> sb_state := Ciphertext ?n \<rparr>) (pre @ remainder)"
    let ?R' = "R\<lparr> dr_inner := i2, dr_buffer := ?B \<rparr>"
    have rem: "length remainder = ?n - 4" using assms(1) r2 FR(2) by metis
    have run: "Some (res, R') = try_io res2 ?R' (\<lambda>actual. if actual \<noteq> ?n - 4
        then Some (Err (decryption_error (InvalidCiphertextLength (4 + actual) (Exactly ?n))), ?R') else Some (Ok F, ?R'))"
      using assms(3) FR(1) r2 by (simp add: Let_def)
    then have R': "R' = ?R'" and res: "res = Ok G \<Longrightarrow> G = F \<and> res2 = Ok (length remainder)" "res = Panic \<Longrightarrow> res2 = Panic" for G
      by (cases res2; auto simp: rem split: if_splits)+
    show thesis by (rule segment [OF r1' r2 R' FR(5) [OF rem, folded P_def] len res])
  qed
qed

context byte_source begin

lemma fetch_segment_cases:
  assumes "yields (dr_inner R) c" "buffer_ok (dr_buffer R)"
  defines "P \<equiv> sb_parameters (dr_buffer R)"
  obtains (refused) e inner B where "DecryptReader_fetch_segment rd R =
        Some (Err (decryption_error e), R\<lparr> dr_inner := inner, dr_buffer := B \<rparr>)"
      "\<nexists>F. 4 \<le> length c \<and> SegmentFraming_decode P (take 4 c) = Ok F \<and> sf_ciphertext_length F \<le> length c"
    | (fetched) F inner B where "DecryptReader_fetch_segment rd R = Some (Ok F, R\<lparr> dr_inner := inner, dr_buffer := B \<rparr>)"
      "holds_segment P F B (take (sf_ciphertext_length F) c)" "yields inner (drop (sf_ciphertext_length F) c)"
proof (cases "4 \<le> length c")
  case False
  then have lt: "length c < length (replicate 4 (0 :: u8))" by simp
  obtain out r' where "read_fully rd (dr_inner R) (replicate 4 0) = Some (Ok (length c), c @ out, r')" "length out = 4 - length c"
    by (rule read_fully_short [OF assms(1) lt]) simp
  then have "DecryptReader_fetch_segment rd R = Some (Err (decryption_error Truncated), R\<lparr> dr_inner := r', dr_buffer := dr_buffer R \<rparr>)"
    using False by (simp add: DecryptReader_fetch_segment_def)
  then show thesis using refused False by blast
next
  case True
  obtain r1 where r1: "read_fully rd (dr_inner R) (replicate 4 0) = Some (Ok 4, take 4 c, r1)" "yields r1 (drop 4 c)"
    using read_fully_enough [OF assms(1), of "replicate 4 0"] True by auto
  have len4: "min (length c) 4 = 4" using True by simp
  note unf = DecryptReader_fetch_segment_def DecryptReader_parameters_def SegmentBuffer_parameters_def
  have P: "params_ok P" using buffer_okD(1) [OF assms(2)] by (simp add: P_def)
  show thesis
  proof (cases "SegmentFraming_decode P (take 4 c)")
    case (Err e)
    then have "DecryptReader_fetch_segment rd R = Some (Err (decryption_error e), R\<lparr> dr_inner := r1, dr_buffer := dr_buffer R \<rparr>)"
      using True r1(1) len4 by (simp add: unf P_def)
    then show thesis using refused Err by (metis rust.distinct(1))
  next
    case Panic
    then show thesis using framing_decode_no_panic by blast
  next
    case (Ok F)
    let ?n = "sf_ciphertext_length F"
    have "length (take 4 c) = 4" using True by simp
    note FR = fetch_rest [OF assms(2) r1(1) this Ok [unfolded P_def], folded P_def]
    let ?rest = "drop 4 (take ?n (sb_bytes (dr_buffer R)))"
    show thesis
    proof (cases "?n \<le> length c")
      case False
      then have lt: "length (drop 4 c) < length ?rest" using FR(2,3) True by simp
      obtain out r2 where r2: "read_fully rd r1 ?rest = Some (Ok (length (drop 4 c)), drop 4 c @ out, r2)"
        by (rule read_fully_short [OF r1(2) lt])
      have "length (drop 4 c) \<noteq> ?n - 4" using lt FR(2) by simp
      then show thesis using FR(1) r2 refused Ok False by (auto simp: Let_def)
    next
      case fits: True
      then have le: "length ?rest \<le> length (drop 4 c)" using FR(2) by simp
      obtain r2 where r2: "read_fully rd r1 ?rest = Some (Ok (length ?rest), take (length ?rest) (drop 4 c), r2)"
          "yields r2 (drop (length ?rest) (drop 4 c))"
        by (rule read_fully_enough [OF r1(2) le])
      have seg: "take 4 c @ take (?n - 4) (drop 4 c) = take ?n c" using take_add [of 4 "?n - 4" c] FR(3) by simp
      have "length (take (?n - 4) (drop 4 c)) = ?n - 4" using fits by simp
      note H = FR(5) [OF this, unfolded seg]
      show thesis by (rule fetched [OF _ H]) (use FR(1) r2 FR(2,3) seg in \<open>simp_all add: Let_def\<close>)
    qed
  qed
qed

end

section \<open>One step of the decrypting reader\<close>

text \<open>
  \<open>next_segment S C i c kind nonce p rest\<close>: the ciphertext \<open>c\<close> starts with the specified segment of \<open>p\<close>
  at position \<open>i\<close>, and \<open>rest\<close> follows it.
\<close>

definition next_segment ::
  "prims \<Rightarrow> MessageContext \<Rightarrow> nat \<Rightarrow> bytes \<Rightarrow> SegmentKind \<Rightarrow> bytes \<Rightarrow> bytes \<Rightarrow> bytes \<Rightarrow> bool" where
  "next_segment S C i c kind nonce p rest \<longleftrightarrow>
    c = floe_segment S C (word_of_nat i) kind nonce p @ rest \<and> length nonce = 12 \<and> seg_len_ok C kind (length p) \<and>
    (kind = NonFinal \<longrightarrow> i \<noteq> 2 ^ 40 - 1)"

lemma next_segment_framing:
  assumes "prims_ok S" "params_ok (mc_parameters C)" "next_segment S C i c kind nonce p rest"
  shows "SegmentFraming_decode (mc_parameters C) (take 4 c) =
      Ok \<lparr> sf_ciphertext_length = length p + 32, sf_plaintext_length = length p, sf_kind = kind \<rparr>"
    "take (length p + 32) c = floe_segment S C (word_of_nat i) kind nonce p" "drop (length p + 32) c = rest"
    "length p + 32 \<le> length c" "4 \<le> length c"
proof -
  have n: "c = floe_segment S C (word_of_nat i) kind nonce p @ rest" "length nonce = 12" "seg_len_ok C kind (length p)"
    using assms(3) by (auto simp: next_segment_def)
  note len = floe_segment_length [OF assms(1) n(2), of C "word_of_nat i" kind p]
  have "take 4 c = u32_to_be_bytes (segment_prefix_word kind (length p + 32))"
    using floe_segment_parts(1) [OF assms(1) n(2), of C "word_of_nat i" kind p] len n(1) by (simp add: add.commute)
  then show "SegmentFraming_decode (mc_parameters C) (take 4 c) =
      Ok \<lparr> sf_ciphertext_length = length p + 32, sf_plaintext_length = length p, sf_kind = kind \<rparr>"
    using framing_of_prefix [OF assms(2), of "length p + 32" kind] csl_psl [OF assms(2)] n(3)
    by (auto simp: seg_len_ok_def split: SegmentKind.splits)
  show "take (length p + 32) c = floe_segment S C (word_of_nat i) kind nonce p" "drop (length p + 32) c = rest"
    "length p + 32 \<le> length c" "4 \<le> length c"
    using len n(1) by simp_all
qed

lemma next_segment_unique:
  assumes "prims_ok S" "params_ok (mc_parameters C)"
    and "next_segment S C i c kind nonce p rest" "next_segment S C i c kind' nonce' p' rest'"
  shows "kind' = kind \<and> p' = p \<and> rest' = rest"
proof -
  note A = next_segment_framing [OF assms(1,2,3)] and B = next_segment_framing [OF assms(1,2,4)]
  have k: "kind' = kind" "length p' = length p" using A(1) B(1) by auto
  then have "floe_segment S C (word_of_nat i) kind nonce p = floe_segment S C (word_of_nat i) kind nonce' p'"
    using A(2) B(2) by simp
  then have "Some p = Some p'"
    using segment_open_sealed [OF assms(1)] assms(3,4) by (metis next_segment_def)
  then show ?thesis using k A(3) B(3) by simp
qed

lemma segment_open_next:
  assumes "prims_ok S" "params_ok (mc_parameters C)" "4 \<le> length c"
    and "SegmentFraming_decode (mc_parameters C) (take 4 c) = Ok F" "sf_ciphertext_length F \<le> length c"
    and "segment_open S C (word_of_nat i) (sf_kind F) (take (sf_ciphertext_length F) c) = Some p"
    and "sf_kind F = NonFinal \<Longrightarrow> i \<noteq> 2 ^ 40 - 1"
  shows "next_segment S C i c (sf_kind F) (slice 4 16 c) p (drop (sf_ciphertext_length F) c)"
proof -
  let ?seg = "take (sf_ciphertext_length F) c"
  have F: "32 \<le> sf_ciphertext_length F" "framing_ok (mc_parameters C) F"
    using framing_decode_ok [OF assms(2,4)] by (auto simp: framing_ok_def)
  have len: "length ?seg = sf_ciphertext_length F" using assms(5) by simp
  have "take 4 ?seg = take 4 c" using F(1) by (simp add: min_def)
  then have pre: "take 4 ?seg = u32_to_be_bytes (segment_prefix_word (sf_kind F) (length ?seg))"
    using prefix_of_framing [OF assms(2) _ assms(4)] assms(3) len by simp
  have nonce: "slice 4 16 ?seg = slice 4 16 c" using F(1) by (simp add: slice_take_drop min_def)
  have "?seg = floe_segment S C (word_of_nat i) (sf_kind F) (slice 4 16 c) p"
    using segment_open_iff [OF assms(1) _ pre] assms(6) F(1) len nonce by simp
  moreover have "length p = sf_ciphertext_length F - 32" using segment_open_length [OF assms(1) _ assms(6)] len F(1) by simp
  moreover have "length (slice 4 16 c) = 12" using F(1) assms(5) by simp
  moreover have "seg_len_ok C (sf_kind F) (sf_ciphertext_length F - 32)"
    using F(2) csl_psl [OF assms(2)] by (auto simp: framing_ok_def seg_len_ok_def split: SegmentKind.split)
  ultimately show ?thesis using assms(7) by (simp add: next_segment_def) (metis append_take_drop_id)
qed

text \<open>The plaintext already decrypted and not yet delivered, and the invariant of the reader.\<close>

definition decrypt_pending :: "('x, 'r) DecryptReader \<Rightarrow> bytes" where
  "decrypt_pending R = slice (16 + dr_plaintext_consumed R) (16 + dr_plaintext_available R) (sb_bytes (dr_buffer R))"

definition decrypt_reader_ok :: "('x, 'r) DecryptReader \<Rightarrow> bool" where
  "decrypt_reader_ok R \<longleftrightarrow> buffer_ok (dr_buffer R) \<and> dr_plaintext_consumed R \<le> dr_plaintext_available R \<and>
    (dr_plaintext_consumed R < dr_plaintext_available R \<longrightarrow> sb_state (dr_buffer R) = Plaintext (dr_plaintext_available R))"

definition decrypt_open :: "'x env \<Rightarrow> ('x, 'r) DecryptReader \<Rightarrow> 'x Decryptor \<Rightarrow> nat \<Rightarrow> bool" where
  "decrypt_open E R d i \<longleftrightarrow> dr_status R = DecryptOpen \<and> dr_decryptor R = Some d \<and> decryptor_at E d i \<and>
    sb_parameters (dr_buffer R) = Decryptor_parameters d"

text \<open>After a segment of the given kind the reader is open at the next position, or the message is complete.\<close>

definition decrypt_advanced ::
  "'x env \<Rightarrow> MessageContext \<Rightarrow> nat \<Rightarrow> SegmentKind \<Rightarrow> ('x, 'r) DecryptReader \<Rightarrow> bool" where
  "decrypt_advanced E C i kind R \<longleftrightarrow>
    (case kind of
       NonFinal \<Rightarrow> \<exists>d. decrypt_open E R d (Suc i) \<and> ds_context (de_state d) = C
     | Final \<Rightarrow> dr_status R = FrameComplete \<and> dr_decryptor R = None)"

lemma finish_if_final_eq:
  assumes "dr_decryptor R = Some d" "sf_kind F = Final \<Longrightarrow> sc_closed (de_counter d)"
  shows "DecryptReader_finish_if_final R F =
    Some (Ok (), if sf_kind F = Final then R\<lparr> dr_decryptor := None, dr_status := FrameComplete \<rparr> else R)"
  using assms by (simp add: DecryptReader_finish_if_final_def SegmentFraming_is_final_def Decryptor_finish_def SegmentCounter_finish_def)

lemma decryptor_at_params:
  assumes "decryptor_at E d i"
  shows "params_ok (Decryptor_parameters d)" "Decryptor_parameters d = mc_parameters (ds_context (de_state d))"
  using assms by (auto simp: decryptor_at_def dec_state_ok_def context_ok_def Decryptor_parameters_def DecryptionState_parameters_def)

lemma next_segment_append: "next_segment S C i s kind nonce p rest \<Longrightarrow> next_segment S C i (s @ x) kind nonce p (rest @ x)"
  by (simp add: next_segment_def)

lemma fetched_segment:
  assumes "prims_ok S" "params_ok (mc_parameters C)" "length seg = sf_ciphertext_length F"
    and "SegmentFraming_decode (mc_parameters C) (take 4 seg) = Ok F"
  shows "segment_open S C (word_of_nat i) (sf_kind F) seg = Some p \<Longrightarrow> (sf_kind F = NonFinal \<Longrightarrow> i \<noteq> 2 ^ 40 - 1) \<Longrightarrow>
      next_segment S C i seg (sf_kind F) (slice 4 16 seg) p []"
    "next_segment S C i (seg @ x) kind nonce p rest \<Longrightarrow>
      kind = sf_kind F \<and> segment_open S C (word_of_nat i) (sf_kind F) seg = Some p \<and> length p = sf_plaintext_length F"
proof -
  have n: "4 \<le> length seg" using framing_decode_ok [OF assms(2,4)] assms(3) by (simp add: framing_ok_def)
  show "next_segment S C i seg (sf_kind F) (slice 4 16 seg) p []"
    if "segment_open S C (word_of_nat i) (sf_kind F) seg = Some p" "sf_kind F = NonFinal \<Longrightarrow> i \<noteq> 2 ^ 40 - 1"
    using segment_open_next [OF assms(1,2) n assms(4)] that assms(3) by simp
  show "kind = sf_kind F \<and> segment_open S C (word_of_nat i) (sf_kind F) seg = Some p \<and> length p = sf_plaintext_length F"
    if nx: "next_segment S C i (seg @ x) kind nonce p rest"
  proof -
    note N = next_segment_framing [OF assms(1,2) nx]
    have F: "F = \<lparr> sf_ciphertext_length = length p + 32, sf_plaintext_length = length p, sf_kind = kind \<rparr>"
      using N(1) assms(4) n by simp
    then have "seg = floe_segment S C (word_of_nat i) kind nonce p" using N(2) assms(3) by simp
    moreover have "length nonce = 12" using nx by (simp add: next_segment_def)
    ultimately show ?thesis using F segment_open_sealed [OF assms(1), of nonce C "word_of_nat i" kind p] by simp
  qed
qed

text \<open>
  Decrypting a fetched segment \<open>seg\<close>, in the reader's buffer or straight into the caller's: it is the next
  segment of the message, or the reader is poisoned and no stream that starts with \<open>seg\<close> has a next segment.
\<close>

lemma fetched_load:
  assumes "lawful E S" "decrypt_open E R d i" "DecryptReader_fetch_segment rd R = Some (Ok F, R\<lparr> dr_inner := inner, dr_buffer := B \<rparr>)"
    and "holds_segment (sb_parameters (dr_buffer R)) F B seg"
  defines "C \<equiv> ds_context (de_state d)"
  obtains (refused) e R' where "DecryptReader_load_segment E rd R = Some (Err (decryption_error e), R')"
      "dr_status R' = DecryptFailed" "dr_inner R' = inner" "\<And>x kind nonce p rest. \<not> next_segment S C i (seg @ x) kind nonce p rest"
    | (loaded) kind nonce p R' where "DecryptReader_load_segment E rd R = Some (Ok (), R')" "dr_inner R' = inner"
      "next_segment S C i seg kind nonce p []" "decrypt_reader_ok R'" "decrypt_advanced E C i kind R'"
      "decrypt_pending R' = p" "dr_plaintext_consumed R' = 0" "dr_plaintext_available R' = length p"
proof -
  have o: "dr_status R = DecryptOpen" "dr_decryptor R = Some d" "decryptor_at E d i"
      "sb_parameters (dr_buffer R) = Decryptor_parameters d" using assms(2) by (auto simp: decrypt_open_def)
  note P = decryptor_at_params [OF o(3), folded C_def] and H = holds_segmentD [OF assms(4)]
  note unf = DecryptReader_load_segment_def DecryptReader_try_load_segment_def
  have dec: "SegmentFraming_decode (mc_parameters C) (take 4 seg) = Ok F" using H(5) o(4) P(2) by simp
  have n: "32 \<le> sf_ciphertext_length F" using framing_decode_ok [OF P(1) [unfolded P(2)] dec] by (simp add: framing_ok_def)
  have "take 4 seg = take 4 (sb_bytes B)" using n by (simp add: H(4) min_def)
  then have dec': "SegmentFraming_decode (Decryptor_parameters d) (take 4 (sb_bytes B)) = Ok F" using dec P(2) by simp
  have par: "sb_parameters B = Decryptor_parameters d" using H(2) o(4) by simp
  note fs = fetched_segment [OF lawfulD(1) [OF assms(1)] P(1) [unfolded P(2)] H(6) dec, of i]
  show thesis
  proof (cases rule: decrypt_in_place_cases [OF assms(1) o(3) H(1) par H(3) dec'])
    case (1 d' B'')
    have "\<not> next_segment S C i (seg @ x) kind nonce p rest" for x kind nonce p rest
      using fs(2) [of x kind nonce p rest] 1(2,3) by (auto simp: next_segment_def)
    then show thesis using refused assms(3) o(2) 1(1) by (auto simp: unf)
  next
    case (2 d' B'')
    have "\<not> next_segment S C i (seg @ x) kind nonce p rest" for x kind nonce p rest
      using fs(2) [of x kind nonce p rest] 2(2) by (auto simp: C_def H(4))
    then show thesis using refused assms(3) o(2) 2(1) by (auto simp: unf)
  next
    case (3 p d' B'')
    let ?R = "R\<lparr> dr_inner := inner, dr_decryptor := Some d', dr_buffer := B'' \<rparr>"
    let ?R' = "(if sf_kind F = Final then ?R\<lparr> dr_decryptor := None, dr_status := FrameComplete \<rparr> else ?R)
      \<lparr> dr_plaintext_consumed := 0, dr_plaintext_available := length p \<rparr>"
    have run: "DecryptReader_load_segment E rd R = Some (Ok (), ?R')"
      using assms(3) o(2) 3(1) finish_if_final_eq [of ?R d' F] 3(5) by (simp add: unf)
    have nxt: "next_segment S C i seg (sf_kind F) (slice 4 16 seg) p []" using fs(1) 3(2,4) by (simp add: C_def H(4))
    show thesis
    proof (rule loaded [OF run _ nxt])
      show "decrypt_reader_ok ?R'" using 3(6,8) by (simp add: decrypt_reader_ok_def)
      have "Decryptor_parameters d' = Decryptor_parameters d" using 3(3) P(2) by (simp add: Decryptor_parameters_def DecryptionState_parameters_def C_def)
      then show "decrypt_advanced E C i (sf_kind F) ?R'"
        using 3(3,4,7) o(1) par by (cases "sf_kind F") (auto simp: decrypt_advanced_def decrypt_open_def C_def)
      show "decrypt_pending ?R' = p" using 3(10) by (simp add: decrypt_pending_def)
    qed simp_all
  qed
qed

lemma fetched_direct:
  assumes "lawful E S" "decrypt_open E R d i" "DecryptReader_fetch_segment rd R = Some (Ok F, R\<lparr> dr_inner := inner, dr_buffer := B \<rparr>)"
    and "holds_segment (sb_parameters (dr_buffer R)) F B seg"
    and "psl (sb_parameters (dr_buffer R)) \<le> length out"
  defines "C \<equiv> ds_context (de_state d)"
  obtains (refused) e out' R' where "DecryptReader_read_segment_direct E rd R out = Some (Err (decryption_error e), out', R')"
      "dr_status R' = DecryptFailed" "dr_inner R' = inner" "\<And>x kind nonce p rest. \<not> next_segment S C i (seg @ x) kind nonce p rest"
    | (delivered) kind nonce p R' where
      "DecryptReader_read_segment_direct E rd R out = Some (Ok (length p), p @ drop (length p) out, R')" "dr_inner R' = inner"
      "next_segment S C i seg kind nonce p []" "decrypt_reader_ok R'" "decrypt_advanced E C i kind R'"
      "dr_plaintext_consumed R' = 0" "dr_plaintext_available R' = 0" "length p \<le> length out"
proof -
  have o: "dr_status R = DecryptOpen" "dr_decryptor R = Some d" "decryptor_at E d i"
      "sb_parameters (dr_buffer R) = Decryptor_parameters d" using assms(2) by (auto simp: decrypt_open_def)
  note P = decryptor_at_params [OF o(3), folded C_def] and H = holds_segmentD [OF assms(4)]
  note unf = DecryptReader_read_segment_direct_def DecryptReader_try_read_segment_direct_def
  have dec: "SegmentFraming_decode (mc_parameters C) (take 4 seg) = Ok F" using H(5) o(4) P(2) by simp
  have F: "framing_ok (Decryptor_parameters d) F" using framing_decode_ok [OF P(1)] dec P(2) by simp
  then have Fp: "sf_plaintext_length F \<le> length out" using assms(5) o(4) csl_psl [OF P(1)] by (auto simp: framing_ok_def)
  have ct: "SegmentBuffer_ciphertext B = Ok seg" using H(3,4,7) by (simp add: SegmentBuffer_ciphertext_def slice_def)
  note fs = fetched_segment [OF lawfulD(1) [OF assms(1)] P(1) [unfolded P(2)] H(6) dec, of i]
  show thesis
  proof (cases rule: decrypt_into_framed_outcome [OF assms(1) o(3) F H(6) Fp])
    case 1
    have "\<not> next_segment S C i (seg @ x) kind nonce p rest" for x kind nonce p rest
      using fs(2) [of x kind nonce p rest] 1(2,3) by (auto simp: next_segment_def)
    then show thesis using refused assms(3) o(2) 1(1) ct by (auto simp: unf)
  next
    case (2 d' out')
    have "\<not> next_segment S C i (seg @ x) kind nonce p rest" for x kind nonce p rest
      using fs(2) [of x kind nonce p rest] 2(2) by (auto simp: C_def)
    then show thesis using refused assms(3) o(2) 2(1) ct by (auto simp: unf)
  next
    case (3 p d')
    let ?R = "R\<lparr> dr_inner := inner, dr_buffer := B, dr_decryptor := Some d' \<rparr>"
    let ?R' = "(if sf_kind F = Final then ?R\<lparr> dr_decryptor := None, dr_status := FrameComplete \<rparr> else ?R)
      \<lparr> dr_plaintext_consumed := 0, dr_plaintext_available := 0 \<rparr>"
    have nxt: "next_segment S C i seg (sf_kind F) (slice 4 16 seg) p []" using fs(1) 3(2,4) by (simp add: C_def)
    then have plen: "length p = sf_plaintext_length F" using fs(2) [of "[]"] by simp
    have run: "DecryptReader_read_segment_direct E rd R out = Some (Ok (length p), p @ drop (length p) out, ?R')"
      using assms(3) o(2) 3(1) ct finish_if_final_eq [of ?R d' F] 3(5) plen by (simp add: unf)
    show thesis
    proof (rule delivered [OF run _ nxt])
      show "decrypt_reader_ok ?R'" using H(1) by (simp add: decrypt_reader_ok_def)
      have "Decryptor_parameters d' = Decryptor_parameters d" using 3(3) P(2) by (simp add: Decryptor_parameters_def DecryptionState_parameters_def C_def)
      then show "decrypt_advanced E C i (sf_kind F) ?R'"
        using 3(3,4) H(2) o(1,4) by (cases "sf_kind F") (auto simp: decrypt_advanced_def decrypt_open_def C_def)
      show "length p \<le> length out" using plen Fp by simp
    qed simp_all
  qed
qed
context byte_source begin

lemma fetch_segment_outcome:
  assumes "lawful E S" "decrypt_reader_ok R" "decrypt_open E R d i" "yields (dr_inner R) c"
  obtains (refused) e inner B where "DecryptReader_fetch_segment rd R =
        Some (Err (decryption_error e), R\<lparr> dr_inner := inner, dr_buffer := B \<rparr>)"
      "\<And>kind nonce p rest. \<not> next_segment S (ds_context (de_state d)) i c kind nonce p rest"
    | (fetched) F inner B seg rest where "DecryptReader_fetch_segment rd R = Some (Ok F, R\<lparr> dr_inner := inner, dr_buffer := B \<rparr>)"
      "holds_segment (sb_parameters (dr_buffer R)) F B seg" "c = seg @ rest" "yields inner rest"
proof -
  have o: "decryptor_at E d i" "sb_parameters (dr_buffer R) = Decryptor_parameters d" using assms(3) by (auto simp: decrypt_open_def)
  have B: "buffer_ok (dr_buffer R)" using assms(2) by (simp add: decrypt_reader_ok_def)
  note P = decryptor_at_params [OF o(1)]
  show thesis
  proof (cases rule: fetch_segment_cases [OF assms(4) B])
    case (1 e inner B')
    then show thesis
      using refused next_segment_framing(1,4,5) [OF lawfulD(1) [OF assms(1)] P(1) [unfolded P(2)]] o(2) P(2) by fastforce
  next
    case (2 F inner B')
    then show thesis using fetched by (metis append_take_drop_id)
  qed
qed

end

context byte_source begin

lemma load_segment_cases:
  assumes "lawful E S" "decrypt_reader_ok R" "decrypt_open E R d i" "yields (dr_inner R) c"
  defines "C \<equiv> ds_context (de_state d)"
  obtains (refused) e R' where "DecryptReader_load_segment E rd R = Some (Err (decryption_error e), R')"
      "dr_status R' = DecryptFailed" "\<And>kind nonce p rest. \<not> next_segment S C i c kind nonce p rest"
    | (loaded) kind nonce p rest R' where "DecryptReader_load_segment E rd R = Some (Ok (), R')"
      "next_segment S C i c kind nonce p rest" "yields (dr_inner R') rest" "decrypt_reader_ok R'" "decrypt_advanced E C i kind R'"
      "decrypt_pending R' = p" "dr_plaintext_consumed R' = 0" "dr_plaintext_available R' = length p"
proof (cases rule: fetch_segment_outcome [OF assms(1-4)])
  case (1 e inner B)
  have "DecryptReader_load_segment E rd R =
      Some (Err (decryption_error e), R\<lparr> dr_inner := inner, dr_buffer := B, dr_status := DecryptFailed \<rparr>)"
    using 1(1) by (simp add: DecryptReader_load_segment_def DecryptReader_try_load_segment_def)
  then show thesis using refused 1(2) by (auto simp: C_def)
next
  case (2 F inner B seg rest)
  show thesis
    by (cases rule: fetched_load [OF assms(1,3) 2(1,2)])
      (use refused loaded next_segment_append [where x = rest] 2(3,4) in \<open>fastforce simp: C_def\<close>)+
qed

end

lemma copy_out_eq:
  assumes "decrypt_reader_ok R" "dr_plaintext_consumed R < dr_plaintext_available R" "out \<noteq> []"
  defines "n \<equiv> min (length out) (length (decrypt_pending R))"
  shows "DecryptReader_copy_out R out = Some (Ok n, splice 0 (take n (decrypt_pending R)) out,
      R\<lparr> dr_plaintext_consumed := dr_plaintext_consumed R + n \<rparr>)"
    "length (decrypt_pending R) = dr_plaintext_available R - dr_plaintext_consumed R" "0 < n"
    "decrypt_reader_ok (R\<lparr> dr_plaintext_consumed := dr_plaintext_consumed R + n \<rparr>)"
    "decrypt_pending (R\<lparr> dr_plaintext_consumed := dr_plaintext_consumed R + n \<rparr>) = drop n (decrypt_pending R)"
proof -
  let ?a = "dr_plaintext_available R" and ?k = "dr_plaintext_consumed R" and ?b = "sb_bytes (dr_buffer R)"
  have st: "sb_state (dr_buffer R) = Plaintext ?a" and B: "buffer_ok (dr_buffer R)"
    using assms(1,2) by (auto simp: decrypt_reader_ok_def)
  have a: "16 + ?a \<le> length ?b" using buffer_okD(2,3) [OF B] st by auto
  show len: "length (decrypt_pending R) = ?a - ?k" using a assms(2) by (simp add: decrypt_pending_def)
  show "0 < n" using len assms(2,3) by (simp add: n_def)
  have n: "n = min (length out) (?a - ?k)" using len by (simp add: n_def)
  have "slice ?k (?k + n) (slice 16 (16 + ?a) ?b) = take n (decrypt_pending R)"
    using a n assms(2) by (simp add: slice_def decrypt_pending_def drop_take min_def add.commute)
  then show "DecryptReader_copy_out R out = Some (Ok n, splice 0 (take n (decrypt_pending R)) out,
      R\<lparr> dr_plaintext_consumed := ?k + n \<rparr>)"
    using a st n assms(2) by (simp add: DecryptReader_copy_out_def SegmentBuffer_plaintext_def Let_def)
  show "decrypt_reader_ok (R\<lparr> dr_plaintext_consumed := ?k + n \<rparr>)" using assms(1,2) n by (auto simp: decrypt_reader_ok_def)
  show "decrypt_pending (R\<lparr> dr_plaintext_consumed := ?k + n \<rparr>) = drop n (decrypt_pending R)"
    by (simp add: decrypt_pending_def slice_def drop_take ac_simps)
qed

section \<open>What the decrypting reader delivers\<close>

text \<open>
  \<open>parses S C i c p tail\<close>: the ciphertext \<open>c\<close> consists of the segments, from position \<open>i\<close> to the final one,
  of the plaintext \<open>p\<close>, and of the bytes \<open>tail\<close> after them.
\<close>

inductive parses :: "prims \<Rightarrow> MessageContext \<Rightarrow> nat \<Rightarrow> bytes \<Rightarrow> bytes \<Rightarrow> bytes \<Rightarrow> bool" for S C where
  parses_final: "next_segment S C i c Final nonce p tail \<Longrightarrow> i < 2 ^ 40 \<Longrightarrow> parses S C i c p tail"
| parses_more: "next_segment S C i c NonFinal nonce p rest \<Longrightarrow> parses S C (Suc i) rest q tail \<Longrightarrow> parses S C i c (p @ q) tail"

lemma parses_next:
  assumes "prims_ok S" "params_ok (mc_parameters C)" "parses S C i c q tail" "next_segment S C i c kind nonce p rest"
  shows "case kind of Final \<Rightarrow> q = p \<and> tail = rest | NonFinal \<Rightarrow> \<exists>q'. q = p @ q' \<and> parses S C (Suc i) rest q' tail"
  using assms(3)
proof cases
  case (parses_final nonce')
  then show ?thesis using next_segment_unique [OF assms(1,2,4) parses_final(1)] by auto
next
  case (parses_more nonce' p' rest' q')
  then show ?thesis using next_segment_unique [OF assms(1,2,4) parses_more(2)] by auto
qed

lemma parses_has_next: "parses S C i c q tail \<Longrightarrow> \<exists>kind nonce p rest. next_segment S C i c kind nonce p rest"
  by (cases rule: parses.cases) blast+

lemma parses_step:
  "next_segment S C i c kind nonce p rest \<Longrightarrow> i < 2 ^ 40 \<Longrightarrow>
   (case kind of Final \<Rightarrow> q = [] \<and> tail = rest | NonFinal \<Rightarrow> parses S C (Suc i) rest q tail) \<Longrightarrow> parses S C i c (p @ q) tail"
  by (cases kind) (auto intro: parses.intros)

text \<open>Parsing is the inverse of writing the body of a message.\<close>

lemma parses_floe_body:
  assumes "chunks_ok (mc_parameters C) (map snd nps)" "\<forall>(nonce, _) \<in> set nps. length nonce = 12" "i + length nps \<le> 2 ^ 40"
  shows "parses S C i (floe_body S C i nps @ tail) (concat (map snd nps)) tail"
  using assms
proof (induction nps arbitrary: i)
  case (Cons np nps)
  obtain nonce p where np: "np = (nonce, p)" by fastforce
  show ?case
  proof (cases "nps = []")
    case True
    then have "next_segment S C i (floe_body S C i (np # nps) @ tail) Final nonce p tail"
      using Cons.prems np by (simp add: next_segment_def seg_len_ok_def)
    then show ?thesis using parses_final [of S C i _ nonce p tail] Cons.prems(3) np True by simp
  next
    case False
    then have "next_segment S C i (floe_body S C i (np # nps) @ tail) NonFinal nonce p (floe_body S C (Suc i) nps @ tail)"
      using Cons.prems np by (cases nps) (auto simp: next_segment_def seg_len_ok_def floe_body_Cons chunks_ok_Cons)
    moreover have "parses S C (Suc i) (floe_body S C (Suc i) nps @ tail) (concat (map snd nps)) tail"
      using Cons.IH [of "Suc i"] Cons.prems False by (simp add: chunks_ok_Cons)
    ultimately show ?thesis using parses_more np by fastforce
  qed
qed simp

lemma parsesE:
  assumes "parses S C i c q tail"
  shows "\<exists>nps. c = floe_body S C i nps @ tail \<and> chunks_ok (mc_parameters C) (map snd nps) \<and>
    (\<forall>(nonce, _) \<in> set nps. length nonce = 12) \<and> i + length nps \<le> 2 ^ 40 \<and> q = concat (map snd nps)"
  using assms
proof induction
  case (parses_final i c nonce p tail)
  then show ?case by (intro exI [of _ "[(nonce, p)]"]) (auto simp: next_segment_def seg_len_ok_def)
next
  case (parses_more i c nonce p rest q tail)
  then obtain nps where nps: "rest = floe_body S C (Suc i) nps @ tail" "chunks_ok (mc_parameters C) (map snd nps)"
    "\<forall>(nonce, _) \<in> set nps. length nonce = 12" "Suc i + length nps \<le> 2 ^ 40" "q = concat (map snd nps)" by blast
  then have "nps \<noteq> []" by auto
  then show ?case using nps parses_more(1)
    by (intro exI [of _ "(nonce, p) # nps"]) (auto simp: next_segment_def seg_len_ok_def floe_body_Cons chunks_ok_Cons)
qed

lemma parses_length: "prims_ok S \<Longrightarrow> params_ok (mc_parameters C) \<Longrightarrow> next_segment S C i c kind nonce p rest \<Longrightarrow> length rest < length c"
  using next_segment_framing(3,4) by fastforce

text \<open>
  \<open>decrypt_yields E S yields tail R bs\<close>: over a source described by \<open>yields\<close>, the reader \<open>R\<close> delivers
  \<open>bs\<close> and then leaves \<open>tail\<close> in the source.
\<close>

definition decrypt_yields ::
  "'x env \<Rightarrow> prims \<Rightarrow> ('r \<Rightarrow> bytes \<Rightarrow> bool) \<Rightarrow> bytes \<Rightarrow> ('x, 'r) DecryptReader \<Rightarrow> bytes \<Rightarrow> bool" where
  "decrypt_yields E S yields tail R bs \<longleftrightarrow> decrypt_reader_ok R \<and>
    ((\<exists>d i c q. decrypt_open E R d i \<and> yields (dr_inner R) c \<and> parses S (ds_context (de_state d)) i c q tail \<and>
        bs = decrypt_pending R @ q) \<or>
     message_complete (dr_status R) \<and> yields (dr_inner R) tail \<and> bs = decrypt_pending R)"

lemma decrypt_yields_advanced:
  assumes "prims_ok S" "params_ok (mc_parameters C)" "decrypt_reader_ok R" "decrypt_advanced E C i kind R" "yields (dr_inner R) rest"
    and "next_segment S C i c kind nonce p rest" "parses S C i c q tail"
  shows "decrypt_yields E S yields tail R (decrypt_pending R @ drop (length p) q)" "take (length p) q = p" "length p \<le> length q"
    "kind = Final \<Longrightarrow> length q = length p"
proof -
  note N = parses_next [OF assms(1,2,7,6)]
  show "decrypt_yields E S yields tail R (decrypt_pending R @ drop (length p) q)"
    using N assms(3-5) by (cases kind) (auto simp: decrypt_yields_def decrypt_advanced_def message_complete_def)
  show "take (length p) q = p" "length p \<le> length q" "kind = Final \<Longrightarrow> length q = length p"
    using N by (cases kind; auto)+
qed

lemma decrypt_open_facts:
  assumes "decrypt_open E R d i"
  shows "dr_status R = DecryptOpen" "i < 2 ^ 40" "params_ok (mc_parameters (ds_context (de_state d)))"
    "DecryptReader_parameters R = mc_parameters (ds_context (de_state d))"
  using assms decryptor_at_params [of E d i]
  by (auto simp: decrypt_open_def decryptor_at_def counter_ok_def DecryptReader_parameters_def SegmentBuffer_parameters_def)

lemma pending_nil: "dr_plaintext_consumed R = dr_plaintext_available R \<Longrightarrow> decrypt_pending R = []"
  by (simp add: decrypt_pending_def slice_def)

lemma non_final_nonempty:
  assumes "params_ok (mc_parameters C)" "next_segment S C i c kind nonce p rest" "p = []"
  shows "kind = Final"
  using assms by (cases kind) (auto simp: next_segment_def seg_len_ok_def psl_def params_ok_def)

text \<open>
  A read on an open reader with nothing pending, once the segment \<open>seg\<close> was fetched: the read goes
  straight into a large buffer or through the reader's own.
\<close>

lemma loaded_read:
  assumes "decrypt_reader_ok R" "decrypt_advanced E C i kind R" "decrypt_pending R = p" "dr_plaintext_consumed R = 0"
    and "dr_plaintext_available R = length p" "out \<noteq> []" "p = [] \<Longrightarrow> kind = Final"
  obtains n out' R' where
    "(if dr_plaintext_consumed R = dr_plaintext_available R
      then if message_complete (dr_status R) then Some (Ok 0, out, R) else Some (Panic, out, R)
      else DecryptReader_copy_out R out) = Some (Ok n, out', R')"
    "dr_inner R' = dr_inner R" "decrypt_reader_ok R'" "decrypt_advanced E C i kind R'"
    "n \<le> length out" "length out' = length out" "n \<le> length p" "take n out' = take n p" "decrypt_pending R' = drop n p"
    "n = 0 \<Longrightarrow> p = [] \<and> kind = Final"
proof (cases "p = []")
  case True
  then have "message_complete (dr_status R)" using assms(2,7) by (simp add: decrypt_advanced_def message_complete_def)
  then show thesis using that [of 0 out R] assms True by simp
next
  case False
  have lt: "dr_plaintext_consumed R < dr_plaintext_available R" using assms(4,5) False by simp
  note CO = copy_out_eq [OF assms(1) lt assms(6), unfolded assms(3)]
  let ?n = "min (length out) (length p)"
  let ?R = "R\<lparr> dr_plaintext_consumed := dr_plaintext_consumed R + ?n \<rparr>"
  have adv: "decrypt_advanced E C i kind ?R" using assms(2) by (cases kind) (auto simp: decrypt_advanced_def decrypt_open_def)
  show thesis
  proof (rule that [of ?n "splice 0 (take ?n p) out" ?R])
    show "take ?n (splice 0 (take ?n p) out) = take ?n p" by (intro splice_0_take) simp_all
    show "length (splice 0 (take ?n p) out) = length out" by simp
  qed (use lt CO adv False assms(6) in simp_all)
qed

lemma fetched_read:
  assumes "lawful E S" "decrypt_open E R d i" "DecryptReader_fetch_segment rd R = Some (Ok F, R\<lparr> dr_inner := inner, dr_buffer := B \<rparr>)"
    and "holds_segment (sb_parameters (dr_buffer R)) F B seg"
    and "out \<noteq> []" "dr_plaintext_consumed R = dr_plaintext_available R"
  defines "C \<equiv> ds_context (de_state d)"
  obtains (refused) e out' R' where "DecryptReader_read E rd R out = Some (Err (decryption_error e), out', R')"
      "dr_status R' = DecryptFailed" "dr_inner R' = inner" "\<And>x kind nonce p rest. \<not> next_segment S C i (seg @ x) kind nonce p rest"
    | (delivered) kind nonce p n out' R' where "DecryptReader_read E rd R out = Some (Ok n, out', R')" "dr_inner R' = inner"
      "next_segment S C i seg kind nonce p []" "decrypt_reader_ok R'" "decrypt_advanced E C i kind R'"
      "n \<le> length out" "length out' = length out" "n \<le> length p" "take n out' = take n p" "decrypt_pending R' = drop n p"
      "n = 0 \<Longrightarrow> p = [] \<and> kind = Final"
proof -
  have o: "dr_status R = DecryptOpen" using assms(2) by (simp add: decrypt_open_def)
  have P: "params_ok (mc_parameters C)" "DecryptReader_parameters R = mc_parameters C"
    using decrypt_open_facts [OF assms(2)] by (simp_all add: C_def)
  have par: "sb_parameters (dr_buffer R) = mc_parameters C" using P(2) by (simp add: DecryptReader_parameters_def SegmentBuffer_parameters_def)
  have not_complete: "\<not> message_complete DecryptOpen" by (simp add: message_complete_def)
  show thesis
  proof (cases "psl (mc_parameters C) \<le> length out")
    case True
    then have run: "DecryptReader_read E rd R out = DecryptReader_read_segment_direct E rd R out"
      using assms(5,6) o P by (simp add: DecryptReader_read_def not_complete)
    have fits: "psl (sb_parameters (dr_buffer R)) \<le> length out" using True par by simp
    show thesis
    proof (cases rule: fetched_direct [OF assms(1-4) fits])
      case (1 e out' R')
      then show thesis using refused run by (simp add: C_def)
    next
      case (2 kind nonce p R')
      show thesis
        by (rule delivered [of "length p" "p @ drop (length p) out" R' kind nonce p])
          (use 2 run pending_nil [of R'] non_final_nonempty [OF P(1), of S i seg kind nonce p "[]"] in \<open>auto simp: C_def\<close>)
    qed
  next
    case False
    then have run: "DecryptReader_read E rd R out =
        (case DecryptReader_load_segment E rd R of None \<Rightarrow> None | Some (r, R1) \<Rightarrow>
        try_io r (out, R1) (\<lambda>_.
        if dr_plaintext_consumed R1 = dr_plaintext_available R1
        then if message_complete (dr_status R1) then Some (Ok 0, out, R1) else Some (Panic, out, R1)
        else DecryptReader_copy_out R1 out))"
      using assms(5,6) o P by (simp add: DecryptReader_read_def not_complete)
    show thesis
    proof (cases rule: fetched_load [OF assms(1-4)])
      case (1 e R')
      then show thesis using refused [of e out R'] by (simp add: run C_def)
    next
      case (2 kind nonce p R')
      have fin: "p = [] \<Longrightarrow> kind = Final" using non_final_nonempty [OF P(1) 2(3) [folded C_def]] by simp
      obtain n out' R2 where R2: "DecryptReader_read E rd R out = Some (Ok n, out', R2)" "dr_inner R2 = dr_inner R'" "decrypt_reader_ok R2"
          "decrypt_advanced E C i kind R2" "n \<le> length out" "length out' = length out" "n \<le> length p" "take n out' = take n p"
          "decrypt_pending R2 = drop n p" "n = 0 \<Longrightarrow> p = [] \<and> kind = Final"
        by (rule loaded_read [OF 2(4) 2(5) [folded C_def] 2(6-8) assms(5) fin]) (use 2(1) in \<open>simp_all add: run\<close>)
      show thesis by (rule delivered [OF R2(1) _ 2(3) [folded C_def]]) (use R2 2(2) in simp_all)
    qed
  qed
qed

text \<open>When no segment can be fetched, the read fails the same way and the reader is poisoned.\<close>

lemma fetch_failed_read:
  assumes "decrypt_open E R d i" "out \<noteq> []" "dr_plaintext_consumed R = dr_plaintext_available R"
  shows "DecryptReader_fetch_segment rd R = Some (Err e, R') \<Longrightarrow>
      DecryptReader_read E rd R out = Some (Err e, out, R'\<lparr> dr_status := DecryptFailed \<rparr>)"
    "DecryptReader_fetch_segment rd R = Some (Panic, R') \<Longrightarrow> DecryptReader_read E rd R out = Some (Panic, out, R')"
    "DecryptReader_fetch_segment rd R = None \<Longrightarrow> DecryptReader_read E rd R out = None"
  using assms by (simp_all add: DecryptReader_read_def decrypt_open_def message_complete_def DecryptReader_load_segment_def
      DecryptReader_try_load_segment_def DecryptReader_read_segment_direct_def DecryptReader_try_read_segment_direct_def)

lemma decrypt_read_pending:
  assumes "decrypt_reader_ok R" "dr_status R \<noteq> DecryptFailed" "out \<noteq> []" "dr_plaintext_consumed R \<noteq> dr_plaintext_available R"
  obtains n out' R' where "DecryptReader_read E rd R out = Some (Ok n, out', R')" "0 < n" "n \<le> length out" "length out' = length out"
    "n \<le> length (decrypt_pending R)" "take n out' = take n (decrypt_pending R)" "decrypt_reader_ok R'"
    "decrypt_pending R' = drop n (decrypt_pending R)" "dr_inner R' = dr_inner R" "dr_status R' = dr_status R"
    "\<And>E d i. decrypt_open E R d i \<Longrightarrow> decrypt_open E R' d i"
proof -
  have lt: "dr_plaintext_consumed R < dr_plaintext_available R" using assms(1,4) by (simp add: decrypt_reader_ok_def)
  note CO = copy_out_eq [OF assms(1) lt assms(3)]
  let ?n = "min (length out) (length (decrypt_pending R))"
  show thesis
    by (rule that [of ?n "splice 0 (take ?n (decrypt_pending R)) out" "R\<lparr> dr_plaintext_consumed := dr_plaintext_consumed R + ?n \<rparr>"])
      (use assms CO in \<open>auto simp: DecryptReader_read_def decrypt_open_def splice_0_take\<close>)
qed

context byte_source begin

text \<open>A read on an open reader with nothing pending: the next segment, or an error that poisons the reader.\<close>

lemma decrypt_read_open:
  assumes "lawful E S" "decrypt_reader_ok R" "decrypt_open E R d i" "yields (dr_inner R) c" "out \<noteq> []"
    and "dr_plaintext_consumed R = dr_plaintext_available R"
  defines "C \<equiv> ds_context (de_state d)"
  obtains (refused) e out' R' where "DecryptReader_read E rd R out = Some (Err (decryption_error e), out', R')"
      "dr_status R' = DecryptFailed" "\<And>kind nonce p rest. \<not> next_segment S C i c kind nonce p rest"
    | (delivered) kind nonce p rest n out' R' where "DecryptReader_read E rd R out = Some (Ok n, out', R')"
      "next_segment S C i c kind nonce p rest" "yields (dr_inner R') rest" "decrypt_reader_ok R'" "decrypt_advanced E C i kind R'"
      "n \<le> length out" "length out' = length out" "n \<le> length p" "take n out' = take n p" "decrypt_pending R' = drop n p"
      "n = 0 \<Longrightarrow> p = [] \<and> kind = Final"
proof (cases rule: fetch_segment_outcome [OF assms(1-4)])
  case (1 e inner B)
  then show thesis using refused fetch_failed_read(1) [OF assms(3,5,6) 1(1)] by (auto simp: C_def)
next
  case (2 F inner B seg rest)
  show thesis
  proof (cases rule: fetched_read [OF assms(1,3) 2(1,2) assms(5,6)])
    case (1 e out' R')
    then show thesis using refused 2(3) by (auto simp: C_def)
  next
    case (2 kind nonce p n out' R')
    have "next_segment S C i c kind nonce p rest"
      using next_segment_append [OF 2(3), of rest] \<open>c = seg @ rest\<close> by (simp add: C_def)
    from delivered [OF 2(1) this] show thesis using 2 \<open>yields inner rest\<close> by (simp add: C_def)
  qed
qed

text \<open>A decrypting reader over a well-behaved source that holds a message is a well-behaved source of its plaintext.\<close>

lemma decrypt_reader_source:
  assumes "lawful E S"
  shows "byte_source (DecryptReader_read E rd) (decrypt_yields E S yields tail) (\<lambda>_. 0)"
proof (unfold_locales, rule disjI1)
  fix R bs and out :: bytes
  assume y: "decrypt_yields E S yields tail R bs" and ne: "out \<noteq> []"
  have ok: "decrypt_reader_ok R" using y by (simp add: decrypt_yields_def)
  note S = lawfulD(1) [OF assms]
  show "\<exists>n out' R'. DecryptReader_read E rd R out = Some (Ok n, out', R') \<and> n \<le> length out \<and> length out' = length out \<and>
      n \<le> length bs \<and> take n out' = take n bs \<and> (n = 0 \<longrightarrow> bs = []) \<and> decrypt_yields E S yields tail R' (drop n bs)"
  proof (cases "dr_plaintext_consumed R = dr_plaintext_available R")
    case False
    have st: "dr_status R \<noteq> DecryptFailed" using y by (auto simp: decrypt_yields_def decrypt_open_def message_complete_def)
    obtain n out' R' where D: "DecryptReader_read E rd R out = Some (Ok n, out', R')" "0 < n" "n \<le> length out" "length out' = length out"
      "n \<le> length (decrypt_pending R)" "take n out' = take n (decrypt_pending R)" "decrypt_reader_ok R'"
      "decrypt_pending R' = drop n (decrypt_pending R)" "dr_inner R' = dr_inner R" "dr_status R' = dr_status R"
      "\<And>d i. decrypt_open E R d i \<Longrightarrow> decrypt_open E R' d i"
      using decrypt_read_pending [OF ok st ne False] by metis
    obtain q where q: "bs = decrypt_pending R @ q" using y by (auto simp: decrypt_yields_def)
    have "decrypt_yields E S yields tail R' (drop n bs)"
      using y D(5,7-11) unfolding decrypt_yields_def by fastforce
    then show ?thesis using D q by (intro exI [of _ n] exI [of _ out'] exI [of _ R']) auto
  next
    case True
    note nil = pending_nil [OF True]
    from y consider (complete) "message_complete (dr_status R)" "bs = []"
      | (ongoing) d i c where "decrypt_open E R d i" "yields (dr_inner R) c" "parses S (ds_context (de_state d)) i c bs tail"
      using nil by (auto simp: decrypt_yields_def)
    then show ?thesis
    proof cases
      case complete
      then have "DecryptReader_read E rd R out = Some (Ok 0, out, R)"
        using ne True by (auto simp: DecryptReader_read_def message_complete_def)
      then show ?thesis using y complete by simp
    next
      case ongoing
      note P = decrypt_open_facts(3) [OF ongoing(1)]
      show ?thesis
      proof (cases rule: decrypt_read_open [OF assms ok ongoing(1,2) ne True])
        case (1 e out' R')
        then show ?thesis using parses_has_next [OF ongoing(3)] by blast
      next
        case (2 kind nonce p rest n out' R')
        note A = decrypt_yields_advanced [where yields = yields, OF S P 2(4,5,3,2) ongoing(3)]
        obtain q where bs: "bs = p @ q" using A(2) by (metis append_take_drop_id)
        have "decrypt_pending R' @ drop (length p) bs = drop n bs" using 2(8,10) bs by simp
        moreover have "take n p = take n bs" using 2(8) bs by simp
        moreover have "bs = []" if "n = 0"
          using 2(11) [OF that] parses_next [OF S P ongoing(3) 2(2)] by simp
        ultimately show ?thesis using 2 A(1,3) by (intro exI [of _ n] exI [of _ out'] exI [of _ R']) auto
      qed
    qed
  qed
qed

end

section \<open>Streaming and one-shot decryption agree\<close>

lemma decrypt_body_parses:
  assumes "lawful E S" "decryptor_at E d i" "P = Decryptor_parameters d"
  shows "decrypt_body_loop E P d body [] = Ok p \<longleftrightarrow> parses S (ds_context (de_state d)) i body p []"
proof
  assume "decrypt_body_loop E P d body [] = Ok p"
  then show "parses S (ds_context (de_state d)) i body p []"
    using decrypt_body_sound [OF assms] parses_floe_body [of "ds_context (de_state d)" _ i S "[]"] decryptor_at_params(2) [OF assms(2)] assms(3)
    by fastforce
next
  assume "parses S (ds_context (de_state d)) i body p []"
  from parsesE [OF this] show "decrypt_body_loop E P d body [] = Ok p"
    using decrypt_body_complete [OF assms, of _ "[]"] decryptor_at_params(2) [OF assms(2)] assms(3) by fastforce
qed

text \<open>The constructors of the decryptor: started at position 0 with the context of the header, or refused.\<close>

lemma start_decryption_at:
  assumes "lawful E S" "params_ok P" "length (header_bytes H) = 74"
    and "start_decryption_with_provider E key provider aad P H = Ok s"
  shows "decryptor_at E \<lparr> de_state = s, de_counter = SegmentCounter_new \<rparr> 0"
  using new_decryptor_at start_decryption_okD(3) [OF assms] by blast

lemma Decryptor_new_at:
  assumes "lawful E S" "length (header_bytes H) = 74"
  shows "Decryptor_new E key aad H \<noteq> Panic" "Decryptor_new E key aad H = Ok d \<Longrightarrow> decryptor_at E d 0"
proof -
  note unf = Decryptor_new_def start_decryption_inferred_def Header_unverified_parameters_def
  have "start_decryption_with_provider E key provider aad P H \<noteq> Panic"
    if "Parameters_decode (Header_encoded_parameters H) = Ok P" for provider P
    using start_decryption_no_panic [OF assms(1) _ assms(2)] that by (simp add: decode_iff)
  then show "Decryptor_new E key aad H \<noteq> Panic"
    by (auto simp: unf bind_eq_Panic Key_provider_no_panic parameters_decode_no_panic)
  show "decryptor_at E d 0" if "Decryptor_new E key aad H = Ok d"
    using that start_decryption_at [OF assms(1) _ assms(2)] by (auto simp: unf decode_iff)
qed

lemma Decryptor_new_with_parameters_at:
  assumes "lawful E S" "params_ok P" "length (header_bytes H) = 74"
  shows "Decryptor_new_with_parameters E key aad P H \<noteq> Panic"
    "Decryptor_new_with_parameters E key aad P H = Ok d \<Longrightarrow> decryptor_at E d 0"
  using start_decryption_no_panic [OF assms] start_decryption_at [OF assms]
  by (auto simp: Decryptor_new_with_parameters_def start_decryption_def bind_eq_Panic Key_provider_no_panic)

lemma decrypt_parses:
  assumes "lawful E S"
  shows "decrypt E key aad c = Ok p \<longleftrightarrow> 74 \<le> length c \<and>
    (\<exists>d. Decryptor_new E key aad (Header (take 74 c)) = Ok d \<and> parses S (ds_context (de_state d)) 0 (drop 74 c) p [])"
proof (cases "74 \<le> length c")
  case True
  then have len: "length (header_bytes (Header (take 74 c))) = 74" by simp
  show ?thesis using True Decryptor_new_at(2) [OF assms len, of key aad] decrypt_body_parses [OF assms]
    by (auto simp: decrypt_def split_header_spec decrypt_body_def)
qed (simp add: decrypt_def split_header_spec)

lemma decrypt_with_parameters_parses:
  assumes "lawful E S" "params_ok P"
  shows "decrypt_with_parameters E key aad P c = Ok p \<longleftrightarrow> 74 \<le> length c \<and>
    (\<exists>d. Decryptor_new_with_parameters E key aad P (Header (take 74 c)) = Ok d \<and>
       parses S (ds_context (de_state d)) 0 (drop 74 c) p [])"
proof (cases "74 \<le> length c")
  case True
  then have len: "length (header_bytes (Header (take 74 c))) = 74" by simp
  show ?thesis using True Decryptor_new_with_parameters_at(2) [OF assms len, of key aad] decrypt_body_parses [OF assms(1)]
    by (auto simp: decrypt_with_parameters_def split_header_spec decrypt_body_def)
qed (simp add: decrypt_with_parameters_def split_header_spec)

lemma from_decryptor_open:
  assumes "decryptor_at E d 0"
  shows "decrypt_open E (DecryptReader_from_decryptor inner d H) d 0"
    "decrypt_reader_ok (DecryptReader_from_decryptor inner d H)" "decrypt_pending (DecryptReader_from_decryptor inner d H) = []"
    "dr_inner (DecryptReader_from_decryptor inner d H) = inner"
    "dr_plaintext_consumed (DecryptReader_from_decryptor inner d H) = dr_plaintext_available (DecryptReader_from_decryptor inner d H)"
  using assms SegmentBuffer_new_ok [OF decryptor_at_params(1) [OF assms]]
  by (simp_all add: DecryptReader_from_decryptor_def decrypt_open_def decrypt_reader_ok_def decrypt_pending_def
      SegmentBuffer_new_def slice_def Let_def)

definition decrypt_live :: "'x env \<Rightarrow> ('r \<Rightarrow> bytes \<Rightarrow> bool) \<Rightarrow> ('x, 'r) DecryptReader \<Rightarrow> bool" where
  "decrypt_live E yields R \<longleftrightarrow> decrypt_reader_ok R \<and> (\<exists>c. yields (dr_inner R) c) \<and>
    ((\<exists>d i. decrypt_open E R d i) \<or> message_complete (dr_status R)) \<and>
    (dr_status R = StreamComplete \<longrightarrow> yields (dr_inner R) [])"

lemma decrypt_live_advanced:
  "decrypt_reader_ok R \<Longrightarrow> yields (dr_inner R) rest \<Longrightarrow> decrypt_advanced E C i kind R \<Longrightarrow> decrypt_live E yields R"
  by (cases kind) (auto simp: decrypt_live_def decrypt_advanced_def message_complete_def decrypt_open_def)

lemma decrypt_open_unique: "decrypt_open E R d i \<Longrightarrow> decrypt_open E R d' i' \<Longrightarrow> d' = d \<and> i' = i"
  by (auto simp: decrypt_open_def decryptor_at_def)

context byte_source begin

lemma yields_unique: "yields r a \<Longrightarrow> yields r b \<Longrightarrow> a = b"
  using reads_to_end_exists reads_to_end_yields by blast

text \<open>From the rest of the stream back to the whole: what is delivered after a segment extends what was delivered with it.\<close>

lemma decrypt_yields_back:
  assumes "decrypt_reader_ok R" "decrypt_open E R d i" "yields (dr_inner R) c" "decrypt_pending R = []"
    and "next_segment S (ds_context (de_state d)) i c kind nonce p rest" "decrypt_advanced E (ds_context (de_state d)) i kind R'"
    and "yields (dr_inner R') rest" "decrypt_pending R' = drop n p" "n \<le> length p" "decrypt_yields E S yields tail R' bs"
  shows "decrypt_yields E S yields tail R (take n p @ bs)"
proof -
  let ?C = "ds_context (de_state d)"
  have i: "i < 2 ^ 40" by (rule decrypt_open_facts(2) [OF assms(2)])
  have "parses S ?C i c (take n p @ bs) tail"
  proof (cases kind)
    case Final
    have "message_complete (dr_status R')" "\<not> (\<exists>d i. decrypt_open E R' d i)"
      using assms(6) Final by (auto simp: decrypt_advanced_def message_complete_def decrypt_open_def)
    then have "bs = drop n p" "tail = rest" using assms(7,8,10) yields_unique by (auto simp: decrypt_yields_def)
    then show ?thesis using parses_final [of S ?C i c nonce p rest] assms(5) Final i by simp
  next
    case NonFinal
    then obtain d' where d': "decrypt_open E R' d' (Suc i)" "ds_context (de_state d') = ?C"
      using assms(6) by (auto simp: decrypt_advanced_def)
    then have "\<not> message_complete (dr_status R')" by (auto simp: decrypt_open_def message_complete_def)
    then obtain e k c' q where e: "decrypt_open E R' e k" "yields (dr_inner R') c'" "parses S (ds_context (de_state e)) k c' q tail"
        "bs = decrypt_pending R' @ q"
      using assms(10) unfolding decrypt_yields_def by blast
    have "e = d'" "k = Suc i" "c' = rest" using decrypt_open_unique [OF d'(1) e(1)] yields_unique [OF assms(7) e(2)] by auto
    then have "parses S ?C (Suc i) rest q tail" "bs = drop n p @ q" using e(3,4) d'(2) assms(8) by simp_all
    then show ?thesis using parses_more [of S ?C i c nonce p rest q tail] assms(5) NonFinal
      by (metis append.assoc append_take_drop_id)
  qed
  then show ?thesis using assms(1-4) by (auto simp: decrypt_yields_def)
qed

text \<open>
  One read of a live reader: it delivers what precedes the rest of the stream, or fails for good; it
  reports the end only when the message is complete and all of it was delivered.
\<close>

lemma decrypt_yields_pending:
  assumes "decrypt_live E yields R" "dr_inner R' = dr_inner R" "dr_status R' = dr_status R"
    and "\<And>d i. decrypt_open E R d i \<Longrightarrow> decrypt_open E R' d i" "decrypt_pending R = x @ decrypt_pending R'"
    and "decrypt_yields E S yields tail R' bs"
  shows "decrypt_yields E S yields tail R (x @ bs)"
proof -
  obtain c where live: "decrypt_reader_ok R" "yields (dr_inner R) c" using assms(1) by (auto simp: decrypt_live_def)
  show ?thesis
  proof (cases "message_complete (dr_status R)")
    case True
    then show ?thesis using assms(2,3,5,6) live by (auto simp: decrypt_yields_def decrypt_open_def message_complete_def)
  next
    case False
    then obtain d i where o: "decrypt_open E R d i" using assms(1) by (auto simp: decrypt_live_def)
    then show ?thesis using assms(2,3,5,6) live False decrypt_open_unique [OF assms(4) [OF o]] by (fastforce simp: decrypt_yields_def)
  qed
qed

lemma decrypt_yields_next:
  assumes "decrypt_yields E S yields tail R bs" "decrypt_open E R d i" "yields (dr_inner R) c" "\<not> message_complete (dr_status R)"
  shows "\<exists>kind nonce p rest. next_segment S (ds_context (de_state d)) i c kind nonce p rest"
proof -
  obtain q where "parses S (ds_context (de_state d)) i c q tail"
    using assms(1,4) decrypt_open_unique [OF assms(2)] yields_unique [OF assms(3)] by (auto simp: decrypt_yields_def)
  then show ?thesis using parses_has_next by blast
qed

lemma decrypt_read_step:
  assumes "lawful E S" "decrypt_live E yields R" "out \<noteq> []"
  shows "case DecryptReader_read E rd R out of
      None \<Rightarrow> False
    | Some (Ok n, out', R') \<Rightarrow> decrypt_live E yields R' \<and>
        (\<forall>tail bs. decrypt_yields E S yields tail R' bs \<longrightarrow> decrypt_yields E S yields tail R (take n out' @ bs)) \<and>
        (n = 0 \<longrightarrow> message_complete (dr_status R') \<and> dr_plaintext_consumed R' = dr_plaintext_available R')
    | Some (Err e, out', R') \<Rightarrow> dr_status R' = DecryptFailed \<and> (\<exists>e'. e = decryption_error e') \<and>
        (\<forall>tail bs. \<not> decrypt_yields E S yields tail R bs)
    | Some (Panic, _, _) \<Rightarrow> False"
proof -
  obtain c where live: "decrypt_reader_ok R" "yields (dr_inner R) c" using assms(2) by (auto simp: decrypt_live_def)
  have st: "dr_status R \<noteq> DecryptFailed" using assms(2) by (auto simp: decrypt_live_def decrypt_open_def message_complete_def)
  show ?thesis
  proof (cases "dr_plaintext_consumed R = dr_plaintext_available R")
    case False
    obtain n out' R' where D: "DecryptReader_read E rd R out = Some (Ok n, out', R')" "0 < n"
      "n \<le> length (decrypt_pending R)" "take n out' = take n (decrypt_pending R)" "decrypt_reader_ok R'"
      "decrypt_pending R' = drop n (decrypt_pending R)" "dr_inner R' = dr_inner R" "dr_status R' = dr_status R"
      "\<And>d i. decrypt_open E R d i \<Longrightarrow> decrypt_open E R' d i"
      using decrypt_read_pending [OF live(1) st assms(3) False] by metis
    have pend: "decrypt_pending R = take n out' @ decrypt_pending R'" using D(4,6) by simp
    have "decrypt_yields E S yields tail R (take n out' @ bs)" if "decrypt_yields E S yields tail R' bs" for tail bs
      by (rule decrypt_yields_pending [OF assms(2) D(7,8,9) pend that])
    moreover have "decrypt_live E yields R'" using assms(2) D(5,7-9) by (auto simp: decrypt_live_def)
    ultimately show ?thesis using D(1,2) by simp
  next
    case True
    note nil = pending_nil [OF True]
    show ?thesis
    proof (cases "message_complete (dr_status R)")
      case complete: True
      then have "DecryptReader_read E rd R out = Some (Ok 0, out, R)" using assms(3) True st by (simp add: DecryptReader_read_def)
      then show ?thesis using complete assms(2) True by simp
    next
      case False
      then obtain d i where o: "decrypt_open E R d i" using assms(2) by (auto simp: decrypt_live_def)
      show ?thesis
      proof (cases rule: decrypt_read_open [OF assms(1) live(1) o live(2) assms(3) True])
        case (1 e out' R')
        then have "\<not> decrypt_yields E S yields tail R bs" for tail bs using decrypt_yields_next [OF _ o live(2) False] by blast
        then show ?thesis using 1 by auto
      next
        case (2 kind nonce p rest n out' R')
        have "decrypt_yields E S yields tail R (take n p @ bs)" if y: "decrypt_yields E S yields tail R' bs" for tail bs
          by (rule decrypt_yields_back [OF live(1) o live(2) nil 2(2,5,3,10,8) y])
        moreover have "message_complete (dr_status R') \<and> dr_plaintext_consumed R' = dr_plaintext_available R'" if "n = 0"
        proof -
          have "decrypt_pending R' = []" "kind = Final" using 2(10,11) that by auto
          then show ?thesis using 2(4,5) copy_out_eq(2) [OF 2(4), of out] assms(3)
            by (cases "dr_plaintext_consumed R' < dr_plaintext_available R'")
              (auto simp: decrypt_advanced_def message_complete_def decrypt_reader_ok_def)
        qed
        ultimately show ?thesis using 2(1,9) decrypt_live_advanced [where yields = yields, OF 2(4,3,5)] by simp
      qed
    qed
  qed
qed

lemma decrypt_reads_sound:
  assumes "reads_to_end (DecryptReader_read E rd) R out R'" "lawful E S" "decrypt_live E yields R"
  shows "\<exists>tail. decrypt_yields E S yields tail R out \<and> decrypt_live E yields R' \<and> message_complete (dr_status R') \<and>
    dr_plaintext_consumed R' = dr_plaintext_available R' \<and> yields (dr_inner R') tail"
  using assms(1,3)
proof (induction rule: reads_to_end.induct)
  case (at_end R buf buf' R')
  note step = decrypt_read_step [OF assms(2) at_end(3,2), unfolded at_end(1) option.case prod.case rust.case]
  then obtain tail where tail: "yields (dr_inner R') tail" "decrypt_reader_ok R'" by (auto simp: decrypt_live_def)
  have "decrypt_yields E S yields tail R' []" using step tail pending_nil [of R'] by (auto simp: decrypt_yields_def)
  with step have "decrypt_yields E S yields tail R []" by fastforce
  then show ?case using step tail by auto
next
  case (more R buf n buf' R1 bs R')
  show ?case using decrypt_read_step [OF assms(2) more(6,2), unfolded more(1) option.case prod.case rust.case] more.IH by blast
next
  case (interrupted R buf e buf' R1 bs R')
  show ?case using decrypt_read_step [OF assms(2) interrupted(6,2)] interrupted(1,3) by (auto simp: decryption_error_def)
qed

end

end
