(* ===== verification/Floe_Decrypt_Finish.thy ===== *)
theory Floe_Decrypt_Finish
  imports Floe_Decrypt_Reader
begin

text \<open>
  Opening and finalizing a decrypting reader (src/io.rs) over a well-behaved wrapped reader: draining and
  finalization always return, and the stream agrees with one-shot decryption of its contents.
\<close>

section \<open>Finalization\<close>

context byte_source begin

text \<open>Draining ends on every source: it reaches the final segment or a segment that is not authentic.\<close>

lemma drain_loop_cases:
  assumes "lawful E S" "decrypt_reader_ok R" "decrypt_open E R d i" "yields (dr_inner R) c"
  defines "C \<equiv> ds_context (de_state d)"
  obtains (refused) e R' where "DecryptReader_drain_loop E rd R = Some (Err (decryption_error e), R')"
      "dr_status R' = DecryptFailed" "\<And>q tail. \<not> parses S C i c q tail"
    | (drained) q tail R' where "DecryptReader_drain_loop E rd R = Some (Ok (), R')" "parses S C i c q tail"
      "dr_status R' = FrameComplete" "yields (dr_inner R') tail" "decrypt_reader_ok R'"
      "dr_plaintext_consumed R' = dr_plaintext_available R'"
  using assms(2-4) unfolding C_def
proof (induction "length c" arbitrary: R d i c thesis rule: less_induct)
  case less
  let ?C = "ds_context (de_state d)"
  note P = decrypt_open_facts(3) [OF less(5)] and S = lawfulD(1) [OF assms(1)]
  have o: "dr_status R = DecryptOpen" and i: "i < 2 ^ 40" using decrypt_open_facts [OF less(5)] by simp_all
  show ?case
  proof (cases rule: load_segment_cases [OF assms(1) less(4-6)])
    case (1 e R')
    have "\<not> parses S ?C i c q tail" for q tail using 1(3) parses_has_next by blast
    moreover have "DecryptReader_drain_loop E rd R = Some (Err (decryption_error e), R')"
      using o 1(1) by (subst DecryptReader_drain_loop.simps) simp
    ultimately show ?thesis using less(2) 1(2) by blast
  next
    case (2 kind nonce p rest R')
    let ?R = "R'\<lparr> dr_plaintext_consumed := dr_plaintext_available R' \<rparr>"
    have step: "DecryptReader_drain_loop E rd R = DecryptReader_drain_loop E rd ?R"
      using o 2(1) by (subst DecryptReader_drain_loop.simps) simp
    have ok: "decrypt_reader_ok ?R" using 2(4) by (simp add: decrypt_reader_ok_def)
    show ?thesis
    proof (cases kind)
      case Final
      then have fc: "dr_status R' = FrameComplete" using 2(5) by (simp add: decrypt_advanced_def)
      then have "DecryptReader_drain_loop E rd ?R = Some (Ok (), ?R)" by (subst DecryptReader_drain_loop.simps) simp
      then show ?thesis using less(3) [of ?R p rest] step fc ok 2(2,3) parses_final i Final by simp
    next
      case NonFinal
      then obtain d' where d': "decrypt_open E R' d' (Suc i)" "ds_context (de_state d') = ?C"
        using 2(5) by (auto simp: decrypt_advanced_def)
      then have o': "decrypt_open E ?R d' (Suc i)" by (simp add: decrypt_open_def)
      have y: "yields (dr_inner ?R) rest" using 2(3) by simp
      show ?thesis
      proof (rule less(1) [OF parses_length [OF S P 2(2)] _ _ ok o' y])
        fix e R'' assume A: "DecryptReader_drain_loop E rd ?R = Some (Err (decryption_error e), R'')" "dr_status R'' = DecryptFailed"
          "\<And>q tail. \<not> parses S (ds_context (de_state d')) (Suc i) rest q tail"
        have "\<not> parses S ?C i c q tail" for q tail
          using parses_next [OF S P _ 2(2), of q tail] A(3) d'(2) NonFinal by auto
        then show ?thesis using less(2) A(1,2) step by simp
      next
        fix q tail R'' assume A: "DecryptReader_drain_loop E rd ?R = Some (Ok (), R'')"
          "parses S (ds_context (de_state d')) (Suc i) rest q tail" "dr_status R'' = FrameComplete" "yields (dr_inner R'') tail"
          "decrypt_reader_ok R''" "dr_plaintext_consumed R'' = dr_plaintext_available R''"
        have "parses S ?C i c (p @ q) tail" using parses_more 2(2) A(2) d'(2) NonFinal by metis
        then show ?thesis using less(3) A step by simp
      qed
    qed
  qed
qed

text \<open>
  Finalization on a live reader: it succeeds exactly when what is left of the stream completes the
  message (and, for the whole-stream form, ends there); it always returns and never panics.
\<close>

lemma drain_message_live:
  assumes "lawful E S" "decrypt_live E yields R"
  shows "case DecryptReader_drain_message E rd R of
      None \<Rightarrow> False
    | Some (Ok _, R') \<Rightarrow> message_complete (dr_status R') \<and> decrypt_reader_ok R' \<and>
        dr_plaintext_consumed R' = dr_plaintext_available R' \<and>
        (\<exists>tail bs. decrypt_yields E S yields tail R bs \<and> yields (dr_inner R') tail)
    | Some (Err e, R') \<Rightarrow> dr_status R' = DecryptFailed \<and> (\<forall>tail bs. \<not> decrypt_yields E S yields tail R bs)
    | Some (Panic, _) \<Rightarrow> False"
proof -
  let ?R = "R\<lparr> dr_plaintext_consumed := dr_plaintext_available R \<rparr>"
  obtain c where live: "decrypt_reader_ok R" "yields (dr_inner R) c" using assms(2) by (auto simp: decrypt_live_def)
  have ok: "decrypt_reader_ok ?R" and y: "yields (dr_inner ?R) c" using live by (auto simp: decrypt_reader_ok_def)
  show ?thesis
  proof (cases "message_complete (dr_status R)")
    case True
    then have "DecryptReader_drain_loop E rd ?R = Some (Ok (), ?R)"
      by (subst DecryptReader_drain_loop.simps) (auto simp: message_complete_def)
    then show ?thesis using True ok live by (auto simp: DecryptReader_drain_message_def message_complete_def decrypt_yields_def)
  next
    case False
    then obtain d i where o: "decrypt_open E R d i" using assms(2) by (auto simp: decrypt_live_def)
    then have o': "decrypt_open E ?R d i" by (simp add: decrypt_open_def)
    show ?thesis
    proof (cases rule: drain_loop_cases [OF assms(1) ok o' y])
      case (1 e R')
      have "\<not> decrypt_yields E S yields tail R bs" for tail bs
      proof
        assume "decrypt_yields E S yields tail R bs"
        then obtain q where "parses S (ds_context (de_state d)) i c q tail"
          using False decrypt_open_unique [OF o] yields_unique [OF live(2)] by (auto simp: decrypt_yields_def)
        then show False using 1(3) by blast
      qed
      then show ?thesis using 1(1,2) by (auto simp: DecryptReader_drain_message_def)
    next
      case (2 q tail R')
      have "decrypt_yields E S yields tail R (decrypt_pending R @ q)" using live o 2(2) by (auto simp: decrypt_yields_def)
      then show ?thesis using 2 by (auto simp: DecryptReader_drain_message_def message_complete_def)
    qed
  qed
qed

lemma decrypt_tail_unique:
  assumes "lawful E S" "decrypt_live E yields R" "decrypt_yields E S yields tail R bs" "decrypt_yields E S yields tail' R bs'"
  shows "tail' = tail"
proof -
  obtain R2 where R2: "reads_to_end (DecryptReader_read E rd) R bs R2"
    using byte_source.reads_to_end_exists [OF decrypt_reader_source [OF assms(1)] assms(3)] by blast
  note Z = byte_source.reads_to_end_yields [OF decrypt_reader_source [OF assms(1)] R2]
  have "message_complete (dr_status R2)" using decrypt_reads_sound [OF R2 assms(1,2)] by blast
  then have no: "\<not> decrypt_open E R2 d i" for d i by (auto simp: decrypt_open_def message_complete_def)
  have "yields (dr_inner R2) tail'" using Z [OF assms(4)] no unfolding decrypt_yields_def by blast
  moreover have "yields (dr_inner R2) tail" using Z [OF assms(3)] no unfolding decrypt_yields_def by blast
  ultimately show ?thesis by (rule yields_unique)
qed

lemma try_finish_live:
  assumes "lawful E S" "decrypt_live E yields R"
  shows "case DecryptReader_try_finish E rd R of
      None \<Rightarrow> False
    | Some (Ok _, R') \<Rightarrow> dr_status R' = StreamComplete \<and> (\<exists>bs. decrypt_yields E S yields [] R bs)
    | Some (Err e, R') \<Rightarrow> dr_status R' = DecryptFailed \<and> (\<forall>bs. \<not> decrypt_yields E S yields [] R bs)
    | Some (Panic, _) \<Rightarrow> False"
proof (cases "dr_status R = StreamComplete")
  case True
  then show ?thesis using assms(2) by (auto simp: DecryptReader_try_finish_def decrypt_live_def decrypt_yields_def message_complete_def)
next
  case open_stream: False
  note D = drain_message_live [OF assms(1,2)]
  obtain r R1 where r: "DecryptReader_drain_message E rd R = Some (r, R1)" using D by (cases "DecryptReader_drain_message E rd R") auto
  show ?thesis
  proof (cases r)
    case (Ok u)
    then obtain tail bs where t: "decrypt_yields E S yields tail R bs" "yields (dr_inner R1) tail" using D r by auto
    note uniq = decrypt_tail_unique [OF assms(1,2) t(1)]
    show ?thesis
    proof (cases "tail = []")
      case True
      then have lt: "length tail < length [0 :: u8]" by simp
      obtain out r' where "read_fully rd (dr_inner R1) [0] = Some (Ok 0, out, r')"
        by (rule read_fully_short [OF t(2) lt]) (use True in simp)
      then show ?thesis using r Ok True t(1) open_stream by (auto simp: DecryptReader_try_finish_def)
    next
      case False
      then have "length [0 :: u8] \<le> length tail" by (cases tail) auto
      then obtain r' where "read_fully rd (dr_inner R1) [0] = Some (Ok (length [0 :: u8]), take (length [0 :: u8]) tail, r')"
        using read_fully_enough [OF t(2)] by blast
      then show ?thesis using r Ok False uniq open_stream by (auto simp: DecryptReader_try_finish_def)
    qed
  next
    case (Err e)
    then show ?thesis using D r open_stream by (auto simp: DecryptReader_try_finish_def)
  qed (use D r in simp)
qed

section \<open>Opening a stream\<close>

lemma DecryptReader_new_cases:
  assumes "lawful E S" "yields r c"
  obtains (refused) e r' where "DecryptReader_new E rd r key aad = Some (Err (decryption_error e), r')"
      "\<nexists>d. 74 \<le> length c \<and> Decryptor_new E key aad (Header (take 74 c)) = Ok d"
    | (opened) d R r' where "DecryptReader_new E rd r key aad = Some (Ok R, r')" "74 \<le> length c"
      "Decryptor_new E key aad (Header (take 74 c)) = Ok d" "decrypt_open E R d 0" "yields (dr_inner R) (drop 74 c)"
      "decrypt_reader_ok R" "decrypt_pending R = []" "dr_inner R = r'"
proof (cases "74 \<le> length c")
  case False
  then obtain r' where "read_header rd r = Some (Err (decryption_error (InvalidHeaderLength (length c))), r')"
    using read_header_yields [OF assms(2)] by auto
  then show thesis using refused False by (auto simp: DecryptReader_new_def)
next
  case True
  then obtain r' where r': "read_header rd r = Some (Ok (Header (take 74 c)), r')" "yields r' (drop 74 c)"
    using read_header_yields [OF assms(2)] by auto
  have len: "length (header_bytes (Header (take 74 c))) = 74" using True by simp
  note N = Decryptor_new_at [OF assms(1) len, of key aad]
  show thesis
  proof (cases "Decryptor_new E key aad (Header (take 74 c))")
    case (Ok d)
    note F = from_decryptor_open [OF N(2) [OF Ok], of r' "Header (take 74 c)"]
    show thesis
      by (rule opened [OF _ True Ok F(1)]) (use r' Ok F in \<open>simp_all add: DecryptReader_new_def\<close>)
  qed (use refused r'(1) N(1) in \<open>auto simp: DecryptReader_new_def\<close>)
qed

lemma decrypt_yields_unique_tail:
  assumes "lawful E S" "decrypt_open E R d i" "decrypt_reader_ok R" "yields (dr_inner R) c"
  shows "decrypt_yields E S yields tail R bs \<longleftrightarrow> (\<exists>q. parses S (ds_context (de_state d)) i c q tail \<and> bs = decrypt_pending R @ q)"
proof
  assume "decrypt_yields E S yields tail R bs"
  moreover have "\<not> message_complete (dr_status R)" using assms(2) by (auto simp: decrypt_open_def message_complete_def)
  ultimately obtain e k c' q where e: "decrypt_open E R e k" "yields (dr_inner R) c'" "parses S (ds_context (de_state e)) k c' q tail"
      "bs = decrypt_pending R @ q"
    unfolding decrypt_yields_def by blast
  have "e = d" "k = i" "c' = c" using decrypt_open_unique [OF assms(2) e(1)] yields_unique [OF assms(4) e(2)] by auto
  then show "\<exists>q. parses S (ds_context (de_state d)) i c q tail \<and> bs = decrypt_pending R @ q" using e by auto
qed (use assms in \<open>auto simp: decrypt_yields_def\<close>)

text \<open>Reading a stream to its end and finalizing it returns what one-shot decryption of its contents returns.\<close>

lemma decrypt_reader_agrees:
  assumes "lawful E S" "yields r c"
  shows "decrypt E key aad c = Ok p \<longleftrightarrow>
    (\<exists>R r' R1 R2. DecryptReader_new E rd r key aad = Some (Ok R, r') \<and>
       reads_to_end (DecryptReader_read E rd) R p R1 \<and> DecryptReader_try_finish E rd R1 = Some (Ok (), R2))"
proof (cases rule: DecryptReader_new_cases [OF assms, of key aad])
  case (1 e r')
  then show ?thesis by (auto simp: decrypt_parses [OF assms(1)])
next
  case (2 d R r')
  have live: "decrypt_live E yields R" using 2(4-6) by (auto simp: decrypt_live_def decrypt_open_def)
  note Y = decrypt_yields_unique_tail [OF assms(1) 2(4,6,5)]
  have one: "decrypt E key aad c = Ok p \<longleftrightarrow> decrypt_yields E S yields [] R p"
    using 2(2,3,7) Y by (auto simp: decrypt_parses [OF assms(1)])
  have "decrypt_yields E S yields [] R p \<longleftrightarrow>
      (\<exists>R1 R2. reads_to_end (DecryptReader_read E rd) R p R1 \<and> DecryptReader_try_finish E rd R1 = Some (Ok (), R2))"
  proof
    assume y: "decrypt_yields E S yields [] R p"
    obtain R1 where R1: "reads_to_end (DecryptReader_read E rd) R p R1"
      using byte_source.reads_to_end_exists [OF decrypt_reader_source [OF assms(1)] y] by blast
    have "decrypt_yields E S yields [] R1 []"
      using byte_source.reads_to_end_yields [OF decrypt_reader_source [OF assms(1)] R1 y] by blast
    moreover have "decrypt_live E yields R1" using decrypt_reads_sound [OF R1 assms(1) live] by blast
    ultimately have "\<exists>R2. DecryptReader_try_finish E rd R1 = Some (Ok (), R2)"
      using try_finish_live [OF assms(1), of R1] by (auto split: option.splits prod.splits rust.splits)
    then show "\<exists>R1 R2. reads_to_end (DecryptReader_read E rd) R p R1 \<and> DecryptReader_try_finish E rd R1 = Some (Ok (), R2)"
      using R1 by blast
  next
    assume "\<exists>R1 R2. reads_to_end (DecryptReader_read E rd) R p R1 \<and> DecryptReader_try_finish E rd R1 = Some (Ok (), R2)"
    then obtain R1 R2 where R1: "reads_to_end (DecryptReader_read E rd) R p R1" "DecryptReader_try_finish E rd R1 = Some (Ok (), R2)"
      by blast
    obtain tail where t: "decrypt_yields E S yields tail R p" "decrypt_live E yields R1" "message_complete (dr_status R1)"
        "yields (dr_inner R1) tail"
      using decrypt_reads_sound [OF R1(1) assms(1) live] by blast
    obtain bs where "decrypt_yields E S yields [] R1 bs" using try_finish_live [OF assms(1) t(2)] R1(2) by auto
    then have "yields (dr_inner R1) []" using t(3) by (auto simp: decrypt_yields_def decrypt_open_def message_complete_def)
    then show "decrypt_yields E S yields [] R p" using t(1) yields_unique [OF t(4)] by auto
  qed
  then show ?thesis using one 2(1) by auto
qed

end

section \<open>Properties\<close>

lemma parses_append: "parses S C i c p [] \<Longrightarrow> parses S C i (c @ tail) p tail"
proof (induction i c p "[] :: bytes" rule: parses.induct)
  case (parses_final i c nonce p)
  then have "next_segment S C i (c @ tail) Final nonce p tail" by (auto simp: next_segment_def)
  then show ?case using parses.parses_final parses_final(2) by blast
next
  case (parses_more i c nonce p rest q)
  then have "next_segment S C i (c @ tail) NonFinal nonce p (rest @ tail)" by (auto simp: next_segment_def)
  then show ?case using parses.parses_more parses_more(3) by blast
qed

lemma toy_message: "\<exists>c. decrypt toy_env (toy_key provider) [5] c = Ok (replicate 70 9)"
  by (rule toy_encrypted [of provider "[5]"]) blast

text \<open>
  C8: Streaming decryption agrees with one-shot decryption. Over any well-behaved wrapped reader,
  with any read sizes: opening the stream, reading it to the end and finishing it collects p exactly
  when the one-shot decryption of the stream's contents returns p.
\<close>

theorem streaming_decryption_agrees:
  assumes "lawful E S" "byte_source rd yields patience" "yields r c"
  shows "decrypt E key aad c = Ok p \<longleftrightarrow>
    (\<exists>R r' R1 R2. DecryptReader_new E rd r key aad = Some (Ok R, r') \<and>
       reads_to_end (DecryptReader_read E rd) R p R1 \<and> DecryptReader_try_finish E rd R1 = Some (Ok (), R2))"
  by (rule byte_source.decrypt_reader_agrees [OF assms(2,1,3)])

theorem streaming_decryption_agrees_witness:
  "\<forall>c p. decrypt toy_env (toy_key Provider_RING) [5] c = Ok p \<longleftrightarrow>
    (\<exists>R r' R1 R2. DecryptReader_new toy_env slice_read c (toy_key Provider_RING) [5] = Some (Ok R, r') \<and>
       reads_to_end (DecryptReader_read toy_env slice_read) R p R1 \<and>
       DecryptReader_try_finish toy_env slice_read R1 = Some (Ok (), R2))"
  using streaming_decryption_agrees [OF toy_lawful slice_source.byte_source_axioms refl] by blast

text \<open>
  C18: A framed message is delivered and its end is found: when the wrapped reader holds an authentic
  message followed by other data, the stream opens, some way of reading reaches the end, every way of
  reading to the end collects exactly the plaintext, and finishing the frame, before or after
  reading, hands back the wrapped reader positioned exactly after the final segment.
\<close>

theorem framed_message_delivered:
  assumes "lawful E S" "byte_source rd yields patience" "decrypt E key aad c = Ok p" "yields r (c @ tail)"
  shows "\<exists>R r'. DecryptReader_new E rd r key aad = Some (Ok R, r') \<and>
    (\<exists>R1. reads_to_end (DecryptReader_read E rd) R p R1) \<and>
    (\<exists>r1. DecryptReader_finish_frame E rd R = Some (Ok r1) \<and> yields r1 tail) \<and>
    (\<forall>q R1. reads_to_end (DecryptReader_read E rd) R q R1 \<longrightarrow>
       q = p \<and> (\<exists>r1. DecryptReader_finish_frame E rd R1 = Some (Ok r1) \<and> yields r1 tail))"
proof -
  obtain d where d: "74 \<le> length c" "Decryptor_new E key aad (Header (take 74 c)) = Ok d"
      "parses S (ds_context (de_state d)) 0 (drop 74 c) p []"
    using decrypt_parses [OF assms(1)] assms(3) by blast
  then have len: "74 \<le> length (c @ tail)" and new: "Decryptor_new E key aad (Header (take 74 (c @ tail))) = Ok d" by simp_all
  note src = byte_source.decrypt_reader_source [OF assms(2,1), of tail]
  show ?thesis
  proof (cases rule: byte_source.DecryptReader_new_cases [OF assms(2,1,4), of key aad])
    case (1 e r')
    then show ?thesis using len new by blast
  next
    case (2 d' R r')
    have y: "decrypt_yields E S yields tail R p"
      using parses_append [OF d(3), of tail] d(1) new 2(3-7) by (auto simp: decrypt_yields_def)
    have finish: "\<exists>r1. DecryptReader_finish_frame E rd R1 = Some (Ok r1) \<and> yields r1 tail"
      if y1: "decrypt_yields E S yields tail R1 bs" and live: "decrypt_live E yields R1" for R1 bs
    proof -
      from byte_source.drain_message_live [OF assms(2,1) live] y1
      obtain R2 tail' bs' where R2: "DecryptReader_drain_message E rd R1 = Some (Ok (), R2)"
          "decrypt_yields E S yields tail' R1 bs'" "yields (dr_inner R2) tail'"
        by (auto split: option.splits prod.splits rust.splits)
      have "tail' = tail" by (rule byte_source.decrypt_tail_unique [OF assms(2,1) live y1 R2(2)])
      then show ?thesis using R2 by (auto simp: DecryptReader_finish_frame_def DecryptReader_try_finish_frame_def FinishError_wrap_def)
    qed
    have live: "decrypt_live E yields R" using 2(4-6) by (auto simp: decrypt_live_def decrypt_open_def)
    have "q = p \<and> (\<exists>r1. DecryptReader_finish_frame E rd R1 = Some (Ok r1) \<and> yields r1 tail)"
      if "reads_to_end (DecryptReader_read E rd) R q R1" for q R1
      using byte_source.reads_to_end_yields [OF src that y] finish
        byte_source.decrypt_reads_sound [OF assms(2) that assms(1) live] by blast
    then show ?thesis using 2(1) byte_source.reads_to_end_exists [OF src y] finish [OF y live] by blast
  qed
qed

theorem framed_message_delivered_witness:
  "\<exists>c R r'. DecryptReader_new toy_env slice_read (c @ [1, 2, 3]) (toy_key Provider_RING) [5] = Some (Ok R, r') \<and>
    (\<exists>R1. reads_to_end (DecryptReader_read toy_env slice_read) R (replicate 70 9) R1) \<and>
    (\<exists>r1. DecryptReader_finish_frame toy_env slice_read R = Some (Ok r1) \<and> [1, 2, 3] = r1)"
proof -
  obtain c where c: "decrypt toy_env (toy_key Provider_RING) [5] c = Ok (replicate 70 9)" using toy_message by blast
  from framed_message_delivered [OF toy_lawful slice_source.byte_source_axioms this, of "c @ [1, 2, 3]" "[1, 2, 3]"]
  show ?thesis by (metis (no_types, lifting))
qed

end
