(* ===== verification/Floe_Release.thy ===== *)
theory Floe_Release
  imports Floe_Decrypt_Finish "HOL-Library.Sublist"
begin

text \<open>
  What a streaming decryption reader (src/io.rs) may hand to its caller: over any wrapped reader,
  faulty or hostile, what has been delivered at any moment is the beginning of the plaintext of the
  authentic segments at the beginning of what was read. The wrapped reader is any function that
  keeps the length of the buffer it fills; a log records the bytes it hands over.
\<close>

section \<open>Recording what a reader hands over\<close>

text \<open>
  Nothing is assumed of the wrapped reader but that it cannot change the length of the buffer it
  fills. \<open>recorded rd\<close> is \<open>rd\<close> with a log of all bytes it has delivered.
\<close>

definition keeps_length :: "'r reader \<Rightarrow> bool" where
  "keeps_length rd \<longleftrightarrow> (\<forall>r buf res buf' r'. rd r buf = Some (res, buf', r') \<longrightarrow> length buf' = length buf)"

definition recorded :: "'r reader \<Rightarrow> ('r \<times> bytes) reader" where
  "recorded rd s buf =
    (case rd (fst s) buf of
       None \<Rightarrow> None
     | Some (res, buf', r') \<Rightarrow> Some (res, buf', (r', snd s @ (case res of Ok n \<Rightarrow> take n buf' | _ \<Rightarrow> []))))"

definition filled_from :: "'r \<times> bytes \<Rightarrow> bytes \<Rightarrow> bytes \<Rightarrow> nat io_result \<times> bytes \<times> 'r \<times> bytes \<Rightarrow> bool" where
  "filled_from s filled buf y \<longleftrightarrow> (case y of (res, out, s') \<Rightarrow> length out = length filled + length buf \<and>
    (\<exists>new. snd s' = snd s @ new \<and> (\<forall>n. res = Ok n \<longrightarrow> n \<le> length out \<and> take n out = filled @ new)))"

lemma read_fully_loop_recorded:
  assumes "keeps_length rd" "read_fully_loop (recorded rd) s filled buf = Some y"
  shows "filled_from s filled buf y"
proof -
  have "recorded rd = recorded rd \<longrightarrow> filled_from s filled buf y"
  proof (rule read_fully_loop.raw_induct [where P = "\<lambda>rd' s filled buf y. rd' = recorded rd \<longrightarrow> filled_from s filled buf y", OF _ assms(2)], rule impI)
    fix loop rd' s filled buf y
    assume IH: "\<And>rd' s filled buf y. loop rd' s filled buf = Some y \<Longrightarrow> rd' = recorded rd \<longrightarrow> filled_from s filled buf y"
      and rd': "rd' = recorded rd"
      and step: "(if buf = [] then Some (Ok (length filled), filled, s)
        else case rd' s buf of None \<Rightarrow> None
          | Some (res, buf', s') \<Rightarrow>
              (case res of
                 Ok read \<Rightarrow>
                   if read = 0 then Some (Ok (length filled), filled @ buf', s')
                   else if length buf' < read then Some (Panic, filled @ buf', s')
                   else loop rd' s' (filled @ take read buf') (drop read buf')
               | Err e \<Rightarrow> if io_kind e = Interrupted then loop rd' s' filled buf' else Some (Err e, filled @ buf', s')
               | Panic \<Rightarrow> Some (Panic, filled @ buf', s'))) = Some y"
    show "filled_from s filled buf y"
    proof (cases "buf = []")
      case True
      then show ?thesis using step by (auto simp: filled_from_def)
    next
      case False
      then obtain res buf' r' where r: "rd (fst s) buf = Some (res, buf', r')"
        using step by (auto simp: rd' recorded_def split: option.splits)
      then have len: "length buf' = length buf" using assms(1) unfolding keeps_length_def by blast
      let ?s = "(r', snd s @ (case res of Ok n \<Rightarrow> take n buf' | _ \<Rightarrow> []))"
      have rec: "rd' s buf = Some (res, buf', ?s)" using r by (simp add: rd' recorded_def)
      show ?thesis
      proof (cases res)
        case (Ok n)
        show ?thesis
        proof (cases "n = 0 \<or> length buf' < n")
          case True
          then show ?thesis using step False rec Ok len by (auto simp: filled_from_def split: if_splits)
        next
          case n: False
          then have "loop rd' ?s (filled @ take n buf') (drop n buf') = Some y" using step False rec Ok by simp
          from IH [OF this] rd' have "filled_from ?s (filled @ take n buf') (drop n buf') y" by simp
          then show ?thesis using n len Ok by (auto simp: filled_from_def)
        qed
      next
        case (Err e)
        show ?thesis
        proof (cases "io_kind e = Interrupted")
          case True
          then have "loop rd' ?s filled buf' = Some y" using step False rec Err by simp
          from IH [OF this] rd' show ?thesis using Err len by (simp add: filled_from_def)
        next
          case e: False
          then show ?thesis using step False rec Err len by (auto simp: filled_from_def)
        qed
      next
        case Panic
        then show ?thesis using step False rec len by (auto simp: filled_from_def)
      qed
    qed
  qed
  then show ?thesis by simp
qed

lemma read_fully_recorded:
  assumes "keeps_length rd" "read_fully (recorded rd) s buf = Some (res, out, s')"
  obtains new where "length out = length buf" "snd s' = snd s @ new" "\<And>n. res = Ok n \<Longrightarrow> n \<le> length out \<and> new = take n out"
  using read_fully_loop_recorded [OF assms(1) assms(2) [unfolded read_fully_def]] that by (auto simp: filled_from_def)

text \<open>
  Fetching a segment from any reader: the log grows, and a fetched segment is in the buffer and at the
  end of the log.
\<close>

lemma fetch_recorded:
  assumes "keeps_length rd" "buffer_ok (dr_buffer R)" "DecryptReader_fetch_segment (recorded rd) R = Some (res, R')"
  defines "P \<equiv> sb_parameters (dr_buffer R)"
  obtains inner B new where "R' = R\<lparr> dr_inner := inner, dr_buffer := B \<rparr>" "snd inner = snd (dr_inner R) @ new"
    "\<And>F. res = Ok F \<Longrightarrow> holds_segment P F B new"
proof -
  have len: "\<forall>r buf res out r'. read_fully (recorded rd) r buf = Some (res, out, r') \<longrightarrow> length out = length buf"
    by (intro allI impI) (rule read_fully_recorded [OF assms(1)])
  show thesis
  proof (cases rule: fetch_reads [OF len assms(2,3)])
    case (1 res1 pre inner)
    obtain new where "snd inner = snd (dr_inner R) @ new" by (rule read_fully_recorded [OF assms(1) 1(1)])
    then show thesis using that [OF 1(2)] 1(3) by blast
  next
    case (2 F pre i1 buf res2 remainder inner B)
    obtain new1 where n1: "snd i1 = snd (dr_inner R) @ new1" "new1 = pre"
      by (rule read_fully_recorded [OF assms(1) 2(1)]) (use 2(5) in simp)
    obtain new2 where n2: "snd inner = snd i1 @ new2" "res2 = Ok (length remainder) \<Longrightarrow> new2 = remainder"
      by (rule read_fully_recorded [OF assms(1) 2(2)]) simp
    show thesis by (rule that [OF 2(3), of "new1 @ new2"]) (use 2(4,6) n1 n2 in \<open>auto simp: P_def\<close>)
  qed
qed

section \<open>Runs of authentic segments\<close>

text \<open>
  \<open>runs S C st c q\<close>: \<open>c\<close> is a run of authentic segments from the first position on, of plaintext \<open>q\<close>;
  \<open>st\<close> is the position of the next one, or \<^const>\<open>None\<close> after the final segment.
\<close>

inductive runs :: "prims \<Rightarrow> MessageContext \<Rightarrow> nat option \<Rightarrow> bytes \<Rightarrow> bytes \<Rightarrow> bool" for S C where
  runs_start: "runs S C (Some 0) [] []"
| runs_segment: "runs S C (Some i) c q \<Longrightarrow> next_segment S C i seg kind nonce p [] \<Longrightarrow>
    runs S C (case kind of NonFinal \<Rightarrow> Some (Suc i) | Final \<Rightarrow> None) (c @ seg) (q @ p)"

lemma runs_parse:
  assumes "runs S C st c q" "prims_ok S" "params_ok (mc_parameters C)" "parses S C 0 (c @ x) p tail"
  shows "\<exists>p'. p = q @ p' \<and> (case st of Some i \<Rightarrow> parses S C i x p' tail | None \<Rightarrow> p' = [] \<and> tail = x)"
  using assms(1,4)
proof (induction arbitrary: x rule: runs.induct)
  case (runs_segment i c q seg kind nonce s)
  then obtain p' where p': "p = q @ p'" "parses S C i (seg @ x) p' tail" by fastforce
  have "next_segment S C i (seg @ x) kind nonce s x" using next_segment_append [OF runs_segment(2), of x] by simp
  from parses_next [OF assms(2,3) p'(2) this] p'(1) show ?case by (cases kind) auto
qed simp

section \<open>What has been delivered\<close>

inductive handed_over :: "'r reader \<Rightarrow> 'r \<Rightarrow> bytes \<Rightarrow> 'r \<Rightarrow> bool" for rd r where
  handed_none: "handed_over rd r [] r"
| handed_read: "handed_over rd r d r' \<Longrightarrow> rd r' buf = Some (Ok n, buf', r'') \<Longrightarrow> handed_over rd r (d @ take n buf') r''"
| handed_error: "handed_over rd r d r' \<Longrightarrow> rd r' buf = Some (Err e, buf', r'') \<Longrightarrow> handed_over rd r d r''"

text \<open>
  The invariant of a decrypting reader over a recorded source: the log is the header, a run of
  authentic segments and, once the reader has failed, possibly more; what was delivered is the
  front of the plaintext of the run, and what is buffered is the rest of it.
\<close>

definition at_position :: "'x env \<Rightarrow> MessageContext \<Rightarrow> nat option \<Rightarrow> ('x, 'r) DecryptReader \<Rightarrow> bool" where
  "at_position E C st R \<longleftrightarrow>
    (case st of Some i \<Rightarrow> \<exists>d. decrypt_open E R d i \<and> ds_context (de_state d) = C | None \<Rightarrow> message_complete (dr_status R))"

definition released ::
  "'x env \<Rightarrow> prims \<Rightarrow> bytes \<Rightarrow> MessageContext \<Rightarrow> bytes \<Rightarrow> ('x, 'r \<times> bytes) DecryptReader \<Rightarrow> bool" where
  "released E S H C d R \<longleftrightarrow> (\<exists>c rest q st. snd (dr_inner R) = H @ c @ rest \<and> runs S C st c q \<and> prefix d q \<and>
    (dr_status R \<noteq> DecryptFailed \<longrightarrow>
       rest = [] \<and> q = d @ decrypt_pending R \<and> decrypt_reader_ok R \<and> at_position E C st R))"

lemma at_position_advanced:
  "decrypt_advanced E C i kind R \<Longrightarrow> at_position E C (case kind of NonFinal \<Rightarrow> Some (Suc i) | Final \<Rightarrow> None) R"
  by (cases kind) (auto simp: at_position_def decrypt_advanced_def message_complete_def)

lemma released_failed:
  assumes "released E S H C d R" "snd (dr_inner R') = snd (dr_inner R) @ new" "dr_status R' = DecryptFailed"
  shows "released E S H C d R'"
  using assms unfolding released_def by (metis append.assoc)

lemma released_read_open:
  assumes "lawful E S" "keeps_length rd" "released E S H C d R" "decrypt_reader_ok R" "decrypt_open E R D i"
    and "dr_plaintext_consumed R = dr_plaintext_available R" "out \<noteq> []"
    and "DecryptReader_read E (recorded rd) R out = Some (res, out', R')"
  shows "case res of Ok n \<Rightarrow> released E S H C (d @ take n out') R' | Err _ \<Rightarrow> released E S H C d R' | Panic \<Rightarrow> True"
proof -
  note FF = fetch_failed_read [where rd = "recorded rd", OF assms(5,7,6)]
  have B: "buffer_ok (dr_buffer R)" using assms(4) by (simp add: decrypt_reader_ok_def)
  obtain r R1 where fetch: "DecryptReader_fetch_segment (recorded rd) R = Some (r, R1)"
    using FF(3) assms(8) by (cases "DecryptReader_fetch_segment (recorded rd) R") auto
  obtain inner B new where F: "R1 = R\<lparr> dr_inner := inner, dr_buffer := B \<rparr>" "snd inner = snd (dr_inner R) @ new"
      "\<And>F. r = Ok F \<Longrightarrow> holds_segment (sb_parameters (dr_buffer R)) F B new"
    by (rule fetch_recorded [OF assms(2) B fetch]) blast
  show ?thesis
  proof (cases r)
    case Panic
    then show ?thesis using FF(2) fetch assms(8) by simp
  next
    case (Err e)
    then have "res = Err e" "R' = R1\<lparr> dr_status := DecryptFailed \<rparr>" using FF(1) fetch assms(8) by simp_all
    then show ?thesis using released_failed [OF assms(3), of R' new] F(1,2) by simp
  next
    case (Ok F')
    have st: "dr_status R \<noteq> DecryptFailed" using assms(5) by (simp add: decrypt_open_def)
    then obtain c q st where I: "snd (dr_inner R) = H @ c" "runs S C st c q" "q = d" "at_position E C st R"
      using assms(3) pending_nil [OF assms(6)] by (auto simp: released_def)
    have "\<not> message_complete (dr_status R)" using assms(5) by (simp add: decrypt_open_def message_complete_def)
    then obtain j D' where "st = Some j" "decrypt_open E R D' j" "ds_context (de_state D') = C"
      using I(4) by (auto simp: at_position_def split: option.splits)
    then have D: "ds_context (de_state D) = C" "st = Some i" using decrypt_open_unique [OF assms(5)] by auto
    show ?thesis
    proof (cases rule: fetched_read [OF assms(1,5) fetch [unfolded Ok F(1)] F(3) [OF Ok] assms(7,6)])
      case (1 e out'' R'')
      then show ?thesis using released_failed [OF assms(3), of R' new] F(2) assms(8) by simp
    next
      case (2 kind nonce p n out'' R'')
      have "runs S C (case kind of NonFinal \<Rightarrow> Some (Suc i) | Final \<Rightarrow> None) (c @ new) (d @ p)"
        using runs_segment I(2,3) 2(3) D by blast
      then have "released E S H C (d @ take n p) R''"
        using at_position_advanced [OF 2(5)] 2(2,4,10) I(1) F(2) D(1) unfolding released_def
        by (intro exI [of _ "c @ new"] exI [of _ "[]"] exI [of _ "d @ p"]) (auto simp: take_is_prefix)
      then show ?thesis using 2(1,9) assms(8) by auto
    qed
  qed
qed

lemma released_read:
  assumes "lawful E S" "keeps_length rd" "released E S H C d R" "DecryptReader_read E (recorded rd) R out = Some (res, out', R')"
  shows "case res of Ok n \<Rightarrow> released E S H C (d @ take n out') R' | Err _ \<Rightarrow> released E S H C d R' | Panic \<Rightarrow> True"
proof (cases "out = [] \<or> dr_status R = DecryptFailed")
  case True
  then have "DecryptReader_read E (recorded rd) R out = Some (if out = [] then Ok 0 else Err poisoned_error, out, R)"
    by (auto simp: DecryptReader_read_def)
  then show ?thesis using assms(3,4) by (auto split: if_splits)
next
  case False
  then obtain c q st where I: "snd (dr_inner R) = H @ c" "runs S C st c q" "q = d @ decrypt_pending R" "decrypt_reader_ok R"
      "at_position E C st R"
    using assms(3) by (auto simp: released_def)
  show ?thesis
  proof (cases "dr_plaintext_consumed R = dr_plaintext_available R")
    case pending: False
    obtain n out'' R'' where D: "DecryptReader_read E (recorded rd) R out = Some (Ok n, out'', R'')"
        "take n out'' = take n (decrypt_pending R)" "decrypt_reader_ok R''" "decrypt_pending R'' = drop n (decrypt_pending R)"
        "dr_inner R'' = dr_inner R" "dr_status R'' = dr_status R" "\<And>d i. decrypt_open E R d i \<Longrightarrow> decrypt_open E R'' d i"
      using decrypt_read_pending [OF I(4) _ _ pending] False by metis
    have "at_position E C st R''" using I(5) D(6,7) by (auto simp: at_position_def split: option.splits)
    then have "released E S H C (d @ take n out'') R''"
      using I(1-3) D unfolding released_def
      by (intro exI [of _ c] exI [of _ "[]"] exI [of _ q] exI [of _ st]) (auto simp: take_is_prefix)
    then show ?thesis using D(1) assms(4) by auto
  next
    case True
    show ?thesis
    proof (cases st)
      case None
      then have "DecryptReader_read E (recorded rd) R out = Some (Ok 0, out, R)"
        using I(5) False True by (simp add: DecryptReader_read_def at_position_def)
      then show ?thesis using assms(3,4) by auto
    next
      case (Some i)
      then obtain D where "decrypt_open E R D i" using I(5) by (auto simp: at_position_def)
      from released_read_open [OF assms(1-3) I(4) this True _ assms(4)] show ?thesis using False by blast
    qed
  qed
qed

lemma released_handed_over:
  assumes "handed_over (DecryptReader_read E (recorded rd)) R d R'" "lawful E S" "keeps_length rd" "released E S H C [] R"
  shows "released E S H C d R'"
  using assms(1)
proof induction
  case (handed_read d R1 buf n buf' R2)
  from released_read [OF assms(2,3) handed_read(3,2)] show ?case by simp
next
  case (handed_error d R1 buf e buf' R2)
  from released_read [OF assms(2,3) handed_error(3,2)] show ?case by simp
qed (rule assms(4))

lemma read_header_recorded:
  assumes "keeps_length rd" "read_header (recorded rd) s = Some (Ok H, s')"
  shows "length (header_bytes H) = 74" "snd s' = snd s @ header_bytes H"
proof -
  obtain n buf where buf: "read_fully (recorded rd) s (replicate 74 0) = Some (Ok n, buf, s')" "H = Header buf" "n = length buf"
    using assms(2) by (auto simp: read_header_def split: option.splits if_splits)
  show "length (header_bytes H) = 74" "snd s' = snd s @ header_bytes H"
    by (rule read_fully_recorded [OF assms(1) buf(1)]; use buf(2,3) in simp)+
qed

lemma DecryptReader_new_recorded:
  assumes "lawful E S" "keeps_length rd" "DecryptReader_new E (recorded rd) (r, []) key aad = Some (Ok R, s)"
  obtains d0 where "length (header_bytes (dr_header R)) = 74" "Decryptor_new E key aad (dr_header R) = Ok d0" "decryptor_at E d0 0"
    "released E S (header_bytes (dr_header R)) (ds_context (de_state d0)) [] R"
proof -
  obtain H s' where H: "read_header (recorded rd) (r, []) = Some (Ok H, s')"
    using assms(3) by (auto simp: DecryptReader_new_def bind_io_def split: option.splits rust.splits)
  then obtain d0 where d0: "Decryptor_new E key aad H = Ok d0" "R = DecryptReader_from_decryptor s' d0 H"
    using assms(3) by (auto simp: DecryptReader_new_def)
  note log = read_header_recorded [OF assms(2) H]
  have "decryptor_at E d0 0" by (rule Decryptor_new_at(2) [OF assms(1) log(1) d0(1)])
  note O = from_decryptor_open [OF this, of s' H]
  have "dr_header R = H" "snd (dr_inner R) = header_bytes H" using O(4) log(2) by (simp_all add: d0(2) DecryptReader_from_decryptor_def Let_def)
  moreover have "released E S (header_bytes H) (ds_context (de_state d0)) [] R"
    using calculation(2) O(1-3) runs_start unfolding released_def at_position_def d0(2)
    by (intro exI [of _ "[]"] exI [of _ "[]"] exI [of _ "[]"] exI [of _ "Some 0"]) auto
  ultimately show thesis using that d0(1) \<open>decryptor_at E d0 0\<close> log(1) by simp
qed

section \<open>Properties\<close>

text \<open>Recording changes nothing that a client of the source can see; a byte slice keeps the buffer's length.\<close>

lemma recorded_source:
  fixes rd :: "'a reader"
  assumes "byte_source rd yields patience"
  shows "byte_source (recorded rd) (\<lambda>s. yields (fst s)) (\<lambda>s. patience (fst s))"
proof
  fix s :: "'a \<times> bytes" and bs and buf :: bytes
  assume "yields (fst s) bs" "buf \<noteq> []"
  from byte_source.read_cases [OF assms this]
  show "(\<exists>n buf' s'. recorded rd s buf = Some (Ok n, buf', s') \<and> n \<le> length buf \<and> length buf' = length buf \<and>
       n \<le> length bs \<and> take n buf' = take n bs \<and> (n = 0 \<longrightarrow> bs = []) \<and> yields (fst s') (drop n bs)) \<or>
    (\<exists>e buf' s'. recorded rd s buf = Some (Err e, buf', s') \<and> io_kind e = Interrupted \<and> length buf' = length buf \<and>
       yields (fst s') bs \<and> patience (fst s') < patience (fst s))"
    by cases (auto simp: recorded_def)
qed

lemma slice_read_keeps_length: "keeps_length slice_read"
  by (auto simp: keeps_length_def slice_read_def Let_def)

lemma prefix_of_decryption:
  assumes "lawful E S" "length H = 74" "Decryptor_new E key aad (Header H) = Ok d0" "decryptor_at E d0 0"
    and "runs S (ds_context (de_state d0)) st c q" "prefix d q" "decrypt E key aad (H @ c @ rest) = Ok p"
  shows "prefix d p"
proof -
  have "parses S (ds_context (de_state d0)) 0 (c @ rest) p []"
    using assms(2,3,7) by (auto simp: decrypt_parses [OF assms(1)])
  from runs_parse [OF assms(5) lawfulD(1) [OF assms(1)] _ this] decryptor_at_params [OF assms(4)] assms(6)
  show ?thesis by (auto simp: prefix_def)
qed

text \<open>
  C9: Only authenticated plaintext is ever released. Whatever the wrapped reader does (short reads,
  errors, forged or truncated data, changing its mind), after any reads on an opened decrypting
  reader, errors included: the bytes taken from the source are the header, a run of authentic
  segments from the first one on and, only once the reader has failed, possibly more; what was
  delivered is the beginning of the plaintext of that run; and if what was taken is the beginning
  of any message that decrypts at all, what was delivered is the beginning of its plaintext.
\<close>

theorem released_plaintext_authentic:
  assumes "lawful E S" "keeps_length rd" "DecryptReader_new E (recorded rd) (r, []) key aad = Some (Ok R, s)"
    and "handed_over (DecryptReader_read E (recorded rd)) R d R'"
  shows "(\<exists>d0 c rest q st. Decryptor_new E key aad (dr_header R) = Ok d0 \<and>
      snd (dr_inner R') = header_bytes (dr_header R) @ c @ rest \<and> (dr_status R' \<noteq> DecryptFailed \<longrightarrow> rest = []) \<and>
      runs S (ds_context (de_state d0)) st c q \<and> prefix d q) \<and>
    (\<forall>more p. decrypt E key aad (snd (dr_inner R') @ more) = Ok p \<longrightarrow> prefix d p)"
proof -
  obtain d0 where d0: "length (header_bytes (dr_header R)) = 74" "Decryptor_new E key aad (dr_header R) = Ok d0" "decryptor_at E d0 0"
      "released E S (header_bytes (dr_header R)) (ds_context (de_state d0)) [] R"
    by (rule DecryptReader_new_recorded [OF assms(1-3)])
  from released_handed_over [OF assms(4,1,2) d0(4)] obtain c rest q st where
    c: "snd (dr_inner R') = header_bytes (dr_header R) @ c @ rest" "runs S (ds_context (de_state d0)) st c q" "prefix d q"
      "dr_status R' \<noteq> DecryptFailed \<longrightarrow> rest = []"
    unfolding released_def by blast
  have "prefix d p" if "decrypt E key aad (snd (dr_inner R') @ more) = Ok p" for more p
    using prefix_of_decryption [OF assms(1) d0(1) _ d0(3) c(2,3), of key aad "rest @ more"] d0(2) that c(1)
    by (cases "dr_header R") simp
  then show ?thesis using d0(2) c by blast
qed

theorem released_plaintext_authentic_witness:
  "\<exists>m R s d R' d0 c rest q st. DecryptReader_new toy_env (recorded slice_read) (m, []) (toy_key Provider_RING) [5] = Some (Ok R, s) \<and>
    handed_over (DecryptReader_read toy_env (recorded slice_read)) R d R' \<and> d \<noteq> [] \<and>
    Decryptor_new toy_env (toy_key Provider_RING) [5] (dr_header R) = Ok d0 \<and> snd (dr_inner R') = header_bytes (dr_header R) @ c @ rest \<and>
    runs toy_prims (ds_context (de_state d0)) st c q \<and> prefix d q"
proof -
  let ?rd = "recorded slice_read" and ?key = "toy_key Provider_RING"
  note src = recorded_source [OF slice_source.byte_source_axioms]
  obtain m where m: "decrypt toy_env ?key [5] m = Ok (replicate 70 9)" using toy_message by blast
  then obtain d where d: "74 \<le> length m" "Decryptor_new toy_env ?key [5] (Header (take 74 m)) = Ok d"
      "parses toy_prims (ds_context (de_state d)) 0 (drop 74 m) (replicate 70 9) []"
    using decrypt_parses [OF toy_lawful] by blast
  obtain R s where R: "DecryptReader_new toy_env ?rd (m, []) ?key [5] = Some (Ok R, s)"
      "decrypt_yields toy_env toy_prims (\<lambda>s. (=) (fst s)) [] R (replicate 70 9)"
    by (cases rule: byte_source.DecryptReader_new_cases [OF src toy_lawful, of "(m, [])" m ?key "[5]"])
      (use d in \<open>auto simp: decrypt_yields_def\<close>)
  have "\<exists>n out R'. DecryptReader_read toy_env ?rd R [0] = Some (Ok n, out, R') \<and> take n out \<noteq> []"
    by (cases rule: byte_source.read_cases [OF byte_source.decrypt_reader_source [OF src toy_lawful] R(2), of "[0]"]) auto
  then obtain n out R' where D: "DecryptReader_read toy_env ?rd R [0] = Some (Ok n, out, R')" "take n out \<noteq> []" by blast
  have del: "handed_over (DecryptReader_read toy_env ?rd) R (take n out) R'"
    using handed_over.handed_read [where rd = "DecryptReader_read toy_env ?rd", OF handed_over.handed_none D(1)] by simp
  show ?thesis
    using released_plaintext_authentic [OF toy_lawful slice_read_keeps_length R(1) del] R(1) del D(2) by blast
qed

end
