(* ===== verification/Floe_Sessions.thy ===== *)
theory Floe_Sessions
  imports Floe_Release
begin

text \<open>
  A caller's session of calls with a decrypting reader (src/io.rs): no call panics, and an error of the
  wrapped reader or of the message poisons the reader for good; over a well-behaved wrapped reader
  every session returns.
\<close>

section \<open>Any wrapped reader\<close>

text \<open>
  A reader that keeps to the contract of \<^verbatim>\<open>Read::read\<close>: the buffer it is lent keeps its length, it does
  not report more bytes than fit, and it does not panic. It may deliver anything, fail at any time,
  be interrupted forever, or not return.
\<close>

definition bounded_reads :: "'r reader \<Rightarrow> bool" where
  "bounded_reads rd \<longleftrightarrow> (\<forall>r buf res buf' r'. rd r buf = Some (res, buf', r') \<longrightarrow>
    length buf' = length buf \<and> res \<noteq> Panic \<and> (\<forall>n. res = Ok n \<longrightarrow> n \<le> length buf))"

lemma read_fully_loop_bounded:
  assumes "bounded_reads rd" "read_fully_loop rd r filled buf = Some y"
  shows "case y of (res, out, r') \<Rightarrow> length out = length filled + length buf \<and> res \<noteq> Panic"
proof -
  let ?Q = "\<lambda>filled buf y. case y of (res, out, r') \<Rightarrow> length out = length filled + length buf \<and> res \<noteq> Panic"
  have "rd = rd \<longrightarrow> ?Q filled buf y"
  proof (rule read_fully_loop.raw_induct [where P = "\<lambda>rd' r filled buf y. rd' = rd \<longrightarrow> ?Q filled buf y", OF _ assms(2)], rule impI)
    fix loop rd' r filled buf y
    assume IH: "\<And>rd' r filled buf y. loop rd' r filled buf = Some y \<Longrightarrow> rd' = rd \<longrightarrow> ?Q filled buf y"
      and rd': "rd' = rd"
      and step: "(if buf = [] then Some (Ok (length filled), filled, r)
        else case rd' r buf of None \<Rightarrow> None
          | Some (res, buf', r') \<Rightarrow>
              (case res of
                 Ok read \<Rightarrow>
                   if read = 0 then Some (Ok (length filled), filled @ buf', r')
                   else if length buf' < read then Some (Panic, filled @ buf', r')
                   else loop rd' r' (filled @ take read buf') (drop read buf')
               | Err e \<Rightarrow> if io_kind e = Interrupted then loop rd' r' filled buf' else Some (Err e, filled @ buf', r')
               | Panic \<Rightarrow> Some (Panic, filled @ buf', r'))) = Some y"
    show "?Q filled buf y"
    proof (cases "buf = []")
      case True
      then show ?thesis using step by auto
    next
      case False
      then obtain res buf' r' where r: "rd r buf = Some (res, buf', r')" using step by (auto simp: rd' split: option.splits)
      then have len: "length buf' = length buf" "res \<noteq> Panic" "\<And>n. res = Ok n \<Longrightarrow> n \<le> length buf"
        using assms(1) unfolding bounded_reads_def by blast+
      show ?thesis
      proof (cases res)
        case (Ok n)
        then have n: "n \<le> length buf" by (rule len(3))
        show ?thesis
        proof (cases "n = 0")
          case True
          then show ?thesis using step False r rd' Ok len by auto
        next
          case pos: False
          then have "loop rd r' (filled @ take n buf') (drop n buf') = Some y" using step False r rd' Ok n len by simp
          from IH [OF this] show ?thesis using n len by auto
        qed
      next
        case (Err e)
        then show ?thesis using step False r rd' len IH [of rd r' filled buf' y] by (cases "io_kind e = Interrupted") auto
      qed (use len in simp)
    qed
  qed
  then show ?thesis by simp
qed

lemma read_fully_bounded:
  assumes "bounded_reads rd" "read_fully rd r buf = Some (res, out, r')"
  shows "length out = length buf" "res \<noteq> Panic"
  using read_fully_loop_bounded [OF assms(1) assms(2) [unfolded read_fully_def]] by simp_all

lemma fetch_bounded:
  assumes "bounded_reads rd" "buffer_ok (dr_buffer R)" "DecryptReader_fetch_segment rd R = Some (res, R')"
  obtains inner B where "R' = R\<lparr> dr_inner := inner, dr_buffer := B \<rparr>" "res \<noteq> Panic"
    "\<And>F. res = Ok F \<Longrightarrow> \<exists>seg. holds_segment (sb_parameters (dr_buffer R)) F B seg"
proof -
  have len: "\<forall>r buf res out r'. read_fully rd r buf = Some (res, out, r') \<longrightarrow> length out = length buf"
    using read_fully_bounded(1) [OF assms(1)] by blast
  show thesis
  proof (cases rule: fetch_reads [OF len assms(2,3)])
    case (1 res1 pre inner)
    then show thesis using that [OF 1(2)] read_fully_bounded(2) [OF assms(1)] by blast
  next
    case (2 F pre i1 buf res2 remainder inner B)
    then show thesis using that [OF 2(3)] read_fully_bounded(2) [OF assms(1)] by blast
  qed
qed

text \<open>
  The invariant of a reader that has not failed, whatever it wraps, and what a call leaves behind.
\<close>

definition usable :: "'x env \<Rightarrow> ('x, 'r) DecryptReader \<Rightarrow> bool" where
  "usable E R \<longleftrightarrow> decrypt_reader_ok R \<and> (message_complete (dr_status R) \<or> (\<exists>d i. decrypt_open E R d i))"

fun leaves_usable :: "'x env \<Rightarrow> 'a io_result \<Rightarrow> ('x, 'r) DecryptReader \<Rightarrow> bool" where
  "leaves_usable E (Ok x) R = usable E R"
| "leaves_usable E (Err e) R = (dr_status R = DecryptFailed)"
| "leaves_usable E Panic R = False"

lemma usable_advanced: "decrypt_reader_ok R \<Longrightarrow> decrypt_advanced E C i kind R \<Longrightarrow> usable E R"
  by (cases kind) (auto simp: usable_def decrypt_advanced_def message_complete_def)

lemma load_usable:
  assumes "lawful E S" "bounded_reads rd" "decrypt_reader_ok R" "decrypt_open E R d i" "DecryptReader_load_segment E rd R = Some (res, R')"
  shows "leaves_usable E res R'"
proof -
  note unf = DecryptReader_load_segment_def DecryptReader_try_load_segment_def
  have B: "buffer_ok (dr_buffer R)" using assms(3) by (simp add: decrypt_reader_ok_def)
  obtain r R1 where fetch: "DecryptReader_fetch_segment rd R = Some (r, R1)"
    using assms(5) by (cases "DecryptReader_fetch_segment rd R") (auto simp: unf)
  obtain inner B' where F: "R1 = R\<lparr> dr_inner := inner, dr_buffer := B' \<rparr>" "r \<noteq> Panic"
      "\<And>F. r = Ok F \<Longrightarrow> \<exists>seg. holds_segment (sb_parameters (dr_buffer R)) F B' seg"
    by (rule fetch_bounded [OF assms(2) B fetch]) blast
  show ?thesis
  proof (cases r)
    case (Ok G)
    then obtain seg where H: "holds_segment (sb_parameters (dr_buffer R)) G B' seg" using F(3) by blast
    show ?thesis
      by (cases rule: fetched_load [OF assms(1,4) fetch [unfolded Ok F(1)] H])
        (use assms(5) usable_advanced in auto)
  next
    case (Err e)
    then show ?thesis using assms(5) fetch by (auto simp: unf)
  qed (use F(2) in simp)
qed

lemma read_usable:
  assumes "lawful E S" "bounded_reads rd" "usable E R" "out \<noteq> []" "DecryptReader_read E rd R out = Some (res, out', R')"
  shows "leaves_usable E res R'"
proof -
  have ok: "decrypt_reader_ok R" using assms(3) by (simp add: usable_def)
  then have B: "buffer_ok (dr_buffer R)" by (simp add: decrypt_reader_ok_def)
  have st: "dr_status R \<noteq> DecryptFailed" using assms(3) by (auto simp: usable_def decrypt_open_def message_complete_def)
  show ?thesis
  proof (cases "dr_plaintext_consumed R = dr_plaintext_available R")
    case False
    obtain n out1 R1 where D: "DecryptReader_read E rd R out = Some (Ok n, out1, R1)" "decrypt_reader_ok R1" "dr_status R1 = dr_status R"
        "\<And>d i. decrypt_open E R d i \<Longrightarrow> decrypt_open E R1 d i"
      by (rule decrypt_read_pending [OF ok st assms(4) False]) blast
    then show ?thesis using assms(3,5) by (auto simp: usable_def)
  next
    case eq: True
    show ?thesis
    proof (cases "message_complete (dr_status R)")
      case True
      then show ?thesis using assms(3-5) eq st by (auto simp: DecryptReader_read_def)
    next
      case False
      then obtain d i where o: "decrypt_open E R d i" using assms(3) by (auto simp: usable_def)
      note FF = fetch_failed_read [where rd = rd, OF o assms(4) eq]
      obtain r R1 where fetch: "DecryptReader_fetch_segment rd R = Some (r, R1)"
        using FF(3) assms(5) by (cases "DecryptReader_fetch_segment rd R") auto
      obtain inner B' where F: "R1 = R\<lparr> dr_inner := inner, dr_buffer := B' \<rparr>" "r \<noteq> Panic"
          "\<And>F. r = Ok F \<Longrightarrow> \<exists>seg. holds_segment (sb_parameters (dr_buffer R)) F B' seg"
        by (rule fetch_bounded [OF assms(2) B fetch]) blast
      show ?thesis
      proof (cases r)
        case (Ok G)
        then obtain seg where H: "holds_segment (sb_parameters (dr_buffer R)) G B' seg" using F(3) by blast
        show ?thesis
          by (cases rule: fetched_read [OF assms(1) o fetch [unfolded Ok F(1)] H assms(4) eq])
            (use assms(5) usable_advanced in auto)
      next
        case (Err e)
        then show ?thesis using FF(1) fetch assms(5) by simp
      qed (use F(2) in simp)
    qed
  qed
qed

lemma drain_loop_usable:
  assumes "lawful E S" "bounded_reads rd" "DecryptReader_drain_loop E rd R = Some y" "usable E R"
  shows "leaves_usable E (fst y) (snd y)"
proof -
  have "(E, rd) = (E, rd) \<longrightarrow> usable E R \<longrightarrow> leaves_usable E (fst y) (snd y)"
  proof (rule DecryptReader_drain_loop.raw_induct [where P = "\<lambda>E' rd' R y. (E', rd') = (E, rd) \<longrightarrow> usable E R \<longrightarrow> leaves_usable E (fst y) (snd y)",
        OF _ assms(3)], intro impI)
    fix loop E' rd' R y
    assume IH: "\<And>E' rd' R y. loop E' rd' R = Some y \<Longrightarrow> (E', rd') = (E, rd) \<longrightarrow> usable E R \<longrightarrow> leaves_usable E (fst y) (snd y)"
      and eq: "(E', rd') = (E, rd)" and us: "usable E R"
      and step: "(if dr_status R \<noteq> DecryptOpen then Some (Ok (), R)
        else case DecryptReader_load_segment E' rd' R of None \<Rightarrow> None
          | Some (r, R') \<Rightarrow>
              (case r of
                 Ok _ \<Rightarrow> loop E' rd' (R'\<lparr> dr_plaintext_consumed := dr_plaintext_available R' \<rparr>)
               | Err e \<Rightarrow> Some (Err e, R')
               | Panic \<Rightarrow> Some (Panic, R'))) = Some y"
    show "leaves_usable E (fst y) (snd y)"
    proof (cases "dr_status R = DecryptOpen")
      case False
      then show ?thesis using step us by auto
    next
      case True
      then obtain d i where o: "decrypt_open E R d i" using us by (auto simp: usable_def message_complete_def)
      obtain r R' where load: "DecryptReader_load_segment E rd R = Some (r, R')" using step True eq by (auto split: option.splits)
      have l: "leaves_usable E r R'" using load_usable [OF assms(1,2) _ o load] us by (simp add: usable_def)
      show ?thesis
      proof (cases r)
        case (Ok u)
        then have "usable E (R'\<lparr> dr_plaintext_consumed := dr_plaintext_available R' \<rparr>)"
          using l by (auto simp: usable_def decrypt_reader_ok_def decrypt_open_def)
        then show ?thesis using step True eq load Ok IH by auto
      qed (use step True eq load l in auto)
    qed
  qed
  then show ?thesis using assms(4) by simp
qed

section \<open>Sessions\<close>

text \<open>
  A caller's session with a decrypting reader: any sequence of reads and finalizations, in any order,
  between which the caller may put any reader in the place of the wrapped one (\<open>get_mut\<close>).
\<close>

datatype 'r DecryptCall = CallRead bytes | CallFinish | CallFinishFrame | CallGetMut 'r

fun decrypt_call ::
  "'x env \<Rightarrow> 'r reader \<Rightarrow> 'r DecryptCall \<Rightarrow> ('x, 'r) DecryptReader \<Rightarrow> (unit io_result \<times> ('x, 'r) DecryptReader) option" where
  "decrypt_call E rd (CallRead out) R =
    (case DecryptReader_read E rd R out of None \<Rightarrow> None | Some (r, out', R') \<Rightarrow> Some (map_ok (\<lambda>_. ()) r, R'))"
| "decrypt_call E rd CallFinish R = DecryptReader_try_finish E rd R"
| "decrypt_call E rd CallFinishFrame R = DecryptReader_try_finish_frame E rd R"
| "decrypt_call E rd (CallGetMut r) R = Some (Ok (), snd (DecryptReader_get_mut R) r)"

fun decrypt_session ::
  "'x env \<Rightarrow> 'r reader \<Rightarrow> 'r DecryptCall list \<Rightarrow> ('x, 'r) DecryptReader \<Rightarrow>
   (unit io_result list \<times> ('x, 'r) DecryptReader) option" where
  "decrypt_session E rd [] R = Some ([], R)"
| "decrypt_session E rd (call # calls) R =
    (case decrypt_call E rd call R of
       None \<Rightarrow> None
     | Some (r, R') \<Rightarrow>
        (case decrypt_session E rd calls R' of
           None \<Rightarrow> None
         | Some (rs, R'') \<Rightarrow> Some (r # rs, R'')))"

text \<open>
  What the calls of a session return: they succeed up to the first error, and from then on every call
  returns the poisoned-stream error, apart from empty reads and \<open>get_mut\<close>, which never fail.
\<close>

fun poisoned_answer :: "'r DecryptCall \<Rightarrow> unit io_result" where
  "poisoned_answer (CallRead out) = (if out = [] then Ok () else Err poisoned_error)"
| "poisoned_answer (CallGetMut r) = Ok ()"
| "poisoned_answer _ = Err poisoned_error"

fun answered :: "'r DecryptCall list \<Rightarrow> unit io_result list \<Rightarrow> bool" where
  "answered [] rs \<longleftrightarrow> rs = []"
| "answered (call # calls) [] \<longleftrightarrow> False"
| "answered (call # calls) (r # rs) \<longleftrightarrow>
    (case r of Ok _ \<Rightarrow> answered calls rs | Err e \<Rightarrow> rs = map poisoned_answer calls | Panic \<Rightarrow> False)"

lemma decrypt_call_failed:
  assumes "dr_status R = DecryptFailed"
  shows "\<exists>R'. decrypt_call E rd call R = Some (poisoned_answer call, R') \<and> dr_status R' = DecryptFailed"
proof (cases call)
  case (CallRead out)
  then show ?thesis using assms by (auto simp: DecryptReader_read_def)
qed (use assms in \<open>auto simp: DecryptReader_try_finish_def DecryptReader_try_finish_frame_def DecryptReader_drain_message_def
    DecryptReader_drain_loop.simps DecryptReader_get_mut_def Let_def\<close>)

lemma decrypt_session_failed:
  assumes "dr_status R = DecryptFailed"
  shows "\<exists>R'. decrypt_session E rd calls R = Some (map poisoned_answer calls, R') \<and> dr_status R' = DecryptFailed"
  using assms
proof (induction calls arbitrary: R)
  case (Cons call calls)
  obtain R1 where "decrypt_call E rd call R = Some (poisoned_answer call, R1)" "dr_status R1 = DecryptFailed"
    using decrypt_call_failed [OF Cons.prems] by blast
  then show ?case using Cons.IH [of R1] by auto
qed simp

lemma drain_message_usable:
  assumes "lawful E S" "bounded_reads rd" "usable E R" "DecryptReader_drain_message E rd R = Some (res, R')"
  shows "leaves_usable E res R'"
proof -
  let ?R = "R\<lparr> dr_plaintext_consumed := dr_plaintext_available R \<rparr>"
  have u: "usable E ?R" using assms(3) by (auto simp: usable_def decrypt_reader_ok_def decrypt_open_def)
  obtain r R1 where loop: "DecryptReader_drain_loop E rd ?R = Some (r, R1)"
    using assms(4) by (cases "DecryptReader_drain_loop E rd ?R") (auto simp: DecryptReader_drain_message_def)
  have l: "leaves_usable E r R1" using drain_loop_usable [OF assms(1,2) loop u] by simp
  show ?thesis
  proof (cases r)
    case (Ok x)
    then have "dr_status R1 \<noteq> DecryptFailed" using l by (auto simp: usable_def decrypt_open_def message_complete_def)
    then show ?thesis using assms(4) loop l Ok by (auto simp: DecryptReader_drain_message_def)
  qed (use assms(4) loop l in \<open>auto simp: DecryptReader_drain_message_def\<close>)
qed

lemma try_finish_usable:
  assumes "lawful E S" "bounded_reads rd" "usable E R" "DecryptReader_try_finish E rd R = Some (res, R')"
  shows "leaves_usable E res R'"
proof (cases "dr_status R = StreamComplete")
  case True
  then show ?thesis using assms(3,4) by (auto simp: DecryptReader_try_finish_def)
next
  case False
  obtain r R1 where drain: "DecryptReader_drain_message E rd R = Some (r, R1)"
    using assms(4) False by (cases "DecryptReader_drain_message E rd R") (auto simp: DecryptReader_try_finish_def)
  have l: "leaves_usable E r R1" by (rule drain_message_usable [OF assms(1-3) drain])
  show ?thesis
  proof (cases r)
    case (Ok x)
    then obtain r2 trailing inner where rf: "read_fully rd (dr_inner R1) [0] = Some (r2, trailing, inner)"
      using assms(4) False drain by (auto simp: DecryptReader_try_finish_def split: option.splits)
    have "r2 \<noteq> Panic" by (rule read_fully_bounded(2) [OF assms(2) rf])
    then show ?thesis using assms(4) False drain Ok rf l
      by (cases r2) (auto simp: DecryptReader_try_finish_def Let_def usable_def decrypt_reader_ok_def message_complete_def split: if_splits)
  qed (use assms(4) False drain l in \<open>auto simp: DecryptReader_try_finish_def\<close>)
qed

lemma call_usable:
  assumes "lawful E S" "bounded_reads rd" "usable E R" "decrypt_call E rd call R = Some (res, R')"
  shows "leaves_usable E res R'"
proof (cases call)
  case (CallRead out)
  show ?thesis
  proof (cases "out = []")
    case True
    then show ?thesis using CallRead assms(3,4) by (auto simp: DecryptReader_read_def)
  next
    case False
    obtain r out' where r: "DecryptReader_read E rd R out = Some (r, out', R')" "res = map_ok (\<lambda>_. ()) r"
      using assms(4) CallRead by (auto split: option.splits)
    from read_usable [OF assms(1-3) False r(1)] show ?thesis using r(2) by (cases r) auto
  qed
next
  case (CallGetMut r)
  then show ?thesis using assms(3,4)
    by (auto simp: DecryptReader_get_mut_def Let_def usable_def decrypt_reader_ok_def decrypt_open_def message_complete_def)
qed (use assms(4) try_finish_usable [OF assms(1-3)] drain_message_usable [OF assms(1-3)] in \<open>auto simp: DecryptReader_try_finish_frame_def\<close>)

lemma session_answered:
  assumes "lawful E S" "bounded_reads rd" "usable E R" "decrypt_session E rd calls R = Some (rs, R')"
  shows "answered calls rs"
  using assms(3,4)
proof (induction calls arbitrary: R rs)
  case (Cons call calls)
  obtain r R1 rs1 where r: "decrypt_call E rd call R = Some (r, R1)" "decrypt_session E rd calls R1 = Some (rs1, R')" "rs = r # rs1"
    using Cons.prems(2) by (auto split: option.splits)
  have l: "leaves_usable E r R1" by (rule call_usable [OF assms(1,2) Cons.prems(1) r(1)])
  show ?case
  proof (cases r)
    case (Ok u)
    then show ?thesis using Cons.IH [OF _ r(2)] l r(3) by simp
  next
    case (Err e)
    then have "rs1 = map poisoned_answer calls" using decrypt_session_failed [of R1 E rd calls] l r(2) by auto
    then show ?thesis using Err r(3) by simp
  qed (use l in simp)
qed simp

lemma DecryptReader_new_usable:
  assumes "lawful E S" "bounded_reads rd" "DecryptReader_new E rd r key aad = Some (res, r')"
  shows "res \<noteq> Panic \<and> (\<forall>R. res = Ok R \<longrightarrow> usable E R)"
proof -
  obtain r1 buf i1 where rf: "read_fully rd r (replicate 74 0) = Some (r1, buf, i1)"
    using assms(3) by (cases "read_fully rd r (replicate 74 0)") (auto simp: DecryptReader_new_def read_header_def)
  note B = read_fully_bounded [OF assms(2) rf]
  show ?thesis
  proof (cases "r1 = Ok 74")
    case False
    then have "\<exists>e. res = Err e" using assms(3) rf B
      by (cases r1) (auto simp: DecryptReader_new_def read_header_def)
    then show ?thesis by auto
  next
    case True
    have len: "length (header_bytes (Header buf)) = 74" using B(1) by simp
    have H: "read_header rd r = Some (Ok (Header buf), i1)" using rf True B(1) by (simp add: read_header_def)
    show ?thesis
    proof (cases "Decryptor_new E key aad (Header buf)")
      case (Ok d)
      have "decryptor_at E d 0" by (rule Decryptor_new_at(2) [OF assms(1) len Ok])
      note O = from_decryptor_open [OF this, of i1 "Header buf"]
      have "res = Ok (DecryptReader_from_decryptor i1 d (Header buf))" using assms(3) H Ok by (auto simp: DecryptReader_new_def)
      then show ?thesis using O by (auto simp: usable_def)
    next
      case (Err e)
      then show ?thesis using assms(3) H by (auto simp: DecryptReader_new_def)
    next
      case Panic
      then show ?thesis using Decryptor_new_at(1) [OF assms(1) len] by blast
    qed
  qed
qed

context byte_source begin

lemma drain_message_complete:
  assumes "DecryptReader_drain_message E rd R = Some (Ok u, R')" "dr_status R' = StreamComplete"
    "lawful E S" "decrypt_live E yields R"
  shows "yields (dr_inner R') []"
proof (cases "message_complete (dr_status R)")
  case True
  then have "R' = R\<lparr> dr_plaintext_consumed := dr_plaintext_available R \<rparr>"
    using assms(1) by (auto simp: DecryptReader_drain_message_def DecryptReader_drain_loop.simps message_complete_def)
  then show ?thesis using assms(2,4) by (simp add: decrypt_live_def)
next
  case False
  let ?R = "R\<lparr> dr_plaintext_consumed := dr_plaintext_available R \<rparr>"
  obtain c d i where live: "decrypt_reader_ok R" "yields (dr_inner R) c" "decrypt_open E R d i"
    using assms(4) False by (auto simp: decrypt_live_def)
  then have ok: "decrypt_reader_ok ?R" "decrypt_open E ?R d i" "yields (dr_inner ?R) c"
    by (auto simp: decrypt_reader_ok_def decrypt_open_def)
  show ?thesis
    by (cases rule: drain_loop_cases [OF assms(3) ok]) (use assms(1,2) in \<open>auto simp: DecryptReader_drain_message_def\<close>)
qed

lemma decrypt_call_live:
  assumes "lawful E S" "decrypt_live E yields R" "\<forall>r. call = CallGetMut r \<longrightarrow> (\<exists>c. yields r c)"
  obtains (accepted) R' where "decrypt_call E rd call R = Some (Ok (), R')" "decrypt_live E yields R'"
    | (refused) e R' where "decrypt_call E rd call R = Some (Err e, R')" "dr_status R' = DecryptFailed"
proof (cases call)
  case (CallRead out)
  show thesis
  proof (cases "out = []")
    case True
    then show thesis using accepted CallRead assms(2) by (simp add: DecryptReader_read_def)
  next
    case False
    from decrypt_read_step [OF assms(1,2) False] show thesis
      using accepted refused CallRead by (auto split: option.splits prod.splits rust.splits)
  qed
next
  case CallFinish
  from try_finish_live [OF assms(1,2)] obtain r R' where r: "DecryptReader_try_finish E rd R = Some (r, R')"
    by (cases "DecryptReader_try_finish E rd R") auto
  show thesis
  proof (cases r)
    case (Ok u)
    have "decrypt_live E yields R'"
    proof (cases "dr_status R = StreamComplete")
      case True
      then show ?thesis using r assms(2) by (simp add: DecryptReader_try_finish_def)
    next
      case False
      obtain R1 trailing inner where R1: "DecryptReader_drain_message E rd R = Some (Ok (), R1)"
          "read_fully rd (dr_inner R1) [0] = Some (Ok 0, trailing, inner)"
          "R' = R1\<lparr> dr_inner := inner, dr_status := StreamComplete \<rparr>"
        using r Ok False
        by (auto simp: DecryptReader_try_finish_def Let_def bind_io_def split: option.splits prod.splits rust.splits if_splits)
      obtain tail where tail: "yields (dr_inner R1) tail" "decrypt_reader_ok R1"
        using drain_message_live [OF assms(1,2)] R1(1) by auto
      have "tail = []"
      proof (rule ccontr)
        assume "tail \<noteq> []"
        then have "length [0 :: u8] \<le> length tail" by (cases tail) auto
        from read_fully_enough [OF tail(1) this] show False using R1(2) by auto
      qed
      then have lt: "length tail < length [0 :: u8]" by simp
      have "yields inner []" by (rule read_fully_short [OF tail(1) lt]) (use R1(2) in auto)
      then show ?thesis using tail(2) by (auto simp: R1(3) decrypt_live_def decrypt_reader_ok_def message_complete_def)
    qed
    then show thesis using accepted CallFinish r Ok by simp
  qed (use refused CallFinish r try_finish_live [OF assms(1,2)] in auto)
next
  case CallFinishFrame
  from drain_message_live [OF assms(1,2)] obtain r R' where r: "DecryptReader_drain_message E rd R = Some (r, R')"
    by (cases "DecryptReader_drain_message E rd R") auto
  show thesis
  proof (cases r)
    case (Ok u)
    then have "decrypt_live E yields R'"
      using drain_message_live [OF assms(1,2)] drain_message_complete [OF _ _ assms(1,2)] r by (auto simp: decrypt_live_def)
    then show thesis using accepted CallFinishFrame r Ok by (simp add: DecryptReader_try_finish_frame_def)
  qed (use refused CallFinishFrame r drain_message_live [OF assms(1,2)] in \<open>auto simp: DecryptReader_try_finish_frame_def\<close>)
next
  case (CallGetMut r)
  then obtain c where "yields r c" using assms(3) by blast
  then have "decrypt_live E yields (snd (DecryptReader_get_mut R) r)"
    using assms(2) by (auto simp: decrypt_live_def DecryptReader_get_mut_def Let_def decrypt_reader_ok_def decrypt_open_def message_complete_def)
  then show thesis using accepted CallGetMut by simp
qed

lemma session_live:
  assumes "lawful E S" "decrypt_live E yields R" "\<forall>r. CallGetMut r \<in> set calls \<longrightarrow> (\<exists>c. yields r c)"
  shows "\<exists>rs R'. decrypt_session E rd calls R = Some (rs, R') \<and> answered calls rs"
  using assms(2,3)
proof (induction calls arbitrary: R)
  case (Cons call calls)
  have replaced: "\<forall>r. call = CallGetMut r \<longrightarrow> (\<exists>c. yields r c)" using Cons.prems(2) by simp
  show ?case
  proof (cases rule: decrypt_call_live [OF assms(1) Cons.prems(1) replaced])
    case (1 R1)
    then show ?thesis using Cons.IH [OF 1(2)] Cons.prems(2) by fastforce
  next
    case (2 e R1)
    then show ?thesis using decrypt_session_failed [OF 2(2), of E rd calls] by auto
  qed
qed simp

end

section \<open>Properties\<close>

text \<open>
  C17: Sessions with a decrypting reader: reads with buffers of any sizes and finalizations, in any order,
  between which the caller may also put any reader in the place of the wrapped one. Over any wrapped
  reader that keeps to the contract of \<^verbatim>\<open>Read::read\<close> (it does not change the length of the buffer, report
  more bytes than fit, or panic; it may deliver anything, fail at any time, or never return): neither
  opening nor a call panics, and if the calls of a session return, they succeed up to the first error,
  of the wrapped reader's or of the message's, and from then on every call returns the poisoned-stream
  error, apart from empty reads and replacing the wrapped reader, which never fail. Over a wrapped
  reader that does not fail and is interrupted only finitely often in a row, whatever it delivers,
  opening and every session also return.
\<close>

theorem decrypt_sessions_terminate:
  assumes "lawful E S"
  shows "(bounded_reads rd \<longrightarrow>
      (\<forall>res r'. DecryptReader_new E rd r key aad = Some (res, r') \<longrightarrow> res \<noteq> Panic \<and>
        (\<forall>R rs R'. res = Ok R \<longrightarrow> decrypt_session E rd calls R = Some (rs, R') \<longrightarrow> answered calls rs))) \<and>
    (byte_source rd yields patience \<and> yields r c \<and> (\<forall>s. CallGetMut s \<in> set calls \<longrightarrow> (\<exists>c. yields s c)) \<longrightarrow>
      (\<exists>res r'. DecryptReader_new E rd r key aad = Some (res, r') \<and> res \<noteq> Panic \<and>
        (\<forall>R. res = Ok R \<longrightarrow> (\<exists>rs R'. decrypt_session E rd calls R = Some (rs, R') \<and> answered calls rs))))"
proof (intro conjI impI allI)
  fix res r'
  assume "bounded_reads rd" "DecryptReader_new E rd r key aad = Some (res, r')"
  note U = DecryptReader_new_usable [OF assms this]
  then show "res \<noteq> Panic" by simp
  show "answered calls rs" if "res = Ok R" "decrypt_session E rd calls R = Some (rs, R')" for R rs R'
    using session_answered [OF assms \<open>bounded_reads rd\<close> _ that(2)] U that(1) by simp
next
  assume A: "byte_source rd yields patience \<and> yields r c \<and> (\<forall>s. CallGetMut s \<in> set calls \<longrightarrow> (\<exists>c. yields s c))"
  then have src: "byte_source rd yields patience" and y: "yields r c" by simp_all
  show "\<exists>res r'. DecryptReader_new E rd r key aad = Some (res, r') \<and> res \<noteq> Panic \<and>
      (\<forall>R. res = Ok R \<longrightarrow> (\<exists>rs R'. decrypt_session E rd calls R = Some (rs, R') \<and> answered calls rs))"
  proof (cases rule: byte_source.DecryptReader_new_cases [OF src assms y, of key aad])
    case (2 d R r')
    then have live: "decrypt_live E yields R" by (auto simp: decrypt_live_def decrypt_open_def)
    show ?thesis using byte_source.session_live [OF src assms live, of calls] A 2(1) by auto
  qed auto
qed

text \<open>A reader that delivers its bytes and then fails, as a broken connection does.\<close>

definition broken_read :: "bytes reader" where
  "broken_read r buf = (if r = [] then Some (Err (IoError BrokenPipe (ForeignSource 0)), buf, r) else slice_read r buf)"

lemma broken_read_bounded: "bounded_reads broken_read"
  by (auto simp: bounded_reads_def broken_read_def slice_read_def Let_def split: if_splits)

lemma toy_opens:
  obtains c d R r' where "Decryptor_new toy_env (toy_key Provider_RING) [5] (Header (take 74 c)) = Ok d" "74 \<le> length c"
    "DecryptReader_new toy_env slice_read c (toy_key Provider_RING) [5] = Some (Ok R, r')"
proof -
  obtain c where "decrypt toy_env (toy_key Provider_RING) [5] c = Ok (replicate 70 9)" using toy_message by blast
  then obtain d where d: "74 \<le> length c" "Decryptor_new toy_env (toy_key Provider_RING) [5] (Header (take 74 c)) = Ok d"
    using decrypt_parses [OF toy_lawful] by blast
  show thesis
    by (cases rule: byte_source.DecryptReader_new_cases [OF slice_source.byte_source_axioms toy_lawful refl, of c "toy_key Provider_RING" "[5]"])
      (use d that in auto)
qed

definition toy_calls :: "bytes DecryptCall list" where
  "toy_calls = [CallRead [0], CallGetMut [7], CallFinish, CallFinish]"

theorem decrypt_sessions_terminate_witness:
  "\<exists>c R r'. DecryptReader_new toy_env broken_read c (toy_key Provider_RING) [5] = Some (Ok R, r') \<and>
    (\<forall>rs R'. decrypt_session toy_env broken_read toy_calls R = Some (rs, R') \<longrightarrow>
      answered toy_calls rs) \<and>
    (\<exists>R r' rs R'. DecryptReader_new toy_env slice_read c (toy_key Provider_RING) [5] = Some (Ok R, r') \<and>
      decrypt_session toy_env slice_read toy_calls R = Some (rs, R') \<and>
      answered toy_calls rs)"
proof -
  obtain c d R r' where R: "Decryptor_new toy_env (toy_key Provider_RING) [5] (Header (take 74 c)) = Ok d" "74 \<le> length c"
      "DecryptReader_new toy_env slice_read c (toy_key Provider_RING) [5] = Some (Ok R, r')"
    by (rule toy_opens)
  have "read_fully broken_read c (replicate 74 0) = Some (Ok 74, take 74 c, drop 74 c)"
    using R(2) by (auto simp: read_fully_def read_fully_loop.simps broken_read_def slice_read_def splice_def Let_def)
  then obtain R0 r0 where R0: "DecryptReader_new toy_env broken_read c (toy_key Provider_RING) [5] = Some (Ok R0, r0)"
    using R(1,2) by (auto simp: DecryptReader_new_def read_header_def)
  have "answered toy_calls rs" if "decrypt_session toy_env broken_read toy_calls R0 = Some (rs, R')" for rs R'
      using conjunct2 [OF mp [OF spec [OF spec [OF mp [OF conjunct1 [OF
          decrypt_sessions_terminate [where calls = toy_calls, OF toy_lawful]] broken_read_bounded]]] R0]] that
      by blast
  moreover have "\<exists>R r' rs R'. DecryptReader_new toy_env slice_read c (toy_key Provider_RING) [5] = Some (Ok R, r') \<and>
        decrypt_session toy_env slice_read toy_calls R = Some (rs, R') \<and>
        answered toy_calls rs"
      using mp [OF conjunct2 [OF decrypt_sessions_terminate [OF toy_lawful]] conjI [OF slice_source.byte_source_axioms conjI [OF refl]],
          of toy_calls c "toy_key Provider_RING" "[5]"] R(3) by (fastforce)
  ultimately show ?thesis using R0 by blast
qed

end
