(* ===== verification/Floe_Seals.thy ===== *)
theory Floe_Seals
  imports Floe_Io
begin

text \<open>
  What an encryptor writes segment by segment: the relation \<open>seals\<close> between a plaintext and its
  segments under the nonces of a generator, that one-shot encryption writes such a sequence, and the
  in-place operations of the encryptor (src/online.rs) in these terms. The encrypting reader and
  writer of src/io.rs are verified over it.
\<close>

section \<open>The segments an encryptor writes\<close>

text \<open>
  \<open>seals E S C strict g i p c\<close>: with the nonces the generator \<open>g\<close> hands out, \<open>c\<close> is a sequence of
  segments of the plaintext \<open>p\<close> from position \<open>i\<close> to the final one. When \<open>strict\<close> holds the final
  segment is empty only if nothing is left to seal, so that \<open>p\<close> determines its segments.
\<close>

inductive seals ::
  "'x env \<Rightarrow> prims \<Rightarrow> MessageContext \<Rightarrow> bool \<Rightarrow> 'x NonceGenerator \<Rightarrow> nat \<Rightarrow> bytes \<Rightarrow> bytes \<Rightarrow> bool"
  for E S C strict where
  seals_final: "NonceGenerator_next E g = (Ok nonce, g') \<Longrightarrow> length nonce = 12 \<Longrightarrow> length p \<le> psl (mc_parameters C) \<Longrightarrow>
    i < 2 ^ 40 \<Longrightarrow> seals E S C strict g i p (floe_segment S C (word_of_nat i) Final nonce p)"
| seals_more: "NonceGenerator_next E g = (Ok nonce, g') \<Longrightarrow> length nonce = 12 \<Longrightarrow> length p = psl (mc_parameters C) \<Longrightarrow>
    (strict \<Longrightarrow> q \<noteq> []) \<Longrightarrow> i \<noteq> 2 ^ 40 - 1 \<Longrightarrow> seals E S C strict g' (Suc i) q c \<Longrightarrow>
    seals E S C strict g i (p @ q) (floe_segment S C (word_of_nat i) NonFinal nonce p @ c)"

lemma seals_position: "seals E S C strict g i p c \<Longrightarrow> i < 2 ^ 40"
  by (induction rule: seals.induct) auto

lemma seals_lax: "seals E S C strict g i p c \<Longrightarrow> seals E S C False g i p c"
  by (induction rule: seals.induct) (auto intro: seals.intros)

lemma seals_cases:
  assumes "seals E S C True g i p c" "0 < psl (mc_parameters C)"
  obtains (last) nonce g' where "length p \<le> psl (mc_parameters C)" "NonceGenerator_next E g = (Ok nonce, g')" "length nonce = 12"
      "c = floe_segment S C (word_of_nat i) Final nonce p"
    | (more) nonce g' c' where "psl (mc_parameters C) < length p" "NonceGenerator_next E g = (Ok nonce, g')" "length nonce = 12"
      "i \<noteq> 2 ^ 40 - 1" "seals E S C True g' (Suc i) (drop (psl (mc_parameters C)) p) c'"
      "c = floe_segment S C (word_of_nat i) NonFinal nonce (take (psl (mc_parameters C)) p) @ c'"
  using assms(1)
proof (cases rule: seals.cases)
  case (seals_final nonce g')
  then show thesis using last by blast
next
  case (seals_more nonce g' p' q c')
  then show thesis using more [of nonce g' c'] by (auto simp: neq_Nil_conv)
qed

lemma seals_unique: "seals E S C True g i p c \<Longrightarrow> seals E S C True g i p c' \<Longrightarrow> 0 < psl (mc_parameters C) \<Longrightarrow> c' = c"
proof (induction arbitrary: c' rule: seals.induct)
  case (seals_final g nonce g' p i)
  show ?case by (rule seals_cases [OF seals_final(5,6)]) (use seals_final in auto)
next
  case (seals_more g nonce g' p q i c)
  have len: "psl (mc_parameters C) < length (p @ q)" using seals_more(3,4) by simp
  show ?case
  proof (rule seals_cases [OF seals_more(8,9)])
    fix nonce1 g1 c1
    assume *: "NonceGenerator_next E g = (Ok nonce1, g1)" "seals E S C True g1 (Suc i) (drop (psl (mc_parameters C)) (p @ q)) c1"
      "c' = floe_segment S C (word_of_nat i) NonFinal nonce1 (take (psl (mc_parameters C)) (p @ q)) @ c1"
    then have "seals E S C True g' (Suc i) q c1" using seals_more(1,3) by simp
    then show ?thesis using seals_more.IH [OF _ seals_more(9)] * seals_more(1,3) by simp
  qed (use len in linarith)
qed

text \<open>Such a sequence is the body of a specified message.\<close>

lemma seals_body:
  assumes "seals E S C strict g i p c"
  shows "\<exists>nps. (\<forall>(nonce, _) \<in> set nps. length nonce = 12) \<and> i + length nps \<le> 2 ^ 40 \<and>
    chunks_ok (mc_parameters C) (map snd nps) \<and> p = concat (map snd nps) \<and> c = floe_body S C i nps"
  using assms
proof (induction rule: seals.induct)
  case (seals_final g nonce g' p i)
  then show ?case by (intro exI [of _ "[(nonce, p)]"]) simp
next
  case (seals_more g nonce g' p q i c)
  then obtain nps where nps: "\<forall>(nonce, _) \<in> set nps. length nonce = 12" "Suc i + length nps \<le> 2 ^ 40"
    "chunks_ok (mc_parameters C) (map snd nps)" "q = concat (map snd nps)" "c = floe_body S C (Suc i) nps" by blast
  have ne: "nps \<noteq> []" using nps(3) by auto
  show ?case using nps seals_more(2,3) ne
    by (intro exI [of _ "(nonce, p) # nps"]) (auto simp: floe_body_Cons chunks_ok_Cons)
qed

lemma seals_message:
  assumes "seals E S (floe_context S provider key P iv aad) strict g 0 p c" "length iv = 32"
  shows "is_floe_message S key P aad p (header_bytes (floe_header S key P iv aad) @ c)"
proof -
  have P: "mc_parameters (floe_context S provider key P iv aad) = P" by (simp add: floe_context_def)
  obtain nps where "\<forall>(nonce, _) \<in> set nps. length nonce = 12" "length nps \<le> 2 ^ 40" "chunks_ok P (map snd nps)"
      "p = concat (map snd nps)" "c = floe_body S (floe_context S provider key P iv aad) 0 nps"
    using seals_body [OF assms(1)] P by auto
  then show ?thesis using assms(2) floe_body_provider [of S provider key P iv aad 0 nps Provider_RUSTCRYPTO]
    by (auto simp: is_floe_message_def floe_message_def)
qed

lemma seals_length:
  assumes "seals E S C strict g i p c" "prims_ok S"
  shows "32 \<le> length c"
  using assms by (induction rule: seals.induct) (auto simp: floe_segment_length)

text \<open>With entropy available every plaintext within the segment limit can be sealed.\<close>

lemma seals_available:
  assumes "entropy_available E" "rng_ok E" "nonces_ok g" "0 < psl (mc_parameters C)"
    and "i + length p div psl (mc_parameters C) < 2 ^ 40"
  shows "\<exists>c. seals E S C True g i p c"
  using assms(3,5)
proof (induction "length p" arbitrary: g i p rule: less_induct)
  case less
  have inv: "rng_ok E \<and> nonces_ok g" using assms(2) less.prems by simp
  obtain nonce g' where n: "NonceGenerator_next E g = (Ok nonce, g')" "length nonce = 12" "nonces_ok g'"
    using nonce_available [OF assms(1,2) less.prems(1)] by (cases rule: nonces.drawE [OF inv]) auto
  let ?k = "psl (mc_parameters C)"
  show ?case
  proof (cases "length p \<le> ?k")
    case True
    then show ?thesis using seals_final [OF n(1,2) True] less.prems(2) by (meson add_lessD1)
  next
    case False
    have "length p div ?k = Suc (length (drop ?k p) div ?k)" using False assms(4) by (simp add: div_if [of "length p"])
    then have "Suc i + length (drop ?k p) div ?k < 2 ^ 40" using less.prems(2) by simp
    moreover have "length (drop ?k p) < length p" using False assms(4) by simp
    ultimately obtain c where "seals E S C True g' (Suc i) (drop ?k p) c" using less.hyps n(3) by blast
    from seals_more [OF n(1,2) _ _ _ this, of "take ?k p"] False less.prems(2) \<open>length p div ?k = _\<close> show ?thesis by fastforce
  qed
qed

text \<open>One-shot encryption writes the strict sequence.\<close>

lemma draw_nonces_Suc:
  assumes "rng_ok E" "nonces_ok g" "draw_nonces E (Suc n) g = Ok ns"
  obtains nonce g' rest where "NonceGenerator_next E g = (Ok nonce, g')" "length nonce = 12" "nonces_ok g'"
    "draw_nonces E n g' = Ok rest" "ns = nonce # rest" "length rest = n"
proof -
  have inv: "rng_ok E \<and> nonces_ok g" using assms by simp
  show thesis
  proof (cases rule: nonces.drawE [OF inv])
    case (2 nonce g')
    then obtain rest where "draw_nonces E n g' = Ok rest" "ns = nonce # rest" using assms(3) by (cases "draw_nonces E n g'") auto
    then show thesis using that 2 draw_nonces_cases [OF assms(1), of g' n] by auto
  qed (use assms(3) in simp)
qed

lemma seals_of_nonces:
  assumes "layout_ok L" "length xs = unat (ml_plaintext_length L)" "mc_parameters C = ml_parameters L" "rng_ok E"
    and "unat (ml_segment_count L) = segments_for (ml_parameters L) (length xs)"
    and "i < unat (ml_segment_count L)" "nonces_ok g" "draw_nonces E (unat (ml_segment_count L) - i) g = Ok ns"
  shows "seals E S C True g i (drop (i * psl (ml_parameters L)) xs)
    (floe_body S C i (zip ns (map (chunk L xs) [i..<unat (ml_segment_count L)])))"
  using assms(6-)
proof (induction "unat (ml_segment_count L) - Suc i" arbitrary: i g ns)
  let ?n = "unat (ml_segment_count L)" and ?k = "psl (ml_parameters L)"
  {
    case 0
    have up: "[i..<?n] = [i]" "?n - i = Suc 0" "Suc i = ?n" using 0 by (simp_all add: upt_conv_Cons)
    obtain nonce g' where n: "NonceGenerator_next E g = (Ok nonce, g')" "length nonce = 12" "ns = [nonce]"
      by (rule draw_nonces_Suc [OF assms(4) 0(3), of 0 ns]) (use 0(4) up(2) in auto)
    have ch: "chunk L xs i = drop (i * ?k) xs"
      using up(3) assms(2) by (simp add: chunk_def seg_plain_len_def slice_take_drop)
    moreover have "length (chunk L xs i) \<le> ?k"
      using chunk_length [OF assms(1,2) 0(2)] seg_plain_len_le [OF assms(1) 0(2)] by simp
    moreover have "i < 2 ^ 40" using 0(2) layout_okD(3) [OF assms(1)] by simp
    ultimately show ?case using seals_final [OF n(1,2), of "drop (i * ?k) xs" C i S True] assms(3) by (simp add: up n(3))
  next
    case (Suc k)
    have up: "[i..<?n] = i # [Suc i..<?n]" "?n - i = Suc (?n - Suc i)" "Suc i < ?n" "k = ?n - Suc (Suc i)"
      using Suc.hyps(2) Suc.prems(1) by (simp_all add: upt_conv_Cons)
    obtain nonce g' rest where n: "NonceGenerator_next E g = (Ok nonce, g')" "length nonce = 12" "nonces_ok g'"
        "draw_nonces E (?n - Suc i) g' = Ok rest" "ns = nonce # rest" "length rest = ?n - Suc i"
      by (rule draw_nonces_Suc [OF assms(4) Suc.prems(2), of "?n - Suc i" ns]) (use Suc.prems(3) up(2) in auto)
    have IH: "seals E S C True g' (Suc i) (drop (Suc i * ?k) xs) (floe_body S C (Suc i) (zip rest (map (chunk L xs) [Suc i..<?n])))"
      by (rule Suc.hyps(1) [OF up(4,3) n(3,4)])
    have split: "drop (i * ?k) xs = chunk L xs i @ drop (Suc i * ?k) xs"
      using up(3) append_take_drop_id [of ?k "drop (i * ?k) xs"]
      by (simp add: chunk_def seg_plain_len_def slice_take_drop take_drop add.commute del: append_take_drop_id)
    have "\<not> segments_for (ml_parameters L) (length xs) \<le> Suc i" using up(3) assms(5) by simp
    then have "\<not> length xs \<le> Suc i * ?k" by (simp add: segments_for_le_iff [OF layout_okD(1) [OF assms(1)]])
    then have ne: "drop (Suc i * ?k) xs \<noteq> []" by simp
    have len: "length (chunk L xs i) = ?k" using chunk_length [OF assms(1,2) Suc.prems(1)] up(3) by (simp add: seg_plain_len_def)
    have "i \<noteq> 2 ^ 40 - 1" using up(3) layout_okD(3) [OF assms(1)] by simp
    moreover have "zip rest (map (chunk L xs) [Suc i..<?n]) \<noteq> []" using n(6) up(3) by (cases rest) (auto simp: upt_conv_Cons)
    ultimately show ?case
      using seals_more [OF n(1,2) _ ne _ IH, of "chunk L xs i"] len assms(3) split by (simp add: up(1) n(5) floe_body_Cons)
  }
qed

lemma encrypt_seals:
  assumes "lawful E S" "params_ok P" "Key_provider E key = Ok provider" "length p \<le> usize_max (pointer_width E)"
    and "encrypt E key aad P p w = Ok c"
  obtains iv rng body where "ProviderRng_fill E (ProviderRng_new provider w) (replicate 32 0) = (Ok (), iv, rng)" "length iv = 32"
    "c = header_bytes (floe_header S key P iv aad) @ body"
    "seals E S (floe_context S provider key P iv aad) True (NonceGenerator_new rng) 0 p body"
proof -
  obtain r iv rng where fill: "ProviderRng_fill E (ProviderRng_new provider w) (replicate 32 0) = (r, iv, rng)"
    by (metis prod_cases3)
  then have iv: "length iv = 32"
    using ProviderRng_fill_total(1) [OF lawfulD(6) [OF assms(1)], of "ProviderRng_new provider w" "replicate 32 0"] by simp
  obtain L ns where L: "r = Ok ()" "Parameters_plaintext_layout P (word_of_nat (length p)) = Ok L"
      "draw_nonces E (unat (ml_segment_count L)) (NonceGenerator_new rng) = Ok ns"
      "c = floe_message S key P iv aad (zip ns (map (chunk L p) [0..<unat (ml_segment_count L)]))"
    using assms(5) fill by (auto simp: encrypt_spec [OF assms(1-4)] split: if_splits)
  note K = plaintext_layout_okD [OF assms(2) L(2)]
  have len: "unat (word_of_nat (length p) :: u64) = length p"
    using assms(4) usize_max_lt [of "pointer_width E"] by (intro unat_of_nat_u64) linarith
  let ?C = "floe_context S provider key P iv aad"
  have "seals E S ?C True (NonceGenerator_new rng) 0 (drop (0 * psl (ml_parameters L)) p)
      (floe_body S ?C 0 (zip ns (map (chunk L p) [0..<unat (ml_segment_count L)])))"
    by (rule seals_of_nonces) (use K L len lawfulD(6) [OF assms(1)] layout_okD(2) [OF K(1)] NonceGenerator_new_ok in
      \<open>simp_all add: floe_context_def\<close>)
  then show thesis
    using that [of iv rng] fill L iv floe_body_provider [of S provider key P iv aad 0 _ Provider_RUSTCRYPTO]
    by (simp add: floe_message_def)
qed

section \<open>Sealing in place\<close>

lemma in_place_at_ciphertext:
  assumes "EncryptionState_encrypt_segment_in_place_at E s B position kind = (Ok seg, s', B')"
  shows "SegmentBuffer_ciphertext B' = Ok seg"
proof (cases "SegmentBuffer_plaintext_length B")
  case (Ok n)
  obtain r s1 raw where raw: "EncryptionState_encrypt_segment_in_place_raw_at E s (SegmentBuffer_raw_mut B) n position kind = (r, s1, raw)"
    by (metis prod_cases3)
  show ?thesis using assms Ok raw
    by (cases r) (auto simp: EncryptionState_encrypt_segment_in_place_at_def Let_def split: if_splits)
qed (use assms in \<open>auto simp: EncryptionState_encrypt_segment_in_place_at_def split: if_splits\<close>)

lemma non_final_in_place_cases:
  assumes "lawful E S" "encryptor_at E e i" "i \<noteq> 2 ^ 40 - 1" "buffer_ok B" "sb_parameters B = Encryptor_parameters e"
    and "sb_state B = Plaintext (psl (Encryptor_parameters e))"
  defines "C \<equiv> es_context (en_state e)" and "p \<equiv> slice 16 (16 + psl (Encryptor_parameters e)) (sb_bytes B)"
  obtains (failed) e' B' where "Encryptor_encrypt_non_final_segment_in_place E e B = (Err RngFailure, e', B')"
      "fst (NonceGenerator_next E (es_nonces (en_state e))) = Err RngFailure"
    | (sealed) nonce e' B' where "Encryptor_encrypt_non_final_segment_in_place E e B =
        (Ok (floe_segment S C (word_of_nat i) NonFinal nonce p), e', B')"
      "SegmentBuffer_ciphertext B' = Ok (floe_segment S C (word_of_nat i) NonFinal nonce p)"
      "encryptor_at E e' (Suc i)" "es_context (en_state e') = C" "length nonce = 12"
      "NonceGenerator_next E (es_nonces (en_state e)) = (Ok nonce, es_nonces (en_state e'))"
      "buffer_ok B'" "sb_parameters B' = sb_parameters B"
proof -
  have st: "enc_state_ok E (en_state e)" using assms(2) by (simp add: encryptor_at_def encryptor_ok_def)
  have par: "Encryptor_parameters e = mc_parameters C" by (simp add: C_def Encryptor_parameters_def EncryptionState_parameters_def)
  note P = encryptor_position [OF assms(2)]
  have pos: "unat (word_of_nat i :: u64) < 2 ^ 40" using P(1) by (simp add: unat_of_nat_u64)
  have pm: "sb_parameters B = mc_parameters (es_context (en_state e))" using assms(5) par by (simp add: C_def)
  have len: "seg_len_ok (es_context (en_state e)) NonFinal (psl (Encryptor_parameters e))" using par by (simp add: C_def seg_len_ok_def)
  note eq = Encryptor_encrypt_non_final_segment_in_place_def Encryptor_advance_eq P(4) [OF assms(3)]
  show thesis
  proof (cases rule: encrypt_in_place_at_cases [OF assms(1) st assms(4) pm assms(6) len pos])
    case (1 s' B')
    then show thesis by (intro failed) (auto simp: eq)
  next
    case (2 nonce s' B')
    then show thesis using encryptor_at_Suc [OF assms(2,3) 2(3)]
      by (intro sealed [of nonce "e\<lparr> en_state := s', en_counter := SegmentCounter_complete (en_counter e) NonFinal \<rparr>" B'])
        (auto simp: eq p_def C_def in_place_at_ciphertext)
  qed
qed

lemma final_in_place_cases:
  assumes "lawful E S" "encryptor_at E e i" "buffer_ok B" "sb_parameters B = Encryptor_parameters e" "sb_state B = Plaintext n"
  defines "C \<equiv> es_context (en_state e)" and "p \<equiv> slice 16 (16 + n) (sb_bytes B)"
  obtains (failed) x B' where "Encryptor_encrypt_final_segment_in_place E e B = (Err x, B')" "fe_error x = RngFailure"
      "fst (NonceGenerator_next E (es_nonces (en_state e))) = Err RngFailure"
    | (sealed) nonce g' B' where "Encryptor_encrypt_final_segment_in_place E e B =
        (Ok (floe_segment S C (word_of_nat i) Final nonce p), B')"
      "SegmentBuffer_ciphertext B' = Ok (floe_segment S C (word_of_nat i) Final nonce p)"
      "length nonce = 12" "NonceGenerator_next E (es_nonces (en_state e)) = (Ok nonce, g')"
      "buffer_ok B'" "sb_parameters B' = sb_parameters B"
proof -
  have st: "enc_state_ok E (en_state e)" using assms(2) by (simp add: encryptor_at_def encryptor_ok_def)
  have par: "Encryptor_parameters e = mc_parameters C" by (simp add: C_def Encryptor_parameters_def EncryptionState_parameters_def)
  note P = encryptor_position [OF assms(2)]
  have pos: "unat (word_of_nat i :: u64) < 2 ^ 40" using P(1) by (simp add: unat_of_nat_u64)
  have pm: "sb_parameters B = mc_parameters (es_context (en_state e))" using assms(4) par by (simp add: C_def)
  have len: "seg_len_ok (es_context (en_state e)) Final n" using buffer_okD(3) [OF assms(3,5)] pm by (simp add: seg_len_ok_def)
  note eq = Encryptor_encrypt_final_segment_in_place_def Encryptor_finalize_eq P(3)
  show thesis
  proof (cases rule: encrypt_in_place_at_cases [OF assms(1) st assms(3) pm assms(5) len pos])
    case (1 s' B')
    then show thesis by (intro failed) (auto simp: eq)
  next
    case (2 nonce s' B')
    then show thesis by (intro sealed [of nonce B' "es_nonces s'"]) (auto simp: eq p_def C_def in_place_at_ciphertext)
  qed
qed

end
