(* ===== verification/Floe_Encrypt_Reader.thy ===== *)
theory Floe_Encrypt_Reader
  imports Floe_Seals
begin

text \<open>
  The streaming encryption reader of src/io.rs over any lawful byte source: filling a segment with
  its one-byte lookahead, that the reader is itself a byte source of the header and the segments of
  its source's contents, and that it agrees with one-shot encryption.
\<close>

section \<open>Filling a segment\<close>

definition lookahead_bytes :: "('x, 'r) EncryptReader \<Rightarrow> bytes" where
  "lookahead_bytes R = (case er_lookahead R of None \<Rightarrow> [] | Some byte \<Rightarrow> [byte])"

text \<open>The fields of a reader that filling a segment leaves alone.\<close>

definition same_output :: "('x, 'r) EncryptReader \<Rightarrow> ('x, 'r) EncryptReader \<Rightarrow> bool" where
  "same_output R R' \<longleftrightarrow> er_encryptor R' = er_encryptor R \<and> er_header R' = er_header R \<and>
    er_header_position R' = er_header_position R \<and> er_ciphertext_position R' = er_ciphertext_position R \<and>
    er_ciphertext_length R' = er_ciphertext_length R \<and> er_status R' = er_status R"

lemma truncate_written:
  assumes "buffer_ok B" "length xs = psl (sb_parameters B)" "n \<le> psl (sb_parameters B)"
  defines "B' \<equiv> (SegmentBuffer_write_plaintext (B\<lparr> sb_state := Plaintext (psl (sb_parameters B)) \<rparr>) xs)"
  shows "SegmentBuffer_truncate_plaintext B' n = (Ok (), B'\<lparr> sb_state := Plaintext n \<rparr>)"
    "buffer_ok (B'\<lparr> sb_state := Plaintext n \<rparr>)" "sb_parameters B' = sb_parameters B"
    "slice 16 (16 + n) (sb_bytes B') = take n xs"
proof -
  note D = buffer_okD [OF assms(1)]
  show "SegmentBuffer_truncate_plaintext B' n = (Ok (), B'\<lparr> sb_state := Plaintext n \<rparr>)" "sb_parameters B' = sb_parameters B"
    using assms(3) by (simp_all add: B'_def SegmentBuffer_truncate_plaintext_def SegmentBuffer_write_plaintext_def
        SegmentBuffer_plaintext_length_def)
  have len: "length (sb_bytes B') = psl (sb_parameters B) + 32" using D(2) assms(2)
    by (simp add: B'_def SegmentBuffer_write_plaintext_def)
  then show "buffer_ok (B'\<lparr> sb_state := Plaintext n \<rparr>)" using D(1) assms(3)
    by (intro buffer_okI) (auto simp: B'_def SegmentBuffer_write_plaintext_def)
  show "slice 16 (16 + n) (sb_bytes B') = take n xs" using D(2) assms(2,3)
    by (simp add: B'_def SegmentBuffer_write_plaintext_def splice_def slice_take_drop)
qed

context byte_source begin

lemma fill_plaintext_cases:
  assumes "yields (er_inner R) c" "buffer_ok (er_buffer R)"
  defines "input \<equiv> lookahead_bytes R @ c" and "k \<equiv> psl (sb_parameters (er_buffer R))"
  obtains R' where "EncryptReader_fill_plaintext rd R = Some (Ok (length input \<le> k), R')" "same_output R R'"
    "buffer_ok (er_buffer R')" "sb_parameters (er_buffer R') = sb_parameters (er_buffer R)"
    "sb_state (er_buffer R') = Plaintext (min (length input) k)"
    "slice 16 (16 + min (length input) k) (sb_bytes (er_buffer R')) = take k input"
    "\<exists>c'. yields (er_inner R') c' \<and> lookahead_bytes R' @ c' = drop k input"
proof -
  let ?la = "lookahead_bytes R" and ?B = "er_buffer R"
  define m where "m = length ?la"
  note D = buffer_okD [OF assms(2)]
  have k: "0 < k" "m \<le> k" using psl_pos [OF D(1)] by (auto simp: k_def m_def lookahead_bytes_def split: option.split)
  define pt where "pt = slice 16 (16 + k) (sb_bytes ?B)"
  define pt2 where "pt2 = splice 0 ?la pt"
  have lpt: "length pt = k" using D(2) by (simp add: pt_def k_def)
  have lpt2: "length pt2 = k" using lpt k(2) by (simp add: pt2_def m_def)
  have prep: "SegmentBuffer_prepare_plaintext ?B k = (Ok pt, ?B\<lparr> sb_state := Plaintext k \<rparr>)"
    by (simp add: prepare_plaintext_spec [OF assms(2)] k_def pt_def)
  have look: "(case er_lookahead R of Some byte \<Rightarrow> if pt = [] then Panic else Ok (pt[0 := byte], 1) | None \<Rightarrow> Ok (pt, 0)) =
      (Ok (pt2, m) :: (bytes \<times> nat) io_result)"
    using k(1) lpt by (cases pt) (auto simp: pt2_def m_def lookahead_bytes_def splice_def split: option.split)
  have rest: "index_range m k pt2 = (Ok (drop m pt2) :: bytes io_result)" using k(2) lpt2 by (simp add: slice_take_drop)
  have pre: "take m pt2 = ?la" using k(2) lpt by (simp add: pt2_def m_def splice_def)
  note unf = EncryptReader_fill_plaintext_def EncryptReader_parameters_def SegmentBuffer_parameters_def Let_def
  have input: "length input = m + length c" by (simp add: input_def m_def)
  let ?W = "\<lambda>xs. SegmentBuffer_write_plaintext (?B\<lparr> sb_state := Plaintext k \<rparr>) xs"
  have par: "Parameters_plaintext_segment_length (sb_parameters ?B) = k" using D(1) by (simp add: k_def)
  show thesis
  proof (cases "length c < k - m")
    case True
    then have lt: "length c < length (drop m pt2)" and mc: "m + length c < k" using lpt2 k(2) by simp_all
    obtain out r' where r: "read_fully rd (er_inner R) (drop m pt2) = Some (Ok (length c), c @ out, r')"
        "length out = k - m - length c" "yields r' []"
      by (rule read_fully_short [OF assms(1) lt]) (use lpt2 in simp)
    have spl: "splice m (c @ out) pt2 = input @ out" using pre lpt2 r(2) True k(2) by (simp add: splice_def input_def)
    note T = truncate_written [OF assms(2), folded k_def, of "input @ out" "length input"]
    let ?R = "R\<lparr> er_lookahead := None, er_inner := r', er_buffer := ?W (input @ out)\<lparr> sb_state := Plaintext (length input) \<rparr> \<rparr>"
    have "EncryptReader_fill_plaintext rd R = Some (Ok (length input \<le> k), ?R)"
      using mc True k lpt2 r prep look rest spl T input par by (simp add: unf)
    then show thesis
      by (rule that) (use mc k lpt2 r T input in \<open>simp_all add: same_output_def lookahead_bytes_def\<close>)
  next
    case False
    then have le: "length (drop m pt2) \<le> length c" using lpt2 by simp
    have drk: "drop (k - m) c = drop k input" using k(2) by (simp add: input_def m_def)
    obtain r' where r: "read_fully rd (er_inner R) (drop m pt2) = Some (Ok (k - m), take (k - m) c, r')" "yields r' (drop k input)"
      using read_fully_enough [OF assms(1) le] lpt2 drk by auto
    have spl: "splice m (take (k - m) c) pt2 = take k input" using pre lpt2 False k(2) by (simp add: splice_def input_def m_def)
    have lk: "length (take k input) = k" using False input k(2) by simp
    note T = truncate_written [OF assms(2), folded k_def, of "take k input" k]
    show thesis
    proof (cases "drop k input")
      case Nil
      then have lt: "length (drop k input) < length [0 :: u8]" by simp
      obtain out r2 where r2: "read_fully rd r' [0] = Some (Ok 0, out, r2)" "yields r2 []"
        by (rule read_fully_short [OF r(2) lt]) (use Nil in simp)
      have len: "length input = k" using Nil lk by simp
      let ?R = "R\<lparr> er_lookahead := None, er_inner := r2, er_buffer := ?W (take k input)\<lparr> sb_state := Plaintext k \<rparr> \<rparr>"
      have "EncryptReader_fill_plaintext rd R = Some (Ok (length input \<le> k), ?R)"
        using k r prep look rest spl T lk r2 par len lpt2 by (simp add: unf)
      then show thesis
        by (rule that) (use r2 T len in \<open>simp_all add: same_output_def lookahead_bytes_def\<close>)
    next
      case (Cons b c')
      then have le: "length [0 :: u8] \<le> length (drop k input)" by simp
      obtain r2 where r2: "read_fully rd r' [0] = Some (Ok 1, [b], r2)" "yields r2 c'"
        by (rule read_fully_enough [OF r(2) le]) (use Cons in simp)
      have len: "k < length input" using Cons by (metis drop_eq_Nil list.distinct(1) not_le)
      let ?R = "R\<lparr> er_inner := r2, er_lookahead := Some b, er_buffer := ?W (take k input)\<lparr> sb_state := Plaintext k \<rparr> \<rparr>"
      have "EncryptReader_fill_plaintext rd R = Some (Ok (length input \<le> k), ?R)"
        using k r prep look rest spl T lk r2 par len lpt2 by (simp add: unf)
      then show thesis
        by (rule that) (use r2 T len lk Cons in \<open>simp_all add: same_output_def lookahead_bytes_def\<close>)
    qed
  qed
qed

end

section \<open>The encrypting reader as a byte source\<close>

text \<open>The ciphertext already produced and not yet delivered, and the invariant of the reader.\<close>

definition encrypt_pending :: "('x, 'r) EncryptReader \<Rightarrow> bytes" where
  "encrypt_pending R = drop (er_header_position R) (header_bytes (er_header R)) @
    slice (er_ciphertext_position R) (er_ciphertext_length R) (sb_bytes (er_buffer R))"

definition encrypt_reader_ok :: "('x, 'r) EncryptReader \<Rightarrow> bool" where
  "encrypt_reader_ok R \<longleftrightarrow> buffer_ok (er_buffer R) \<and> length (header_bytes (er_header R)) = 74 \<and>
    er_header_position R \<le> 74 \<and> er_ciphertext_position R \<le> er_ciphertext_length R \<and>
    (er_ciphertext_position R < er_ciphertext_length R \<longrightarrow> sb_state (er_buffer R) = Ciphertext (er_ciphertext_length R))"

text \<open>
  \<open>encrypt_open E S yields R body\<close>: the reader is open, and over what its source still yields it seals
  the segments \<open>body\<close>. \<open>encrypt_yields E S yields R bs\<close>: the reader delivers \<open>bs\<close>.
\<close>

definition encrypt_open ::
  "'x env \<Rightarrow> prims \<Rightarrow> ('r \<Rightarrow> bytes \<Rightarrow> bool) \<Rightarrow> ('x, 'r) EncryptReader \<Rightarrow> bytes \<Rightarrow> bool" where
  "encrypt_open E S yields R body \<longleftrightarrow> er_status R = Open \<and>
    (\<exists>e i c. er_encryptor R = Some e \<and> encryptor_at E e i \<and> sb_parameters (er_buffer R) = Encryptor_parameters e \<and>
      yields (er_inner R) c \<and>
      seals E S (es_context (en_state e)) True (es_nonces (en_state e)) i (lookahead_bytes R @ c) body)"

definition encrypt_yields ::
  "'x env \<Rightarrow> prims \<Rightarrow> ('r \<Rightarrow> bytes \<Rightarrow> bool) \<Rightarrow> ('x, 'r) EncryptReader \<Rightarrow> bytes \<Rightarrow> bool" where
  "encrypt_yields E S yields R bs \<longleftrightarrow> encrypt_reader_ok R \<and>
    ((\<exists>body. encrypt_open E S yields R body \<and> bs = encrypt_pending R @ body) \<or>
     er_status R = Finished \<and> bs = encrypt_pending R)"

lemma encryptor_at_params:
  assumes "encryptor_at E e i"
  shows "params_ok (Encryptor_parameters e)" "Encryptor_parameters e = mc_parameters (es_context (en_state e))"
  using assms by (auto simp: encryptor_at_def encryptor_ok_def enc_state_ok_def context_ok_def Encryptor_parameters_def
      EncryptionState_parameters_def)

lemma SegmentBuffer_ciphertext_okD:
  assumes "buffer_ok B" "SegmentBuffer_ciphertext B = Ok seg"
  shows "sb_state B = Ciphertext (length seg)" "take (length seg) (sb_bytes B) = seg"
  using assms buffer_okD(2) [OF assms(1)] buffer_okD(4) [OF assms(1)]
  by (auto simp: SegmentBuffer_ciphertext_def slice_def split: BufferState.splits)

context byte_source begin

text \<open>
  After filling, the next segment is sealed: it is the final one when the source has ended, and
  otherwise the reader stays open on the rest.
\<close>

lemma filled_cases:
  assumes "buffer_ok (er_buffer R)" "encrypt_open E S yields R body"
  obtains (final) e i nonce g' n R' where "EncryptReader_fill_plaintext rd R = Some (Ok True, R')" "same_output R R'"
      "er_encryptor R = Some e" "encryptor_at E e i" "buffer_ok (er_buffer R')" "sb_parameters (er_buffer R') = Encryptor_parameters e"
      "sb_state (er_buffer R') = Plaintext n" "NonceGenerator_next E (es_nonces (en_state e)) = (Ok nonce, g')" "length nonce = 12"
      "body = floe_segment S (es_context (en_state e)) (word_of_nat i) Final nonce (slice 16 (16 + n) (sb_bytes (er_buffer R')))"
    | (more) e i nonce g' R' c' body' where "EncryptReader_fill_plaintext rd R = Some (Ok False, R')" "same_output R R'"
      "er_encryptor R = Some e" "encryptor_at E e i" "buffer_ok (er_buffer R')" "sb_parameters (er_buffer R') = Encryptor_parameters e"
      "sb_state (er_buffer R') = Plaintext (psl (Encryptor_parameters e))"
      "NonceGenerator_next E (es_nonces (en_state e)) = (Ok nonce, g')" "length nonce = 12" "i \<noteq> 2 ^ 40 - 1"
      "body = floe_segment S (es_context (en_state e)) (word_of_nat i) NonFinal nonce
         (slice 16 (16 + psl (Encryptor_parameters e)) (sb_bytes (er_buffer R'))) @ body'"
      "yields (er_inner R') c'" "seals E S (es_context (en_state e)) True g' (Suc i) (lookahead_bytes R' @ c') body'"
proof -
  obtain e i c where o: "er_encryptor R = Some e" "encryptor_at E e i" "sb_parameters (er_buffer R) = Encryptor_parameters e"
      "yields (er_inner R) c" "seals E S (es_context (en_state e)) True (es_nonces (en_state e)) i (lookahead_bytes R @ c) body"
    using assms(2) by (auto simp: encrypt_open_def)
  let ?k = "psl (Encryptor_parameters e)" and ?in = "lookahead_bytes R @ c"
  note P = encryptor_at_params [OF o(2)]
  have pos: "0 < psl (mc_parameters (es_context (en_state e)))" using psl_pos P by simp
  obtain R' c' where F: "EncryptReader_fill_plaintext rd R = Some (Ok (length ?in \<le> ?k), R')" "same_output R R'"
    "buffer_ok (er_buffer R')" "sb_parameters (er_buffer R') = Encryptor_parameters e"
    "sb_state (er_buffer R') = Plaintext (min (length ?in) ?k)"
    "slice 16 (16 + min (length ?in) ?k) (sb_bytes (er_buffer R')) = take ?k ?in"
    "yields (er_inner R') c'" "lookahead_bytes R' @ c' = drop ?k ?in"
    using fill_plaintext_cases [OF o(4) assms(1)] unfolding o(3) by metis
  show thesis
  proof (cases rule: seals_cases [OF o(5) pos])
    case (1 nonce g')
    then have le: "length ?in \<le> ?k" using P(2) by simp
    show thesis
      by (rule final [OF _ F(2) o(1,2) F(3,4,5) 1(2,3)]) (use F(1,6) le 1(4) in \<open>simp_all add: min_def\<close>)
  next
    case (2 nonce g' c2)
    then have lt: "?k < length ?in" using P(2) by simp
    have m: "min (length ?in) ?k = ?k" using lt by simp
    show thesis
      by (rule more [OF _ F(2) o(1,2) F(3,4) F(5) [unfolded m] 2(2,3,4) _ F(7), of c2])
        (use F(1,6,8) lt m 2(5,6) P(2) in simp_all)
  qed
qed

lemma load_segment_yields:
  assumes "lawful E S" "encrypt_reader_ok R" "encrypt_open E S yields R body"
    and "er_header_position R = 74" "er_ciphertext_position R = er_ciphertext_length R"
  obtains R' where "EncryptReader_load_segment E rd R = Some (Ok (), R')" "encrypt_yields E S yields R' body"
    "er_ciphertext_position R' < er_ciphertext_length R'" "er_header_position R' = 74"
proof -
  have B: "buffer_ok (er_buffer R)" and H: "length (header_bytes (er_header R)) = 74"
    using assms(2) by (simp_all add: encrypt_reader_ok_def)
  have st: "er_status R = Open" using assms(3) by (simp add: encrypt_open_def)
  note unf = EncryptReader_load_segment_def EncryptReader_poison_def EncryptReader_try_load_segment_def
  note S = lawfulD(1) [OF assms(1)]
  show thesis
  proof (cases rule: filled_cases [OF B assms(3)])
    case (1 e i nonce g' n R1)
    note T = 1
    show thesis
    proof (cases rule: final_in_place_cases [OF assms(1) T(4-7)])
      case (1 x B')
      then show thesis using T(8) by simp
    next
      case (2 nonce' g'' B')
      note seg = floe_segment_length [OF S T(9)]
      have n': "nonce' = nonce" using 2(4) T(8) by simp
      let ?R = "R1\<lparr> er_ciphertext_position := 0, er_encryptor := None, er_buffer := B', er_status := Finished,
        er_ciphertext_length := length body \<rparr>"
      have run: "EncryptReader_load_segment E rd R = Some (Ok (), ?R)"
        using T(1-3,10) 2(1) n' by (simp add: unf same_output_def)
      have B': "sb_state B' = Ciphertext (length body)" "take (length body) (sb_bytes B') = body"
        using SegmentBuffer_ciphertext_okD [OF 2(5,2)] n' T(10) by simp_all
      show thesis
        by (rule that [OF run]) (use T(2,10) assms(4) seg 2(5) B' H in
          \<open>auto simp: encrypt_yields_def encrypt_reader_ok_def encrypt_pending_def same_output_def slice_def\<close>)
    qed
  next
    case (2 e i nonce g' R1 c' body')
    note T = 2
    show thesis
    proof (cases rule: non_final_in_place_cases [OF assms(1) T(4,10,5,6,7)])
      case (1 e' B')
      then show thesis using T(8) by simp
    next
      case (2 nonce' e' B')
      note seg = floe_segment_length [OF S T(9)]
      have n': "nonce' = nonce" "es_nonces (en_state e') = g'" using 2(6) T(8) by simp_all
      define segment where "segment = floe_segment S (es_context (en_state e)) (word_of_nat i) NonFinal nonce
        (slice 16 (16 + psl (Encryptor_parameters e)) (sb_bytes (er_buffer R1)))"
      let ?R = "R1\<lparr> er_ciphertext_position := 0, er_encryptor := Some e', er_buffer := B', er_ciphertext_length := length segment \<rparr>"
      have run: "EncryptReader_load_segment E rd R = Some (Ok (), ?R)"
        using T(1-3) 2(1) n' by (simp add: unf same_output_def segment_def)
      have B': "sb_state B' = Ciphertext (length segment)" "take (length segment) (sb_bytes B') = segment"
        using SegmentBuffer_ciphertext_okD [OF 2(7,2)] n' by (simp_all add: segment_def)
      have "sb_parameters B' = Encryptor_parameters e'"
        using 2(4,8) T(6) by (simp add: Encryptor_parameters_def EncryptionState_parameters_def)
      then have "encrypt_open E S yields ?R body'"
        using st T(2,12,13) 2(3,4) n' by (auto simp: encrypt_open_def same_output_def lookahead_bytes_def)
      moreover have "encrypt_reader_ok ?R" "encrypt_pending ?R = segment"
        using B' 2(7) T(2) H assms(4) by (simp_all add: encrypt_reader_ok_def encrypt_pending_def same_output_def slice_def)
      ultimately have "encrypt_yields E S yields ?R body" using T(11) by (auto simp: encrypt_yields_def segment_def)
      then show thesis by (rule that [OF run]) (use T(2) assms(4) seg in \<open>simp_all add: same_output_def segment_def\<close>)
    qed
  qed
qed

lemma emit_direct_cases:
  assumes "lawful E S" "buffer_ok (er_buffer R)" "encrypt_open E S yields R body" "csl (sb_parameters (er_buffer R)) \<le> length out"
  obtains (final) R' where "EncryptReader_emit_segment_direct E rd R out = Some (Ok (length body), body @ drop (length body) out, R')"
      "0 < length body" "length body \<le> length out" "same_output R (R'\<lparr> er_encryptor := er_encryptor R, er_status := er_status R \<rparr>)"
      "buffer_ok (er_buffer R')" "er_status R' = Finished" "er_encryptor R' = None"
    | (more) segment body' R' where
      "EncryptReader_emit_segment_direct E rd R out = Some (Ok (length segment), segment @ drop (length segment) out, R')"
      "0 < length segment" "length segment \<le> length out" "same_output R (R'\<lparr> er_encryptor := er_encryptor R \<rparr>)" "buffer_ok (er_buffer R')"
      "body = segment @ body'" "encrypt_open E S yields R' body'"
proof -
  have cap: "psl (sb_parameters (er_buffer R)) + 32 \<le> length out" using assms(4) csl_psl [OF buffer_okD(1) [OF assms(2)]] by simp
  have st: "er_status R = Open" using assms(3) by (simp add: encrypt_open_def)
  note unf = EncryptReader_emit_segment_direct_def EncryptReader_try_emit_segment_direct_def
  note S = lawfulD(1) [OF assms(1)]
  have pl: "SegmentBuffer_plaintext B' = Ok (slice 16 (16 + m) (sb_bytes B'))" "length (slice 16 (16 + m) (sb_bytes B')) = m"
      "m \<le> psl (sb_parameters B')"
    if "buffer_ok B'" "sb_state B' = Plaintext m" for B' m
    using buffer_okD(2,3) [OF that(1)] that(2) by (simp_all add: SegmentBuffer_plaintext_def)
  have ep: "sb_parameters (er_buffer R) = Encryptor_parameters e" if "er_encryptor R = Some e" for e
    using assms(3) that by (auto simp: encrypt_open_def)
  show thesis
  proof (cases rule: filled_cases [OF assms(2,3)])
    case T: (1 e i nonce g' n R1)
    let ?p = "slice 16 (16 + n) (sb_bytes (er_buffer R1))"
    note p = pl [OF T(5,7)]
    have len: "length ?p \<le> psl (Encryptor_parameters e)" "length ?p + 32 \<le> length out"
      using p(2,3) T(6) cap ep [OF T(3)] by simp_all
    show thesis
    proof (cases rule: final_into_cases [OF assms(1) T(4) len])
      case (1 e' out')
      then show thesis using T(8) by simp
    next
      case (2 nonce' g'')
      have lb: "length body = length ?p + 32" unfolding T(10) by (rule floe_segment_length [OF S T(9)])
      have "nonce' = nonce" using 2(3) T(8) by simp
      then have run: "EncryptReader_emit_segment_direct E rd R out =
          Some (Ok (length body), body @ drop (length body) out, R1\<lparr> er_encryptor := None, er_status := Finished \<rparr>)"
        unfolding lb using T(1-3,10) p(1) 2(1) by (simp add: unf same_output_def)
      show thesis by (rule final [OF run]) (use T(2,5) len(2) lb in \<open>simp_all add: same_output_def\<close>)
    qed
  next
    case T: (2 e i nonce g' R1 c' body')
    let ?p = "slice 16 (16 + psl (Encryptor_parameters e)) (sb_bytes (er_buffer R1))"
    note p = pl [OF T(5,7)]
    have len: "length ?p = psl (Encryptor_parameters e)" "length ?p + 32 \<le> length out"
      using p(2,3) T(6) cap ep [OF T(3)] by simp_all
    show thesis
    proof (cases rule: non_final_into_cases [OF assms(1) T(4,10) len])
      case (1 e' out')
      then show thesis using T(8) by simp
    next
      case (2 nonce' e')
      have n': "nonce' = nonce" "es_nonces (en_state e') = g'" using 2(5) T(8) by simp_all
      define segment where "segment = floe_segment S (es_context (en_state e)) (word_of_nat i) NonFinal nonce ?p"
      have ls: "length segment = length ?p + 32" unfolding segment_def by (rule floe_segment_length [OF S T(9)])
      have run: "EncryptReader_emit_segment_direct E rd R out =
          Some (Ok (length segment), segment @ drop (length segment) out, R1\<lparr> er_encryptor := Some e' \<rparr>)"
        unfolding ls using T(1-3) p(1) 2(1) n' by (simp add: unf same_output_def segment_def)
      have "Encryptor_parameters e' = Encryptor_parameters e"
        using 2(3) by (simp add: Encryptor_parameters_def EncryptionState_parameters_def)
      then have "encrypt_open E S yields (R1\<lparr> er_encryptor := Some e' \<rparr>) body'"
        using st T(2,6,12,13) 2(2,3) n' by (auto simp: encrypt_open_def same_output_def lookahead_bytes_def)
      then show thesis
        by (intro more [OF run]) (use T(2,3,5,11) len(2) ls in \<open>simp_all add: same_output_def segment_def\<close>)
    qed
  qed
qed

lemma emit_direct_yields:
  assumes "lawful E S" "encrypt_reader_ok R" "encrypt_open E S yields R body"
    and "er_header_position R = 74" "er_ciphertext_position R = er_ciphertext_length R"
    and "csl (sb_parameters (er_buffer R)) \<le> length out"
  obtains n out' R' where "EncryptReader_emit_segment_direct E rd R out = Some (Ok n, out', R')" "0 < n" "n \<le> length out"
    "length out' = length out" "n \<le> length body" "take n out' = take n body" "encrypt_yields E S yields R' (drop n body)"
proof -
  have B: "buffer_ok (er_buffer R)" and H: "length (header_bytes (er_header R)) = 74"
    using assms(2) by (simp_all add: encrypt_reader_ok_def)
  show thesis
  proof (cases rule: emit_direct_cases [OF assms(1) B assms(3,6)])
    case final: (1 R')
    then show thesis
      by (intro that [OF final(1)]) (use assms(4,5) H in
        \<open>auto simp: encrypt_yields_def encrypt_reader_ok_def encrypt_pending_def same_output_def slice_def\<close>)
  next
    case more: (2 segment body' R')
    have "encrypt_reader_ok R'" "encrypt_pending R' = []"
      using more(4,5) H assms(4,5) by (simp_all add: encrypt_reader_ok_def encrypt_pending_def same_output_def slice_def)
    then show thesis by (intro that [OF more(1)]) (use more in \<open>auto simp: encrypt_yields_def\<close>)
  qed
qed

end

text \<open>The end of \<open>read\<close>, which copies buffered ciphertext out.\<close>

lemma encrypt_read_buffered:
  fixes out :: bytes
  assumes "encrypt_reader_ok R" "er_header_position R = 74" "er_ciphertext_position R < er_ciphertext_length R"
  defines "n \<equiv> min (length out) (er_ciphertext_length R - er_ciphertext_position R)"
  defines "R' \<equiv> R\<lparr> er_ciphertext_position := er_ciphertext_position R + n \<rparr>"
  shows "try_io (map_err encryption_error (SegmentBuffer_ciphertext (er_buffer R))) (out, R) (\<lambda>ciphertext.
          if er_ciphertext_length R < er_ciphertext_position R then Some (Panic, out, R) else
          let read = min (length out) (er_ciphertext_length R - er_ciphertext_position R);
              end = er_ciphertext_position R + read
          in try_io (index_range (er_ciphertext_position R) end ciphertext) (out, R) (\<lambda>piece.
             Some (Ok read, splice 0 piece out, R\<lparr> er_ciphertext_position := end \<rparr>))) =
      Some (Ok n, splice 0 (take n (encrypt_pending R)) out, R')"
    "encrypt_reader_ok R'" "encrypt_pending R' = drop n (encrypt_pending R)" "n \<le> length (encrypt_pending R)"
proof -
  let ?l = "er_ciphertext_length R" and ?p = "er_ciphertext_position R" and ?b = "sb_bytes (er_buffer R)"
  have ok: "buffer_ok (er_buffer R)" "sb_state (er_buffer R) = Ciphertext ?l" "length (header_bytes (er_header R)) = 74"
    using assms(1,3) by (auto simp: encrypt_reader_ok_def)
  have l: "?l \<le> length ?b" using buffer_okD(2) [OF ok(1)] buffer_okD(4) [OF ok(1,2)] by simp
  have n: "n \<le> ?l - ?p" "n \<le> length out" by (simp_all add: n_def)
  have ct: "SegmentBuffer_ciphertext (er_buffer R) = Ok (take ?l ?b)" using l ok(2) by (simp add: SegmentBuffer_ciphertext_def slice_def)
  have pend: "encrypt_pending R = slice ?p ?l ?b" using assms(2) ok(3) by (simp add: encrypt_pending_def)
  have piece: "slice ?p (?p + n) (take ?l ?b) = take n (encrypt_pending R)"
    using n(1) l assms(3) by (simp add: pend slice_def take_drop min_def)
  show "encrypt_pending R' = drop n (encrypt_pending R)" using assms(2) ok(3) pend n(1) l
    by (simp add: encrypt_pending_def R'_def slice_def drop_take) (simp add: add.commute)
  show "encrypt_reader_ok R'" using assms(1,3) n(1) by (auto simp: encrypt_reader_ok_def R'_def)
  show "n \<le> length (encrypt_pending R)" using pend n(1) l by simp
  have "index_range ?p (?p + n) (take ?l ?b) = (Ok (take n (encrypt_pending R)) :: bytes io_result)"
    using piece n(1) l assms(3) by simp
  then show "try_io (map_err encryption_error (SegmentBuffer_ciphertext (er_buffer R))) (out, R) (\<lambda>ciphertext.
          if ?l < ?p then Some (Panic, out, R) else
          let read = min (length out) (?l - ?p);
              end = ?p + read
          in try_io (index_range ?p end ciphertext) (out, R) (\<lambda>piece.
             Some (Ok read, splice 0 piece out, R\<lparr> er_ciphertext_position := end \<rparr>))) =
      Some (Ok n, splice 0 (take n (encrypt_pending R)) out, R')"
    using ct assms(3) by (simp add: n_def [symmetric] R'_def Let_def)
qed

lemma encrypt_yields_advance:
  assumes "encrypt_yields E S yields R bs" "encrypt_reader_ok R'" "encrypt_pending R' = drop n (encrypt_pending R)"
    and "n \<le> length (encrypt_pending R)"
    and "er_status R' = er_status R" "er_encryptor R' = er_encryptor R" "er_inner R' = er_inner R"
      "er_lookahead R' = er_lookahead R" "er_buffer R' = er_buffer R"
  shows "encrypt_yields E S yields R' (drop n bs)" "take n bs = take n (encrypt_pending R)" "n \<le> length bs"
proof -
  have "encrypt_open E S yields R' = encrypt_open E S yields R"
    using assms(5-) by (simp add: encrypt_open_def lookahead_bytes_def fun_eq_iff)
  then show "encrypt_yields E S yields R' (drop n bs)" "take n bs = take n (encrypt_pending R)" "n \<le> length bs"
    using assms(1-5) by (auto simp: encrypt_yields_def)
qed

text \<open>What one read of an encrypting reader that yields \<open>bs\<close> does with the buffer \<open>out\<close>.\<close>

definition serves :: "('x, 'r) EncryptReader reader \<Rightarrow> (('x, 'r) EncryptReader \<Rightarrow> bytes \<Rightarrow> bool) \<Rightarrow> ('x, 'r) EncryptReader \<Rightarrow> bytes \<Rightarrow> bytes \<Rightarrow> bool" where
  "serves read yields R bs out \<longleftrightarrow> (\<exists>n out' R'. read R out = Some (Ok n, out', R') \<and> n \<le> length out \<and> length out' = length out \<and>
    n \<le> length bs \<and> take n out' = take n bs \<and> (n = 0 \<longrightarrow> bs = []) \<and> yields R' (drop n bs))"

lemma serves_piece:
  assumes "read R out = Some (Ok n, splice 0 (take n q) out, R')" "0 < n" "n \<le> length out" "take n bs = take n q" "n \<le> length bs"
    and "yields R' (drop n bs)" "n \<le> length q"
  shows "serves read yields R bs out"
  unfolding serves_def
  using assms by (intro exI [of _ n] exI [of _ "splice 0 (take n q) out"] exI [of _ R']) (simp add: splice_0_take)

context byte_source begin

lemma read_header_serves:
  assumes "encrypt_yields E S yields R bs" "out \<noteq> []" "er_header_position R < 74"
  shows "serves (EncryptReader_read E rd) (encrypt_yields E S yields) R bs out"
proof -
  have ok: "encrypt_reader_ok R" and st: "er_status R \<noteq> Failed"
    using assms(1) by (auto simp: encrypt_yields_def encrypt_open_def)
  let ?h = "er_header_position R" and ?H = "header_bytes (er_header R)"
  let ?n = "min (length out) (74 - ?h)"
  let ?R = "R\<lparr> er_header_position := ?h + ?n \<rparr>"
  have H: "length ?H = 74" using ok by (simp add: encrypt_reader_ok_def)
  have pend: "encrypt_pending ?R = drop ?n (encrypt_pending R)" "?n \<le> length (encrypt_pending R)"
    using H by (simp_all add: encrypt_pending_def add.commute)
  have piece: "slice ?h (?h + ?n) ?H = take ?n (encrypt_pending R)"
    using H by (simp add: encrypt_pending_def slice_def take_drop)
  have run: "EncryptReader_read E rd R out = Some (Ok ?n, splice 0 (take ?n (encrypt_pending R)) out, ?R)"
    using assms(2,3) st H piece by (simp add: EncryptReader_read_def Let_def Header_as_bytes_def)
  have "encrypt_reader_ok ?R" using ok by (auto simp: encrypt_reader_ok_def)
  note A = encrypt_yields_advance [OF assms(1) this pend]
  have n: "0 < ?n" "?n \<le> length out" using assms(2,3) by simp_all
  show ?thesis
    by (rule serves_piece [where read = "EncryptReader_read E rd" and yields = "encrypt_yields E S yields", OF run n A(2,3,1) pend(2)]) simp_all
qed

text \<open>Serving from a loaded segment, the one the reader held or one it loaded first.\<close>

lemma read_buffered_serves:
  assumes "encrypt_yields E S yields R1 bs" "er_header_position R1 = 74" "er_ciphertext_position R1 < er_ciphertext_length R1" "out \<noteq> []"
    and run: "EncryptReader_read E rd R out =
      try_io (map_err encryption_error (SegmentBuffer_ciphertext (er_buffer R1))) (out, R1) (\<lambda>ciphertext.
        if er_ciphertext_length R1 < er_ciphertext_position R1 then Some (Panic, out, R1) else
        let read = min (length out) (er_ciphertext_length R1 - er_ciphertext_position R1);
            end = er_ciphertext_position R1 + read
        in try_io (index_range (er_ciphertext_position R1) end ciphertext) (out, R1) (\<lambda>piece.
           Some (Ok read, splice 0 piece out, R1\<lparr> er_ciphertext_position := end \<rparr>)))"
  shows "serves (EncryptReader_read E rd) (encrypt_yields E S yields) R bs out"
proof -
  have ok: "encrypt_reader_ok R1" using assms(1) by (simp add: encrypt_yields_def)
  note K = encrypt_read_buffered [OF ok assms(2,3), where out = out]
  let ?n = "min (length out) (er_ciphertext_length R1 - er_ciphertext_position R1)"
  note A = encrypt_yields_advance [OF assms(1) K(2,3,4), simplified]
  have n: "0 < ?n" "?n \<le> length out" using assms(3,4) by simp_all
  show ?thesis
    by (rule serves_piece [where read = "EncryptReader_read E rd" and yields = "encrypt_yields E S yields", OF trans [OF run K(1)] n A(2,3,1) K(4)])
qed

text \<open>With nothing left to serve, an open reader produces the next segment.\<close>

lemma read_next_serves:
  assumes "lawful E S" "encrypt_open E S yields R bs" "encrypt_reader_ok R" "out \<noteq> []" "er_header_position R = 74"
    and "er_ciphertext_position R = er_ciphertext_length R" "er_status R = Open"
  shows "serves (EncryptReader_read E rd) (encrypt_yields E S yields) R bs out"
proof -
  have par: "Parameters_ciphertext_segment_length (EncryptReader_parameters R) = csl (sb_parameters (er_buffer R))"
    using assms(3) buffer_okD(1) [of "er_buffer R"]
    by (simp add: EncryptReader_parameters_def SegmentBuffer_parameters_def encrypt_reader_ok_def)
  show ?thesis
  proof (cases "csl (sb_parameters (er_buffer R)) \<le> length out")
    case True
    obtain n out' R' where D: "EncryptReader_emit_segment_direct E rd R out = Some (Ok n, out', R')" "0 < n" "n \<le> length out"
      "length out' = length out" "n \<le> length bs" "take n out' = take n bs" "encrypt_yields E S yields R' (drop n bs)"
      by (rule emit_direct_yields [OF assms(1,3,2,5,6) True])
    have "EncryptReader_read E rd R out = EncryptReader_emit_segment_direct E rd R out"
      using assms(4-7) True par by (simp add: EncryptReader_read_def)
    then show ?thesis unfolding serves_def using D by simp
  next
    case False
    obtain R1 where L: "EncryptReader_load_segment E rd R = Some (Ok (), R1)" "encrypt_yields E S yields R1 bs"
      "er_ciphertext_position R1 < er_ciphertext_length R1" "er_header_position R1 = 74"
      by (rule load_segment_yields [OF assms(1,3,2,5,6)])
    show ?thesis
      by (rule read_buffered_serves [OF L(2,4,3) assms(4)])
        (use assms(4-7) False par L(1) in \<open>simp add: EncryptReader_read_def Let_def\<close>)
  qed
qed

lemma encrypt_reader_source:
  assumes "lawful E S"
  shows "byte_source (EncryptReader_read E rd) (encrypt_yields E S yields) (\<lambda>_. 0)"
proof (unfold_locales, rule disjI1, fold serves_def)
  fix R bs and out :: bytes
  assume y: "encrypt_yields E S yields R bs" and ne: "out \<noteq> []"
  have ok: "encrypt_reader_ok R" and st: "er_status R \<noteq> Failed"
    using y by (auto simp: encrypt_yields_def encrypt_open_def)
  consider (header) "er_header_position R < 74"
    | (buffered) "er_header_position R = 74" "er_ciphertext_position R < er_ciphertext_length R"
    | (drained) "er_header_position R = 74" "er_ciphertext_position R = er_ciphertext_length R"
    using ok by (auto simp: encrypt_reader_ok_def le_less)
  then show "serves (EncryptReader_read E rd) (encrypt_yields E S yields) R bs out"
  proof cases
    case header
    then show ?thesis by (rule read_header_serves [OF y ne])
  next
    case buffered
    then show ?thesis by (rule read_buffered_serves [OF y _ _ ne]) (use ne st buffered in \<open>simp add: EncryptReader_read_def Let_def\<close>)
  next
    case drained
    have nil: "encrypt_pending R = []" using drained ok by (simp add: encrypt_pending_def encrypt_reader_ok_def slice_def)
    show ?thesis
    proof (cases "er_status R = Finished")
      case True
      then have "bs = []" using y nil by (auto simp: encrypt_yields_def encrypt_open_def)
      moreover have "EncryptReader_read E rd R out = Some (Ok 0, out, R)" using ne drained True by (simp add: EncryptReader_read_def)
      ultimately show ?thesis using y by (simp add: serves_def)
    next
      case False
      then have "er_status R = Open" using st by (cases "er_status R") simp_all
      moreover have "encrypt_open E S yields R bs" using y nil False by (auto simp: encrypt_yields_def)
      ultimately show ?thesis using read_next_serves [OF assms _ ok ne drained] by blast
    qed
  qed
qed

end

section \<open>Opening a stream\<close>

lemma Encryptor_new_cases:
  assumes "lawful E S" "params_ok P" "Key_provider E key = Ok provider"
  obtains (failed) "Encryptor_new E key aad P w = Err RngFailure"
      "fst (ProviderRng_fill E (ProviderRng_new provider w) (replicate 32 0)) = Err RngFailure"
    | (opened) e iv rng where "Encryptor_new E key aad P w = Ok e" "encryptor_at E e 0"
      "ProviderRng_fill E (ProviderRng_new provider w) (replicate 32 0) = (Ok (), iv, rng)" "length iv = 32"
      "es_context (en_state e) = floe_context S provider key P iv aad" "es_nonces (en_state e) = NonceGenerator_new rng"
      "en_header e = floe_header S key P iv aad" "Encryptor_parameters e = P"
proof (cases rule: start_encryption_spec [OF assms, of aad w])
  case 1
  then show thesis using failed by (simp add: Encryptor_new_def)
next
  case (2 s iv rng)
  let ?e = "\<lparr> en_state = s, en_header = floe_header S key P iv aad, en_counter = SegmentCounter_new \<rparr>"
  have "encryptor_at E ?e 0" using 2(5) counter_new_ok by (simp add: encryptor_at_def encryptor_ok_def SegmentCounter_new_def)
  then show thesis
    using 2 by (intro opened [of ?e iv rng]) (simp_all add: Encryptor_new_def Encryptor_parameters_def EncryptionState_parameters_def floe_context_def)
qed

lemma EncryptReader_new_yields:
  assumes "lawful E S" "params_ok P" "Key_provider E key = Ok provider"
    and "ProviderRng_fill E (ProviderRng_new provider w) (replicate 32 0) = (Ok (), iv, rng)"
    and "seals E S (floe_context S provider key P iv aad) True (NonceGenerator_new rng) 0 p body" "yields r p"
  shows "\<exists>R. EncryptReader_new E r key aad P w = Ok R \<and>
    encrypt_yields E S yields R (header_bytes (floe_header S key P iv aad) @ body)"
proof (cases rule: Encryptor_new_cases [OF assms(1-3), of aad w])
  case 1
  then show ?thesis using assms(4) by simp
next
  case (2 e iv' rng')
  have eq: "iv' = iv" "rng' = rng" using 2(3) assms(4) by simp_all
  let ?R = "\<lparr> er_inner = r, er_encryptor = Some e, er_header = Encryptor_header e, er_header_position = 0,
         er_buffer = SegmentBuffer_new P, er_ciphertext_position = 0, er_ciphertext_length = 0,
         er_lookahead = None, er_status = Open \<rparr>"
  have "EncryptReader_new E r key aad P w = Ok ?R" using 2(1) by (simp add: EncryptReader_new_def Let_def)
  moreover have "encrypt_open E S yields ?R body"
    using 2 eq assms(5,6) by (auto simp: encrypt_open_def lookahead_bytes_def SegmentBuffer_new_def)
  moreover have "encrypt_reader_ok ?R" "encrypt_pending ?R = header_bytes (floe_header S key P iv aad)"
    using SegmentBuffer_new_ok [OF assms(2)] 2(4,7) eq floe_header_length [OF lawfulD(1) [OF assms(1)]]
    by (simp_all add: encrypt_reader_ok_def encrypt_pending_def Encryptor_header_def slice_def)
  ultimately show ?thesis by (intro exI [of _ ?R]) (simp add: encrypt_yields_def)
qed

section \<open>Properties\<close>

text \<open>
  C11: Streaming encryption agrees with one-shot encryption byte for byte. Over any well-behaved
  reader of the plaintext and with the same entropy, whenever the one-shot encryption returns c the
  encrypting reader opens, some way of reading reaches the end, and every way of reading it to the
  end, with buffers of any sizes, collects exactly c.
\<close>

theorem streaming_encryption_agrees:
  assumes "lawful E S" "params_ok P" "Key_provider E key = Ok provider" "length p \<le> usize_max (pointer_width E)"
    and "encrypt E key aad P p w = Ok c" "byte_source rd yields patience" "yields r p"
  shows "\<exists>R. EncryptReader_new E r key aad P w = Ok R \<and>
    (\<exists>R'. reads_to_end (EncryptReader_read E rd) R c R') \<and>
    (\<forall>q R'. reads_to_end (EncryptReader_read E rd) R q R' \<longrightarrow> q = c)"
proof -
  obtain iv rng body where m: "ProviderRng_fill E (ProviderRng_new provider w) (replicate 32 0) = (Ok (), iv, rng)" "length iv = 32"
    "c = header_bytes (floe_header S key P iv aad) @ body"
    "seals E S (floe_context S provider key P iv aad) True (NonceGenerator_new rng) 0 p body"
    by (rule encrypt_seals [OF assms(1-5)])
  note src = byte_source.encrypt_reader_source [OF assms(6,1)]
  obtain R where R: "EncryptReader_new E r key aad P w = Ok R" "encrypt_yields E S yields R c"
    using EncryptReader_new_yields [where yields = yields, OF assms(1-3) m(1,4) assms(7)] m(3) by blast
  then show ?thesis using byte_source.reads_to_end_exists [OF src R(2)] byte_source.reads_to_end_yields [OF src _ R(2)] by blast
qed

theorem streaming_encryption_agrees_witness:
  "\<exists>c R R'. encrypt toy_env (toy_key Provider_RING) [5] SEGMENT_64_B (replicate 70 9) ([], []) = Ok c \<and>
    EncryptReader_new toy_env (replicate 70 9) (toy_key Provider_RING) [5] SEGMENT_64_B ([], []) = Ok R \<and>
    reads_to_end (EncryptReader_read toy_env slice_read) R c R'"
proof -
  have le: "length (replicate 70 (9 :: u8)) \<le> usize_max (pointer_width toy_env)"
    using usize_max_ge [of "pointer_width toy_env"] by simp
  obtain c where c: "encrypt toy_env (toy_key Provider_RING) [5] SEGMENT_64_B (replicate 70 9) ([], []) = Ok c"
    by (rule toy_encrypted)
  from streaming_encryption_agrees [OF toy_lawful segment_64(1) toy_key(2) le c slice_source.byte_source_axioms refl]
  show ?thesis using c by blast
qed

end
