(* ===== verification/Floe_Encrypt_Writer.thy ===== *)
theory Floe_Encrypt_Writer
  imports Floe_Encrypt_Reader
begin

text \<open>
  The streaming encryption writer of src/io.rs over any lawful byte sink: that the writer is itself a
  byte sink of plaintext, that finishing it completes one FLOE message in the wrapped writer, and
  that an error of the wrapped writer poisons it.
\<close>

section \<open>The segments written so far\<close>

text \<open>\<open>sealed S C i nps\<close>: the non-final segments of the chunks \<open>nps\<close>, with their nonces, from position \<open>i\<close> on.\<close>

fun sealed :: "prims \<Rightarrow> MessageContext \<Rightarrow> nat \<Rightarrow> (bytes \<times> bytes) list \<Rightarrow> bytes" where
  "sealed S C i [] = []"
| "sealed S C i ((nonce, p) # nps) = floe_segment S C (word_of_nat i) NonFinal nonce p @ sealed S C (Suc i) nps"

lemma sealed_snoc:
  "sealed S C i (nps @ [(nonce, p)]) = sealed S C i nps @ floe_segment S C (word_of_nat (i + length nps)) NonFinal nonce p"
  by (induction S C i nps rule: sealed.induct) auto

lemma floe_body_snoc:
  "floe_body S C i (nps @ [(nonce, p)]) = sealed S C i nps @ floe_segment S C (word_of_nat (i + length nps)) Final nonce p"
  by (induction S C i nps rule: sealed.induct) (auto simp: floe_body_Cons)

lemma chunks_ok_snoc: "chunks_ok P (ps @ [p]) \<longleftrightarrow> (\<forall>q \<in> set ps. length q = psl P) \<and> length p \<le> psl P"
  by (induction ps) (auto simp: chunks_ok_Cons)

lemma sealed_length:
  assumes "prims_ok S" "\<forall>(nonce, q) \<in> set nps. length nonce = 12 \<and> length q = k"
  shows "length (sealed S C i nps) = length nps * (k + 32)" "length (concat (map snd nps)) = length nps * k"
  using assms by (induction S C i nps rule: sealed.induct) (auto simp: floe_segment_length)

section \<open>What an encrypting writer has accepted\<close>

definition writer_pending :: "SegmentBuffer \<Rightarrow> bytes" where
  "writer_pending B = (case sb_state B of Plaintext n \<Rightarrow> slice 16 (16 + n) (sb_bytes B) | Empty \<Rightarrow> [] | Ciphertext _ \<Rightarrow> [])"

text \<open>
  \<open>writer_holds E S holds C pre W p\<close>: the open writer \<open>W\<close> of a message with context \<open>C\<close> has accepted the plaintext \<open>p\<close>.
  Its wrapped writer, described by \<open>holds\<close>, has \<open>pre\<close> and the segments of the full chunks of \<open>p\<close>; the
  rest of \<open>p\<close> is in the buffer. \<open>writer_limit\<close> says that a plaintext of \<open>n\<close> bytes stays within the segment limit
  and that its segments stay within the limit of the wrapped writer.
\<close>

definition writer_holds ::
  "'x env \<Rightarrow> prims \<Rightarrow> ('w \<Rightarrow> bytes \<Rightarrow> bool) \<Rightarrow> MessageContext \<Rightarrow> bytes \<Rightarrow> ('x, 'w) EncryptWriter \<Rightarrow> bytes \<Rightarrow> bool" where
  "writer_holds E S holds C pre W p \<longleftrightarrow> ew_status W = Open \<and> buffer_ok (ew_buffer W) \<and>
    sb_parameters (ew_buffer W) = mc_parameters C \<and>
    (\<exists>e nps. ew_encryptor W = Some e \<and> encryptor_at E e (length nps) \<and> es_context (en_state e) = C \<and>
       (\<forall>(nonce, q) \<in> set nps. length nonce = 12 \<and> length q = psl (mc_parameters C)) \<and>
       holds (ew_inner W) (pre @ sealed S C 0 nps) \<and> p = concat (map snd nps) @ writer_pending (ew_buffer W))"

definition writer_limit :: "Parameters \<Rightarrow> (nat \<Rightarrow> bool) \<Rightarrow> bytes \<Rightarrow> nat \<Rightarrow> bool" where
  "writer_limit P limit pre n \<longleftrightarrow> n \<le> (2 ^ 40 - 1) * psl P \<and> limit (length pre + 32 + n + 32 * (n div psl P))"

lemma writer_buffer_cases:
  assumes "writer_holds E S holds C pre W p"
  obtains (buffered) n where "sb_state (ew_buffer W) = Plaintext n" "n \<le> psl (mc_parameters C)"
      "\<not> is_err (SegmentBuffer_plaintext_length (ew_buffer W))"
    | (idle) "writer_pending (ew_buffer W) = []" "is_err (SegmentBuffer_plaintext_length (ew_buffer W))"
  using assms buffer_okD(3) [of "ew_buffer W"]
  by (cases "sb_state (ew_buffer W)") (auto simp: writer_holds_def writer_pending_def SegmentBuffer_plaintext_length_def)

context byte_sink begin

lemma writer_limit_mono: "writer_limit P limit pre m \<Longrightarrow> n \<le> m \<Longrightarrow> writer_limit P limit pre n"
  using limit_mono [of "length pre + 32 + m + 32 * (m div psl P)" "length pre + 32 + n + 32 * (n div psl P)"] div_le_mono [of n m "psl P"]
  by (auto simp: writer_limit_def)

lemma writer_limit_segments:
  assumes "writer_limit P limit pre n" "params_ok P" "k * psl P \<le> n"
  shows "limit (length pre + k * (psl P + 32))" "k \<le> 2 ^ 40 - 1"
proof -
  have "k \<le> n div psl P" using assms(3) psl_pos [OF assms(2)] by (simp add: less_eq_div_iff_mult_less_eq)
  then have "k * (psl P + 32) \<le> n + 32 * (n div psl P)" using assms(3) by (simp add: add_mult_distrib2)
  then show "limit (length pre + k * (psl P + 32))" using assms(1)
    by - (rule limit_mono [of "length pre + 32 + n + 32 * (n div psl P)"], simp_all add: writer_limit_def)
  have "n \<le> (2 ^ 40 - 1) * psl P" using assms(1) unfolding writer_limit_def by blast
  with assms(3) have "k * psl P \<le> (2 ^ 40 - 1) * psl P" by (rule order_trans)
  then show "k \<le> 2 ^ 40 - 1" using psl_pos [OF assms(2)] by (metis mult_le_cancel2)
qed

lemma emit_non_final_holds:
  assumes "lawful E S" "entropy_available E" "writer_holds E S holds C pre W p"
    and "sb_state (ew_buffer W) = Plaintext (psl (mc_parameters C))" "writer_limit (mc_parameters C) limit pre n" "length p < n"
  obtains W' where "EncryptWriter_emit_non_final E wr W = Some (Ok (), W')" "writer_holds E S holds C pre W' p"
    "is_err (SegmentBuffer_plaintext_length (ew_buffer W'))"
proof -
  let ?k = "psl (mc_parameters C)" and ?B = "ew_buffer W"
  obtain e nps where W: "ew_status W = Open" "buffer_ok ?B" "sb_parameters ?B = mc_parameters C" "ew_encryptor W = Some e"
      "encryptor_at E e (length nps)" "es_context (en_state e) = C" "\<forall>(nonce, q) \<in> set nps. length nonce = 12 \<and> length q = ?k"
      "holds (ew_inner W) (pre @ sealed S C 0 nps)" "p = concat (map snd nps) @ writer_pending ?B"
    using assms(3) by (auto simp: writer_holds_def)
  note S = lawfulD(1) [OF assms(1)] and P = encryptor_at_params [OF W(5)]
  have EP: "Encryptor_parameters e = mc_parameters C" "params_ok (mc_parameters C)" using P W(6) by simp_all
  have pend: "writer_pending ?B = slice 16 (16 + ?k) (sb_bytes ?B)" "length (writer_pending ?B) = ?k"
    using assms(4) buffer_okD(2) [OF W(2)] W(3) by (simp_all add: writer_pending_def)
  note len = sealed_length [OF S W(7)]
  have "Suc (length nps) * ?k \<le> n" using assms(6) W(9) len(2) pend(2) by simp
  note lim = writer_limit_segments [OF assms(5) EP(2) this]
  have i: "length nps \<noteq> 2 ^ 40 - 1" using lim(2) by simp
  have par: "sb_parameters ?B = Encryptor_parameters e" "sb_state ?B = Plaintext (psl (Encryptor_parameters e))"
    using W(3) EP assms(4) by simp_all
  have ok: "nonces_ok (es_nonces (en_state e))" using W(5) by (simp add: encryptor_at_def encryptor_ok_def enc_state_ok_def)
  show thesis
  proof (cases rule: non_final_in_place_cases [OF assms(1) W(5) i W(2) par])
    case (1 e' B')
    then show thesis using nonce_available [OF assms(2) lawfulD(6) [OF assms(1)] ok] by simp
  next
    case (2 nonce e' B')
    let ?seg = "floe_segment S C (word_of_nat (length nps)) NonFinal nonce (writer_pending ?B)"
    have seg: "floe_segment S (es_context (en_state e)) (word_of_nat (length nps)) NonFinal nonce
        (slice 16 (16 + psl (Encryptor_parameters e)) (sb_bytes ?B)) = ?seg" using W(6) EP pend(1) by simp
    note Q = 2 [unfolded seg]
    have sl: "length ?seg = ?k + 32" using floe_segment_length [OF S Q(5)] pend(2) by simp
    have "limit (length (pre @ sealed S C 0 nps) + length ?seg)" using lim(1) len(1) sl by (simp add: ac_simps)
    then obtain w' where w': "write_all wr (ew_inner W) ?seg = Some (Ok (), w')" "holds w' ((pre @ sealed S C 0 nps) @ ?seg)"
      using write_all_holds [OF W(8)] by blast
    let ?W = "W\<lparr> ew_encryptor := Some e', ew_buffer := B', ew_inner := w' \<rparr>"
    have run: "EncryptWriter_emit_non_final E wr W = Some (Ok (), ?W)"
      using W(4) Q(1,2) w'(1) by (simp add: EncryptWriter_emit_non_final_def EncryptWriter_poison_on_error_def)
    have B': "sb_state B' = Ciphertext (length ?seg)" by (rule SegmentBuffer_ciphertext_okD(1) [OF Q(7,2)])
    have "holds w' (pre @ sealed S C 0 (nps @ [(nonce, writer_pending ?B)]))" using w'(2) by (simp add: sealed_snoc)
    moreover have "p = concat (map snd (nps @ [(nonce, writer_pending ?B)])) @ writer_pending B'"
      using W(9) B' by (simp add: writer_pending_def)
    moreover have "\<forall>(n, q) \<in> set (nps @ [(nonce, writer_pending ?B)]). length n = 12 \<and> length q = ?k"
      using W(7) Q(5) pend(2) by simp
    moreover have "encryptor_at E e' (length (nps @ [(nonce, writer_pending ?B)]))" using Q(3) by simp
    ultimately have "writer_holds E S holds C pre ?W p"
      using W(1,3) Q(4,7,8) W(6) unfolding writer_holds_def by fastforce
    then show thesis by (rule that [OF run]) (simp add: SegmentBuffer_plaintext_length_def B')
  qed
qed

lemma write_direct_holds:
  assumes "lawful E S" "entropy_available E" "writer_holds E S holds C pre W p"
    and "is_err (SegmentBuffer_plaintext_length (ew_buffer W))" "length part = psl (mc_parameters C)"
    and "writer_limit (mc_parameters C) limit pre n" "length p + length part \<le> n"
  obtains W' where "EncryptWriter_write_segment_direct E wr W part = Some (Ok (length part), W')"
    "writer_holds E S holds C pre W' (p @ part)"
proof -
  let ?k = "psl (mc_parameters C)" and ?B = "ew_buffer W"
  obtain e nps where W: "ew_status W = Open" "buffer_ok ?B" "sb_parameters ?B = mc_parameters C" "ew_encryptor W = Some e"
      "encryptor_at E e (length nps)" "es_context (en_state e) = C" "\<forall>(nonce, q) \<in> set nps. length nonce = 12 \<and> length q = ?k"
      "holds (ew_inner W) (pre @ sealed S C 0 nps)" "p = concat (map snd nps) @ writer_pending ?B"
    using assms(3) by (auto simp: writer_holds_def)
  have pend: "writer_pending ?B = []"
    by (cases rule: writer_buffer_cases [OF assms(3)]) (use assms(4) in simp_all)
  note S = lawfulD(1) [OF assms(1)] and P = encryptor_at_params [OF W(5)]
  have EP: "Encryptor_parameters e = mc_parameters C" "params_ok (mc_parameters C)" using P W(6) by simp_all
  note len = sealed_length [OF S W(7)]
  have "Suc (length nps) * ?k \<le> n" using assms(5,7) W(9) len(2) pend by simp
  note lim = writer_limit_segments [OF assms(6) EP(2) this]
  have i: "length nps \<noteq> 2 ^ 40 - 1" using lim(2) by simp
  have room: "length part = psl (Encryptor_parameters e)" "length part + 32 \<le> length (sb_bytes ?B)"
    using assms(5) EP(1) buffer_okD(2) [OF W(2)] W(3) by simp_all
  have ok: "nonces_ok (es_nonces (en_state e))" using W(5) by (simp add: encryptor_at_def encryptor_ok_def enc_state_ok_def)
  show thesis
  proof (cases rule: non_final_into_cases [OF assms(1) W(5) i room])
    case (1 e' out')
    then show thesis using nonce_available [OF assms(2) lawfulD(6) [OF assms(1)] ok] by simp
  next
    case (2 nonce e')
    let ?seg = "floe_segment S C (word_of_nat (length nps)) NonFinal nonce part"
    note Q = 2 [unfolded W(6)]
    have sl: "length ?seg = length part + 32" using floe_segment_length [OF S Q(4)] by simp
    have "limit (length (pre @ sealed S C 0 nps) + length ?seg)" using lim(1) len(1) sl assms(5) by (simp add: ac_simps)
    then obtain w' where w': "write_all wr (ew_inner W) ?seg = Some (Ok (), w')" "holds w' ((pre @ sealed S C 0 nps) @ ?seg)"
      using write_all_holds [OF W(8)] by blast
    let ?raw = "?seg @ drop (length part + 32) (sb_bytes ?B)"
    let ?W = "W\<lparr> ew_encryptor := Some e', ew_buffer := ?B\<lparr> sb_bytes := ?raw, sb_state := Ciphertext (length part + 32) \<rparr>, ew_inner := w' \<rparr>"
    have ct: "SegmentBuffer_ciphertext (?B\<lparr> sb_bytes := ?raw, sb_state := Ciphertext (length part + 32) \<rparr>) = Ok ?seg"
      using sl by (simp add: SegmentBuffer_ciphertext_def slice_def)
    have run: "EncryptWriter_write_segment_direct E wr W part = Some (Ok (length part), ?W)"
      using W(4) Q(1) w'(1) ct by (simp add: EncryptWriter_write_segment_direct_def EncryptWriter_poison_on_error_def
          SegmentBuffer_raw_mut_def SegmentBuffer_mark_ciphertext_def Let_def)
    have B': "buffer_ok (?B\<lparr> sb_bytes := ?raw, sb_state := Ciphertext (length part + 32) \<rparr>)"
      using buffer_okD(1,2) [OF W(2)] room sl EP(1) W(3) assms(5) by (intro buffer_okI) simp_all
    have "holds w' (pre @ sealed S C 0 (nps @ [(nonce, part)]))" using w'(2) by (simp add: sealed_snoc)
    moreover have "p @ part = concat (map snd (nps @ [(nonce, part)])) @ writer_pending (ew_buffer ?W)"
      using W(9) pend by (simp add: writer_pending_def)
    moreover have "\<forall>(n, q) \<in> set (nps @ [(nonce, part)]). length n = 12 \<and> length q = ?k" using W(7) Q(4) assms(5) by simp
    moreover have "encryptor_at E e' (length (nps @ [(nonce, part)]))" using Q(2) by simp
    ultimately have "writer_holds E S holds C pre ?W (p @ part)"
      using W(1,3) Q(3) B' unfolding writer_holds_def by fastforce
    then show thesis by (rule that [OF run])
  qed
qed

end

section \<open>Writing\<close>

text \<open>Copying into the buffer.\<close>

lemma extend_holds:
  fixes input :: bytes
  assumes "writer_holds E S holds C pre W p"
  defines "n \<equiv> min (length input) (psl (mc_parameters C) - length (writer_pending (ew_buffer W)))"
  obtains B' where "SegmentBuffer_extend_plaintext (ew_buffer W) input = (Ok n, B')"
    "writer_holds E S holds C pre (W\<lparr> ew_buffer := B' \<rparr>) (p @ take n input)"
    "n = 0 \<Longrightarrow> input \<noteq> [] \<Longrightarrow> sb_state B' = Plaintext (psl (mc_parameters C))"
proof -
  let ?B = "ew_buffer W" and ?k = "psl (mc_parameters C)"
  have B: "buffer_ok ?B" "sb_parameters ?B = mc_parameters C" using assms(1) by (auto simp: writer_holds_def)
  define len where "len = (case sb_state ?B of Plaintext n \<Rightarrow> n | _ \<Rightarrow> 0)"
  note D = buffer_okD [OF B(1)]
  note X = extend_plaintext_spec(1) [OF B(1), of input, folded len_def, unfolded B(2)]
    extend_plaintext_spec(2) [OF B(1), folded len_def, unfolded B(2)]
  have pend: "length (writer_pending ?B) = len" "writer_pending ?B = slice 16 (16 + len) (sb_bytes ?B)"
    using D(2,3) B(2) by (auto simp: writer_pending_def len_def slice_def split: BufferState.split)
  let ?B' = "?B\<lparr> sb_bytes := splice (16 + len) (take n input) (sb_bytes ?B), sb_state := Plaintext (len + n) \<rparr>"
  have n: "n = min (length input) (?k - len)" by (simp add: n_def pend(1))
  have run: "SegmentBuffer_extend_plaintext ?B input = (Ok n, ?B')" using X(1) n by simp
  have fits: "len + n \<le> ?k" "length (take n input) = n" using X(2) n by simp_all
  have ok: "buffer_ok ?B'" using D(1,2) fits B(2) by (intro buffer_okI) simp_all
  have "writer_pending ?B' = slice 16 (16 + (len + n)) (splice (16 + len) (take n input) (sb_bytes ?B))"
    by (simp add: writer_pending_def)
  also have "\<dots> = writer_pending ?B @ take n input"
    using D(2) fits B(2) by (simp add: pend(2) splice_def slice_take_drop drop_take min_def)
  finally have pend': "writer_pending ?B' = writer_pending ?B @ take n input" .
  have "writer_holds E S holds C pre (W\<lparr> ew_buffer := ?B' \<rparr>) (p @ take n input)"
    using assms(1) ok pend' unfolding writer_holds_def by auto
  then show thesis by (rule that [OF run]) (use n X(2) in \<open>auto simp: min_def split: if_splits\<close>)
qed

context byte_sink begin

lemma encrypt_writer_sink:
  assumes "lawful E S" "entropy_available E"
  shows "byte_sink (EncryptWriter_write E wr) (writer_holds E S holds C pre) (\<lambda>_. 0) (writer_limit (mc_parameters C) limit pre)"
proof (unfold_locales, rule disjI1)
  fix W p and input :: bytes
  assume W: "writer_holds E S holds C pre W p" and ne: "input \<noteq> []"
    and lim: "writer_limit (mc_parameters C) limit pre (length p + length input)"
  let ?k = "psl (mc_parameters C)"
  have st: "ew_status W = Open" and B: "sb_parameters (ew_buffer W) = mc_parameters C" "params_ok (mc_parameters C)"
    using W buffer_okD(1) [of "ew_buffer W"] by (auto simp: writer_holds_def)
  have cap: "Parameters_plaintext_segment_length (EncryptWriter_parameters W) = ?k" and k: "0 < ?k"
    using B psl_pos by (simp_all add: EncryptWriter_parameters_def SegmentBuffer_parameters_def)
  let ?goal = "\<lambda>m. \<exists>n W'. m = Some (Ok n, W') \<and> 0 < n \<and> n \<le> length input \<and> writer_holds E S holds C pre W' (p @ take n input)"
  have direct: "?goal (EncryptWriter_write_segment_direct E wr W1 (take ?k input))"
    if W1: "writer_holds E S holds C pre W1 p" "is_err (SegmentBuffer_plaintext_length (ew_buffer W1))" and le: "?k \<le> length input" for W1
  proof -
    have "length (take ?k input) = ?k" "length p + length (take ?k input) \<le> length p + length input" using le by simp_all
    from write_direct_holds [OF assms W1 this(1) lim this(2)] show ?thesis using le k by (metis length_take min.absorb2)
  qed
  have copy: "?goal (case SegmentBuffer_extend_plaintext (ew_buffer W1) input of (r, buffer) \<Rightarrow>
       let W3 = W1\<lparr> ew_buffer := buffer \<rparr> in try_io (infallible r) W3 (\<lambda>copied. Some (Ok copied, W3)))"
    if W1: "writer_holds E S holds C pre W1 p" "length (writer_pending (ew_buffer W1)) < ?k" for W1
    by (rule extend_holds [OF W1(1), of input]) (use W1(2) ne in auto)
  show "?goal (EncryptWriter_write E wr W input)"
  proof (cases "?k \<le> length input \<and> is_err (SegmentBuffer_plaintext_length (ew_buffer W))")
    case True
    then have "EncryptWriter_write E wr W input = EncryptWriter_write_segment_direct E wr W (take ?k input)"
      using ne st cap by (simp add: EncryptWriter_write_def)
    then show ?thesis using direct [OF W] True by simp
  next
    case False
    obtain n B' where X: "SegmentBuffer_extend_plaintext (ew_buffer W) input = (Ok n, B')" "n \<le> length input"
      "writer_holds E S holds C pre (W\<lparr> ew_buffer := B' \<rparr>) (p @ take n input)" "n = 0 \<Longrightarrow> sb_state B' = Plaintext ?k"
      by (rule extend_holds [OF W, of input]) (use ne in auto)
    note unf = EncryptWriter_write_def
    show ?thesis
    proof (cases "n = 0")
      case nz: False
      then have "EncryptWriter_write E wr W input = Some (Ok n, W\<lparr> ew_buffer := B' \<rparr>)"
        using ne st cap False X(1) by (auto simp: unf)
      then show ?thesis using nz X(2,3) by simp
    next
      case True
      let ?W = "W\<lparr> ew_buffer := B' \<rparr>"
      have full: "sb_state (ew_buffer ?W) = Plaintext ?k" "writer_holds E S holds C pre ?W p" using X(3,4) True by simp_all
      have lt: "length p < length p + length input" using ne by simp
      obtain W2 where W2: "EncryptWriter_emit_non_final E wr ?W = Some (Ok (), W2)" "writer_holds E S holds C pre W2 p"
          "is_err (SegmentBuffer_plaintext_length (ew_buffer W2))"
        by (rule emit_non_final_holds [OF assms full(2,1) lim lt])
      have idle: "length (writer_pending (ew_buffer W2)) < ?k"
        by (cases rule: writer_buffer_cases [OF W2(2)]) (use W2(3) k in simp_all)
      have "EncryptWriter_write E wr W input =
          (if ?k \<le> length input then EncryptWriter_write_segment_direct E wr W2 (take ?k input)
           else case SegmentBuffer_extend_plaintext (ew_buffer W2) input of (r, buffer) \<Rightarrow>
             let W3 = W2\<lparr> ew_buffer := buffer \<rparr> in try_io (infallible r) W3 (\<lambda>copied. Some (Ok copied, W3)))"
        using ne st cap False X(1) True W2(1) by (auto simp: unf)
      then show ?thesis using direct [OF W2(2,3)] copy [OF W2(2) idle] by simp
    qed
  qed
qed (rule writer_limit_mono)

end

section \<open>Finishing\<close>

text \<open>The last segment takes what is buffered, or nothing.\<close>

definition final_buffer :: "SegmentBuffer \<Rightarrow> SegmentBuffer" where
  "final_buffer B = (case sb_state B of Plaintext _ \<Rightarrow> B | Empty \<Rightarrow> B\<lparr> sb_state := Plaintext 0 \<rparr> | Ciphertext _ \<Rightarrow> B\<lparr> sb_state := Plaintext 0 \<rparr>)"

lemma final_buffer_spec:
  assumes "buffer_ok B"
  shows "is_err (SegmentBuffer_plaintext_length B) \<Longrightarrow> SegmentBuffer_prepare_plaintext B 0 = (Ok [], final_buffer B)"
    "\<not> is_err (SegmentBuffer_plaintext_length B) \<Longrightarrow> final_buffer B = B" "buffer_ok (final_buffer B)"
    "sb_parameters (final_buffer B) = sb_parameters B"
    "sb_state (final_buffer B) = Plaintext (length (writer_pending B))"
    "slice 16 (16 + length (writer_pending B)) (sb_bytes (final_buffer B)) = writer_pending B"
  using buffer_okD [OF assms] assms prepare_plaintext_spec [OF assms, of 0]
  by (auto simp: final_buffer_def SegmentBuffer_plaintext_length_def writer_pending_def slice_def split: BufferState.splits intro!: buffer_okI)

context flushing_sink begin

lemma try_finish_holds:
  assumes "lawful E S" "entropy_available E" "writer_holds E S holds C pre W p" "writer_limit (mc_parameters C) limit pre (length p)"
  obtains W' nps where "EncryptWriter_try_finish E wr fl W = Some (Ok (), W')" "ew_status W' = Finished"
    "holds (ew_inner W') (pre @ floe_body S C 0 nps)" "\<forall>(nonce, _) \<in> set nps. length nonce = 12" "length nps \<le> 2 ^ 40"
    "chunks_ok (mc_parameters C) (map snd nps)" "p = concat (map snd nps)"
proof -
  let ?k = "psl (mc_parameters C)" and ?B = "ew_buffer W" and ?q = "writer_pending (ew_buffer W)"
  obtain e nps where W: "ew_status W = Open" "buffer_ok ?B" "sb_parameters ?B = mc_parameters C" "ew_encryptor W = Some e"
      "encryptor_at E e (length nps)" "es_context (en_state e) = C" "\<forall>(nonce, q) \<in> set nps. length nonce = 12 \<and> length q = ?k"
      "holds (ew_inner W) (pre @ sealed S C 0 nps)" "p = concat (map snd nps) @ ?q"
    using assms(3) by (auto simp: writer_holds_def)
  note S = lawfulD(1) [OF assms(1)] and P = encryptor_at_params [OF W(5)] and F = final_buffer_spec [OF W(2)]
  have EP: "Encryptor_parameters e = mc_parameters C" "params_ok (mc_parameters C)" using P W(6) by simp_all
  note len = sealed_length [OF S W(7)]
  have qk: "length ?q \<le> ?k" using buffer_okD(3) [OF F(3,5)] F(4) W(3) by simp
  have par: "sb_parameters (final_buffer ?B) = Encryptor_parameters e" using F(4) W(3) EP by simp
  have ok: "nonces_ok (es_nonces (en_state e))" using W(5) by (simp add: encryptor_at_def encryptor_ok_def enc_state_ok_def)
  have i: "length nps < 2 ^ 40" by (rule encryptor_position(1) [OF W(5)])
  show thesis
  proof (cases rule: final_in_place_cases [OF assms(1) W(5) F(3) par F(5)])
    case (1 x B')
    then show thesis using nonce_available [OF assms(2) lawfulD(6) [OF assms(1)] ok] by simp
  next
    case (2 nonce g' B')
    note Q = 2 [unfolded F(6) W(6)]
    let ?seg = "floe_segment S C (word_of_nat (length nps)) Final nonce ?q"
    have sl: "length ?seg = length ?q + 32" using floe_segment_length [OF S Q(3)] by simp
    have "length nps \<le> length p div ?k" using W(9) len(2) psl_pos [OF EP(2)] by (simp add: less_eq_div_iff_mult_less_eq)
    then have "length nps * (?k + 32) + length ?q + 32 \<le> 32 + length p + 32 * (length p div ?k)"
      using W(9) len(2) by (simp add: add_mult_distrib2)
    then have "limit (length (pre @ sealed S C 0 nps) + length ?seg)" using assms(4) len(1) sl
      by - (rule limit_mono [of "length pre + 32 + length p + 32 * (length p div ?k)"], simp_all add: writer_limit_def)
    then obtain w1 where w1: "write_all wr (ew_inner W) ?seg = Some (Ok (), w1)" "holds w1 ((pre @ sealed S C 0 nps) @ ?seg)"
      using write_all_holds [OF W(8)] by blast
    obtain w2 where w2: "fl w1 = Some (Ok (), w2)" "holds w2 ((pre @ sealed S C 0 nps) @ ?seg)" using flush_step [OF w1(2)] by blast
    have run: "EncryptWriter_try_finish E wr fl W =
        Some (Ok (), W\<lparr> ew_encryptor := None, ew_buffer := B', ew_inner := w2, ew_status := Finished \<rparr>)"
      using W(1,4) Q(1,2) F(1,2) w1(1) w2(1)
      by (cases "is_err (SegmentBuffer_plaintext_length ?B)")
        (simp_all add: EncryptWriter_try_finish_def EncryptWriter_poison_on_error_def EncryptWriter_finish_message_def Let_def)
    show thesis
    proof (rule that [OF run, of "nps @ [(nonce, ?q)]"])
      show "chunks_ok (mc_parameters C) (map snd (nps @ [(nonce, ?q)]))" using W(7) qk by (auto simp: chunks_ok_snoc)
      show "\<forall>(n, _) \<in> set (nps @ [(nonce, ?q)]). length n = 12" using W(7) Q(3) by auto
    qed (use w2(2) W(9) i in \<open>simp_all add: floe_body_snoc\<close>)
  qed
qed

end

context byte_sink begin

lemma EncryptWriter_new_holds:
  assumes "lawful E S" "entropy_available E" "params_ok P" "Key_provider E key = Ok provider"
    and "holds w base" "limit (length base + 74)"
  obtains W w' C iv where "EncryptWriter_new E wr w key aad P x = Some (Ok W, w')" "length iv = 32"
    "C = floe_context S provider key P iv aad"
    "writer_holds E S holds C (base @ header_bytes (floe_header S key P iv aad)) W []"
proof (cases rule: Encryptor_new_cases [OF assms(1,3,4), of aad x])
  case 1
  then show thesis using ProviderRng_fill_available [OF assms(2), of "ProviderRng_new provider x" "replicate 32 0"] by simp
next
  case (2 e iv rng)
  let ?H = "floe_header S key P iv aad"
  have len: "length (header_bytes ?H) = 74" using floe_header_length [OF lawfulD(1) [OF assms(1)] 2(4)] by simp
  obtain w' where w': "write_all wr w (header_bytes ?H) = Some (Ok (), w')" "holds w' (base @ header_bytes ?H)"
    using write_all_holds [OF assms(5), of "header_bytes ?H"] assms(6) len by auto
  let ?W = "\<lparr> ew_inner = w', ew_encryptor = Some e, ew_header = ?H, ew_buffer = SegmentBuffer_new P, ew_status = Open \<rparr>"
  have run: "EncryptWriter_new E wr w key aad P x = Some (Ok ?W, w')"
    using 2(1,7) w'(1) by (simp add: EncryptWriter_new_def Encryptor_header_def Header_as_bytes_def Let_def)
  have "writer_holds E S holds (floe_context S provider key P iv aad) (base @ header_bytes ?H) ?W []"
    unfolding writer_holds_def
    using SegmentBuffer_new_ok [OF assms(3)] 2(2,5) w'(2)
    by (auto simp: SegmentBuffer_new_def floe_context_def writer_pending_def intro!: exI [of _ "[]"])
  then show thesis by (rule that [OF run 2(4) refl])
qed

end

section \<open>Properties\<close>

text \<open>
  C12: An encrypting writer produces a FLOE message. Over any well-behaved wrapped writer, whatever it
  already holds, for a key that resolves to a provider and with entropy available: opening succeeds, and the plaintext written in pieces
  of any sizes, within the segment limit and what the wrapped writer can take, is accepted in full;
  finishing then hands back the wrapped writer, which holds what it held before followed by one FLOE
  message of the plaintext.
\<close>

theorem encrypt_writer_message:
  assumes "lawful E S" "entropy_available E" "params_ok P" "Key_provider E key = Ok provider"
    and "flushing_sink wr holds patience limit fl" "holds w base" "n = length (concat pieces)"
    and "n \<le> (2 ^ 40 - 1) * psl P" "limit (length base + 106 + n + 32 * (n div psl P))"
  shows "\<exists>W w1 W1 w2 c. EncryptWriter_new E wr w key aad P x = Some (Ok W, w1) \<and>
    write_pieces (EncryptWriter_write E wr) W pieces = Some (Ok (), W1) \<and>
    EncryptWriter_finish E wr fl W1 = Some (Ok w2) \<and> holds w2 (base @ c) \<and> is_floe_message S key P aad (concat pieces) c"
proof -
  have sink: "byte_sink wr holds patience limit" using assms(5) by (simp add: flushing_sink_def)
  have "limit (length base + 74)" by (rule byte_sink.limit_mono [OF sink assms(9)]) simp
  then obtain W w1 C iv where W: "EncryptWriter_new E wr w key aad P x = Some (Ok W, w1)" "length iv = 32"
    "C = floe_context S provider key P iv aad" "writer_holds E S holds C (base @ header_bytes (floe_header S key P iv aad)) W []"
    by (rule byte_sink.EncryptWriter_new_holds [OF sink assms(1-4,6)])
  let ?pre = "base @ header_bytes (floe_header S key P iv aad)"
  have C: "mc_parameters C = P" by (simp add: W(3) floe_context_def)
  have lim: "writer_limit (mc_parameters C) limit ?pre n"
    using assms(8,9) C floe_header_length [OF lawfulD(1) [OF assms(1)] W(2), of key P aad] unfolding writer_limit_def
    by (simp add: ac_simps)
  obtain W1 where W1: "write_pieces (EncryptWriter_write E wr) W pieces = Some (Ok (), W1)"
      "writer_holds E S holds C ?pre W1 (concat pieces)"
    using byte_sink.write_pieces_holds [OF byte_sink.encrypt_writer_sink [OF sink assms(1,2)] W(4), of pieces] lim assms(7) by auto
  obtain W2 nps where F: "EncryptWriter_try_finish E wr fl W1 = Some (Ok (), W2)"
    "holds (ew_inner W2) (?pre @ floe_body S C 0 nps)" "\<forall>(nonce, _) \<in> set nps. length nonce = 12" "length nps \<le> 2 ^ 40"
    "chunks_ok (mc_parameters C) (map snd nps)" "concat pieces = concat (map snd nps)"
    by (rule flushing_sink.try_finish_holds [OF assms(5,1,2) W1(2) lim [unfolded assms(7)]])
  let ?c = "header_bytes (floe_header S key P iv aad) @ floe_body S C 0 nps"
  have "?c = floe_message S key P iv aad nps"
    using floe_body_provider [of S provider key P iv aad 0 nps Provider_RUSTCRYPTO] by (simp add: floe_message_def W(3))
  then have "is_floe_message S key P aad (concat pieces) ?c" using F(3-6) W(2) C unfolding is_floe_message_def by blast
  moreover have "EncryptWriter_finish E wr fl W1 = Some (Ok (ew_inner W2))"
    using F(1) by (simp add: EncryptWriter_finish_def FinishError_wrap_def)
  moreover have "holds (ew_inner W2) (base @ ?c)" using F(2) by simp
  ultimately show ?thesis using W(1) W1(1) by blast
qed

theorem encrypt_writer_message_witness:
  "\<exists>W w1 W1 w2 c. EncryptWriter_new toy_env vec_write [1, 2] (toy_key Provider_RING) [5] SEGMENT_64_B ([], []) = Some (Ok W, w1) \<and>
    write_pieces (EncryptWriter_write toy_env vec_write) W [replicate 70 9, [], replicate 32 4] = Some (Ok (), W1) \<and>
    EncryptWriter_finish toy_env vec_write vec_flush W1 = Some (Ok w2) \<and> w2 = [1, 2] @ c \<and>
    is_floe_message toy_prims (toy_key Provider_RING) SEGMENT_64_B [5] (concat [replicate 70 9, [], replicate 32 4]) c"
proof -
  have eq: "[1, 2] = ([1, 2] :: bytes)" by (rule refl)
  show ?thesis
    using encrypt_writer_message [OF toy_lawful toy_entropy segment_64(1) toy_key(2) [of toy_env Provider_RING] vec_sink.flushing_sink_axioms eq refl,
      where pieces = "[replicate 70 9, [], replicate 32 4]" and aad = "[5]" and x = "([], [])"]
    by (simp add: segment_64)
qed

section \<open>Errors of the wrapped writer\<close>

text \<open>A caller's session with an encrypting writer: any sequence of writes, flushes and finalizations.\<close>

datatype EncryptCall = CallWrite bytes | CallFlush | CallTryFinish

fun encrypt_call ::
  "'x env \<Rightarrow> 'w writer \<Rightarrow> ('w \<Rightarrow> (unit, 'w) io) \<Rightarrow> EncryptCall \<Rightarrow> ('x, 'w) EncryptWriter \<Rightarrow> (unit, ('x, 'w) EncryptWriter) io" where
  "encrypt_call E wr fl (CallWrite input) W =
    (case EncryptWriter_write E wr W input of None \<Rightarrow> None | Some (r, W') \<Rightarrow> Some (map_ok (\<lambda>_. ()) r, W'))"
| "encrypt_call E wr fl CallFlush W = EncryptWriter_flush fl W"
| "encrypt_call E wr fl CallTryFinish W = EncryptWriter_try_finish E wr fl W"

fun encrypt_session ::
  "'x env \<Rightarrow> 'w writer \<Rightarrow> ('w \<Rightarrow> (unit, 'w) io) \<Rightarrow> EncryptCall list \<Rightarrow> ('x, 'w) EncryptWriter \<Rightarrow>
   (unit io_result list \<times> ('x, 'w) EncryptWriter) option" where
  "encrypt_session E wr fl [] W = Some ([], W)"
| "encrypt_session E wr fl (call # calls) W =
    (case encrypt_call E wr fl call W of
       None \<Rightarrow> None
     | Some (r, W') \<Rightarrow>
        (case encrypt_session E wr fl calls W' of
           None \<Rightarrow> None
         | Some (rs, W'') \<Rightarrow> Some (r # rs, W'')))"

lemma encrypt_session_failed:
  assumes "ew_status W = Failed"
  shows "encrypt_session E wr fl calls W = Some (map (\<lambda>call. if call = CallWrite [] then Ok () else Err poisoned_error) calls, W)"
  using assms
proof (induction calls)
  case (Cons call calls)
  have "encrypt_call E wr fl call W = Some (if call = CallWrite [] then Ok () else Err poisoned_error, W)"
    using assms by (cases call) (auto simp: EncryptWriter_write_def EncryptWriter_flush_def EncryptWriter_try_finish_def)
  then show ?case using Cons by simp
qed simp

lemma poison_on_error_Err:
  "EncryptWriter_poison_on_error W operation = Some (Err e, W') \<Longrightarrow> ew_status W' = Failed"
  by (auto simp: EncryptWriter_poison_on_error_def split: option.splits prod.splits if_splits)

lemma bind_io_Err:
  assumes "bind_io m f = Some (Err e, t)"
  obtains "m = Some (Err e, t)" | x s where "m = Some (Ok x, s)" "f x s = Some (Err e, t)"
  using assms by (cases m; cases "fst (the m)") auto

lemma write_direct_Err: "EncryptWriter_write_segment_direct E wr W part = Some (Err e, W') \<Longrightarrow> ew_status W' = Failed"
  unfolding EncryptWriter_write_segment_direct_def by (erule bind_io_Err) (auto dest: poison_on_error_Err)

lemma infallible_not_Err: "infallible r \<noteq> Err e"
  by (cases r) auto

lemma try_io_infallible_Err:
  "try_io (infallible r) s f = Some (Err e, t) \<Longrightarrow> \<exists>x. f x = Some (Err e, t)"
  by (cases r) auto

lemma EncryptWriter_write_Err:
  assumes "EncryptWriter_write E wr W input = Some (Err e, W')" "ew_status W \<noteq> Finished"
  shows "ew_status W' = Failed"
proof (cases "ew_status W")
  case Open
  let ?cap = "Parameters_plaintext_segment_length (EncryptWriter_parameters W)"
  have ne: "input \<noteq> []" using assms(1) by (auto simp: EncryptWriter_write_def)
  obtain r B where x: "SegmentBuffer_extend_plaintext (ew_buffer W) input = (r, B)" by fastforce
  show ?thesis
  proof (cases "?cap \<le> length input \<and> is_err (SegmentBuffer_plaintext_length (ew_buffer W))")
    case True
    then show ?thesis using assms(1) ne Open by (auto simp: EncryptWriter_write_def dest: write_direct_Err)
  next
    case False
    then have "bind_io (EncryptWriter_emit_non_final E wr (W\<lparr> ew_buffer := B \<rparr>)) (\<lambda>_ W2.
       if ?cap \<le> length input then EncryptWriter_write_segment_direct E wr W2 (take ?cap input) else
       case SegmentBuffer_extend_plaintext (ew_buffer W2) input of (r, buffer) \<Rightarrow>
       let W3 = W2\<lparr> ew_buffer := buffer \<rparr> in
       try_io (infallible r) W3 (\<lambda>copied. Some (Ok copied, W3))) = Some (Err e, W')"
      using assms(1) ne Open x
      by (auto simp: EncryptWriter_write_def Let_def dest!: try_io_infallible_Err split: if_splits)
    then show ?thesis
      by (rule bind_io_Err)
        (auto simp: EncryptWriter_emit_non_final_def Let_def split: if_splits prod.splits
          dest: poison_on_error_Err write_direct_Err dest!: try_io_infallible_Err)
  qed
qed (use assms in \<open>auto simp: EncryptWriter_write_def split: if_splits\<close>)

text \<open>
  C19: An error poisons an encrypting writer for good. Over any wrapped writer, well-behaved or not:
  once a write or a finalization of an unfinished writer has failed, every later call of any session
  returns without touching the wrapped writer, and all of them but the empty writes fail with the
  poisoned-stream error, so nothing ever follows a segment that may have been written in part.
\<close>

theorem encrypt_writer_poisoned:
  assumes "encrypt_call E wr fl call W = Some (Err e, W')" "call \<noteq> CallFlush" "ew_status W \<noteq> Finished"
  shows "encrypt_session E wr fl calls W' = Some (map (\<lambda>call. if call = CallWrite [] then Ok () else Err poisoned_error) calls, W')"
proof (rule encrypt_session_failed)
  show "ew_status W' = Failed"
  proof (cases call)
    case (CallWrite input)
    then obtain r where "EncryptWriter_write E wr W input = Some (r, W')" "map_ok (\<lambda>_. ()) r = Err e"
      using assms(1) by (auto split: option.splits)
    then show ?thesis using EncryptWriter_write_Err assms(3) by (cases r) auto
  next
    case CallTryFinish
    then show ?thesis using assms(1,3)
      by (cases "ew_status W") (auto simp: EncryptWriter_try_finish_def dest: poison_on_error_Err)
  qed (use assms(2) in simp)
qed

text \<open>A wrapped writer that fails.\<close>

definition toy_broken :: "unit writer" where
  "toy_broken w buf = Some (Err (IoError Other (MessageSource ''no space left'')), w)"

definition toy_writer :: "(toy, unit) EncryptWriter" where
  "toy_writer = \<lparr> ew_inner = (), ew_encryptor = Some toy_encryptor, ew_header = Header (replicate 74 0),
    ew_buffer = SegmentBuffer_new SEGMENT_64_B, ew_status = Open \<rparr>"

lemma toy_writer_fails:
  "\<exists>e W'. encrypt_call toy_env toy_broken (\<lambda>w. Some (Ok (), w)) (CallWrite (replicate 40 9)) toy_writer = Some (Err e, W')"
proof -
  have len: "length (replicate 32 (9 :: u8)) = psl (Encryptor_parameters toy_encryptor)"
      "length (replicate 32 (9 :: u8)) + 32 \<le> length (sb_bytes (SegmentBuffer_new SEGMENT_64_B))"
    by (simp_all add: toy_encryptor segment_64 SegmentBuffer_new_def)
  note unf = EncryptWriter_write_def EncryptWriter_write_segment_direct_def EncryptWriter_poison_on_error_def toy_writer_def
    EncryptWriter_parameters_def SegmentBuffer_parameters_def SegmentBuffer_new_def SegmentBuffer_plaintext_length_def
    SegmentBuffer_raw_mut_def SegmentBuffer_mark_ciphertext_def SegmentBuffer_ciphertext_def segment_64 Let_def
  have i: "(0 :: nat) \<noteq> 2 ^ 40 - 1" by simp
  show ?thesis
  proof (cases rule: non_final_into_cases [OF toy_lawful toy_encryptor(1) i len])
    case (1 e' out')
    then show ?thesis by (simp add: unf)
  next
    case (2 nonce e')
    let ?seg = "floe_segment toy_prims (es_context (en_state toy_encryptor)) (word_of_nat 0) NonFinal nonce (replicate 32 9)"
    have sl: "length ?seg = 64" using floe_segment_length [OF lawfulD(1) [OF toy_lawful] 2(4)] by simp
    have "write_all toy_broken () ?seg = Some (Err (IoError Other (MessageSource ''no space left'')), ())"
      using sl by (subst write_all.simps) (auto simp: toy_broken_def)
    then show ?thesis using 2(1) sl by (simp add: unf slice_def)
  qed
qed

theorem encrypt_writer_poisoned_witness:
  "\<exists>e W'. encrypt_call toy_env toy_broken (\<lambda>w. Some (Ok (), w)) (CallWrite (replicate 40 9)) toy_writer = Some (Err e, W') \<and>
    encrypt_session toy_env toy_broken (\<lambda>w. Some (Ok (), w)) [CallWrite [1], CallWrite [], CallFlush, CallTryFinish] W' =
      Some ([Err poisoned_error, Ok (), Err poisoned_error, Err poisoned_error], W')"
proof -
  obtain e W' where W': "encrypt_call toy_env toy_broken (\<lambda>w. Some (Ok (), w)) (CallWrite (replicate 40 9)) toy_writer = Some (Err e, W')"
    using toy_writer_fails by blast
  from encrypt_writer_poisoned [OF this, of "[CallWrite [1], CallWrite [], CallFlush, CallTryFinish]"] this show ?thesis
    by (auto simp: toy_writer_def)
qed

end
