(* ===== verification/Floe_Seek.thy ===== *)
theory Floe_Seek
  imports Floe_Stream
begin

text \<open>
  The part of \<^verbatim>\<open>std::io::Seek\<close> the random-access reader uses. A seekable reader is a record of its
  \<^verbatim>\<open>read\<close>, \<^verbatim>\<open>seek\<close> and \<^verbatim>\<open>stream_position\<close> functions. The locale \<open>seekable_source\<close> states what one over
  fixed contents promises; it is interpreted on the standard library's cursor over bytes.
\<close>

section \<open>Seeking\<close>

type_synonym i64 = "64 word"

text \<open>\<^verbatim>\<open>u64::checked_add_signed\<close>; the second argument is read as a signed number.\<close>

definition checked_add_signed :: "u64 \<Rightarrow> i64 \<Rightarrow> u64 option" where
  "checked_add_signed a d =
    (let s = uint a + sint d in if 0 \<le> s \<and> s < 2 ^ 64 then Some (word_of_int s) else None)"

datatype SeekFrom = SeekStart u64 | SeekEnd i64 | SeekCurrent i64

record 'r seekable =
  sr_read :: "'r reader"
  sr_seek :: "'r \<Rightarrow> SeekFrom \<Rightarrow> (u64, 'r) io"
  sr_position :: "'r \<Rightarrow> (u64, 'r) io"

lemma checked_add_signed_0 [simp]: "checked_add_signed a 0 = Some a"
proof -
  have "uint a < 2 ^ 64" using uint_bounded [of a] by simp
  then show ?thesis by (simp add: checked_add_signed_def)
qed

section \<open>Contents that can be sought\<close>

text \<open>
  A seekable reader over the fixed contents \<open>c\<close>: \<open>at r n\<close> says that it stands at byte \<open>n\<close>. Reading delivers
  the contents from there, and nothing past their end; any position can be sought, and the end and
  the current position can be asked for.
\<close>

locale seekable_source = byte_source "sr_read K" "\<lambda>r bs. \<exists>n \<le> length c. at r n \<and> bs = drop n c" patience
  for K :: "'r seekable" and c :: bytes and at :: "'r \<Rightarrow> nat \<Rightarrow> bool" and patience :: "'r \<Rightarrow> nat" +
  assumes contents_length: "length c < 2 ^ 64"
    and seek_start: "at r n \<Longrightarrow> \<exists>r'. sr_seek K r (SeekStart m) = Some (Ok m, r') \<and> at r' (unat m)"
    and seek_end: "at r n \<Longrightarrow> \<exists>r'. sr_seek K r (SeekEnd 0) = Some (Ok (word_of_nat (length c)), r') \<and> at r' (length c)"
    and past_end: "at r n \<Longrightarrow> length c < n \<Longrightarrow> buf \<noteq> [] \<Longrightarrow>
      \<exists>buf' r'. sr_read K r buf = Some (Ok 0, buf', r') \<and> length buf' = length buf \<and> at r' n"
    and position: "at r n \<Longrightarrow> n \<le> length c \<Longrightarrow> \<exists>r'. sr_position K r = Some (Ok (word_of_nat n), r') \<and> at r' n"

text \<open>\<^verbatim>\<open>Cursor<&[u8]>\<close>: the bytes and the position.\<close>

definition cursor_read :: "(bytes \<times> u64) reader" where
  "cursor_read self buf =
    (case self of (bytes, pos) \<Rightarrow>
     let start = min (unat pos) (length bytes);
         amt = min (length buf) (length bytes - start)
     in Some (Ok amt, splice 0 (slice start (start + amt) bytes) buf, (bytes, pos + word_of_nat amt)))"

definition invalid_seek :: IoError where
  "invalid_seek = IoError InvalidInput (MessageSource ''invalid seek to a negative or overflowing position'')"

definition cursor_seek :: "bytes \<times> u64 \<Rightarrow> SeekFrom \<Rightarrow> (u64, bytes \<times> u64) io" where
  "cursor_seek self position =
    (case self of (bytes, pos) \<Rightarrow>
     (case (case position of
        SeekStart n \<Rightarrow> Some n
      | SeekEnd d \<Rightarrow> checked_add_signed (word_of_nat (length bytes)) d
      | SeekCurrent d \<Rightarrow> checked_add_signed pos d) of
        Some n \<Rightarrow> Some (Ok n, (bytes, n))
      | None \<Rightarrow> Some (Err invalid_seek, self)))"

definition cursor_position :: "bytes \<times> u64 \<Rightarrow> (u64, bytes \<times> u64) io" where
  "cursor_position self = Some (Ok (snd self), self)"

definition cursor :: "(bytes \<times> u64) seekable" where
  "cursor = \<lparr> sr_read = cursor_read, sr_seek = cursor_seek, sr_position = cursor_position \<rparr>"

lemma cursor_source:
  assumes "length c < 2 ^ 64"
  shows "seekable_source cursor c (\<lambda>r n. r = (c, word_of_nat n) \<and> n < 2 ^ 64) (\<lambda>_. 0)"
proof (unfold_locales, goal_cases)
  case (1 r bs buf)
  then obtain n where n: "n \<le> length c" "r = (c, word_of_nat n)" "bs = drop n c" by blast
  have u: "unat (word_of_nat n :: u64) = n" using n(1) assms by (intro unat_of_nat_u64) simp
  define k where "k = min (length buf) (length c - n)"
  have k: "k \<le> length buf" "n + k \<le> length c" "k = 0 \<longrightarrow> bs = []" "k \<le> length bs"
    using n(1,3) 1(2) by (auto simp: k_def min_def)
  have "sr_read cursor r buf = Some (Ok k, splice 0 (take k bs) buf, (c, word_of_nat (n + k)))"
    using u n by (simp add: cursor_def cursor_read_def Let_def slice_take_drop take_drop k_def min.absorb1 add.commute)
  moreover have "drop k bs = drop (n + k) c" "n + k < 2 ^ 64" using n(3) k(2) assms by (simp_all add: add.commute)
  moreover have "length (splice 0 (take k bs) buf) = length buf" "take k (splice 0 (take k bs) buf) = take k bs"
    using k(1,4) by (simp_all add: splice_0_take)
  ultimately show ?case using k by blast
qed (use assms in \<open>auto simp: cursor_def cursor_seek_def cursor_position_def cursor_read_def Let_def unat_of_nat_u64\<close>)

interpretation cursor: seekable_source cursor "take (2 ^ 64 - 1) c" "\<lambda>r n. r = (take (2 ^ 64 - 1) c, word_of_nat n) \<and> n < 2 ^ 64" "\<lambda>_. 0"
  for c :: bytes
  by (rule cursor_source) simp

end
