(* ===== verification/Floe_Display.thy ===== *)
theory Floe_Display
  imports Floe_Parameters Floe_Provider
begin

text \<open>
  The messages of errors: the \<^verbatim>\<open>Display\<close> implementations of \<^verbatim>\<open>src/src/error.rs\<close>. A formatter is the
  string it has written; \<open>decimal\<close> is the standard library's rendering of an unsigned integer.
\<close>

section \<open>Numbers\<close>

fun decimal :: "nat \<Rightarrow> string" where
  "decimal n = (if n < 10 then [char_of (48 + n)] else decimal (n div 10) @ [char_of (48 + n mod 10)])"

declare decimal.simps [simp del]

section \<open>Error messages\<close>

fun LengthRequirement_fmt :: "LengthRequirement \<Rightarrow> string" where
  "LengthRequirement_fmt (Exactly len) = ''exactly '' @ decimal len"
| "LengthRequirement_fmt (AtLeast len) = ''at least '' @ decimal len"
| "LengthRequirement_fmt (AtMost len) = ''at most '' @ decimal len"
| "LengthRequirement_fmt (Between minimum maximum) = ''between '' @ decimal minimum @ '' and '' @ decimal maximum"

text \<open>The loop over the compiled providers, from the provider with the given index on.\<close>

fun provider_list :: "nat \<Rightarrow> Provider list \<Rightarrow> string" where
  "provider_list index [] = []"
| "provider_list index (provider # rest) =
    (if index \<noteq> 0 then '', '' else []) @ Provider_name provider @ provider_list (Suc index) rest"

fun Error_fmt :: "'z build_scheme \<Rightarrow> Error \<Rightarrow> string" where
  "Error_fmt B (InvalidKeyLength actual) = ''FLOE keys must be 32 bytes, got '' @ decimal actual"
| "Error_fmt B InvalidParameters = ''FLOE parameter sets do not match''"
| "Error_fmt B (InvalidSegmentLength actual) =
    ''invalid FLOE segment length '' @ decimal (unat actual) @ ''; supported lengths are '' @
    decimal (unat (fst VALID_SEGMENT_LENGTHS)) @ '' through '' @ decimal (unat (snd VALID_SEGMENT_LENGTHS - 1))"
| "Error_fmt B (InvalidPlaintextLength actual required) =
    ''invalid plaintext segment length '' @ decimal actual @ ''; required '' @ LengthRequirement_fmt required"
| "Error_fmt B (InvalidHeaderLength actual) =
    ''FLOE headers must be '' @ decimal HEADER_LENGTH @ '' bytes, got '' @ decimal actual"
| "Error_fmt B InvalidHeaderParameters = ''header parameters do not match the selected FLOE parameters''"
| "Error_fmt B InvalidHeaderTag = ''invalid FLOE header tag''"
| "Error_fmt B (InvalidCiphertextLength actual required) =
    ''invalid ciphertext segment length '' @ decimal actual @ ''; required '' @ LengthRequirement_fmt required"
| "Error_fmt B InvalidSegmentPrefix = ''non-final FLOE segment has an invalid prefix''"
| "Error_fmt B AuthenticationFailed = ''FLOE segment authentication failed''"
| "Error_fmt B Closed = ''FLOE online state is already closed''"
| "Error_fmt B Truncated = ''FLOE input has no authenticated final segment''"
| "Error_fmt B SegmentLimit = ''FLOE segment limit exceeded''"
| "Error_fmt B (OutputTooSmall actual required) =
    ''output buffer is '' @ decimal actual @ '' bytes; '' @ decimal required @ '' bytes are required''"
| "Error_fmt B InvalidBufferState = ''segment buffer is not prepared for this operation''"
| "Error_fmt B ProviderSelectionRequired =
    ''multiple FLOE providers are compiled ('' @ provider_list 0 (Provider_COMPILED B) @
    '') and none was named; construct keys with Key::from_bytes_with_provider or Key::generate_with_provider''"
| "Error_fmt B LengthOverflow = ''FLOE length calculation overflowed''"
| "Error_fmt B RngFailure = ''random backend generation failed''"
| "Error_fmt B CryptoFailure = ''cryptographic backend operation failed''"

section \<open>Messages identify errors\<close>

fun undecimal :: "string \<Rightarrow> nat" where
  "undecimal [] = 0"
| "undecimal (x # xs) = (of_char x - 48) * 10 ^ length xs + undecimal xs"

definition digit :: "char \<Rightarrow> bool" where
  "digit x \<longleftrightarrow> 48 \<le> (of_char x :: nat) \<and> (of_char x :: nat) < 58"

lemma undecimal_snoc: "undecimal (xs @ [x]) = undecimal xs * 10 + (of_char x - 48)"
  by (induction xs) (auto simp: algebra_simps)

lemma undecimal_decimal [simp]: "undecimal (decimal n) = n"
proof (induction n rule: decimal.induct)
  case (1 n)
  show ?case using 1 by (subst decimal.simps) (simp add: undecimal_snoc)
qed

lemma decimal_digits: "list_all digit (decimal n)"
proof (induction n rule: decimal.induct)
  case (1 n)
  have d: "digit (char_of (48 + k))" if "k < 10" for k :: nat using that by (simp add: digit_def)
  show ?case using 1 d [of n] d [of "n mod 10"] by (subst decimal.simps) simp
qed

lemma decimal_inj [simp]: "decimal m = decimal n \<longleftrightarrow> m = n"
  by (metis undecimal_decimal)

text \<open>A number followed by something that does not start with a digit can be read off.\<close>

lemma digits_append:
  assumes "list_all digit xs" "list_all digit ys" "\<not> digit a" "\<not> digit b"
  shows "xs @ a # u = ys @ b # v \<longleftrightarrow> xs = ys \<and> a = b \<and> u = v"
  using assms
proof (induction xs arbitrary: ys)
  case Nil
  then show ?case by (cases ys) auto
next
  case (Cons x xs)
  then show ?case by (cases ys) auto
qed

lemma decimal_append:
  assumes "\<not> digit a" "\<not> digit b"
  shows "decimal m @ a # u = decimal n @ b # v \<longleftrightarrow> m = n \<and> a = b \<and> u = v"
  using digits_append [OF decimal_digits decimal_digits assms] by simp

lemma not_digit [simp]: "\<not> digit (CHR '' '')" "\<not> digit (CHR '';'')"
  by (simp_all add: digit_def)

lemma LengthRequirement_fmt_inj [simp]: "LengthRequirement_fmt a = LengthRequirement_fmt b \<longleftrightarrow> a = b"
  by (cases a; cases b) (auto simp: decimal_append)

text \<open>
  Error messages identify errors: within a build, two errors have the same message only if they
  are the same error with the same lengths, so a log line determines what went wrong.
\<close>

theorem error_messages_distinct: "Error_fmt B a = Error_fmt B b \<longleftrightarrow> a = b"
  by (cases a; cases b) (auto simp: decimal_append word_unat_eq_iff)

end
