(* ===== verification/Floe_Random_Access.thy ===== *)
theory Floe_Random_Access
  imports Floe_Message Floe_Seek Floe_Display
begin

text \<open>
  The random-access reader of \<^verbatim>\<open>src/src/random_access.rs\<close>, over an arbitrary seekable reader \<open>K\<close>. A reader is
  the record of the fields of the source; a method returns its result and the reader, or does not
  return when the wrapped reader does not. Additions and subtractions that the source writes without
  a check panic on overflow, as in a debug build, and so does a failed \<^verbatim>\<open>debug_assert!\<close>.
\<close>

section \<open>Ranges\<close>

datatype Bound = Included u64 | Excluded u64 | Unbounded

text \<open>A \<^verbatim>\<open>RangeBounds\<close> is its start and end bound; a \<^verbatim>\<open>Range\<close> is its start and end.\<close>

definition validate_range :: "u64 \<Rightarrow> u64 \<Rightarrow> u64 \<Rightarrow> unit io_result" where
  "validate_range start stop plaintext_length =
    (if stop < start \<or> plaintext_length < stop
     then Err (IoError InvalidInput (MessageSource (''plaintext range '' @ decimal (unat start) @ ''..'' @
       decimal (unat stop) @ '' is outside 0..'' @ decimal (unat plaintext_length))))
     else Ok ())"

definition resolve_bounds :: "Bound \<times> Bound \<Rightarrow> u64 \<Rightarrow> (u64 \<times> u64) io_result" where
  "resolve_bounds bounds plaintext_length =
    bind (case fst bounds of
            Included start \<Rightarrow> Ok start
          | Excluded start \<Rightarrow> ok_or (checked_add start 1) length_overflow
          | Unbounded \<Rightarrow> Ok 0) (\<lambda>start.
    bind (case snd bounds of
            Included stop \<Rightarrow> ok_or (checked_add stop 1) length_overflow
          | Excluded stop \<Rightarrow> Ok stop
          | Unbounded \<Rightarrow> Ok plaintext_length) (\<lambda>stop.
    bind (validate_range start stop plaintext_length) (\<lambda>_.
    Ok (start, stop))))"

section \<open>Message bounds\<close>

definition remaining_length :: "'r seekable \<Rightarrow> 'r \<Rightarrow> u64 \<Rightarrow> (u64, 'r) io" where
  "remaining_length K reader message_start =
    bind_io (sr_seek K reader (SeekEnd 0)) (\<lambda>stop reader'.
    Some (ok_or (checked_sub stop message_start)
      (IoError InvalidData (MessageSource ''FLOE ciphertext ends before its starting position'')), reader'))"

definition validate_header_bound :: "'x env \<Rightarrow> u64 \<Rightarrow> unit io_result" where
  "validate_header_bound E ciphertext_length =
    (if ciphertext_length < HEADER_LENGTH_U64
     then Err (decryption_error (InvalidHeaderLength (length_u64_to_usize_saturating (pointer_width E) ciphertext_length)))
     else Ok ())"

section \<open>The reader\<close>

record ('x, 'r) Reader =
  rr_inner :: 'r
  rr_state :: "'x DecryptionState"
  rr_header :: Header
  rr_layout :: MessageLayout
  rr_message_start :: u64
  rr_scratch :: SegmentBuffer
  rr_plaintext_position :: u64
  rr_cached_position :: "u64 option"
  rr_inner_position :: "u64 option"

definition Reader_header :: "('x, 'r) Reader \<Rightarrow> Header" where
  "Reader_header R = rr_header R"

definition Reader_parameters :: "('x, 'r) Reader \<Rightarrow> Parameters" where
  "Reader_parameters R = DecryptionState_parameters (rr_state R)"

definition Reader_plaintext_length :: "('x, 'r) Reader \<Rightarrow> u64" where
  "Reader_plaintext_length R = ml_plaintext_length (rr_layout R)"

definition Reader_segment_count :: "('x, 'r) Reader \<Rightarrow> u64" where
  "Reader_segment_count R = ml_segment_count (rr_layout R)"

definition Reader_layout :: "('x, 'r) Reader \<Rightarrow> MessageLayout" where
  "Reader_layout R = rr_layout R"

definition Reader_get_ref :: "('x, 'r) Reader \<Rightarrow> 'r" where
  "Reader_get_ref R = rr_inner R"

text \<open>The caller of \<open>get_mut\<close> may replace the wrapped reader.\<close>

definition Reader_get_mut :: "('x, 'r) Reader \<Rightarrow> 'r \<times> ('r \<Rightarrow> ('x, 'r) Reader)" where
  "Reader_get_mut R =
    (let R' = R\<lparr> rr_inner_position := None \<rparr> in (rr_inner R', \<lambda>inner. R'\<lparr> rr_inner := inner \<rparr>))"

definition Reader_into_inner :: "('x, 'r) Reader \<Rightarrow> 'r" where
  "Reader_into_inner R = rr_inner R"

definition Reader_segment :: "'x env \<Rightarrow> ('x, 'r) Reader \<Rightarrow> u64 \<Rightarrow> SegmentLayout io_result" where
  "Reader_segment E R position =
    (let count = Reader_segment_count R in
     ok_or (MessageLayout_segment_for_position (pointer_width E) (rr_layout R) position)
       (IoError InvalidInput (MessageSource (''FLOE segment position '' @ decimal (unat position) @
         '' is outside 0..'' @ decimal (unat count)))))"

definition Reader_seek_inner_to :: "'r seekable \<Rightarrow> ('x, 'r) Reader \<Rightarrow> u64 \<Rightarrow> (unit, ('x, 'r) Reader) io" where
  "Reader_seek_inner_to K R offset =
    (if rr_inner_position R = Some offset then Some (Ok (), R) else
     let R1 = R\<lparr> rr_inner_position := None \<rparr> in
     bind_io (map_state (\<lambda>inner. R1\<lparr> rr_inner := inner \<rparr>) (sr_seek K (rr_inner R1) (SeekStart offset))) (\<lambda>_ R2.
     Some (Ok (), R2\<lparr> rr_inner_position := Some offset \<rparr>)))"

definition Reader_seek_to_segment :: "'r seekable \<Rightarrow> ('x, 'r) Reader \<Rightarrow> SegmentLayout \<Rightarrow> (unit, ('x, 'r) Reader) io" where
  "Reader_seek_to_segment K R segment =
    try_io (ok_or (checked_add (rr_message_start R) (sl_ciphertext_offset segment)) length_overflow) R (\<lambda>offset.
    Reader_seek_inner_to K R offset)"

definition Reader_seek_to_body_start :: "'r seekable \<Rightarrow> ('x, 'r) Reader \<Rightarrow> (unit, ('x, 'r) Reader) io" where
  "Reader_seek_to_body_start K R =
    try_io (ok_or (checked_add (rr_message_start R) HEADER_LENGTH_U64) length_overflow) R (\<lambda>offset.
    Reader_seek_inner_to K R offset)"

definition Reader_fetch_segment_ciphertext ::
  "'r seekable \<Rightarrow> ('x, 'r) Reader \<Rightarrow> SegmentLayout \<Rightarrow> (unit, ('x, 'r) Reader) io" where
  "Reader_fetch_segment_ciphertext K R segment =
    bind_io (Reader_seek_to_segment K (R\<lparr> rr_cached_position := None \<rparr>) segment) (\<lambda>_ R1.
    let position_after_read = Option.bind (rr_inner_position R1) (\<lambda>position.
          checked_add position (length_usize_to_u64 (sl_ciphertext_length segment)));
        R2 = R1\<lparr> rr_inner_position := None \<rparr>
    in case SegmentBuffer_prepare_ciphertext (rr_scratch R2) (sl_ciphertext_length segment) of (r, scratch) \<Rightarrow>
    let R3 = R2\<lparr> rr_scratch := scratch \<rparr> in
    try_io (map_err decryption_error r) R3 (\<lambda>ciphertext.
    bind_io (map_state (\<lambda>(ciphertext', inner). R3\<lparr> rr_inner := inner, rr_scratch := SegmentBuffer_write_ciphertext (rr_scratch R3) ciphertext' \<rparr>)
        (read_exact_segment (sr_read K) (rr_inner R3) ciphertext)) (\<lambda>_ R4.
    Some (Ok (), R4\<lparr> rr_inner_position := position_after_read \<rparr>))))"

definition Reader_load_segment ::
  "'x env \<Rightarrow> 'r seekable \<Rightarrow> ('x, 'r) Reader \<Rightarrow> SegmentLayout \<Rightarrow> (unit, ('x, 'r) Reader) io" where
  "Reader_load_segment E K R segment =
    bind_io (Reader_fetch_segment_ciphertext K R segment) (\<lambda>_ R1.
    case DecryptionState_decrypt_segment_in_place E (rr_state R1) (rr_scratch R1) segment of (r, state, scratch) \<Rightarrow>
    let R2 = R1\<lparr> rr_state := state, rr_scratch := scratch \<rparr> in
    try_io (map_err decryption_error r) R2 (\<lambda>_.
    Some (Ok (), R2\<lparr> rr_cached_position := Some (sl_position segment) \<rparr>)))"

definition Reader_load_cached_segment ::
  "'x env \<Rightarrow> 'r seekable \<Rightarrow> ('x, 'r) Reader \<Rightarrow> SegmentLayout \<Rightarrow> (unit, ('x, 'r) Reader) io" where
  "Reader_load_cached_segment E K R segment =
    (if rr_cached_position R = Some (sl_position segment) then Some (Ok (), R)
     else Reader_load_segment E K R segment)"

definition Reader_decrypt_segment_direct ::
  "'x env \<Rightarrow> 'r seekable \<Rightarrow> ('x, 'r) Reader \<Rightarrow> SegmentLayout \<Rightarrow> bytes \<Rightarrow> (unit, bytes \<times> ('x, 'r) Reader) io" where
  "Reader_decrypt_segment_direct E K R segment out =
    bind_io (map_state (\<lambda>R'. (out, R')) (Reader_fetch_segment_ciphertext K R segment)) (\<lambda>_ (out, R1).
    try_io (map_err decryption_error (SegmentBuffer_ciphertext (rr_scratch R1))) (out, R1) (\<lambda>ciphertext.
    case DecryptionState_decrypt_segment_into E (rr_state R1) ciphertext segment out of (r, state, out') \<Rightarrow>
    let R2 = R1\<lparr> rr_state := state \<rparr> in
    try_io (map_err decryption_error r) (out', R2) (\<lambda>_.
    Some (Ok (), (out', R2)))))"

section \<open>Opening\<close>

definition Reader_from_parts ::
  "'x env \<Rightarrow> 'r seekable \<Rightarrow> 'r \<Rightarrow> 'x DecryptionState \<Rightarrow> Header \<Rightarrow> u64 \<Rightarrow> u64 \<Rightarrow> (('x, 'r) Reader, 'r) io" where
  "Reader_from_parts E K inner state header message_start ciphertext_length =
    (let P = DecryptionState_parameters state in
     try_io (map_err decryption_error (Parameters_ciphertext_layout (pointer_width E) P ciphertext_length)) inner (\<lambda>layout.
     let reader = \<lparr> rr_inner = inner, rr_state = state, rr_header = header, rr_layout = layout,
           rr_message_start = message_start, rr_scratch = SegmentBuffer_new P, rr_plaintext_position = 0,
           rr_cached_position = None, rr_inner_position = None \<rparr>
     in try_io (MessageLayout_final_segment (pointer_width E) layout) inner (\<lambda>final_segment.
     case Reader_load_segment E K reader final_segment of
       None \<Rightarrow> None
     | Some (r, reader1) \<Rightarrow>
         try_io r (rr_inner reader1) (\<lambda>_.
         let reader2 = reader1\<lparr> rr_scratch := SegmentBuffer_clear E (rr_scratch reader1), rr_cached_position := None \<rparr>
         in case Reader_seek_to_body_start K reader2 of
           None \<Rightarrow> None
         | Some (r, reader3) \<Rightarrow> Some (map_ok (\<lambda>_. reader3) r, rr_inner reader3)))))"

definition Reader_new ::
  "'x env \<Rightarrow> 'r seekable \<Rightarrow> 'r \<Rightarrow> Key \<Rightarrow> bytes \<Rightarrow> (('x, 'r) Reader, 'r) io" where
  "Reader_new E K inner key aad =
    bind_io (sr_position K inner) (\<lambda>message_start inner1.
    bind_io (read_header (sr_read K) inner1) (\<lambda>header inner2.
    try_io (map_err decryption_error (start_decryption_inferred E key aad header)) inner2 (\<lambda>state.
    bind_io (remaining_length K inner2 message_start) (\<lambda>ciphertext_length inner3.
    Reader_from_parts E K inner3 state header message_start ciphertext_length))))"

definition Reader_new_with_parameters ::
  "'x env \<Rightarrow> 'r seekable \<Rightarrow> 'r \<Rightarrow> Key \<Rightarrow> bytes \<Rightarrow> Parameters \<Rightarrow> (('x, 'r) Reader, 'r) io" where
  "Reader_new_with_parameters E K inner key aad P =
    bind_io (sr_position K inner) (\<lambda>message_start inner1.
    bind_io (read_header (sr_read K) inner1) (\<lambda>header inner2.
    try_io (map_err decryption_error (start_decryption E key aad P header)) inner2 (\<lambda>state.
    bind_io (remaining_length K inner2 message_start) (\<lambda>ciphertext_length inner3.
    Reader_from_parts E K inner3 state header message_start ciphertext_length))))"

definition Reader_new_with_length ::
  "'x env \<Rightarrow> 'r seekable \<Rightarrow> 'r \<Rightarrow> Key \<Rightarrow> bytes \<Rightarrow> u64 \<Rightarrow> (('x, 'r) Reader, 'r) io" where
  "Reader_new_with_length E K inner key aad ciphertext_length =
    try_io (validate_header_bound E ciphertext_length) inner (\<lambda>_.
    bind_io (sr_position K inner) (\<lambda>message_start inner1.
    bind_io (read_header (sr_read K) inner1) (\<lambda>header inner2.
    try_io (map_err decryption_error (start_decryption_inferred E key aad header)) inner2 (\<lambda>state.
    Reader_from_parts E K inner2 state header message_start ciphertext_length))))"

definition Reader_new_with_length_and_parameters ::
  "'x env \<Rightarrow> 'r seekable \<Rightarrow> 'r \<Rightarrow> Key \<Rightarrow> bytes \<Rightarrow> u64 \<Rightarrow> Parameters \<Rightarrow> (('x, 'r) Reader, 'r) io" where
  "Reader_new_with_length_and_parameters E K inner key aad ciphertext_length P =
    try_io (validate_header_bound E ciphertext_length) inner (\<lambda>_.
    bind_io (sr_position K inner) (\<lambda>message_start inner1.
    bind_io (read_header (sr_read K) inner1) (\<lambda>header inner2.
    try_io (map_err decryption_error (start_decryption E key aad P header)) inner2 (\<lambda>state.
    Reader_from_parts E K inner2 state header message_start ciphertext_length))))"

section \<open>Reading segments and ranges\<close>

text \<open>
  \<open>read_segment_into\<close> lends the first \<open>required\<close> bytes of the output; what is written to them is written back.
\<close>

definition Reader_read_segment_into ::
  "'x env \<Rightarrow> 'r seekable \<Rightarrow> ('x, 'r) Reader \<Rightarrow> u64 \<Rightarrow> bytes \<Rightarrow> (nat, bytes \<times> ('x, 'r) Reader) io" where
  "Reader_read_segment_into E K R position out =
    try_io (Reader_segment E R position) (out, R) (\<lambda>segment.
    let required = sl_plaintext_length segment in
    if length out < required then Some (Err (output_too_small (length out) required), (out, R)) else
    bind_io (map_state (\<lambda>(out', R'). (splice 0 out' out, R'))
        (Reader_decrypt_segment_direct E K R segment (take required out))) (\<lambda>_ s.
    Some (Ok required, s)))"

definition Reader_read_segment ::
  "'x env \<Rightarrow> 'r seekable \<Rightarrow> ('x, 'r) Reader \<Rightarrow> u64 \<Rightarrow> (bytes, ('x, 'r) Reader) io" where
  "Reader_read_segment E K R position =
    try_io (Reader_segment E R position) R (\<lambda>segment.
    case Reader_read_segment_into E K R position (replicate (sl_plaintext_length segment) 0) of
      None \<Rightarrow> None
    | Some (r, plaintext, R') \<Rightarrow> Some (map_ok (\<lambda>_. plaintext) r, R'))"

text \<open>One pass of the loop of \<open>read_resolved_range_into\<close>: the segment at \<open>position\<close> is written at \<open>written\<close>.\<close>

definition Reader_range_step ::
  "'x env \<Rightarrow> 'r seekable \<Rightarrow> u64 \<times> u64 \<Rightarrow> u64 \<Rightarrow> ('x, 'r) Reader \<Rightarrow> nat \<Rightarrow> bytes \<Rightarrow> (nat, bytes \<times> ('x, 'r) Reader) io" where
  "Reader_range_step E K bounds position R written out =
    try_io (Reader_segment E R position) (out, R) (\<lambda>segment.
    let segment_start = sl_plaintext_offset segment;
        segment_plaintext_length = length_usize_to_u64 (sl_plaintext_length segment)
    in try_io (if fst bounds \<le> segment_start
               then map_ok (\<lambda>segment_end. segment_end \<le> snd bounds) (expect (checked_add segment_start segment_plaintext_length))
               else Ok False) (out, R) (\<lambda>is_covered_fully.
    if is_covered_fully then
      (let len = sl_plaintext_length segment in
       try_io (index_range written (written + len) out) (out, R) (\<lambda>part.
       bind_io (map_state (\<lambda>(part', R'). (splice written part' out, R')) (Reader_decrypt_segment_direct E K R segment part)) (\<lambda>_ s.
       Some (Ok (written + len), s))))
    else
      bind_io (map_state (\<lambda>R'. (out, R')) (Reader_load_cached_segment E K R segment)) (\<lambda>_ (out, R1).
      try_io (map_err decryption_error (SegmentBuffer_plaintext (rr_scratch R1))) (out, R1) (\<lambda>plaintext.
      try_io (ok_or (usize_try_from (pointer_width E) (if segment_start \<le> fst bounds then fst bounds - segment_start else 0)) length_overflow)
        (out, R1) (\<lambda>start.
      let local_start = min start (length plaintext) in
      try_io (bind (expect (checked_add segment_start (length_usize_to_u64 (length plaintext)))) (\<lambda>segment_end.
              expect (checked_sub (min (snd bounds) segment_end) segment_start))) (out, R1) (\<lambda>local_end_u64.
      try_io (ok_or (usize_try_from (pointer_width E) local_end_u64) length_overflow) (out, R1) (\<lambda>local_end.
      try_io (index_range local_start local_end plaintext) (out, R1) (\<lambda>piece.
      try_io (index_range written (written + length piece) out) (out, R1) (\<lambda>_.
      Some (Ok (written + length piece), (splice written piece out, R1)))))))))))"

fun Reader_range_loop ::
  "'x env \<Rightarrow> 'r seekable \<Rightarrow> u64 \<times> u64 \<Rightarrow> u64 list \<Rightarrow> ('x, 'r) Reader \<Rightarrow> nat \<Rightarrow> bytes \<Rightarrow> (nat, bytes \<times> ('x, 'r) Reader) io" where
  "Reader_range_loop E K bounds [] R written out = Some (Ok written, (out, R))"
| "Reader_range_loop E K bounds (position # positions) R written out =
    bind_io (Reader_range_step E K bounds position R written out) (\<lambda>written' (out', R').
    Reader_range_loop E K bounds positions R' written' out')"

text \<open>The positions of an inclusive range of \<^verbatim>\<open>u64\<close>.\<close>

definition positions_between :: "u64 \<Rightarrow> u64 \<Rightarrow> u64 list" where
  "positions_between first final = map word_of_nat [unat first..<Suc (unat final)]"

definition Reader_read_resolved_range_into ::
  "'x env \<Rightarrow> 'r seekable \<Rightarrow> ('x, 'r) Reader \<Rightarrow> u64 \<times> u64 \<Rightarrow> bytes \<Rightarrow> (nat, bytes \<times> ('x, 'r) Reader) io" where
  "Reader_read_resolved_range_into E K R bounds out =
    (if \<not> fst bounds < snd bounds then Some (Ok 0, (out, R)) else
     let first = MessageLayout_position_for_plaintext_offset (rr_layout R) (fst bounds);
         last = MessageLayout_position_for_plaintext_offset (rr_layout R) (snd bounds - 1)
     in bind_io (Reader_range_loop E K bounds (positions_between first last) R 0 out) (\<lambda>written s.
        if length_usize_to_u64 written = snd bounds - fst bounds then Some (Ok written, s) else Some (Panic, s)))"

definition Reader_read_range ::
  "'x env \<Rightarrow> 'r seekable \<Rightarrow> ('x, 'r) Reader \<Rightarrow> Bound \<times> Bound \<Rightarrow> (bytes, ('x, 'r) Reader) io" where
  "Reader_read_range E K R bounds =
    try_io (resolve_bounds bounds (Reader_plaintext_length R)) R (\<lambda>bounds.
    try_io (ok_or (usize_try_from (pointer_width E) (snd bounds - fst bounds)) length_overflow) R (\<lambda>capacity.
    case Reader_read_resolved_range_into E K R bounds (replicate capacity 0) of
      None \<Rightarrow> None
    | Some (r, out, R') \<Rightarrow> Some (map_ok (\<lambda>_. out) r, R')))"

definition Reader_read_range_into ::
  "'x env \<Rightarrow> 'r seekable \<Rightarrow> ('x, 'r) Reader \<Rightarrow> Bound \<times> Bound \<Rightarrow> bytes \<Rightarrow> (nat, bytes \<times> ('x, 'r) Reader) io" where
  "Reader_read_range_into E K R bounds out =
    try_io (resolve_bounds bounds (Reader_plaintext_length R)) (out, R) (\<lambda>bounds.
    try_io (ok_or (usize_try_from (pointer_width E) (snd bounds - fst bounds)) length_overflow) (out, R) (\<lambda>required.
    if length out < required then Some (Err (output_too_small (length out) required), (out, R)) else
    Reader_read_resolved_range_into E K R bounds out))"

section \<open>Reading and seeking the plaintext\<close>

definition Reader_read :: "'x env \<Rightarrow> 'r seekable \<Rightarrow> ('x, 'r) Reader reader" where
  "Reader_read E K R out =
    (if out = [] then Some (Ok 0, out, R) else
     if Reader_plaintext_length R \<le> rr_plaintext_position R then Some (Ok 0, out, R) else
     let position = MessageLayout_position_for_plaintext_offset (rr_layout R) (rr_plaintext_position R) in
     try_io (Reader_segment E R position) (out, R) (\<lambda>segment.
     bind_io (map_state (\<lambda>R'. (out, R')) (Reader_load_cached_segment E K R segment)) (\<lambda>_ (out, R1).
     try_io (map_err decryption_error (SegmentBuffer_plaintext (rr_scratch R1))) (out, R1) (\<lambda>plaintext.
     try_io (bind (expect (checked_sub (rr_plaintext_position R1) (sl_plaintext_offset segment))) (\<lambda>local_u64.
             ok_or (usize_try_from (pointer_width E) local_u64) length_overflow)) (out, R1) (\<lambda>local.
     if length plaintext < local then Some (Panic, out, R1) else
     let read = min (length out) (length plaintext - local) in
     try_io (index_range local (local + read) plaintext) (out, R1) (\<lambda>piece.
     try_io (expect (checked_add (rr_plaintext_position R1) (length_usize_to_u64 read))) (splice 0 piece out, R1) (\<lambda>position'.
     Some (Ok read, splice 0 piece out, R1\<lparr> rr_plaintext_position := position' \<rparr>))))))))"

definition seek_range_error :: IoError where
  "seek_range_error = IoError InvalidInput (MessageSource ''seek outside the representable plaintext position range'')"

definition Reader_seek :: "('x, 'r) Reader \<Rightarrow> SeekFrom \<Rightarrow> (u64, ('x, 'r) Reader) io" where
  "Reader_seek R position =
    (let resolved = (case position of
         SeekStart offset \<Rightarrow> Some offset
       | SeekEnd delta \<Rightarrow> checked_add_signed (Reader_plaintext_length R) delta
       | SeekCurrent delta \<Rightarrow> checked_add_signed (rr_plaintext_position R) delta)
     in case resolved of
       Some position \<Rightarrow> Some (Ok position, R\<lparr> rr_plaintext_position := position \<rparr>)
     | None \<Rightarrow> Some (Err seek_range_error, R))"

definition Reader_stream_position :: "('x, 'r) Reader \<Rightarrow> (u64, ('x, 'r) Reader) io" where
  "Reader_stream_position R = Some (Ok (rr_plaintext_position R), R)"

end
