(* ===== verification/Floe_Random_Segments.thy ===== *)
theory Floe_Random_Segments
  imports Floe_Random_Access
begin

text \<open>
  Segments through the random-access reader: what opening a segment of a layout gives, how its ciphertext
  is fetched from contents that can be sought, and the invariant \<open>reader_ok\<close> of an open reader, which
  every segment access keeps. The lemmas on the reader are in the context of \<open>seekable_source\<close>.
\<close>

section \<open>Opening a segment of a layout\<close>

text \<open>
  \<open>segment_text S C position kind seg\<close>: the plaintext of the segment when it is authentic at its place.
\<close>

definition segment_text :: "prims \<Rightarrow> MessageContext \<Rightarrow> u64 \<Rightarrow> SegmentKind \<Rightarrow> bytes \<Rightarrow> bytes option" where
  "segment_text S C position kind seg =
    (if take 4 seg = u32_to_be_bytes (segment_prefix_word kind (length seg)) then segment_open S C position kind seg else None)"

lemma segment_text_iff:
  assumes "prims_ok S" "32 \<le> length seg"
  shows "segment_text S C position kind seg = Some p \<longleftrightarrow> (\<exists>nonce. length nonce = 12 \<and> seg = floe_segment S C position kind nonce p)"
proof
  assume "segment_text S C position kind seg = Some p"
  then have pre: "take 4 seg = u32_to_be_bytes (segment_prefix_word kind (length seg))" and o: "segment_open S C position kind seg = Some p"
    by (auto simp: segment_text_def split: if_splits)
  then show "\<exists>nonce. length nonce = 12 \<and> seg = floe_segment S C position kind nonce p"
    using segment_open_iff [OF assms pre] assms(2) by (intro exI [of _ "slice 4 16 seg"]) auto
next
  assume "\<exists>nonce. length nonce = 12 \<and> seg = floe_segment S C position kind nonce p"
  then obtain nonce where n: "length nonce = 12" "seg = floe_segment S C position kind nonce p" by blast
  then have "take 4 seg = u32_to_be_bytes (segment_prefix_word kind (length seg))"
    using floe_segment_parts(1) [OF assms(1) n(1)] floe_segment_length [OF assms(1) n(1)] by (simp add: add.commute)
  then show "segment_text S C position kind seg = Some p" using n segment_open_sealed [OF assms(1) n(1)] by (simp add: segment_text_def)
qed

lemma segment_text_length:
  assumes "prims_ok S" "length seg = n + 32" "segment_text S C position kind seg = Some p"
  shows "length p = n"
  using assms(3) segment_open_length [OF assms(1,2)] by (auto simp: segment_text_def split: if_splits)

lemma seg_len_ok_segment_spec:
  assumes "layout_ok L" "mc_parameters C = ml_parameters L" "i < unat (ml_segment_count L)"
  shows "seg_len_ok C (sl_kind (segment_spec L i)) (seg_plain_len L i)"
  using seg_plain_len_le [OF assms(1,3)] assms(2)
  by (cases "Suc i = unat (ml_segment_count L)") (simp_all add: segment_spec_def seg_len_ok_def seg_plain_len_def)

lemma validate_segment_cases:
  assumes "context_ok C" "length seg = n + 32" "seg_len_ok C kind n"
  obtains (prefix) "validate_segment C seg kind = Ok n" "segment_text S C position kind seg = segment_open S C position kind seg"
    | (other) e where "validate_segment C seg kind = Err e" "segment_text S C position kind seg = None"
proof (cases "take 4 seg = u32_to_be_bytes (segment_prefix_word kind (length seg))")
  case True
  then show thesis using prefix validate_segment_iff [OF assms(1)] assms(2,3) by (simp add: segment_text_def)
next
  case False
  have "validate_segment C seg kind \<noteq> Panic" using assms(2)
    by (auto simp: validate_segment_def bind_eq_Panic Let_def Parameters_validate_ciphertext_segment_length_def split: SegmentKind.splits if_splits)
  moreover have "validate_segment C seg kind \<noteq> Ok m" for m using False validate_segment_iff [OF assms(1)] by simp
  ultimately obtain e where "validate_segment C seg kind = Err e" by (cases "validate_segment C seg kind") auto
  then show thesis using other False by (simp add: segment_text_def)
qed

lemma layout_into_cases:
  assumes "lawful E S" "dec_state_ok E s" "layout_ok L" "mc_parameters (ds_context s) = ml_parameters L"
    and "i < unat (ml_segment_count L)" "length seg = seg_plain_len L i + 32" "seg_plain_len L i \<le> length out"
  defines "sl \<equiv> segment_spec L i" and "C \<equiv> ds_context s"
  obtains (opened) p s' where "DecryptionState_decrypt_segment_into E s seg sl out = (Ok (seg_plain_len L i), s', p @ drop (seg_plain_len L i) out)"
      "segment_text S C (word_of_nat i) (sl_kind sl) seg = Some p" "dec_state_ok E s'" "ds_context s' = C"
    | (refused) e s' out' where "DecryptionState_decrypt_segment_into E s seg sl out = (Err e, s', out')"
      "segment_text S C (word_of_nat i) (sl_kind sl) seg = None" "dec_state_ok E s'" "ds_context s' = C" "length out' = length out"
proof -
  let ?n = "seg_plain_len L i"
  note D = dec_state_okD [OF assms(2)]
  have i: "i < 2 ^ 40" using assms(5) layout_okD(3) [OF assms(3)] by simp
  have pos: "unat (word_of_nat i :: u64) < 2 ^ 40" using i by (simp add: unat_of_nat_u64)
  have n: "?n \<le> psl (mc_parameters C)" using seg_plain_len_le [OF assms(3,5)] assms(4) by (simp add: C_def)
  have ok: "seg_len_ok C (sl_kind sl) ?n"
    unfolding sl_def C_def by (rule seg_len_ok_segment_spec [OF assms(3,4,5)])
  have run: "DecryptionState_decrypt_segment_into E s seg sl out =
      DecryptionState_decrypt_segment_into_at E s seg (word_of_nat i) (sl_kind sl) out"
    using assms(4,6) by (simp add: DecryptionState_decrypt_segment_into_def DecryptionState_validate_ciphertext_layout_def
        validate_layout_def sl_def segment_spec_def add.commute)
  show thesis
  proof (cases rule: validate_segment_cases [OF D(1) assms(6) ok [unfolded C_def], where S = S and position = "word_of_nat i"])
    case 1
    obtain keys' out' where R: "decrypt_segment_into_inner E C (ds_keys s) seg (word_of_nat i) (sl_kind sl) ?n out =
        (case segment_open S C (word_of_nat i) (sl_kind sl) seg of Some p \<Rightarrow> Ok ?n | None \<Rightarrow> Err AuthenticationFailed, keys', out')"
      "cache_ok E C keys'" "length out' = length out"
      "\<And>p. segment_open S C (word_of_nat i) (sl_kind sl) seg = Some p \<Longrightarrow> out' = p @ drop ?n out"
      using decrypt_segment_into_spec [OF assms(1) D [folded C_def] assms(6) n assms(7) pos] by blast
    have s': "dec_state_ok E (s\<lparr> ds_keys := keys' \<rparr>)" "ds_context (s\<lparr> ds_keys := keys' \<rparr>) = C"
      using D(1) R(2) by (simp_all add: dec_state_ok_def C_def)
    show thesis
    proof (cases "segment_open S C (word_of_nat i) (sl_kind sl) seg")
      case None
      then show thesis using 1 R s' by (intro refused [of AuthenticationFailed _ out', OF _ _ s']) (simp_all add: run DecryptionState_decrypt_segment_into_at_def C_def)
    next
      case (Some p)
      then show thesis using 1 R s' by (intro opened [OF _ _ s']) (simp_all add: run DecryptionState_decrypt_segment_into_at_def C_def)
    qed
  next
    case (2 e)
    then show thesis using assms(2) by (intro refused) (simp_all add: run DecryptionState_decrypt_segment_into_at_def C_def)
  qed
qed

lemma layout_in_place_cases:
  assumes "lawful E S" "dec_state_ok E s" "layout_ok L" "mc_parameters (ds_context s) = ml_parameters L"
    and "i < unat (ml_segment_count L)" "buffer_ok B" "sb_parameters B = ml_parameters L"
    and "sb_state B = Ciphertext (seg_plain_len L i + 32)"
  defines "sl \<equiv> segment_spec L i" and "C \<equiv> ds_context s" and "seg \<equiv> take (seg_plain_len L i + 32) (sb_bytes B)"
  obtains (opened) p s' B' where "DecryptionState_decrypt_segment_in_place E s B sl = (Ok p, s', B')"
      "segment_text S C (word_of_nat i) (sl_kind sl) seg = Some p" "dec_state_ok E s'" "ds_context s' = C"
      "buffer_ok B'" "sb_parameters B' = sb_parameters B" "sb_state B' = Plaintext (seg_plain_len L i)"
      "slice 16 (16 + seg_plain_len L i) (sb_bytes B') = p" "length p = seg_plain_len L i"
    | (refused) e s' B' where "DecryptionState_decrypt_segment_in_place E s B sl = (Err e, s', B')"
      "segment_text S C (word_of_nat i) (sl_kind sl) seg = None" "dec_state_ok E s'" "ds_context s' = C"
      "buffer_ok B'" "sb_parameters B' = sb_parameters B"
proof -
  let ?n = "seg_plain_len L i"
  note D = dec_state_okD [OF assms(2)] and BD = buffer_okD [OF assms(6)]
  have i: "i < 2 ^ 40" using assms(5) layout_okD(3) [OF assms(3)] by simp
  have pos: "unat (word_of_nat i :: u64) < 2 ^ 40" using i by (simp add: unat_of_nat_u64)
  have n: "?n \<le> psl (mc_parameters C)" using seg_plain_len_le [OF assms(3,5)] assms(4) by (simp add: C_def)
  have ok: "seg_len_ok C (sl_kind sl) ?n"
    unfolding sl_def C_def by (rule seg_len_ok_segment_spec [OF assms(3,4,5)])
  have c: "?n + 32 \<le> length (sb_bytes B)" using BD(2) n assms(4,7) by (simp add: C_def)
  have len: "length seg = ?n + 32" using c by (simp add: seg_def)
  let ?op = "\<lambda>buffer. try_in (SegmentBuffer_ciphertext_length buffer) (s, buffer) (\<lambda>ciphertext_length.
      try_in (DecryptionState_validate_ciphertext_layout s ciphertext_length sl) (s, buffer) (\<lambda>_.
      if \<not> SegmentBuffer_matches buffer (DecryptionState_parameters s) then (Err InvalidParameters, s, buffer) else
      try_in (index_range 0 ciphertext_length (SegmentBuffer_raw_mut buffer)) (s, buffer) (\<lambda>raw.
      case DecryptionState_decrypt_segment_in_place_raw_at E s raw (sl_position sl) (sl_kind sl) of
        (r, s', raw') \<Rightarrow> (map_ok length r, s', buffer\<lparr> sb_bytes := splice 0 raw' (sb_bytes buffer) \<rparr>))))"
  have unf: "DecryptionState_decrypt_segment_in_place E s B sl = SegmentBuffer_decrypt_with E B ?op"
    by (simp add: DecryptionState_decrypt_segment_in_place_def)
  obtain r keys' seg' where raw: "decrypt_segment_in_place_inner E C (ds_keys s) seg (word_of_nat i) (sl_kind sl) = (r, keys', seg')"
    by (metis prod_cases3)
  let ?s = "s\<lparr> ds_keys := keys' \<rparr>" and ?B = "B\<lparr> sb_bytes := splice 0 seg' (sb_bytes B) \<rparr>"
  have "slice 0 (?n + 32) (sb_bytes B) = seg" by (simp add: slice_def seg_def)
  then have op: "?op B = (map_ok length r, ?s, ?B)"
    using assms(4,7,8) c raw
    by (simp add: SegmentBuffer_ciphertext_length_def DecryptionState_validate_ciphertext_layout_def validate_layout_def
        SegmentBuffer_matches_def DecryptionState_parameters_def SegmentBuffer_raw_mut_def sl_def segment_spec_def
        DecryptionState_decrypt_segment_in_place_raw_at_def C_def add.commute)
  have facts: "(\<exists>p. r = Ok p \<and> segment_text S C (word_of_nat i) (sl_kind sl) seg = Some p \<and> length p = ?n \<and>
        seg' = take 16 seg @ p @ drop (16 + ?n) seg) \<or>
      (\<exists>e. r = Err e \<and> segment_text S C (word_of_nat i) (sl_kind sl) seg = None)" "cache_ok E C keys'" "length seg' = length seg"
  proof -
    show "(\<exists>p. r = Ok p \<and> segment_text S C (word_of_nat i) (sl_kind sl) seg = Some p \<and> length p = ?n \<and>
        seg' = take 16 seg @ p @ drop (16 + ?n) seg) \<or>
      (\<exists>e. r = Err e \<and> segment_text S C (word_of_nat i) (sl_kind sl) seg = None)" "cache_ok E C keys'" "length seg' = length seg"
      by (cases rule: validate_segment_cases [OF D(1) len ok [unfolded C_def], where S = S and position = "word_of_nat i"];
          rule open_segment_in_place_spec [OF assms(1) D len n [unfolded C_def] pos, of "sl_kind sl"];
          use raw D(2) segment_open_length [OF lawfulD(1) [OF assms(1)] len] in
            \<open>auto simp: decrypt_segment_in_place_inner_def C_def split: option.splits\<close>)+
  qed
  have ls: "length seg' \<le> length (sb_bytes B)" using facts(3) len c by simp
  have B': "buffer_ok ?B" using ls by (intro buffer_ok_bytes [OF assms(6)]) simp
  have s': "dec_state_ok E ?s" "ds_context ?s = C" using D(1) facts(2) by (simp_all add: dec_state_ok_def C_def)
  from facts(1) show thesis
  proof (elim disjE exE conjE)
    fix p assume p: "r = Ok p" "segment_text S C (word_of_nat i) (sl_kind sl) seg = Some p" "length p = ?n"
      "seg' = take 16 seg @ p @ drop (16 + ?n) seg"
    have sl': "slice 16 (16 + ?n) (sb_bytes ?B) = p" using p(3,4) ls len by (simp add: splice_def slice_def)
    have run: "DecryptionState_decrypt_segment_in_place E s B sl = (Ok p, ?s, ?B\<lparr> sb_state := Plaintext ?n \<rparr>)"
      using decrypt_with_outcome [where operation = ?op, OF assms(1) op B'] p sl' n assms(4,7) by (simp add: unf C_def)
    show thesis
      by (rule opened [OF run p(2) s']) (use B' sl' p(3) n assms(4,7) buffer_okD(1,2) [OF B'] in
        \<open>auto simp: C_def intro!: buffer_okI\<close>)
  next
    fix e assume e: "r = Err e" "segment_text S C (word_of_nat i) (sl_kind sl) seg = None"
    have run: "DecryptionState_decrypt_segment_in_place E s B sl = (Err e, ?s, SegmentBuffer_clear E ?B)"
      using decrypt_with_outcome [where operation = ?op, OF assms(1) op B'] e by (simp add: unf)
    show thesis by (rule refused [OF run e(2) s']) (use SegmentBuffer_clear_ok [OF assms(1) B'] in simp_all)
  qed
qed

section \<open>Reading a segment from the contents\<close>

text \<open>The ciphertext of segment \<open>i\<close> of a message at byte \<open>start\<close> of the contents, and its plaintext when it is authentic.\<close>

definition segment_start :: "MessageLayout \<Rightarrow> nat \<Rightarrow> nat \<Rightarrow> nat" where
  "segment_start L start i = start + 74 + i * csl (ml_parameters L)"

definition message_segment :: "MessageLayout \<Rightarrow> nat \<Rightarrow> bytes \<Rightarrow> nat \<Rightarrow> bytes" where
  "message_segment L start c i = slice (segment_start L start i) (segment_start L start i + (seg_plain_len L i + 32)) c"

definition authentic_text :: "prims \<Rightarrow> MessageContext \<Rightarrow> MessageLayout \<Rightarrow> nat \<Rightarrow> bytes \<Rightarrow> nat \<Rightarrow> bytes option" where
  "authentic_text S C L start c i =
    segment_text S C (word_of_nat i) (sl_kind (segment_spec L i)) (message_segment L start c i)"

lemma segment_end:
  assumes "layout_ok L" "i < unat (ml_segment_count L)"
  shows "segment_start L start i + (seg_plain_len L i + 32) \<le> start + unat (ml_ciphertext_length L)"
    "unat (sl_ciphertext_offset (segment_spec L i)) = 74 + i * csl (ml_parameters L)"
    "sl_ciphertext_length (segment_spec L i) = seg_plain_len L i + 32"
    "32 \<le> seg_plain_len L i + 32" "seg_plain_len L i + 32 \<le> csl (ml_parameters L)"
proof -
  note no = layout_no_overflow(2) [OF assms]
  then show "segment_start L start i + (seg_plain_len L i + 32) \<le> start + unat (ml_ciphertext_length L)"
    by (simp add: segment_start_def)
  have "74 + i * csl (ml_parameters L) < 2 ^ 64" using no unat_less_64 [of "ml_ciphertext_length L"] unfolding u64_bound by linarith
  then show "unat (sl_ciphertext_offset (segment_spec L i)) = 74 + i * csl (ml_parameters L)"
    by (simp add: segment_spec_def unat_of_nat_u64 del: of_nat_add of_nat_mult)
  show "sl_ciphertext_length (segment_spec L i) = seg_plain_len L i + 32" by (simp add: segment_spec_def)
  show "32 \<le> seg_plain_len L i + 32" by simp
  show "seg_plain_len L i + 32 \<le> csl (ml_parameters L)"
    using seg_plain_len_le [OF assms] csl_psl [OF layout_okD(1) [OF assms(1)]] by simp
qed

text \<open>
  The part of the reader's invariant that opening establishes first: its state, layout and buffer fit
  together, and the tracked position of the wrapped reader is right.
\<close>

definition reader_parts_ok :: "'x env \<Rightarrow> ('r \<Rightarrow> nat \<Rightarrow> bool) \<Rightarrow> ('x, 'r) Reader \<Rightarrow> bool" where
  "reader_parts_ok E at R \<longleftrightarrow> dec_state_ok E (rr_state R) \<and> layout_ok (rr_layout R) \<and>
    mc_parameters (ds_context (rr_state R)) = ml_parameters (rr_layout R) \<and>
    buffer_ok (rr_scratch R) \<and> sb_parameters (rr_scratch R) = ml_parameters (rr_layout R) \<and>
    (\<exists>n. at (rr_inner R) n) \<and> (\<forall>q. rr_inner_position R = Some q \<longrightarrow> at (rr_inner R) (unat q))"

definition same_message :: "('x, 'r) Reader \<Rightarrow> ('x, 'r) Reader \<Rightarrow> bool" where
  "same_message R R' \<longleftrightarrow> ds_context (rr_state R') = ds_context (rr_state R) \<and> rr_layout R' = rr_layout R \<and>
    rr_header R' = rr_header R \<and> rr_message_start R' = rr_message_start R \<and> rr_plaintext_position R' = rr_plaintext_position R"

lemma same_message_trans: "same_message R R' \<Longrightarrow> same_message R' R'' \<Longrightarrow> same_message R R''"
  by (simp add: same_message_def)

text \<open>Fetching a segment once the wrapped reader stands where it should.\<close>

lemma fetch_after_seek:
  assumes "layout_ok L" "i < unat (ml_segment_count L)" "buffer_ok (rr_scratch R)" "sb_parameters (rr_scratch R) = ml_parameters L"
    and "Reader_seek_to_segment K (R\<lparr> rr_cached_position := None \<rparr>) (segment_spec L i) =
      Some (Ok (), R\<lparr> rr_cached_position := None, rr_inner := inner, rr_inner_position := pos \<rparr>)"
  defines "n \<equiv> seg_plain_len L i + 32" and "filled \<equiv> \<lambda>seg. SegmentBuffer_write_ciphertext
      ((rr_scratch R)\<lparr> sb_state := Ciphertext (seg_plain_len L i + 32) \<rparr>) seg"
  shows "Reader_fetch_segment_ciphertext K R (segment_spec L i) =
      (case read_exact_segment (sr_read K) inner (take n (sb_bytes (rr_scratch R))) of None \<Rightarrow> None | Some (r, seg, inner') \<Rightarrow>
       let R' = R\<lparr> rr_cached_position := None, rr_inner_position := None, rr_inner := inner', rr_scratch := filled seg \<rparr> in
       try_io r R' (\<lambda>_. Some (Ok (), R'\<lparr> rr_inner_position := Option.bind pos (\<lambda>p. checked_add p (length_usize_to_u64 n)) \<rparr>)))"
    "length (take n (sb_bytes (rr_scratch R))) = n"
    "length seg = n \<Longrightarrow> buffer_ok (filled seg) \<and> sb_parameters (filled seg) = ml_parameters L \<and>
       sb_state (filled seg) = Ciphertext n \<and> take n (sb_bytes (filled seg)) = seg"
proof -
  note G = segment_end [OF assms(1,2)]
  have len: "length (sb_bytes (rr_scratch R)) = csl (ml_parameters L)" using assms(3,4) by (simp add: buffer_ok_def)
  have n: "sl_ciphertext_length (segment_spec L i) = n" "32 \<le> n" "n \<le> csl (ml_parameters L)" using G(3-5) by (simp_all add: n_def)
  have prep: "SegmentBuffer_prepare_ciphertext (rr_scratch R) n =
      (Ok (take n (sb_bytes (rr_scratch R))), (rr_scratch R)\<lparr> sb_state := Ciphertext n \<rparr>)"
    using prepare_ciphertext_spec [OF assms(3) n(2)] n(3) assms(4) by simp
  show "length (take n (sb_bytes (rr_scratch R))) = n" using len n(3) by simp
  show "Reader_fetch_segment_ciphertext K R (segment_spec L i) =
      (case read_exact_segment (sr_read K) inner (take n (sb_bytes (rr_scratch R))) of None \<Rightarrow> None | Some (r, seg, inner') \<Rightarrow>
       let R' = R\<lparr> rr_cached_position := None, rr_inner_position := None, rr_inner := inner', rr_scratch := filled seg \<rparr> in
       try_io r R' (\<lambda>_. Some (Ok (), R'\<lparr> rr_inner_position := Option.bind pos (\<lambda>p. checked_add p (length_usize_to_u64 n)) \<rparr>)))"
    using assms(5) prep n(1)
    by (cases "read_exact_segment (sr_read K) inner (take n (sb_bytes (rr_scratch R)))")
      (auto simp: Reader_fetch_segment_ciphertext_def Let_def filled_def n_def bind_io_def split: rust.splits)
  show "buffer_ok (filled seg) \<and> sb_parameters (filled seg) = ml_parameters L \<and> sb_state (filled seg) = Ciphertext n \<and>
      take n (sb_bytes (filled seg)) = seg" if "length seg = n"
    using that assms(3,4) len n(2,3) by (simp add: filled_def n_def buffer_ok_def SegmentBuffer_write_ciphertext_def splice_0_take)
qed

context seekable_source begin

lemma read_exact_at:
  assumes "at r n" "n + length buf \<le> length c"
  obtains r' where "read_exact_segment (sr_read K) r buf = Some (Ok (), slice n (n + length buf) c, r')" "at r' (n + length buf)"
proof -
  have y: "\<exists>m \<le> length c. at r m \<and> drop n c = drop m c" using assms by (intro exI [of _ n]) simp
  have "length buf \<le> length (drop n c)" using assms(2) by simp
  then obtain r' m where r': "read_exact_segment (sr_read K) r buf = Some (Ok (), take (length buf) (drop n c), r')"
      "m \<le> length c" "at r' m" "drop (length buf) (drop n c) = drop m c"
    using read_exact_segment_yields [OF y, of buf] by auto
  have "length (drop (length buf) (drop n c)) = length (drop m c)" using r'(4) by simp
  then have "m = n + length buf" using r'(2) assms(2) by simp
  then show thesis using that r'(1,3) by (simp add: slice_def)
qed

lemma read_exact_short:
  assumes "at r n" "length c < n + length buf" "buf \<noteq> []"
  obtains e out r' m where "read_exact_segment (sr_read K) r buf = Some (Err (decryption_error e), out, r')" "at r' m" "length out = length buf"
proof (cases "n \<le> length c")
  case True
  then have y: "\<exists>m \<le> length c. at r m \<and> drop n c = drop m c" using assms by (intro exI [of _ n]) simp
  have lt: "length (drop n c) < length buf" using assms(2) True by simp
  show thesis
    by (rule read_fully_short [OF y lt]) (use that lt in \<open>auto simp: read_exact_segment_def\<close>)
next
  case False
  obtain buf' r' where "sr_read K r buf = Some (Ok 0, buf', r')" "length buf' = length buf" "at r' n"
    using past_end [OF assms(1) _ assms(3)] False by auto
  then show thesis using assms(3)
    by (intro that [of "InvalidCiphertextLength 0 (Exactly (length buf))" buf' r' n])
      (simp_all add: read_exact_segment_def read_fully_def read_fully_loop.simps)
qed

lemma seek_inner_cases:
  assumes "reader_parts_ok E at R"
  obtains R' where "Reader_seek_inner_to K R offset = Some (Ok (), R')" "at (rr_inner R') (unat offset)"
    "rr_inner_position R' = Some offset" "\<exists>inner. R' = R\<lparr> rr_inner := inner, rr_inner_position := Some offset \<rparr>"
proof (cases "rr_inner_position R = Some offset")
  case True
  then show thesis using assms by (intro that [of R]) (auto simp: Reader_seek_inner_to_def reader_parts_ok_def intro!: exI [of _ "rr_inner R"])
next
  case False
  obtain n where "at (rr_inner R) n" using assms by (auto simp: reader_parts_ok_def)
  then obtain r' where r': "sr_seek K (rr_inner R) (SeekStart offset) = Some (Ok offset, r')" "at r' (unat offset)"
    using seek_start by blast
  show thesis
    by (rule that [of "R\<lparr> rr_inner := r', rr_inner_position := Some offset \<rparr>"])
      (use False r' in \<open>auto simp: Reader_seek_inner_to_def\<close>)
qed

lemma fetch_cases:
  assumes "reader_parts_ok E at R" "i < unat (ml_segment_count (rr_layout R))"
  defines "L \<equiv> rr_layout R" and "start \<equiv> unat (rr_message_start R)" and "n \<equiv> seg_plain_len (rr_layout R) i + 32"
  obtains (short) e R' where "Reader_fetch_segment_ciphertext K R (segment_spec L i) = Some (Err e, R')"
      "length c < segment_start L start i + n"
    | (fetched) R' where "Reader_fetch_segment_ciphertext K R (segment_spec L i) = Some (Ok (), R')"
      "segment_start L start i + n \<le> length c" "reader_parts_ok E at R'" "same_message R R'" "rr_state R' = rr_state R"
      "rr_cached_position R' = None" "sb_state (rr_scratch R') = Ciphertext n"
      "take n (sb_bytes (rr_scratch R')) = message_segment L start c i"
proof -
  have P: "layout_ok L" "buffer_ok (rr_scratch R)" "sb_parameters (rr_scratch R) = ml_parameters L"
    using assms(1) by (auto simp: reader_parts_ok_def L_def)
  note G = segment_end [OF P(1) assms(2) [folded L_def]]
  let ?off = "segment_start L start i"
  have n: "n = seg_plain_len L i + 32" by (simp add: n_def L_def)
  let ?R = "R\<lparr> rr_cached_position := None \<rparr>"
  have okR: "reader_parts_ok E at ?R" using assms(1) by (simp add: reader_parts_ok_def)
  show thesis
  proof (cases "checked_add (rr_message_start R) (sl_ciphertext_offset (segment_spec L i))")
    case None
    then have "2 ^ 64 \<le> ?off" using G(2) by (auto simp: checked_add_def segment_start_def start_def split: if_splits)
    then have "length c < ?off + n" using contents_length by linarith
    then show thesis using short None
      by (simp add: Reader_fetch_segment_ciphertext_def Reader_seek_to_segment_def)
  next
    case (Some offset)
    then have off: "unat offset = ?off"
      using G(2) unat_checked_add [OF Some] by (simp add: segment_start_def start_def)
    obtain R1 inner where R1: "Reader_seek_inner_to K ?R offset = Some (Ok (), R1)" "at (rr_inner R1) ?off"
        "R1 = ?R\<lparr> rr_inner := inner, rr_inner_position := Some offset \<rparr>"
      using seek_inner_cases [OF okR, of offset] off by metis
    have seek: "Reader_seek_to_segment K ?R (segment_spec L i) = Some (Ok (), R1)"
      using Some R1(1) by (simp add: Reader_seek_to_segment_def)
    note FA = fetch_after_seek [OF P(1) assms(2) [folded L_def] P(2,3) seek [unfolded R1(3)], folded n]
    let ?buf = "take n (sb_bytes (rr_scratch R))"
    show thesis
    proof (cases "?off + n \<le> length c")
      case False
      then have lt: "length c < ?off + length ?buf" "?buf \<noteq> []" using FA(2) n by auto
      obtain e out r' m where "read_exact_segment (sr_read K) (rr_inner R1) ?buf = Some (Err (decryption_error e), out, r')"
        by (rule read_exact_short [OF R1(2) lt])
      then show thesis using short False FA(1) by (simp add: Let_def R1(3))
    next
      case True
      then have le: "?off + length ?buf \<le> length c" using FA(2) by simp
      obtain r' where r': "read_exact_segment (sr_read K) (rr_inner R1) ?buf = Some (Ok (), slice ?off (?off + n) c, r')" "at r' (?off + n)"
        by (rule read_exact_at [OF R1(2) le]) (use FA(2) in simp)
      have lt: "unat offset + n < 2 ^ 64" using off True contents_length by linarith
      then have "unat (word_of_nat n :: u64) = n" by (intro unat_of_nat_u64) linarith
      then have after: "checked_add offset (word_of_nat n) = Some (offset + word_of_nat n)" using lt by (simp add: checked_add_def)
      then have end_at: "unat (offset + word_of_nat n) = ?off + n"
        using unat_checked_add [OF after] off \<open>unat (word_of_nat n :: u64) = n\<close> by simp
      have "length (slice ?off (?off + n) c) = n" using True by simp
      note B = FA(3) [OF this]
      let ?R' = "R\<lparr> rr_cached_position := None, rr_inner := r',
        rr_scratch := SegmentBuffer_write_ciphertext ((rr_scratch R)\<lparr> sb_state := Ciphertext n \<rparr>) (slice ?off (?off + n) c),
        rr_inner_position := Some (offset + word_of_nat n) \<rparr>"
      have run: "Reader_fetch_segment_ciphertext K R (segment_spec L i) = Some (Ok (), ?R')"
        using FA(1) r'(1) after by (simp add: Let_def R1(3) length_usize_to_u64_def)
      show thesis
        by (rule fetched [OF run True]) (use B assms(1) r'(2) end_at n in
          \<open>auto simp: reader_parts_ok_def same_message_def L_def message_segment_def\<close>)
    qed
  qed
qed

end

section \<open>Segments through the reader\<close>

text \<open>
  The invariant of an open reader over the contents \<open>c\<close>: its parts fit together, the whole message lies in
  the contents, and a cached segment is the authentic plaintext of its position.
\<close>

definition reader_text :: "prims \<Rightarrow> bytes \<Rightarrow> ('x, 'r) Reader \<Rightarrow> nat \<Rightarrow> bytes option" where
  "reader_text S c R i = authentic_text S (ds_context (rr_state R)) (rr_layout R) (unat (rr_message_start R)) c i"

definition reader_ok :: "'x env \<Rightarrow> prims \<Rightarrow> bytes \<Rightarrow> ('r \<Rightarrow> nat \<Rightarrow> bool) \<Rightarrow> ('x, 'r) Reader \<Rightarrow> bool" where
  "reader_ok E S c at R \<longleftrightarrow> reader_parts_ok E at R \<and>
    unat (rr_message_start R) + unat (ml_ciphertext_length (rr_layout R)) \<le> length c \<and>
    (\<forall>pos. rr_cached_position R = Some pos \<longrightarrow> unat pos < unat (ml_segment_count (rr_layout R)) \<and>
       (\<exists>p. reader_text S c R (unat pos) = Some p \<and> sb_state (rr_scratch R) = Plaintext (length p) \<and>
          slice 16 (16 + length p) (sb_bytes (rr_scratch R)) = p))"

lemma reader_text_same: "same_message R R' \<Longrightarrow> reader_text S c R' = reader_text S c R"
  by (simp add: reader_text_def same_message_def fun_eq_iff)

lemma reader_partsD:
  assumes "reader_parts_ok E at R"
  shows "dec_state_ok E (rr_state R)" "layout_ok (rr_layout R)" "mc_parameters (ds_context (rr_state R)) = ml_parameters (rr_layout R)"
    "buffer_ok (rr_scratch R)" "sb_parameters (rr_scratch R) = ml_parameters (rr_layout R)"
  using assms by (simp_all add: reader_parts_ok_def)

lemma reader_okD: "reader_ok E S c at R \<Longrightarrow> reader_parts_ok E at R"
  by (simp add: reader_ok_def)

lemma reader_text_length:
  assumes "prims_ok S" "reader_ok E S c at R" "i < unat (ml_segment_count (rr_layout R))" "reader_text S c R i = Some p"
  shows "length p = seg_plain_len (rr_layout R) i"
proof -
  note P = reader_partsD [OF reader_okD [OF assms(2)]]
  have "segment_start (rr_layout R) (unat (rr_message_start R)) i + (seg_plain_len (rr_layout R) i + 32) \<le> length c"
    using segment_end(1) [OF P(2) assms(3), of "unat (rr_message_start R)"] assms(2) by (simp add: reader_ok_def)
  then have "length (message_segment (rr_layout R) (unat (rr_message_start R)) c i) = seg_plain_len (rr_layout R) i + 32"
    by (simp add: message_segment_def)
  from segment_text_length [OF assms(1) this] assms(4) show ?thesis unfolding reader_text_def authentic_text_def by blast
qed

text \<open>Decrypting the fetched segment \<open>seg\<close>, in the scratch buffer or straight into the caller's.\<close>

lemma load_after_fetch:
  assumes "lawful E S" "Reader_fetch_segment_ciphertext K R (segment_spec (rr_layout R1) i) = Some (Ok (), R1)"
    and "i < unat (ml_segment_count (rr_layout R1))" "reader_parts_ok E at R1" "rr_cached_position R1 = None"
    and "sb_state (rr_scratch R1) = Ciphertext (seg_plain_len (rr_layout R1) i + 32)"
  defines "sl \<equiv> segment_spec (rr_layout R1) i" and "seg \<equiv> take (seg_plain_len (rr_layout R1) i + 32) (sb_bytes (rr_scratch R1))"
  obtains (refused) e R' where "Reader_load_segment E K R sl = Some (Err e, R')"
      "segment_text S (ds_context (rr_state R1)) (word_of_nat i) (sl_kind sl) seg = None"
      "reader_parts_ok E at R'" "same_message R1 R'" "rr_cached_position R' = None" "rr_inner R' = rr_inner R1"
    | (loaded) p R' where "Reader_load_segment E K R sl = Some (Ok (), R')"
      "segment_text S (ds_context (rr_state R1)) (word_of_nat i) (sl_kind sl) seg = Some p"
      "reader_parts_ok E at R'" "same_message R1 R'" "rr_cached_position R' = Some (word_of_nat i)" "rr_inner R' = rr_inner R1"
      "sb_state (rr_scratch R') = Plaintext (length p)" "slice 16 (16 + length p) (sb_bytes (rr_scratch R')) = p"
proof -
  note P = reader_partsD [OF assms(4)]
  have pos: "sl_position (segment_spec (rr_layout R1) i) = word_of_nat i" by (simp add: segment_spec_def)
  show thesis
  proof (cases rule: layout_in_place_cases [OF assms(1) P(1,2,3) assms(3) P(4,5) assms(6)])
    case (1 p s' B')
    have run: "Reader_load_segment E K R sl =
        Some (Ok (), R1\<lparr> rr_state := s', rr_scratch := B', rr_cached_position := Some (word_of_nat i) \<rparr>)"
      using assms(2) 1(1) pos by (simp add: Reader_load_segment_def sl_def)
    show thesis by (rule loaded [OF run]) (use 1 P assms(4) in \<open>auto simp: sl_def seg_def reader_parts_ok_def same_message_def\<close>)
  next
    case (2 e s' B')
    have run: "Reader_load_segment E K R sl = Some (Err (decryption_error e), R1\<lparr> rr_state := s', rr_scratch := B' \<rparr>)"
      using assms(2) 2(1) by (simp add: Reader_load_segment_def sl_def)
    show thesis by (rule refused [OF run]) (use 2 P assms(4,5) in \<open>auto simp: sl_def seg_def reader_parts_ok_def same_message_def\<close>)
  qed
qed

lemma direct_after_fetch:
  assumes "lawful E S" "Reader_fetch_segment_ciphertext K R (segment_spec (rr_layout R1) i) = Some (Ok (), R1)"
    and "i < unat (ml_segment_count (rr_layout R1))" "reader_parts_ok E at R1"
    and "sb_state (rr_scratch R1) = Ciphertext (seg_plain_len (rr_layout R1) i + 32)" "length out = seg_plain_len (rr_layout R1) i"
  defines "sl \<equiv> segment_spec (rr_layout R1) i" and "seg \<equiv> take (seg_plain_len (rr_layout R1) i + 32) (sb_bytes (rr_scratch R1))"
  obtains (refused) e out' R' where "Reader_decrypt_segment_direct E K R sl out = Some (Err e, out', R')" "length out' = length out"
      "segment_text S (ds_context (rr_state R1)) (word_of_nat i) (sl_kind sl) seg = None" "reader_parts_ok E at R'" "same_message R1 R'"
      "rr_cached_position R' = rr_cached_position R1" "rr_inner R' = rr_inner R1"
    | (opened) p R' where "Reader_decrypt_segment_direct E K R sl out = Some (Ok (), p, R')"
      "segment_text S (ds_context (rr_state R1)) (word_of_nat i) (sl_kind sl) seg = Some p" "reader_parts_ok E at R'" "same_message R1 R'"
      "rr_cached_position R' = rr_cached_position R1" "rr_inner R' = rr_inner R1"
proof -
  note P = reader_partsD [OF assms(4)]
  have "seg_plain_len (rr_layout R1) i + 32 \<le> length (sb_bytes (rr_scratch R1))"
    using buffer_okD(2,4) [OF P(4)] assms(5) by auto
  then have seg: "SegmentBuffer_ciphertext (rr_scratch R1) = Ok seg" "length seg = seg_plain_len (rr_layout R1) i + 32"
    using assms(5) by (simp_all add: seg_def SegmentBuffer_ciphertext_def slice_def)
  have le: "seg_plain_len (rr_layout R1) i \<le> length out" using assms(6) by simp
  have ok: "reader_parts_ok E at (R1\<lparr> rr_state := s' \<rparr>)" "same_message R1 (R1\<lparr> rr_state := s' \<rparr>)"
    if "dec_state_ok E s'" "ds_context s' = ds_context (rr_state R1)" for s'
    using that assms(4) by (simp_all add: reader_parts_ok_def same_message_def)
  note unf = Reader_decrypt_segment_direct_def assms(2) seg(1)
  show thesis
  proof (cases rule: layout_into_cases [OF assms(1) P(1,2,3) assms(3) seg(2) le])
    case (1 p s')
    then show thesis using opened [OF _ _ ok [OF 1(3,4)]] assms(6) by (simp add: unf sl_def)
  next
    case (2 e s' out')
    then show thesis using refused [OF _ 2(5) _ ok [OF 2(3,4)]] by (simp add: unf sl_def)
  qed
qed

context seekable_source begin

lemma load_cases:
  assumes "lawful E S" "reader_parts_ok E at R" "i < unat (ml_segment_count (rr_layout R))"
  defines "L \<equiv> rr_layout R" and "start \<equiv> unat (rr_message_start R)"
  obtains (short) e R' where "Reader_load_segment E K R (segment_spec L i) = Some (Err e, R')"
      "length c < segment_start L start i + (seg_plain_len L i + 32)"
    | (refused) e R' where "Reader_load_segment E K R (segment_spec L i) = Some (Err e, R')" "reader_text S c R i = None"
      "segment_start L start i + (seg_plain_len L i + 32) \<le> length c" "reader_parts_ok E at R'" "same_message R R'" "rr_cached_position R' = None"
    | (loaded) p R' where "Reader_load_segment E K R (segment_spec L i) = Some (Ok (), R')" "reader_text S c R i = Some p"
      "segment_start L start i + (seg_plain_len L i + 32) \<le> length c" "reader_parts_ok E at R'" "same_message R R'"
      "rr_cached_position R' = Some (word_of_nat i)"
      "sb_state (rr_scratch R') = Plaintext (length p)" "slice 16 (16 + length p) (sb_bytes (rr_scratch R')) = p"
proof (cases rule: fetch_cases [OF assms(2,3)])
  case (1 e R')
  then show thesis using short by (simp add: Reader_load_segment_def L_def start_def)
next
  case (2 R1)
  note T = 2 [folded L_def start_def]
  have L: "rr_layout R1 = L" "ds_context (rr_state R1) = ds_context (rr_state R)" using T(4) by (simp_all add: same_message_def L_def)
  have tx: "segment_text S (ds_context (rr_state R1)) (word_of_nat i) (sl_kind (segment_spec L i))
      (take (seg_plain_len L i + 32) (sb_bytes (rr_scratch R1))) = reader_text S c R i"
    using T(8) L by (simp add: reader_text_def authentic_text_def L_def start_def)
  have fetch: "Reader_fetch_segment_ciphertext K R (segment_spec (rr_layout R1) i) = Some (Ok (), R1)"
      "i < unat (ml_segment_count (rr_layout R1))" "sb_state (rr_scratch R1) = Ciphertext (seg_plain_len (rr_layout R1) i + 32)"
    using T(1,7) L(1) assms(3) by (simp_all add: L_def)
  note same = same_message_trans [OF T(4)]
  show thesis
  proof (cases rule: load_after_fetch [OF assms(1) fetch(1,2) T(3,6) fetch(3), unfolded L(1)])
    case (1 e R')
    then show thesis using refused [OF _ _ T(2) 1(3) same [OF 1(4)]] tx by (simp add: L_def)
  next
    case (2 p R')
    have run: "Reader_load_segment E K R (segment_spec L i) = Some (Ok (), R')" "reader_text S c R i = Some p"
      using 2(1,2) tx by simp_all
    show thesis by (rule loaded [OF run T(2) 2(3) same [OF 2(4)] 2(5,7,8)])
  qed
qed

lemma load_cached_cases:
  assumes "lawful E S" "reader_ok E S c at R" "i < unat (ml_segment_count (rr_layout R))"
  obtains (refused) e R' where "Reader_load_cached_segment E K R (segment_spec (rr_layout R) i) = Some (Err e, R')"
      "reader_text S c R i = None" "reader_ok E S c at R'" "same_message R R'"
    | (loaded) p R' where "Reader_load_cached_segment E K R (segment_spec (rr_layout R) i) = Some (Ok (), R')"
      "reader_text S c R i = Some p" "reader_ok E S c at R'" "same_message R R'" "SegmentBuffer_plaintext (rr_scratch R') = Ok p"
proof -
  note P = reader_partsD [OF reader_okD [OF assms(2)]]
  have pos: "sl_position (segment_spec (rr_layout R) i) = word_of_nat i" by (simp add: segment_spec_def)
  have u: "unat (word_of_nat i :: u64) = i"
    using assms(3) layout_okD(3) [OF P(2)] by (intro unat_of_nat_u64) simp
  have fit: "segment_start (rr_layout R) (unat (rr_message_start R)) i + (seg_plain_len (rr_layout R) i + 32) \<le> length c"
    using segment_end(1) [OF P(2) assms(3), of "unat (rr_message_start R)"] assms(2) by (simp add: reader_ok_def)
  have pt: "SegmentBuffer_plaintext B = Ok p"
    if "buffer_ok B" "sb_state B = Plaintext (length p)" "slice 16 (16 + length p) (sb_bytes B) = p" for B p
    using that buffer_okD(2,3) [OF that(1)] by (simp add: SegmentBuffer_plaintext_def)
  show thesis
  proof (cases "rr_cached_position R = Some (word_of_nat i)")
    case True
    then obtain p where "reader_text S c R i = Some p" "sb_state (rr_scratch R) = Plaintext (length p)"
        "slice 16 (16 + length p) (sb_bytes (rr_scratch R)) = p"
      using assms(2) u by (auto simp: reader_ok_def)
    then show thesis
      using True pos assms(2) pt P(4) by (intro loaded [of R p]) (auto simp: Reader_load_cached_segment_def same_message_def)
  next
    case False
    then have load: "Reader_load_cached_segment E K R (segment_spec (rr_layout R) i) = Reader_load_segment E K R (segment_spec (rr_layout R) i)"
      using pos by (simp add: Reader_load_cached_segment_def)
    show thesis
    proof (cases rule: load_cases [OF assms(1) reader_okD [OF assms(2)] assms(3)])
      case (1 e R')
      then show thesis using fit by simp
    next
      case (2 e R')
      have "reader_ok E S c at R'" using 2(4-6) assms(2) by (simp add: reader_ok_def same_message_def)
      then show thesis using refused load 2(1,2,5) by simp
    next
      case (3 p R')
      have "reader_ok E S c at R'"
        using 3 assms(2,3) u reader_text_same [OF 3(5), of S c] by (auto simp: reader_ok_def same_message_def)
      then show thesis using loaded load 3(1,2,5) pt [OF _ 3(7,8)] reader_partsD(4) [OF 3(4)] by simp
    qed
  qed
qed

lemma direct_cases:
  assumes "lawful E S" "reader_ok E S c at R" "i < unat (ml_segment_count (rr_layout R))" "length out = seg_plain_len (rr_layout R) i"
  obtains (refused) e out' R' where "Reader_decrypt_segment_direct E K R (segment_spec (rr_layout R) i) out = Some (Err e, out', R')"
      "reader_text S c R i = None" "reader_ok E S c at R'" "same_message R R'" "length out' = length out"
    | (opened) p R' where "Reader_decrypt_segment_direct E K R (segment_spec (rr_layout R) i) out = Some (Ok (), p, R')"
      "reader_text S c R i = Some p" "reader_ok E S c at R'" "same_message R R'"
proof -
  let ?L = "rr_layout R"
  note P = reader_partsD [OF reader_okD [OF assms(2)]]
  show thesis
  proof (cases rule: fetch_cases [OF reader_okD [OF assms(2)] assms(3)])
    case (1 e R')
    then show thesis
      using segment_end(1) [OF P(2) assms(3), of "unat (rr_message_start R)"] assms(2) by (simp add: reader_ok_def)
  next
    case (2 R1)
    note T = 2
    have L: "rr_layout R1 = ?L" "ds_context (rr_state R1) = ds_context (rr_state R)" using T(4) by (simp_all add: same_message_def)
    have tx: "segment_text S (ds_context (rr_state R1)) (word_of_nat i) (sl_kind (segment_spec ?L i))
        (take (seg_plain_len ?L i + 32) (sb_bytes (rr_scratch R1))) = reader_text S c R i"
      using T(8) L by (simp add: reader_text_def authentic_text_def)
    have fetch: "Reader_fetch_segment_ciphertext K R (segment_spec (rr_layout R1) i) = Some (Ok (), R1)"
        "i < unat (ml_segment_count (rr_layout R1))" "sb_state (rr_scratch R1) = Ciphertext (seg_plain_len (rr_layout R1) i + 32)"
        "length out = seg_plain_len (rr_layout R1) i"
      using T(1,7) L(1) assms(3,4) by simp_all
    have ok: "reader_ok E S c at R'" "same_message R R'"
      if "reader_parts_ok E at R'" "same_message R1 R'" "rr_cached_position R' = rr_cached_position R1" for R'
      using that T(4,6) assms(2) same_message_trans [OF T(4) that(2)] by (auto simp: reader_ok_def same_message_def)
    show thesis
    proof (cases rule: direct_after_fetch [OF assms(1) fetch(1,2) T(3) fetch(3,4), unfolded L(1)])
      case (1 e out' R')
      then show thesis using refused ok [OF 1(4,5,6)] tx by simp
    next
      case (2 p R')
      have run: "Reader_decrypt_segment_direct E K R (segment_spec ?L i) out = Some (Ok (), p, R')" "reader_text S c R i = Some p"
        using 2(1,2) tx by simp_all
      show thesis by (rule opened [OF run ok [OF 2(3,4,5)]])
    qed
  qed
qed

end

end
