(* ===== verification/Floe_Random_Ranges.thy ===== *)
theory Floe_Random_Ranges
  imports Floe_Random_Segments
begin

text \<open>
  Range reads of the random-access reader, and its sequential reads and seeks: which bytes a range read
  returns, from which segments, and that an opened reader is itself a seekable source of the plaintext.
\<close>

section \<open>Ranges\<close>

text \<open>A plaintext can be put together from one piece per segment.\<close>

lemma pieces_concat:
  assumes "layout_ok L" "\<And>i. i < unat (ml_segment_count L) \<Longrightarrow> length (f i) = seg_plain_len L i"
  defines "q \<equiv> concat (map f [0..<unat (ml_segment_count L)])"
  shows "length q = unat (ml_plaintext_length L)" "i < unat (ml_segment_count L) \<Longrightarrow> chunk L q i = f i"
proof -
  let ?n = "unat (ml_segment_count L)" and ?k = "psl (ml_parameters L)"
  note LD = layout_okD [OF assms(1)]
  have pre: "length (concat (map f [0..<m])) = m * ?k" if "m < ?n" for m
    using that
  proof (induction m)
    case (Suc m)
    then show ?case using assms(2) [of m] by (simp add: seg_plain_len_def)
  qed simp
  obtain m where m: "?n = Suc m" using LD(2) by (cases ?n) auto
  show "length q = unat (ml_plaintext_length L)"
    using pre [of m] assms(2) [of m] m LD(5) by (simp add: q_def seg_plain_len_def)
  assume i: "i < ?n"
  have "[0..<?n] = [0..<i] @ i # [Suc i..<?n]" using i by (metis upt_conv_Cons upt_add_eq_append le_add_diff_inverse less_imp_le zero_le)
  then have "q = concat (map f [0..<i]) @ f i @ concat (map f [Suc i..<?n])" by (simp add: q_def)
  then show "chunk L q i = f i" using pre [OF i] assms(2) [OF i] by (simp add: chunk_def slice_def)
qed

text \<open>The end of segment \<open>i\<close> in the plaintext, and the words of its layout.\<close>

definition segment_stop :: "MessageLayout \<Rightarrow> nat \<Rightarrow> nat" where
  "segment_stop L i = i * psl (ml_parameters L) + seg_plain_len L i"

lemma chunk_slice: "chunk L q i = slice (i * psl (ml_parameters L)) (segment_stop L i) q"
  by (simp add: chunk_def segment_stop_def)

lemma segment_words:
  assumes "layout_ok L" "i < unat (ml_segment_count L)"
  shows "unat (sl_plaintext_offset (segment_spec L i)) = i * psl (ml_parameters L)"
    "unat (length_usize_to_u64 (seg_plain_len L i)) = seg_plain_len L i"
    "\<exists>w. checked_add (sl_plaintext_offset (segment_spec L i)) (length_usize_to_u64 (seg_plain_len L i)) = Some w \<and> unat w = segment_stop L i"
    "segment_stop L i \<le> unat (ml_plaintext_length L)" "segment_stop L i < 2 ^ 64" "seg_plain_len L i \<le> usize_max t"
proof -
  show stop: "segment_stop L i \<le> unat (ml_plaintext_length L)"
    using layout_no_overflow(1) [OF assms] by (simp add: segment_stop_def)
  then show lt: "segment_stop L i < 2 ^ 64" using unat_less_64 [of "ml_plaintext_length L"] unfolding u64_bound by linarith
  have "i * psl (ml_parameters L) < 2 ^ 64" "seg_plain_len L i < 2 ^ 64" using lt unfolding segment_stop_def by linarith+
  then show o: "unat (sl_plaintext_offset (segment_spec L i)) = i * psl (ml_parameters L)"
    and l: "unat (length_usize_to_u64 (seg_plain_len L i)) = seg_plain_len L i"
    by (simp_all add: segment_spec_def length_usize_to_u64_def unat_of_nat_u64 del: of_nat_mult)
  have "\<exists>w. checked_add (sl_plaintext_offset (segment_spec L i)) (length_usize_to_u64 (seg_plain_len L i)) = Some w"
    using o l lt by (simp add: checked_add_def segment_stop_def)
  then show "\<exists>w. checked_add (sl_plaintext_offset (segment_spec L i)) (length_usize_to_u64 (seg_plain_len L i)) = Some w \<and> unat w = segment_stop L i"
    using unat_checked_add o l by (fastforce simp: segment_stop_def)
  have "psl (ml_parameters L) \<le> usize_max t"
    using layout_okD(1) [OF assms(1)] usize_max_ge [of t] unfolding psl_def params_ok_def by linarith
  then show "seg_plain_len L i \<le> usize_max t" using seg_plain_len_le [OF assms] by linarith
qed

lemma Reader_segment_eq:
  assumes "layout_ok (rr_layout R)" "i < unat (ml_segment_count (rr_layout R))"
  shows "Reader_segment E R (word_of_nat i) = Ok (segment_spec (rr_layout R) i)"
proof -
  have u: "unat (word_of_nat i :: u64) = i" using assms(2) layout_okD(3) [OF assms(1)] by (intro unat_of_nat_u64) simp
  then show ?thesis using segment_for_position_spec [OF assms(1), of "word_of_nat i"] assms(2) by (simp add: Reader_segment_def)
qed

lemma slice_join: "a \<le> v \<Longrightarrow> v \<le> b \<Longrightarrow> slice a v q @ slice v b q = slice a b q"
  using take_add [of "v - a" "b - v" "drop a q"] by (simp add: slice_def)

lemma slice_slice: "j \<le> b - a \<Longrightarrow> slice i j (slice a b q) = slice (a + i) (a + j) q"
  by (simp add: slice_def drop_take add.commute min_def)

lemma fill_range:
  assumes "take (v - a) xs = slice a v q" "a \<le> v" "v \<le> b" "b \<le> length q" "b - a \<le> length xs"
  shows "take (b - a) (splice (v - a) (slice v b q) xs) = slice a b q" "length (splice (v - a) (slice v b q) xs) = length xs"
proof -
  have "splice (v - a) (slice v b q) xs = slice a b q @ drop (b - a) xs"
    using assms slice_join [OF assms(2,3), of q] by (simp add: splice_def flip: append_assoc)
  then show "take (b - a) (splice (v - a) (slice v b q) xs) = slice a b q" "length (splice (v - a) (slice v b q) xs) = length xs"
    using assms(4,5) by simp_all
qed

text \<open>
  One pass of the range loop on the segment \<open>i\<close>, which overlaps the range \<open>a..b\<close>: it handles the bytes
  from \<open>range_from\<close> to \<open>range_to\<close> of the plaintext, straight from the segment when all of it is wanted and
  through the cached segment otherwise.
\<close>

definition range_from :: "MessageLayout \<Rightarrow> nat \<Rightarrow> nat \<Rightarrow> nat" where
  "range_from L a i = max a (i * psl (ml_parameters L))"

definition range_to :: "MessageLayout \<Rightarrow> nat \<Rightarrow> nat \<Rightarrow> nat" where
  "range_to L b i = min b (segment_stop L i)"

definition covered :: "MessageLayout \<Rightarrow> nat \<Rightarrow> nat \<Rightarrow> nat \<Rightarrow> bool" where
  "covered L a b i \<longleftrightarrow> a \<le> i * psl (ml_parameters L) \<and> segment_stop L i \<le> b"

lemma range_part:
  assumes "layout_ok L" "i < unat (ml_segment_count L)" "a < segment_stop L i" "i * psl (ml_parameters L) < b" "a < b"
    and "b \<le> unat (ml_plaintext_length L)"
  shows "a \<le> range_from L a i" "range_from L a i \<le> range_to L b i" "range_to L b i \<le> b" "i * psl (ml_parameters L) \<le> range_from L a i"
    "range_to L b i - i * psl (ml_parameters L) \<le> seg_plain_len L i"
    "covered L a b i \<Longrightarrow> range_from L a i = i * psl (ml_parameters L) \<and> range_to L b i = segment_stop L i"
  using assms(3-6) segment_words(4) [OF assms(1,2)] by (auto simp: range_from_def range_to_def covered_def segment_stop_def)

lemma range_step_covered:
  assumes "layout_ok (rr_layout R)" "i < unat (ml_segment_count (rr_layout R))" "covered (rr_layout R) a b i"
    and "a < segment_stop (rr_layout R) i" "unat A = a" "unat B = b" "b - a \<le> length out"
  defines "L \<equiv> rr_layout R" and "v \<equiv> range_from (rr_layout R) a i" and "u \<equiv> range_to (rr_layout R) b i"
  shows "Reader_range_step E K (A, B) (word_of_nat i) R (v - a) out =
      bind_io (map_state (\<lambda>(part, R'). (splice (v - a) part out, R')) (Reader_decrypt_segment_direct E K R (segment_spec L i)
        (slice (v - a) (u - a) out))) (\<lambda>_ s. Some (Ok (u - a), s))"
    "length (slice (v - a) (u - a) out) = seg_plain_len L i"
proof -
  let ?k = "psl (ml_parameters L)" let ?sl = "segment_spec L i"
  note W = segment_words [OF assms(1,2), folded L_def]
  obtain w where w: "checked_add (sl_plaintext_offset ?sl) (length_usize_to_u64 (seg_plain_len L i)) = Some w" "unat w = segment_stop L i"
    using W(3) by blast
  have vu: "v = i * ?k" "u = segment_stop L i" "a \<le> v" "v \<le> u" "u \<le> b"
    using assms(3,4) by (auto simp: u_def v_def L_def range_from_def range_to_def covered_def segment_stop_def)
  have len: "v - a + seg_plain_len L i = u - a" "sl_plaintext_length ?sl = seg_plain_len L i"
    using vu by (auto simp: segment_stop_def segment_spec_def)
  have test: "A \<le> sl_plaintext_offset ?sl" "w \<le> B" using W(1) w(2) vu assms(5,6) by (simp_all add: word_le_nat_alt)
  have "u - a \<le> length out" using assms(7) vu by simp
  then show "length (slice (v - a) (u - a) out) = seg_plain_len L i" using len(1) by simp
  show "Reader_range_step E K (A, B) (word_of_nat i) R (v - a) out =
      bind_io (map_state (\<lambda>(part, R'). (splice (v - a) part out, R')) (Reader_decrypt_segment_direct E K R ?sl
        (slice (v - a) (u - a) out))) (\<lambda>_ s. Some (Ok (u - a), s))"
    using Reader_segment_eq [OF assms(1,2)] w(1) test len vu \<open>u - a \<le> length out\<close>
    by (simp add: Reader_range_step_def Let_def L_def)
qed

lemma range_step_partial:
  assumes "layout_ok (rr_layout R)" "i < unat (ml_segment_count (rr_layout R))" "\<not> covered (rr_layout R) a b i"
    and "a < segment_stop (rr_layout R) i" "i * psl (ml_parameters (rr_layout R)) < b" "a < b"
    and "b \<le> unat (ml_plaintext_length (rr_layout R))" "unat A = a" "unat B = b" "b - a \<le> length out"
  defines "L \<equiv> rr_layout R" and "v \<equiv> range_from (rr_layout R) a i" and "u \<equiv> range_to (rr_layout R) b i"
  shows "Reader_load_cached_segment E K R (segment_spec L i) = None \<Longrightarrow>
      Reader_range_step E K (A, B) (word_of_nat i) R (v - a) out = None"
    "Reader_load_cached_segment E K R (segment_spec L i) = Some (Err e, R') \<Longrightarrow>
      Reader_range_step E K (A, B) (word_of_nat i) R (v - a) out = Some (Err e, out, R')"
    "Reader_load_cached_segment E K R (segment_spec L i) = Some (Panic, R') \<Longrightarrow>
      Reader_range_step E K (A, B) (word_of_nat i) R (v - a) out = Some (Panic, out, R')"
    "Reader_load_cached_segment E K R (segment_spec L i) = Some (Ok (), R') \<Longrightarrow> SegmentBuffer_plaintext (rr_scratch R') = Ok p \<Longrightarrow>
      length p = seg_plain_len L i \<Longrightarrow> Reader_range_step E K (A, B) (word_of_nat i) R (v - a) out =
        Some (Ok (u - a), splice (v - a) (slice (v - i * psl (ml_parameters L)) (u - i * psl (ml_parameters L)) p) out, R')"
proof -
  let ?k = "psl (ml_parameters L)" let ?sl = "segment_spec L i" let ?off = "sl_plaintext_offset ?sl"
  note W = segment_words [OF assms(1,2), folded L_def]
  obtain w where w: "checked_add ?off (length_usize_to_u64 (seg_plain_len L i)) = Some w" "unat w = segment_stop L i"
    using W(3) by blast
  note vu = range_part [OF assms(1,2,4-7), folded v_def u_def, folded L_def]
  have test: "(if A \<le> ?off then map_ok (\<lambda>segment_end. segment_end \<le> B) (expect (checked_add ?off (length_usize_to_u64 (seg_plain_len L i))))
       else Ok False) = (Ok False :: bool io_result)"
    using w assms(3,8,9) W(1) by (auto simp: covered_def word_le_nat_alt L_def)
  have len: "sl_plaintext_length ?sl = seg_plain_len L i" by (simp add: segment_spec_def)
  note step = Reader_range_step_def Reader_segment_eq [OF assms(1,2), folded L_def] try_io.simps Let_def len fst_conv snd_conv test if_False
  show "Reader_load_cached_segment E K R ?sl = None \<Longrightarrow> Reader_range_step E K (A, B) (word_of_nat i) R (v - a) out = None"
    "Reader_load_cached_segment E K R ?sl = Some (Err e, R') \<Longrightarrow>
      Reader_range_step E K (A, B) (word_of_nat i) R (v - a) out = Some (Err e, out, R')"
    "Reader_load_cached_segment E K R ?sl = Some (Panic, R') \<Longrightarrow>
      Reader_range_step E K (A, B) (word_of_nat i) R (v - a) out = Some (Panic, out, R')"
    unfolding step by simp_all
  assume load: "Reader_load_cached_segment E K R ?sl = Some (Ok (), R')" "SegmentBuffer_plaintext (rr_scratch R') = Ok p"
    and lp: "length p = seg_plain_len L i"
  define ls where "ls = v - i * ?k"
  define le where "le = u - i * ?k"
  have small: "ls \<le> le" "le \<le> seg_plain_len L i" "le \<le> usize_max (pointer_width E)" "i * ?k \<le> u"
    using vu W(6) [of "pointer_width E"] by (auto simp: ls_def le_def)
  have a_le: "a - i * ?k \<le> seg_plain_len L i" using assms(4) by (simp add: segment_stop_def L_def)
  then have "a - i * ?k \<le> usize_max (pointer_width E)" using W(6) le_trans by blast
  moreover have "unat (if ?off \<le> A then A - ?off else 0) = a - i * ?k" using W(1) assms(8) by (simp add: unat_sub word_le_nat_alt)
  ultimately have start: "usize_try_from (pointer_width E) (if ?off \<le> A then A - ?off else 0) = Some (a - i * ?k)"
    by (simp add: usize_try_from_def)
  have lmin: "min (a - i * ?k) (length p) = ls" using a_le lp by (auto simp: ls_def v_def range_from_def L_def)
  have m: "unat (min B w) = u" using assms(9) w(2) by (simp add: min_def u_def range_to_def L_def word_le_nat_alt)
  have "le < 2 ^ 64" using W(5) small(2) unfolding segment_stop_def by linarith
  then have ul: "unat (word_of_nat le :: u64) = le" by (rule unat_of_nat_u64)
  have "unat (min B w - ?off) = le" using m small(4) W(1) by (simp add: unat_sub word_le_nat_alt le_def)
  then have "min B w - ?off = word_of_nat le" by (rule unat_eq_word_of_nat)
  then have to: "checked_sub (min B w) ?off = Some (word_of_nat le)" "usize_try_from (pointer_width E) (word_of_nat le) = Some le"
    using m small(3,4) W(1) ul by (simp_all add: checked_sub_def word_le_nat_alt usize_try_from_def)
  have rng: "index_range ls le p = (Ok (slice ls le p) :: bytes io_result)" using small(1,2) lp by simp
  have "v - a + length (slice ls le p) = u - a" using vu small lp by (auto simp: ls_def le_def)
  moreover have "index_range (v - a) (u - a) out = (Ok (slice (v - a) (u - a) out) :: bytes io_result)" using vu assms(10) by simp
  ultimately show "Reader_range_step E K (A, B) (word_of_nat i) R (v - a) out = Some (Ok (u - a), splice (v - a) (slice (v - i * ?k) (u - i * ?k) p) out, R')"
    unfolding step using load start lmin to w(1) lp rng by (simp flip: ls_def le_def)
qed

context seekable_source begin

text \<open>
  One segment of a range: when the plaintext up to the segment has been written, so is the part of
  the segment that belongs to the range.
\<close>

lemma range_step_cases:
  assumes "lawful E S" "reader_ok E S c at R" "i < unat (ml_segment_count (rr_layout R))"
    and q: "length q = unat (ml_plaintext_length (rr_layout R))" "\<And>p. reader_text S c R i = Some p \<Longrightarrow> p = chunk (rr_layout R) q i"
    and "a < segment_stop (rr_layout R) i" "i * psl (ml_parameters (rr_layout R)) < b" "b \<le> length q" "a < b"
    and "unat A = a" "unat B = b" "b - a \<le> length out"
  defines "v \<equiv> max a (i * psl (ml_parameters (rr_layout R)))" and "u \<equiv> min b (segment_stop (rr_layout R) i)"
  assumes "take (v - a) out = slice a v q"
  obtains (refused) e out' R' where "Reader_range_step E K (A, B) (word_of_nat i) R (v - a) out = Some (Err e, out', R')"
      "reader_text S c R i = None" "reader_ok E S c at R'" "same_message R R'"
    | (written) out' R' where "Reader_range_step E K (A, B) (word_of_nat i) R (v - a) out = Some (Ok (u - a), out', R')"
      "reader_text S c R i \<noteq> None" "reader_ok E S c at R'" "same_message R R'" "length out' = length out" "take (u - a) out' = slice a u q"
proof -
  let ?L = "rr_layout R" let ?k = "psl (ml_parameters ?L)"
  have L: "layout_ok ?L" by (rule reader_partsD(2) [OF reader_okD [OF assms(2)]])
  have b: "b \<le> unat (ml_plaintext_length ?L)" using assms(8) q(1) by simp
  have def: "v = range_from ?L a i" "u = range_to ?L b i" by (simp_all add: v_def u_def range_from_def range_to_def)
  note vu = range_part [OF L assms(3,6,7,9) b, folded def]
  have uq: "u \<le> length q" "u - a \<le> length out" using vu(3) assms(8,12) by simp_all
  note filled = fill_range [OF assms(15) vu(1,2) uq]
  show thesis
  proof (cases "covered ?L a b i")
    case True
    note RS = range_step_covered [OF L assms(3) True assms(6,10-12), folded def]
    show thesis
    proof (cases rule: direct_cases [OF assms(1-3) RS(2)])
      case (1 e out' R')
      then show thesis using refused RS(1) by simp
    next
      case (2 p R')
      have "p = slice v u q" using q(2) [OF 2(2)] vu(6) [OF True] by (simp add: chunk_slice)
      then show thesis using written [OF _ _ 2(3,4)] RS(1) 2(1,2) filled by simp
    qed
  next
    case False
    note RP = range_step_partial [OF L assms(3) False assms(6,7,9) b assms(10-12), folded def]
    show thesis
    proof (cases rule: load_cached_cases [OF assms(1-3)])
      case (1 e R')
      then show thesis using refused RP(2) by simp
    next
      case (2 p R')
      have p: "p = slice (i * ?k) (segment_stop ?L i) q" using q(2) [OF 2(2)] by (simp add: chunk_slice)
      have lp: "length p = seg_plain_len ?L i" by (rule reader_text_length [OF lawfulD(1) [OF assms(1)] assms(2,3) 2(2)])
      have "slice (v - i * ?k) (u - i * ?k) p = slice (i * ?k + (v - i * ?k)) (i * ?k + (u - i * ?k)) q"
        using vu(5) unfolding p by (intro slice_slice) (simp add: segment_stop_def)
      then have "slice (v - i * ?k) (u - i * ?k) p = slice v u q" using vu(2,4) by simp
      then show thesis using written [OF _ _ 2(3,4)] RP(4) [OF 2(1,5) lp] 2(2) filled by simp
    qed
  qed
qed

end

lemma position_for_offset:
  assumes "params_ok (ml_parameters L)"
  shows "unat (MessageLayout_position_for_plaintext_offset L w) = unat w div psl (ml_parameters L)"
  using assms by (simp add: MessageLayout_position_for_plaintext_offset_def unat_div)

text \<open>What a range loop over the segments \<open>i\<close> to \<open>l\<close> ends with: the range so far, or a segment that is not authentic.\<close>

definition range_outcome :: "'x env \<Rightarrow> prims \<Rightarrow> bytes \<Rightarrow> ('r \<Rightarrow> nat \<Rightarrow> bool) \<Rightarrow> ('x, 'r) Reader \<Rightarrow> bytes \<Rightarrow> nat \<Rightarrow> nat \<Rightarrow> nat \<Rightarrow> nat \<Rightarrow> nat \<Rightarrow>
    (nat, bytes \<times> ('x, 'r) Reader) io \<Rightarrow> bool" where
  "range_outcome E S c at R q a b i l len result = (let stop = min b (segment_stop (rr_layout R) l) in case result of
      Some (Ok n, out, R') \<Rightarrow> n = stop - a \<and> (\<forall>j. i \<le> j \<longrightarrow> j \<le> l \<longrightarrow> reader_text S c R j \<noteq> None) \<and>
        reader_ok E S c at R' \<and> same_message R R' \<and> length out = len \<and> take n out = slice a stop q
    | Some (Err e, out, R') \<Rightarrow> (\<exists>j. i \<le> j \<and> j \<le> l \<and> reader_text S c R j = None) \<and> reader_ok E S c at R' \<and> same_message R R'
    | _ \<Rightarrow> False)"

lemma range_outcome_cases [consumes 1, case_names read refused]:
  assumes "range_outcome E S c at R q a b i l len result"
  obtains n out R' where "result = Some (Ok n, out, R')" "n = min b (segment_stop (rr_layout R) l) - a"
      "\<forall>j. i \<le> j \<longrightarrow> j \<le> l \<longrightarrow> reader_text S c R j \<noteq> None" "reader_ok E S c at R'" "same_message R R'" "length out = len"
      "take n out = slice a (min b (segment_stop (rr_layout R) l)) q"
    | e out R' j where "result = Some (Err e, out, R')" "i \<le> j" "j \<le> l" "reader_text S c R j = None" "reader_ok E S c at R'" "same_message R R'"
proof -
  consider n out R' where "result = Some (Ok n, out, R')" | e out R' where "result = Some (Err e, out, R')"
    | s where "result = Some (Panic, s)" | "result = None"
    by (metis option.exhaust prod.exhaust rust.exhaust)
  then show thesis
  proof cases
    case 1
    then show thesis using assms by (intro that(1) [OF 1]) (auto simp: range_outcome_def Let_def)
  next
    case 2
    then obtain j where "i \<le> j" "j \<le> l" "reader_text S c R j = None" using assms by (auto simp: range_outcome_def)
    then show thesis using assms 2 by (intro that(2) [OF 2]) (simp_all add: range_outcome_def)
  qed (use assms in \<open>simp_all add: range_outcome_def Let_def split: prod.splits\<close>)
qed

lemma range_outcome_earlier:
  assumes "range_outcome E S c at R' q a b (Suc i) l len result" "same_message R R'" "reader_text S c R i \<noteq> None"
  shows "range_outcome E S c at R q a b i l len result"
  using assms(1)
proof (cases rule: range_outcome_cases)
  case (read n out R'')
  have "\<forall>j. i \<le> j \<longrightarrow> j \<le> l \<longrightarrow> reader_text S c R j \<noteq> None"
    using read(3) assms(3) reader_text_same [OF assms(2), of S c] by (metis Suc_leI le_neq_implies_less)
  moreover have "rr_layout R' = rr_layout R" using assms(2) by (simp add: same_message_def)
  ultimately show ?thesis using read same_message_trans [OF assms(2) read(5)] by (simp add: range_outcome_def Let_def)
next
  case (refused e out R'' j)
  then have "\<exists>j. i \<le> j \<and> j \<le> l \<and> reader_text S c R j = None" using reader_text_same [OF assms(2), of S c] by (metis Suc_leD)
  then show ?thesis using refused same_message_trans [OF assms(2) refused(6)] by (simp add: range_outcome_def Let_def)
qed

context seekable_source begin

lemma range_loop_cases:
  assumes "lawful E S" "layout_ok L" "length q = unat (ml_plaintext_length L)" "b \<le> length q" "a < b" "unat A = a" "unat B = b"
    and "l < unat (ml_segment_count L)" "l * psl (ml_parameters L) < b"
    and "reader_ok E S c at R" "rr_layout R = L" "i \<le> l" "a < segment_stop L i" "b - a \<le> length out"
    and "\<And>j p. i \<le> j \<Longrightarrow> j \<le> l \<Longrightarrow> reader_text S c R j = Some p \<Longrightarrow> p = chunk L q j"
    and "take (max a (i * psl (ml_parameters L)) - a) out = slice a (max a (i * psl (ml_parameters L))) q"
  shows "range_outcome E S c at R q a b i l (length out)
    (Reader_range_loop E K (A, B) (map word_of_nat [i..<Suc l]) R (max a (i * psl (ml_parameters L)) - a) out)"
  using assms(10-)
proof (induction "l - i" arbitrary: R i out)
  case 0
  have il: "i = l" "[i..<Suc l] = [i]" using 0(1,4) by simp_all
  have ic: "i < unat (ml_segment_count (rr_layout R))" using assms(8) il 0(3) by simp
  show ?case
    by (rule range_step_cases [where R = R and i = i and q = q and a = a and b = b and A = A and B = B and out = out, OF assms(1) 0(2) ic])
      (use assms(3-7,9) 0 il in \<open>auto simp: il(2) range_outcome_def\<close>)
next
  case (Suc m)
  let ?k = "psl (ml_parameters L)"
  have il: "[i..<Suc l] = i # [Suc i..<Suc l]" "Suc i \<le> l" "m = l - Suc i" using Suc(2,5) by (simp_all add: upt_conv_Cons)
  have ic: "i < unat (ml_segment_count (rr_layout R))" using assms(8) il(2) Suc(4) by simp
  have "Suc i * ?k \<le> l * ?k" using il(2) by (rule mult_le_mono1)
  then have kb: "Suc i * ?k < b" using assms(9) by linarith
  have stop: "segment_stop L i = Suc i * ?k" using il(2) assms(8) by (simp add: segment_stop_def seg_plain_len_def)
  have v: "max a (Suc i * ?k) = Suc i * ?k" "min b (segment_stop L i) = Suc i * ?k" using stop kb Suc(6) by simp_all
  have ib: "i * ?k < b" using kb by simp
  show ?case
  proof (rule range_step_cases [where R = R and i = i and q = q and a = a and b = b and A = A and B = B and out = out, OF assms(1) Suc(3) ic])
    fix e out' R'
    assume "Reader_range_step E K (A, B) (word_of_nat i) R (max a (i * psl (ml_parameters (rr_layout R))) - a) out = Some (Err e, out', R')"
      "reader_text S c R i = None" "reader_ok E S c at R'" "same_message R R'"
    then show ?thesis using Suc(4) il by (auto simp: il(1) range_outcome_def)
  next
    fix out' R'
    assume T: "Reader_range_step E K (A, B) (word_of_nat i) R (max a (i * psl (ml_parameters (rr_layout R))) - a) out =
        Some (Ok (min b (segment_stop (rr_layout R) i) - a), out', R')" "reader_text S c R i \<noteq> None" "reader_ok E S c at R'" "same_message R R'"
      "length out' = length out" "take (min b (segment_stop (rr_layout R) i) - a) out' = slice a (min b (segment_stop (rr_layout R) i)) q"
    note same = reader_text_same [OF T(4), of S c]
    have next_stop: "a < segment_stop L (Suc i)" using stop Suc(6) by (simp add: segment_stop_def)
    have L': "rr_layout R' = L" using T(4) Suc(4) by (simp add: same_message_def)
    have "range_outcome E S c at R' q a b (Suc i) l (length out')
        (Reader_range_loop E K (A, B) (map word_of_nat [Suc i..<Suc l]) R' (max a (Suc i * ?k) - a) out')"
      by (rule Suc(1) [OF il(3) T(3) L' il(2) next_stop]) (use Suc(7,8) T(5,6) v same Suc(4) in auto)
    moreover have "Reader_range_loop E K (A, B) (map word_of_nat [i..<Suc l]) R (max a (i * ?k) - a) out =
        Reader_range_loop E K (A, B) (map word_of_nat [Suc i..<Suc l]) R' (max a (Suc i * ?k) - a) out'"
      using T(1) Suc(4) v by (simp add: il(1) del: upt_Suc)
    ultimately show ?thesis using range_outcome_earlier T(2,4,5) by metis
  qed (use assms(3-7) Suc(4-9) ib in auto)
qed

end

text \<open>
  The plaintext a reader can deliver: the authentic segments of its message, with zeros for the ones
  that are not. A range touches the segments that overlap it.
\<close>

definition reader_plain :: "prims \<Rightarrow> bytes \<Rightarrow> ('x, 'r) Reader \<Rightarrow> bytes" where
  "reader_plain S c R = concat (map (\<lambda>i. case reader_text S c R i of Some p \<Rightarrow> p | None \<Rightarrow> replicate (seg_plain_len (rr_layout R) i) 0)
    [0..<unat (ml_segment_count (rr_layout R))])"

definition touches :: "MessageLayout \<Rightarrow> nat \<Rightarrow> nat \<Rightarrow> nat \<Rightarrow> bool" where
  "touches L a b i \<longleftrightarrow> a < b \<and> i < unat (ml_segment_count L) \<and> i * psl (ml_parameters L) < b \<and> a < segment_stop L i"

definition range_authentic :: "prims \<Rightarrow> bytes \<Rightarrow> ('x, 'r) Reader \<Rightarrow> nat \<Rightarrow> nat \<Rightarrow> bool" where
  "range_authentic S c R a b \<longleftrightarrow> (\<forall>i. touches (rr_layout R) a b i \<longrightarrow> reader_text S c R i \<noteq> None)"

lemma reader_plain_chunks:
  assumes "prims_ok S" "reader_ok E S c at R"
  shows "length (reader_plain S c R) = unat (ml_plaintext_length (rr_layout R))"
    "i < unat (ml_segment_count (rr_layout R)) \<Longrightarrow> reader_text S c R i = Some p \<Longrightarrow> p = chunk (rr_layout R) (reader_plain S c R) i"
proof -
  let ?f = "\<lambda>i. case reader_text S c R i of Some p \<Rightarrow> p | None \<Rightarrow> replicate (seg_plain_len (rr_layout R) i) 0"
  have lens: "length (?f i) = seg_plain_len (rr_layout R) i" if "i < unat (ml_segment_count (rr_layout R))" for i
    using reader_text_length [OF assms that] by (auto split: option.split)
  note C = pieces_concat [where f = ?f, OF reader_partsD(2) [OF reader_okD [OF assms(2)]]]
  show "length (reader_plain S c R) = unat (ml_plaintext_length (rr_layout R))" unfolding reader_plain_def by (rule C(1)) (rule lens)
  assume i: "i < unat (ml_segment_count (rr_layout R))" and t: "reader_text S c R i = Some p"
  have "chunk (rr_layout R) (reader_plain S c R) i = ?f i" unfolding reader_plain_def by (rule C(2) [OF _ i]) (rule lens)
  then show "p = chunk (rr_layout R) (reader_plain S c R) i" using t by simp
qed

lemma touched_positions:
  assumes "layout_ok L" "a < b" "b \<le> unat (ml_plaintext_length L)"
  defines "k \<equiv> psl (ml_parameters L)"
  shows "touches L a b i \<longleftrightarrow> a div k \<le> i \<and> i \<le> (b - 1) div k" "a div k \<le> (b - 1) div k"
    "(b - 1) div k < unat (ml_segment_count L)" "b \<le> segment_stop L ((b - 1) div k)"
proof -
  note D = layout_okD [OF assms(1)]
  have k: "0 < k" using D(1) by (simp add: k_def psl_def params_ok_def)
  have lo: "a div k \<le> i \<longleftrightarrow> a < Suc i * k" for i
    using div_less_iff_less_mult [OF k, of a "Suc i"] by (simp only: less_Suc_eq_le)
  have hi: "i \<le> (b - 1) div k \<longleftrightarrow> i * k < b" for i
    using less_eq_div_iff_mult_less_eq [OF k, of i "b - 1"] assms(2) by linarith
  have stop: "segment_stop L i = (if Suc i = unat (ml_segment_count L) then unat (ml_plaintext_length L) else Suc i * k)"
    if "i < unat (ml_segment_count L)" for i
  proof (cases "Suc i = unat (ml_segment_count L)")
    case True
    then have "i = unat (ml_segment_count L) - 1" by simp
    then show ?thesis using D(5) True by (simp add: segment_stop_def seg_plain_len_def)
  qed (use that in \<open>simp add: segment_stop_def seg_plain_len_def k_def\<close>)
  show mono: "a div k \<le> (b - 1) div k" using assms(2) by (intro div_le_mono) simp
  have "b - 1 < unat (ml_segment_count L) * k" using D(6) assms(2,3) unfolding k_def by linarith
  then show lt: "(b - 1) div k < unat (ml_segment_count L)" using div_less_iff_less_mult [OF k] by blast
  have "b - 1 < Suc ((b - 1) div k) * k" using div_less_iff_less_mult [OF k, of "b - 1" "Suc ((b - 1) div k)"] by blast
  then show "b \<le> segment_stop L ((b - 1) div k)" using stop [OF lt] assms(3) by auto
  have "a < segment_stop L i \<longleftrightarrow> a < Suc i * k" if "i < unat (ml_segment_count L)" "i * k < b" for i
  proof (cases "Suc i = unat (ml_segment_count L)")
    case True
    then have "unat (ml_plaintext_length L) \<le> Suc i * k" using D(6) unfolding k_def by simp
    then show ?thesis using stop [OF that(1)] True assms(2,3) by simp
  qed (use stop [OF that(1)] in simp)
  moreover have "i < unat (ml_segment_count L)" if "i \<le> (b - 1) div k" for i using that lt by simp
  ultimately show "touches L a b i \<longleftrightarrow> a div k \<le> i \<and> i \<le> (b - 1) div k"
    using assms(2) lo hi unfolding touches_def k_def [symmetric] by blast
qed

context seekable_source begin

lemma resolved_range_cases:
  assumes "lawful E S" "reader_ok E S c at R" "unat A = a" "unat B = b" "b \<le> unat (ml_plaintext_length (rr_layout R))" "b - a \<le> length out"
  obtains (read) out' R' where "Reader_read_resolved_range_into E K R (A, B) out = Some (Ok (b - a), out', R')"
      "range_authentic S c R a b" "reader_ok E S c at R'" "same_message R R'" "length out' = length out"
      "take (b - a) out' = slice a b (reader_plain S c R)"
    | (refused) e out' R' where "Reader_read_resolved_range_into E K R (A, B) out = Some (Err e, out', R')"
      "\<not> range_authentic S c R a b" "reader_ok E S c at R'" "same_message R R'"
proof (cases "A < B")
  case False
  then have "\<not> a < b" using assms(3,4) by (simp add: word_less_nat_alt)
  then show thesis using False assms(2)
    by (intro read [of out R]) (simp_all add: Reader_read_resolved_range_into_def range_authentic_def touches_def same_message_def slice_def)
next
  case True
  let ?L = "rr_layout R" let ?k = "psl (ml_parameters ?L)" let ?q = "reader_plain S c R"
  let ?f = "MessageLayout_position_for_plaintext_offset ?L A" let ?l = "MessageLayout_position_for_plaintext_offset ?L (B - 1)"
  have ab: "a < b" using True assms(3,4) by (simp add: word_less_nat_alt)
  have L: "layout_ok ?L" by (rule reader_partsD(2) [OF reader_okD [OF assms(2)]])
  note q = reader_plain_chunks [OF lawfulD(1) [OF assms(1)] assms(2)]
  have "unat (B - 1) = b - 1" using ab assms(4) by (subst unat_sub) (auto simp: word_le_nat_alt)
  then have pos: "unat ?f = a div ?k" "unat ?l = (b - 1) div ?k"
    using position_for_offset [OF layout_okD(1) [OF L]] assms(3) by simp_all
  note T = touched_positions [OF L ab assms(5)]
  let ?i = "a div ?k" and ?j = "(b - 1) div ?k"
  have start: "max a (?i * ?k) = a" by (rule max_absorb1 [OF div_times_less_eq_dividend])
  have touch: "touches ?L a b ?i" "touches ?L a b ?j" using T(1,2) by simp_all
  have stop: "min b (segment_stop ?L ?j) = b" using T(4) by simp
  have span: "range_authentic S c R a b \<longleftrightarrow> (\<forall>m. ?i \<le> m \<longrightarrow> m \<le> ?j \<longrightarrow> reader_text S c R m \<noteq> None)"
    using T(1) by (auto simp: range_authentic_def)
  have hyp: "p = chunk ?L ?q m" if "?i \<le> m" "m \<le> ?j" "reader_text S c R m = Some p" for m p
    using q(2) that T(3) by simp
  have words: "length_usize_to_u64 (b - a) = B - A"
    using ab by (simp add: length_usize_to_u64_def of_nat_diff unat_eq_word_of_nat [OF assms(3)] unat_eq_word_of_nat [OF assms(4)])
  let ?loop = "Reader_range_loop E K (A, B) (positions_between ?f ?l) R 0 out"
  have run: "Reader_read_resolved_range_into E K R (A, B) out = bind_io ?loop (\<lambda>written s.
      if length_usize_to_u64 written = B - A then Some (Ok written, s) else Some (Panic, s))"
    using True by (simp add: Reader_read_resolved_range_into_def)
  have "max a (?i * ?k) - a = 0" using start by simp
  then have loop: "?loop = Reader_range_loop E K (A, B) (map word_of_nat [?i..<Suc ?j]) R (max a (?i * ?k) - a) out"
    unfolding positions_between_def pos by (simp only:)
  have "range_outcome E S c at R ?q a b ?i ?j (length out) ?loop"
    unfolding loop
    by (rule range_loop_cases [OF assms(1) L q(1) _ ab assms(3,4) T(3) _ assms(2) refl T(2) _ assms(6) hyp])
      (use assms(5) q(1) touch start in \<open>simp_all add: touches_def slice_def\<close>)
  then consider n out' R' where "?loop = Some (Ok n, out', R')" "n = b - a" "range_authentic S c R a b" "reader_ok E S c at R'" "same_message R R'"
      "length out' = length out" "take n out' = slice a b ?q"
    | e out' R' where "?loop = Some (Err e, out', R')" "\<not> range_authentic S c R a b" "reader_ok E S c at R'" "same_message R R'"
    by (cases rule: range_outcome_cases) (use stop span in auto)
  then show thesis by cases (use read refused run words in auto)
qed

end

lemma resolve_bounds_valid:
  "resolve_bounds bounds n \<noteq> Panic"
  "resolve_bounds bounds n = Ok (A, B) \<Longrightarrow> unat A \<le> unat B \<and> unat B \<le> unat n"
  by (auto simp: resolve_bounds_def validate_range_def bind_eq_Panic word_less_nat_alt not_less
      split: Bound.splits if_splits option.splits)

context seekable_source begin

lemma read_range_spec:
  assumes "lawful E S" "reader_ok E S c at R"
  shows "\<exists>r R'. Reader_read_range E K R bounds = Some (r, R') \<and> reader_ok E S c at R' \<and> same_message R R' \<and>
    (case resolve_bounds bounds (ml_plaintext_length (rr_layout R)) of
       Err e \<Rightarrow> r = Err e
     | Ok (start, stop) \<Rightarrow>
         if usize_max (pointer_width E) < unat stop - unat start then r = Err length_overflow
         else if range_authentic S c R (unat start) (unat stop) then r = Ok (slice (unat start) (unat stop) (reader_plain S c R))
         else \<exists>e. r = Err e
     | Panic \<Rightarrow> False)"
proof (cases "resolve_bounds bounds (ml_plaintext_length (rr_layout R))")
  case Panic
  then show ?thesis using resolve_bounds_valid(1) by blast
next
  case (Err e)
  then show ?thesis using assms(2) by (simp add: Reader_read_range_def Reader_plaintext_length_def same_message_def)
next
  case (Ok bs)
  obtain A B where bs: "bs = (A, B)" by (cases bs)
  let ?n = "unat B - unat A"
  note le = resolve_bounds_valid(2) [OF Ok [unfolded bs]]
  have d: "unat (B - A) = ?n" using le by (simp add: unat_sub word_le_nat_alt)
  show ?thesis
  proof (cases "usize_max (pointer_width E) < ?n")
    case True
    then show ?thesis using Ok bs assms(2) d
      by (simp add: Reader_read_range_def Reader_plaintext_length_def same_message_def usize_try_from_def)
  next
    case False
    have run: "Reader_read_range E K R bounds =
        (case Reader_read_resolved_range_into E K R (A, B) (replicate ?n 0) of
           None \<Rightarrow> None | Some (r, out, R') \<Rightarrow> Some (map_ok (\<lambda>_. out) r, R'))"
      using False Ok bs d by (simp add: Reader_read_range_def Reader_plaintext_length_def usize_try_from_def)
    show ?thesis
      by (rule resolved_range_cases [OF assms refl refl, of B A "replicate ?n 0"])
        (use le False Ok bs run in auto)
  qed
qed

text \<open>Reading a range into a buffer of the caller gives the same bytes, and refuses a buffer that is too small.\<close>

lemma read_range_into_spec:
  assumes "lawful E S" "reader_ok E S c at R" "resolve_bounds bounds (ml_plaintext_length (rr_layout R)) = Ok (A, B)"
    and "unat B - unat A \<le> usize_max (pointer_width E)"
  shows "\<exists>r out' R'. Reader_read_range_into E K R bounds out = Some (r, out', R') \<and> reader_ok E S c at R' \<and> same_message R R' \<and>
    (if length out < unat B - unat A then r = Err (output_too_small (length out) (unat B - unat A)) \<and> out' = out \<and> R' = R
     else if range_authentic S c R (unat A) (unat B)
     then r = Ok (unat B - unat A) \<and> take (unat B - unat A) out' = slice (unat A) (unat B) (reader_plain S c R)
     else \<exists>e. r = Err e)"
proof -
  let ?n = "unat B - unat A"
  note le = resolve_bounds_valid(2) [OF assms(3)]
  have d: "unat (B - A) = ?n" using le by (simp add: unat_sub word_le_nat_alt)
  have run: "Reader_read_range_into E K R bounds out =
      (if length out < ?n then Some (Err (output_too_small (length out) ?n), (out, R))
       else Reader_read_resolved_range_into E K R (A, B) out)"
    using assms(3,4) d by (simp add: Reader_read_range_into_def Reader_plaintext_length_def usize_try_from_def)
  show ?thesis
  proof (cases "length out < ?n")
    case True
    then show ?thesis using run assms(2) by (simp add: same_message_def)
  next
    case False
    show ?thesis
      by (rule resolved_range_cases [OF assms(1,2) refl refl, of B A out]) (use le False run in auto)
  qed
qed

end

text \<open>A reader over a message whose segments are all authentic, with the plaintext \<open>p\<close>.\<close>

definition reader_over :: "'x env \<Rightarrow> prims \<Rightarrow> bytes \<Rightarrow> ('r \<Rightarrow> nat \<Rightarrow> bool) \<Rightarrow> bytes \<Rightarrow> ('x, 'r) Reader \<Rightarrow> bool" where
  "reader_over E S c at p R \<longleftrightarrow> reader_ok E S c at R \<and> p = reader_plain S c R \<and>
    (\<forall>i < unat (ml_segment_count (rr_layout R)). reader_text S c R i \<noteq> None)"

definition Reader_seekable :: "'x env \<Rightarrow> 'r seekable \<Rightarrow> ('x, 'r) Reader seekable" where
  "Reader_seekable E K = \<lparr> sr_read = Reader_read E K, sr_seek = Reader_seek, sr_position = Reader_stream_position \<rparr>"

lemma reader_plain_eq:
  "reader_text S c R' = reader_text S c R \<Longrightarrow> rr_layout R' = rr_layout R \<Longrightarrow> reader_plain S c R' = reader_plain S c R"
  by (simp add: reader_plain_def cong: option.case_cong)

lemma reader_over_same: "reader_over E S c at p R \<Longrightarrow> same_message R R' \<Longrightarrow> reader_ok E S c at R' \<Longrightarrow> reader_over E S c at p R'"
  using reader_plain_eq [OF reader_text_same, of R R' S c] by (simp add: reader_over_def reader_text_same) (simp add: same_message_def)

lemma reader_over_position:
  assumes "reader_over E S c at p R"
  shows "reader_over E S c at p (R\<lparr> rr_plaintext_position := w \<rparr>)"
proof -
  have "reader_text S c (R\<lparr> rr_plaintext_position := w \<rparr>) = reader_text S c R" by (simp add: reader_text_def fun_eq_iff)
  then show ?thesis using assms reader_plain_eq [of S c "R\<lparr> rr_plaintext_position := w \<rparr>" R]
    by (simp add: reader_over_def reader_ok_def reader_parts_ok_def)
qed

text \<open>One sequential read before the end of the plaintext: the segment it loads, and what it copies of it.\<close>

lemma read_segment_at:
  assumes "layout_ok (rr_layout R)" "unat (rr_plaintext_position R) = n" "n < unat (ml_plaintext_length (rr_layout R))"
  defines "L \<equiv> rr_layout R"
  defines "i \<equiv> n div psl (ml_parameters L)" and "loc \<equiv> n - n div psl (ml_parameters L) * psl (ml_parameters L)"
  shows "i < unat (ml_segment_count L)"
    "out \<noteq> [] \<Longrightarrow> Reader_load_cached_segment E K R (segment_spec L i) = None \<Longrightarrow> Reader_read E K R out = None"
    "out \<noteq> [] \<Longrightarrow> Reader_load_cached_segment E K R (segment_spec L i) = Some (Err e, R1) \<Longrightarrow> Reader_read E K R out = Some (Err e, out, R1)"
    "out \<noteq> [] \<Longrightarrow> Reader_load_cached_segment E K R (segment_spec L i) = Some (Panic, R1) \<Longrightarrow> Reader_read E K R out = Some (Panic, out, R1)"
    "out \<noteq> [] \<Longrightarrow> Reader_load_cached_segment E K R (segment_spec L i) = Some (Ok (), R1) \<Longrightarrow> SegmentBuffer_plaintext (rr_scratch R1) = Ok t \<Longrightarrow>
      length t = seg_plain_len L i \<Longrightarrow> rr_plaintext_position R1 = rr_plaintext_position R \<Longrightarrow>
      (\<And>m w. 0 < m \<Longrightarrow> m \<le> length out \<Longrightarrow> loc + m \<le> length t \<Longrightarrow> unat w = n + m \<Longrightarrow>
        Reader_read E K R out = Some (Ok m, splice 0 (slice loc (loc + m) t) out, R1\<lparr> rr_plaintext_position := w \<rparr>) \<Longrightarrow> thesis) \<Longrightarrow> thesis"
proof -
  let ?k = "psl (ml_parameters L)" let ?sl = "segment_spec L i"
  have le: "Suc n \<le> unat (ml_plaintext_length L)" using assms(3) by (simp add: L_def)
  note T = touched_positions [OF assms(1) lessI le [unfolded L_def], folded L_def]
  show i: "i < unat (ml_segment_count L)" using T(3) by (simp add: i_def)
  have stop: "n < segment_stop L i" using T(4) by (simp add: i_def)
  note W = segment_words [OF assms(1) i [unfolded L_def], folded L_def]
  have lo: "i * ?k \<le> n" unfolding i_def by (rule div_times_less_eq_dividend)
  have pos: "MessageLayout_position_for_plaintext_offset L (rr_plaintext_position R) = word_of_nat i"
    using position_for_offset [OF layout_okD(1) [OF assms(1)], of "rr_plaintext_position R"] assms(2) by (intro unat_eq_word_of_nat) (simp add: i_def L_def)
  have here: "\<not> Reader_plaintext_length R \<le> rr_plaintext_position R" "Reader_segment E R (word_of_nat i) = Ok ?sl"
    using assms(2,3) Reader_segment_eq [OF assms(1) i [unfolded L_def]] by (simp_all add: Reader_plaintext_length_def word_le_nat_alt L_def)
  note run = Reader_read_def Let_def pos [unfolded L_def] here(2) [unfolded L_def]
  show "out \<noteq> [] \<Longrightarrow> Reader_load_cached_segment E K R ?sl = None \<Longrightarrow> Reader_read E K R out = None"
    "out \<noteq> [] \<Longrightarrow> Reader_load_cached_segment E K R ?sl = Some (Err e, R1) \<Longrightarrow> Reader_read E K R out = Some (Err e, out, R1)"
    "out \<noteq> [] \<Longrightarrow> Reader_load_cached_segment E K R ?sl = Some (Panic, R1) \<Longrightarrow> Reader_read E K R out = Some (Panic, out, R1)"
    using here(1) by (simp_all add: run L_def)
  assume "out \<noteq> []" and load: "Reader_load_cached_segment E K R ?sl = Some (Ok (), R1)" "SegmentBuffer_plaintext (rr_scratch R1) = Ok t"
    and lt: "length t = seg_plain_len L i" and R1: "rr_plaintext_position R1 = rr_plaintext_position R"
    and thesis: "\<And>m w. 0 < m \<Longrightarrow> m \<le> length out \<Longrightarrow> loc + m \<le> length t \<Longrightarrow> unat w = n + m \<Longrightarrow>
      Reader_read E K R out = Some (Ok m, splice 0 (slice loc (loc + m) t) out, R1\<lparr> rr_plaintext_position := w \<rparr>) \<Longrightarrow> thesis"
  have loc: "i * ?k + loc = n" "loc < length t" using lo stop lt unfolding loc_def i_def segment_stop_def by linarith+
  define m where "m = min (length out) (length t - loc)"
  have m: "0 < m" "m \<le> length out" "loc + m \<le> length t" using \<open>out \<noteq> []\<close> loc(2) by (auto simp: m_def)
  have "n + m \<le> segment_stop L i" using m(3) loc(1) lt by (simp add: segment_stop_def)
  then have small: "n + m < 2 ^ 64" using W(5) by linarith
  have off: "unat (rr_plaintext_position R - sl_plaintext_offset ?sl) = loc" "sl_plaintext_offset ?sl \<le> rr_plaintext_position R"
    using W(1) assms(2) lo by (simp_all add: unat_sub word_le_nat_alt loc_def i_def)
  have "loc \<le> usize_max (pointer_width E)" using W(6) [of "pointer_width E"] loc(2) lt by simp
  then have local: "usize_try_from (pointer_width E) (rr_plaintext_position R - sl_plaintext_offset ?sl) = Some loc"
    using off(1) by (simp add: usize_try_from_def)
  have um: "unat (length_usize_to_u64 m) = m" using small by (simp add: length_usize_to_u64_def unat_of_nat_u64)
  have w: "checked_add (rr_plaintext_position R) (length_usize_to_u64 m) = Some (rr_plaintext_position R + length_usize_to_u64 m)"
    using um assms(2) small by (simp add: checked_add_def)
  have idx: "index_range loc (loc + m) t = (Ok (slice loc (loc + m) t) :: bytes io_result)" using m(3) by simp
  have "Reader_read E K R out = Some (Ok m, splice 0 (slice loc (loc + m) t) out, R1\<lparr> rr_plaintext_position := rr_plaintext_position R + length_usize_to_u64 m \<rparr>)"
    using \<open>out \<noteq> []\<close> here(1) load local off(2) loc(2) idx w R1
    by (simp add: run checked_sub_def L_def flip: m_def)
  from thesis [OF m _ this] show thesis using unat_checked_add [OF w] um assms(2) by simp
qed

context seekable_source begin

lemma reader_read_end:
  assumes "lawful E S" "reader_over E S c at p R" "unat (rr_plaintext_position R) = n" "length p \<le> n"
  shows "Reader_read E K R out = Some (Ok 0, out, R)"
proof -
  have "length p = unat (ml_plaintext_length (rr_layout R))"
    using reader_plain_chunks(1) [OF lawfulD(1) [OF assms(1)], of E c at R] assms(2) by (simp add: reader_over_def)
  then show ?thesis using assms(3,4) by (simp add: Reader_read_def Reader_plaintext_length_def word_le_nat_alt)
qed

lemma reader_read_spec:
  assumes "lawful E S" "reader_over E S c at p R" "unat (rr_plaintext_position R) = n" "out \<noteq> []" "n < length p"
  shows "\<exists>m out' R'. Reader_read E K R out = Some (Ok m, out', R') \<and> 0 < m \<and> m \<le> length out \<and> length out' = length out \<and>
    n + m \<le> length p \<and> take m out' = slice n (n + m) p \<and> reader_over E S c at p R' \<and> unat (rr_plaintext_position R') = n + m"
proof -
  let ?L = "rr_layout R" let ?k = "psl (ml_parameters ?L)" let ?i = "n div ?k"
  have ok: "reader_ok E S c at R" and p: "p = reader_plain S c R" using assms(2) by (auto simp: reader_over_def)
  have L: "layout_ok ?L" by (rule reader_partsD(2) [OF reader_okD [OF ok]])
  note q = reader_plain_chunks [OF lawfulD(1) [OF assms(1)] ok, folded p]
  have le: "n < unat (ml_plaintext_length ?L)" using assms(5) q(1) by simp
  note seg = read_segment_at(1,5) [OF L assms(3) le]
  show ?thesis
  proof (cases rule: load_cached_cases [OF assms(1) ok seg(1)])
    case (1 e R')
    then show ?thesis using assms(2) seg(1) by (auto simp: reader_over_def)
  next
    case (2 t R1)
    have t: "t = slice (?i * ?k) (segment_stop ?L ?i) p" using q(2) [OF seg(1) 2(2)] by (simp add: chunk_slice)
    have lt: "length t = seg_plain_len ?L ?i" using t segment_words(4) [OF L seg(1)] q(1) by (simp add: segment_stop_def)
    have R1: "rr_plaintext_position R1 = rr_plaintext_position R" using 2(4) by (simp add: same_message_def)
    obtain m w where m: "0 < m" "m \<le> length out" "n - ?i * ?k + m \<le> length t" "unat w = n + m"
        "Reader_read E K R out = Some (Ok m, splice 0 (slice (n - ?i * ?k) (n - ?i * ?k + m) t) out, R1\<lparr> rr_plaintext_position := w \<rparr>)"
      by (rule seg(2) [OF assms(4) 2(1,5) lt R1])
    have lo: "?i * ?k \<le> n" by (rule div_times_less_eq_dividend)
    have nm: "n + m \<le> length p" using m(3) lo lt segment_words(4) [OF L seg(1)] q(1) by (simp add: segment_stop_def)
    have "slice (n - ?i * ?k) (n - ?i * ?k + m) t = slice (?i * ?k + (n - ?i * ?k)) (?i * ?k + (n - ?i * ?k + m)) p"
      unfolding t by (rule slice_slice) (use m(3) lt in \<open>simp add: segment_stop_def\<close>)
    then have piece: "slice (n - ?i * ?k) (n - ?i * ?k + m) t = slice n (n + m) p" using lo by (simp add: add.assoc [symmetric])
    let ?out = "splice 0 (slice n (n + m) p) out" and ?R = "R1\<lparr> rr_plaintext_position := w \<rparr>"
    have "take m ?out = slice n (n + m) p" "length ?out = length out" using nm m(2) by (simp_all add: splice_0_take)
    moreover have "reader_over E S c at p ?R" by (rule reader_over_position [OF reader_over_same [OF assms(2) 2(4,3)]])
    ultimately show ?thesis using m nm piece by (intro exI [of _ m] exI [of _ ?out] exI [of _ ?R]) simp
  qed
qed

text \<open>A reader over an authentic message is itself a seekable source, of the plaintext.\<close>

lemma reader_is_seekable:
  assumes "lawful E S" "length p < 2 ^ 64"
  shows "seekable_source (Reader_seekable E K) p (\<lambda>R n. reader_over E S c at p R \<and> unat (rr_plaintext_position R) = n) (\<lambda>_. 0)"
proof (unfold_locales, goal_cases)
  case (1 R bs out)
  then obtain n where n: "n \<le> length p" "reader_over E S c at p R" "unat (rr_plaintext_position R) = n" "bs = drop n p" by blast
  show ?case
  proof (cases "n < length p")
    case True
    obtain m out' R' where m: "Reader_read E K R out = Some (Ok m, out', R')" "0 < m" "m \<le> length out" "length out' = length out"
        "n + m \<le> length p" "take m out' = slice n (n + m) p" "reader_over E S c at p R'" "unat (rr_plaintext_position R') = n + m"
      using reader_read_spec [OF assms(1) n(2,3) 1(2) True] by blast
    have "\<exists>k \<le> length p. (reader_over E S c at p R' \<and> unat (rr_plaintext_position R') = k) \<and> drop m bs = drop k p"
      using m(5,7,8) n(4) by (intro exI [of _ "n + m"]) (simp add: add.commute)
    moreover have "take m out' = take m bs" using m(6) n(4) by (simp add: slice_def)
    ultimately show ?thesis using m(1-5) n(4) by (intro disjI1 exI [of _ m] exI [of _ out'] exI [of _ R']) (simp add: Reader_seekable_def)
  next
    case False
    then have "Reader_read E K R out = Some (Ok 0, out, R)"
      using reader_read_end [OF assms(1) n(2,3)] by simp
    then show ?thesis using n False by (intro disjI1 exI [of _ 0] exI [of _ out] exI [of _ R]) (auto simp: Reader_seekable_def)
  qed
next
  case (3 R n w)
  then show ?case using reader_over_position by (auto simp: Reader_seekable_def Reader_seek_def)
next
  case (4 R n)
  then have "unat (ml_plaintext_length (rr_layout R)) = length p"
    using reader_plain_chunks(1) [OF lawfulD(1) [OF assms(1)], of E c at R] by (auto simp: reader_over_def)
  then have "ml_plaintext_length (rr_layout R) = word_of_nat (length p)" by (intro unat_eq_word_of_nat)
  then show ?case using 4 assms(2) reader_over_position
    by (auto simp: Reader_seekable_def Reader_seek_def Reader_plaintext_length_def unat_of_nat_u64)
next
  case (5 R n out)
  then show ?case using reader_read_end [OF assms(1), of p R n out] by (auto simp: Reader_seekable_def)
next
  case (6 R n)
  then show ?case by (auto simp: Reader_seekable_def Reader_stream_position_def)
qed (rule assms(2))

end

end
