(* ===== verification/Floe_Random_Reader.thy ===== *)
theory Floe_Random_Reader
  imports Floe_Random_Ranges Floe_Decrypt_Finish
begin

text \<open>
  Opening a random-access reader: the segments of the layout of a message against the specified body,
  the constructors, and the properties of the component, over any contents that can be sought.
\<close>

section \<open>Messages and their segments\<close>

lemma chunks_ok_lengths:
  assumes "chunks_ok P ps"
  shows "ps \<noteq> []" "(length ps - 1) * psl P \<le> length (concat ps)" "length (concat ps) \<le> length ps * psl P"
  using assms by (induction P ps rule: chunks_ok.induct) auto

lemma chunks_ok_nth: "chunks_ok P ps \<Longrightarrow> Suc i < length ps \<Longrightarrow> length (ps ! i) = psl P"
  by (induction P ps arbitrary: i rule: chunks_ok.induct) (auto simp: nth_Cons split: nat.splits)

lemma pieces_len:
  assumes "chunks_ok P ps" "i < length ps"
  shows "length (concat (take i ps)) = i * psl P"
  using assms(2)
proof (induction i)
  case (Suc i)
  then show ?case using chunks_ok_nth [OF assms(1), of i] by (simp add: take_Suc_conv_app_nth)
qed simp

lemma floe_body_drop:
  assumes "prims_ok S" "params_ok P" "chunks_ok P (map snd nps)" "\<forall>(nonce, _) \<in> set nps. length nonce = 12" "i < length nps"
  shows "drop (i * csl P) (floe_body S C j nps) = floe_body S C (j + i) (drop i nps)"
  using assms(3-)
proof (induction i arbitrary: j nps)
  case (Suc i)
  then obtain nonce p q rest where nps: "nps = (nonce, p) # q # rest" by (cases nps; cases "tl nps") auto
  have "length (floe_segment S C (word_of_nat j) NonFinal nonce p) = csl P"
    using Suc(2,3) nps floe_segment_length [OF assms(1), of nonce C "word_of_nat j" NonFinal p] csl_psl [OF assms(2)] by simp
  then have "drop (Suc i * csl P) (floe_body S C j nps) = drop (i * csl P) (floe_body S C (Suc j) (q # rest))"
    by (cases q) (simp add: nps)
  also have "\<dots> = floe_body S C (Suc j + i) (drop i (q # rest))"
    by (rule Suc(1)) (use Suc(2-4) nps in auto)
  finally show ?case by (simp add: nps)
qed simp

lemma floe_body_first:
  assumes "prims_ok S" "length (fst np) = 12"
  shows "take (length (snd np) + 32) (floe_body S C i (np # nps)) =
    floe_segment S C (word_of_nat i) (if nps = [] then Final else NonFinal) (fst np) (snd np)"
  using floe_segment_length [OF assms, of C "word_of_nat i" _ "snd np"] by (cases np; cases nps) (auto simp: add.commute)

text \<open>
  A body of the length of a layout is a specified body of \<open>p\<close> exactly when every segment of the layout is
  authentic and carries its chunk of \<open>p\<close>.
\<close>

lemma body_segments_authentic:
  assumes "prims_ok S" "layout_ok L" "P = ml_parameters L" "chunks_ok P (map snd nps)" "\<forall>(nonce, _) \<in> set nps. length nonce = 12"
    and "body = floe_body S C 0 nps" "length body + 74 = unat (ml_ciphertext_length L)" "p = concat (map snd nps)"
  shows "length p = unat (ml_plaintext_length L)"
    "i < unat (ml_segment_count L) \<Longrightarrow> segment_text S C (word_of_nat i) (sl_kind (segment_spec L i))
       (slice (i * csl P) (i * csl P + (seg_plain_len L i + 32)) body) = Some (chunk L p i)"
proof -
  note D = layout_okD [OF assms(2), folded assms(3)]
  note N = chunks_ok_lengths [OF assms(4)]
  let ?n = "unat (ml_segment_count L)" let ?N = "length nps"
  have cs: "csl P = psl P + 32" using D(1) by (rule csl_psl)
  have len: "length body = length p + 32 * ?N" using floe_body_length [OF assms(1,5)] assms(6,8) by simp
  have tot: "length p + 32 * ?N = unat (ml_plaintext_length L) + 32 * ?n" using len assms(7) D(4) by simp
  have mul: "m * csl P = m * psl P + 32 * m" for m by (simp add: cs algebra_simps)
  have "(?N - 1) * csl P < length body" "length body \<le> ?N * csl P"
    using N(1-3) len unfolding mul assms(8) by (cases nps; simp)+
  moreover have "(?n - 1) * csl P < length body" "length body \<le> ?n * csl P"
    using D(2,5,6) len tot unfolding mul by linarith+
  ultimately have count: "?N = ?n"
    using body_segments_unique [OF D(1), of ?N "length body"] body_segments_unique [OF D(1) D(2), of "length body"] N(1)
    by (simp add: Suc_le_eq)
  then show plen: "length p = unat (ml_plaintext_length L)" using tot by simp
  have each: "length (snd (nps ! j)) = seg_plain_len L j" if "j < ?n" for j
  proof (cases "Suc j = ?n")
    case True
    have "drop j nps = [nps ! j]" using True count by (simp add: Cons_nth_drop_Suc [symmetric])
    then have "p = concat (map snd (take j nps)) @ snd (nps ! j)"
      unfolding assms(8) by (subst append_take_drop_id [of j nps, symmetric], simp only: map_append concat_append) simp
    moreover have "length (concat (map snd (take j nps))) = j * psl P"
      using pieces_len [OF assms(4), of j] True count by (simp add: take_map)
    ultimately show ?thesis using plen True by (simp add: seg_plain_len_def assms(3))
  next
    case False
    then show ?thesis using that chunks_ok_nth [OF assms(4), of j] count by (simp add: seg_plain_len_def assms(3))
  qed
  assume i: "i < ?n"
  have cp: "chunk L p i = snd (nps ! i)"
  proof -
    have "map (\<lambda>j. snd (nps ! j)) [0..<?n] = map snd nps" unfolding count [symmetric] by (rule nth_equalityI) simp_all
    then have "p = concat (map (\<lambda>j. snd (nps ! j)) [0..<?n])" using assms(8) by simp
    then show ?thesis using pieces_concat(2) [OF assms(2), of "\<lambda>j. snd (nps ! j)" i] each i by simp
  qed
  have ni: "nps ! i \<in> set nps" using i count by simp
  from bspec [OF assms(5) this] have l12: "length (fst (nps ! i)) = 12" by (simp add: case_prod_beta)
  have drop: "drop i nps = nps ! i # drop (Suc i) nps" using i count by (simp add: Cons_nth_drop_Suc)
  have "slice (i * csl P) (i * csl P + (seg_plain_len L i + 32)) body =
      floe_segment S C (word_of_nat i) (sl_kind (segment_spec L i)) (fst (nps ! i)) (snd (nps ! i))"
    using floe_body_drop [OF assms(1) D(1) assms(4,5), of i C 0] floe_body_first [OF assms(1) l12, of C i "drop (Suc i) nps"]
      each [OF i] i count by (auto simp: slice_def assms(6) drop segment_spec_def)
  moreover have "length (floe_segment S C (word_of_nat i) (sl_kind (segment_spec L i)) (fst (nps ! i)) (snd (nps ! i))) \<ge> 32"
    using floe_segment_length [OF assms(1) l12, of C "word_of_nat i"] by simp
  ultimately show "segment_text S C (word_of_nat i) (sl_kind (segment_spec L i))
       (slice (i * csl P) (i * csl P + (seg_plain_len L i + 32)) body) = Some (chunk L p i)"
    using segment_text_iff [OF assms(1)] l12 cp by metis
qed

lemma authentic_segments_body:
  assumes "prims_ok S" "layout_ok L" "P = ml_parameters L" "length body + 74 = unat (ml_ciphertext_length L)"
    and "length p = unat (ml_plaintext_length L)"
    and "\<And>i. i < unat (ml_segment_count L) \<Longrightarrow> segment_text S C (word_of_nat i) (sl_kind (segment_spec L i))
       (slice (i * csl P) (i * csl P + (seg_plain_len L i + 32)) body) = Some (chunk L p i)"
  shows "\<exists>nps. body = floe_body S C 0 nps \<and> chunks_ok P (map snd nps) \<and> (\<forall>(nonce, _) \<in> set nps. length nonce = 12) \<and>
    length nps \<le> 2 ^ 40 \<and> p = concat (map snd nps)"
proof -
  note D = layout_okD [OF assms(2), folded assms(3)]
  let ?n = "unat (ml_segment_count L)"
  let ?seg = "\<lambda>i. slice (i * csl P) (i * csl P + (seg_plain_len L i + 32)) body"
  have cs: "csl P = psl P + 32" using D(1) by (rule csl_psl)
  have fit: "i * csl P + (seg_plain_len L i + 32) \<le> length body" if "i < ?n" for i
    using layout_no_overflow(2) [OF assms(2) that] assms(3,4) by simp
  have "\<exists>nonce. length nonce = 12 \<and> ?seg i = floe_segment S C (word_of_nat i) (sl_kind (segment_spec L i)) nonce (chunk L p i)" if "i < ?n" for i
    using segment_text_iff [OF assms(1), of "?seg i"] assms(6) [OF that] fit [OF that] by auto
  then obtain g where g: "\<And>i. i < ?n \<Longrightarrow> length (g i) = 12"
      "\<And>i. i < ?n \<Longrightarrow> ?seg i = floe_segment S C (word_of_nat i) (sl_kind (segment_spec L i)) (g i) (chunk L p i)" by metis
  let ?nps = "\<lambda>i. map (\<lambda>j. (g j, chunk L p j)) [i..<?n]"
  have last: "(?n - 1) * csl P + (seg_plain_len L (?n - 1) + 32) = length body"
  proof -
    obtain m where m: "?n = Suc m" using D(2) by (cases ?n) auto
    then have "seg_plain_len L m = unat (ml_plaintext_length L) - m * psl P" "m * psl P \<le> unat (ml_plaintext_length L)"
      using D(5) by (simp_all add: seg_plain_len_def assms(3))
    moreover have "m * csl P = m * psl P + 32 * m" by (simp add: cs algebra_simps)
    ultimately show ?thesis using D(4) assms(4) m by simp
  qed
  have body: "drop (i * csl P) body = floe_body S C i (?nps i)" if "i < ?n" for i
    using that
  proof (induction "?n - Suc i" arbitrary: i)
    case 0
    then have i: "i = ?n - 1" "[i..<?n] = [i]" by (simp_all add: upt_conv_Cons)
    then have "drop (i * csl P) body = ?seg i" using last by (simp add: slice_def)
    moreover have "Suc i = ?n" using 0 by simp
    ultimately show ?case using g(2) [OF 0(2)] i(2) by (simp add: segment_spec_def)
  next
    case (Suc m)
    then have i: "[i..<?n] = i # [Suc i..<?n]" "Suc i < ?n" by (simp_all add: upt_conv_Cons)
    have "i * csl P + (seg_plain_len L i + 32) = Suc i * csl P" using i(2) cs by (simp add: seg_plain_len_def assms(3))
    then have "drop (i * csl P) body = ?seg i @ drop (Suc i * csl P) body"
      using fit [OF Suc(3)] by (simp add: slice_def) (metis append_take_drop_id drop_drop add.commute)
    also have "drop (Suc i * csl P) body = floe_body S C (Suc i) (?nps (Suc i))" using Suc(1) [of "Suc i"] Suc(2) i(2) by simp
    finally show ?case using g(2) [OF Suc(3)] i by (simp add: floe_body_Cons segment_spec_def)
  qed
  have snd: "map snd (?nps 0) = map (chunk L p) [0..<?n]" by simp
  have "body = floe_body S C 0 (?nps 0)" using body [of 0] D(2) by simp
  moreover have "chunks_ok P (map snd (?nps 0))" unfolding snd assms(3) by (rule chunks_of_layout [OF assms(2,5)]) (use D(2) in simp)
  moreover have "p = concat (map snd (?nps 0))" unfolding snd using chunks_concat [OF assms(2,5)] by simp
  moreover have "\<forall>(nonce, _) \<in> set (?nps 0). length nonce = 12" using g(1) by auto
  ultimately show ?thesis using D(3) by (intro exI [of _ "?nps 0"]) simp
qed

section \<open>Opening a message\<close>

text \<open>A specified body of \<open>p\<close> under a message context: what one-shot decryption accepts after the header.\<close>

definition is_floe_body :: "prims \<Rightarrow> MessageContext \<Rightarrow> bytes \<Rightarrow> bytes \<Rightarrow> bool" where
  "is_floe_body S C p body \<longleftrightarrow> (\<exists>nps. body = floe_body S C 0 nps \<and> chunks_ok (mc_parameters C) (map snd nps) \<and>
    (\<forall>(nonce, _) \<in> set nps. length nonce = 12) \<and> length nps \<le> 2 ^ 40 \<and> p = concat (map snd nps))"

lemma decrypt_body_iff:
  assumes "lawful E S" "dec_state_ok E s"
  shows "decrypt_body E \<lparr> de_state = s, de_counter = SegmentCounter_new \<rparr> body = Ok p \<longleftrightarrow> is_floe_body S (ds_context s) p body"
proof -
  let ?d = "\<lparr> de_state = s, de_counter = SegmentCounter_new \<rparr>"
  have d: "decryptor_at E ?d 0" "mc_parameters (ds_context s) = Decryptor_parameters ?d"
    using new_decryptor_at [OF assms(2)] by (simp_all add: new_decryptor_parameters)
  show ?thesis
    using decrypt_body_sound [OF assms(1) d(1,2), of body "[]" p] decrypt_body_complete [OF assms(1) d(1,2), of _ "[]"]
    by (auto simp: decrypt_body_def is_floe_body_def d(2))
qed

text \<open>Starting a decryption never panics, and gives a well-formed state.\<close>

lemma start_inferred_cases:
  assumes "lawful E S" "length bs = 74"
  obtains (refused) e where "start_decryption_inferred E key aad (Header bs) = Err e"
    | (started) s where "start_decryption_inferred E key aad (Header bs) = Ok s" "dec_state_ok E s"
proof -
  have len: "length (header_bytes (Header bs)) = 74" using assms(2) by simp
  show thesis
  proof (cases "start_decryption_inferred E key aad (Header bs)")
    case (Ok s)
    then have "Decryptor_new E key aad (Header bs) = Ok \<lparr> de_state = s, de_counter = SegmentCounter_new \<rparr>" by (simp add: Decryptor_new_def)
    then have "dec_state_ok E s" using Decryptor_new_at(2) [OF assms(1) len] by (fastforce simp: decryptor_at_def)
    then show thesis using started Ok by blast
  next
    case Panic
    then show thesis using Decryptor_new_at(1) [OF assms(1) len, of key aad] by (simp add: Decryptor_new_def)
  qed (rule refused)
qed

lemma decrypt_inferred_iff:
  assumes "lawful E S" "74 \<le> length m"
  shows "decrypt E key aad m = Ok p \<longleftrightarrow>
    (\<exists>s. start_decryption_inferred E key aad (Header (take 74 m)) = Ok s \<and> is_floe_body S (ds_context s) p (drop 74 m))"
proof -
  have len: "length (take 74 m) = 74" using assms(2) by simp
  show ?thesis
  proof (cases rule: start_inferred_cases [OF assms(1) len, of key aad])
    case (1 e)
    then show ?thesis using assms(2) by (simp add: decrypt_def split_header_spec Decryptor_new_def)
  next
    case (2 s)
    then show ?thesis using assms(2) decrypt_body_iff [OF assms(1) 2(2)]
      by (simp add: decrypt_def split_header_spec Decryptor_new_def)
  qed
qed

text \<open>A specified body has a layout, and its segments in the contents are the authentic ones.\<close>

lemma floe_body_layout:
  assumes "prims_ok S" "params_ok (mc_parameters C)" "is_floe_body S C p body" "unat len = 74 + length body"
  shows "\<exists>L. Parameters_ciphertext_layout t (mc_parameters C) len = Ok L"
proof -
  let ?P = "mc_parameters C"
  obtain nps where nps: "body = floe_body S C 0 nps" "chunks_ok ?P (map snd nps)" "\<forall>(nonce, _) \<in> set nps. length nonce = 12" "length nps \<le> 2 ^ 40"
    using assms(3) by (auto simp: is_floe_body_def)
  let ?N = "length nps" let ?n = "body_segments ?P (length body)"
  note N = chunks_ok_lengths [OF nps(2)]
  have cs: "csl ?P = psl ?P + 32" using assms(2) by (rule csl_psl)
  have mul: "m * csl ?P = m * psl ?P + 32 * m" for m by (simp add: cs algebra_simps)
  have len: "length body = length (concat (map snd nps)) + 32 * ?N" using floe_body_length [OF assms(1) nps(3)] nps(1) by simp
  have lo: "(?N - 1) * csl ?P + 32 \<le> length body" using N(1,2) len unfolding mul by (cases nps) simp_all
  have "length body \<le> ?N * csl ?P" using N(3) len unfolding mul by simp
  moreover have pos: "0 < length body" using lo by linarith
  ultimately have "?n = ?N" using body_segments_unique [OF assms(2), of ?N "length body"] N(1) lo by (simp add: Suc_le_eq)
  then show ?thesis using lo pos nps(4) assms(4) by (simp add: ciphertext_layout_cases [OF assms(2)])
qed

lemma message_body_segments:
  assumes "prims_ok S" "layout_ok L" "mc_parameters C = ml_parameters L" "n + unat (ml_ciphertext_length L) \<le> length c"
  defines "m \<equiv> take (unat (ml_ciphertext_length L)) (drop n c)"
  shows "is_floe_body S C p (drop 74 m) \<longleftrightarrow> length p = unat (ml_plaintext_length L) \<and>
    (\<forall>i < unat (ml_segment_count L). authentic_text S C L n c i = Some (chunk L p i))"
proof -
  let ?P = "ml_parameters L"
  have len: "length (drop 74 m) + 74 = unat (ml_ciphertext_length L)" using assms(4) layout_okD(4) [OF assms(2)] by (simp add: m_def)
  have seg: "slice (i * csl ?P) (i * csl ?P + (seg_plain_len L i + 32)) (drop 74 m) = message_segment L n c i"
    if "i < unat (ml_segment_count L)" for i
  proof -
    have "74 + i * csl ?P + (seg_plain_len L i + 32) \<le> unat (ml_ciphertext_length L)" using layout_no_overflow(2) [OF assms(2) that] by simp
    then show ?thesis by (simp add: m_def message_segment_def segment_start_def slice_def drop_take add.assoc add.commute min_def)
  qed
  show ?thesis
  proof
    assume "is_floe_body S C p (drop 74 m)"
    then obtain nps where nps: "drop 74 m = floe_body S C 0 nps" "chunks_ok ?P (map snd nps)" "\<forall>(nonce, _) \<in> set nps. length nonce = 12"
        "p = concat (map snd nps)" using assms(3) by (auto simp: is_floe_body_def)
    note B = body_segments_authentic [OF assms(1,2) refl nps(2,3,1) len nps(4)]
    show "length p = unat (ml_plaintext_length L) \<and> (\<forall>i < unat (ml_segment_count L). authentic_text S C L n c i = Some (chunk L p i))"
      using B seg by (simp add: authentic_text_def)
  next
    assume "length p = unat (ml_plaintext_length L) \<and> (\<forall>i < unat (ml_segment_count L). authentic_text S C L n c i = Some (chunk L p i))"
    then show "is_floe_body S C p (drop 74 m)"
      using authentic_segments_body [OF assms(1,2) refl len, of p C] seg assms(3) by (simp add: authentic_text_def is_floe_body_def)
  qed
qed

lemma reader_over_body:
  assumes "prims_ok S" "reader_ok E S c at R"
  defines "L \<equiv> rr_layout R"
  defines "m \<equiv> take (unat (ml_ciphertext_length L)) (drop (unat (rr_message_start R)) c)"
  shows "reader_over E S c at p R \<longleftrightarrow> is_floe_body S (ds_context (rr_state R)) p (drop 74 m)"
proof -
  note D = reader_partsD [OF reader_okD [OF assms(2)], folded L_def]
  have fit: "unat (rr_message_start R) + unat (ml_ciphertext_length L) \<le> length c" using assms(2) by (simp add: reader_ok_def L_def)
  note q = reader_plain_chunks [OF assms(1,2), folded L_def]
  have body: "is_floe_body S (ds_context (rr_state R)) p (drop 74 m) \<longleftrightarrow> length p = unat (ml_plaintext_length L) \<and>
      (\<forall>i < unat (ml_segment_count L). reader_text S c R i = Some (chunk L p i))"
    unfolding m_def using message_body_segments [OF assms(1) D(2,3) fit] by (simp add: reader_text_def L_def)
  have "p = reader_plain S c R" if "length p = unat (ml_plaintext_length L)" "\<forall>i < unat (ml_segment_count L). reader_text S c R i = Some (chunk L p i)"
  proof -
    have "concat (map (chunk L p) [0..<unat (ml_segment_count L)]) = p" by (rule chunks_concat [OF D(2) that(1)])
    moreover have "map (chunk L p) [0..<unat (ml_segment_count L)] =
        map (\<lambda>i. case reader_text S c R i of Some p \<Rightarrow> p | None \<Rightarrow> replicate (seg_plain_len L i) 0) [0..<unat (ml_segment_count L)]"
      using that(2) by (intro map_cong) auto
    ultimately show ?thesis unfolding reader_plain_def L_def [symmetric] by (simp only:)
  qed
  moreover have "length p = unat (ml_plaintext_length L) \<and> (\<forall>i < unat (ml_segment_count L). reader_text S c R i = Some (chunk L p i))"
    if "reader_over E S c at p R"
    using that q by (fastforce simp: reader_over_def L_def)
  ultimately show ?thesis unfolding body using assms(2) by (auto simp: reader_over_def L_def)
qed

context seekable_source begin

lemma rewound_reader:
  assumes "lawful E S" "reader_parts_ok E at R" "unat (rr_message_start R) + 74 < 2 ^ 64"
  defines "R1 \<equiv> R\<lparr> rr_scratch := SegmentBuffer_clear E (rr_scratch R), rr_cached_position := None \<rparr>"
  obtains R' where "Reader_seek_to_body_start K R1 = Some (Ok (), R')" "same_message R R'" "rr_cached_position R' = None"
    "reader_parts_ok E at R'"
proof -
  have parts: "reader_parts_ok E at R1"
    using assms(2) SegmentBuffer_clear_ok(1,4) [OF assms(1) reader_partsD(4) [OF assms(2)]] by (auto simp: reader_parts_ok_def R1_def)
  obtain w where w: "checked_add (rr_message_start R) HEADER_LENGTH_U64 = Some w" using assms(3) by (simp add: checked_add_def)
  obtain R' inner where R': "Reader_seek_inner_to K R1 w = Some (Ok (), R')" "at (rr_inner R') (unat w)"
      "R' = R1\<lparr> rr_inner := inner, rr_inner_position := Some w \<rparr>"
    using seek_inner_cases [OF parts, of w] by metis
  have "Reader_seek_to_body_start K R1 = Some (Ok (), R')" using w R'(1) by (simp add: Reader_seek_to_body_start_def R1_def)
  moreover have "reader_parts_ok E at R'" using parts R'(2) unfolding R'(3) by (auto simp: reader_parts_ok_def)
  moreover have "same_message R R'" "rr_cached_position R' = None" by (simp_all add: R'(3) R1_def same_message_def)
  ultimately show thesis by (intro that)
qed

lemma from_parts_cases:
  assumes "lawful E S" "dec_state_ok E s" "at r k" "unat start + unat len \<le> length c"
  defines "C \<equiv> ds_context s"
  obtains (refused) e r' where "Reader_from_parts E K r s H start len = Some (Err e, r')"
      "\<And>L. Parameters_ciphertext_layout (pointer_width E) (mc_parameters C) len = Ok L \<Longrightarrow>
        authentic_text S C L (unat start) c (unat (ml_segment_count L) - 1) = None"
    | (opened) R where "Reader_from_parts E K r s H start len = Some (Ok R, rr_inner R)"
      "Parameters_ciphertext_layout (pointer_width E) (mc_parameters C) len = Ok (rr_layout R)" "reader_ok E S c at R"
      "ds_context (rr_state R) = C" "rr_message_start R = start" "rr_header R = H" "rr_plaintext_position R = 0"
      "reader_text S c R (unat (ml_segment_count (rr_layout R)) - 1) \<noteq> None"
proof -
  let ?P = "mc_parameters C" and ?t = "pointer_width E"
  have P: "params_ok ?P" using dec_state_okD(1) [OF assms(2)] by (simp add: C_def context_ok_def)
  show thesis
  proof (cases "Parameters_ciphertext_layout ?t ?P len")
    case Panic
    then show thesis by (simp add: ciphertext_layout_cases [OF P] split: if_splits)
  next
    case (Err e)
    then show thesis using refused by (simp add: Reader_from_parts_def DecryptionState_parameters_def C_def)
  next
    case (Ok L)
    note L = ciphertext_layout_okD [OF P Ok]
    let ?i = "unat (ml_segment_count L) - 1"
    have i: "?i < unat (ml_segment_count L)" using layout_okD(2) [OF L(1)] by simp
    let ?R = "\<lparr> rr_inner = r, rr_state = s, rr_header = H, rr_layout = L, rr_message_start = start, rr_scratch = SegmentBuffer_new ?P,
      rr_plaintext_position = 0, rr_cached_position = None, rr_inner_position = None \<rparr>"
    have parts: "reader_parts_ok E at ?R" using assms(2,3) L SegmentBuffer_new_ok [OF P] by (auto simp: reader_parts_ok_def C_def SegmentBuffer_new_def)
    have run: "Reader_from_parts E K r s H start len =
        (case Reader_load_segment E K ?R (segment_spec L ?i) of
           None \<Rightarrow> None
         | Some (res, reader1) \<Rightarrow>
             try_io res (rr_inner reader1) (\<lambda>_.
             let reader2 = reader1\<lparr> rr_scratch := SegmentBuffer_clear E (rr_scratch reader1), rr_cached_position := None \<rparr>
             in case Reader_seek_to_body_start K reader2 of
               None \<Rightarrow> None
             | Some (r, reader3) \<Rightarrow> Some (map_ok (\<lambda>_. reader3) r, rr_inner reader3)))"
      using Ok by (simp add: final_segment_spec [OF L(1)] Reader_from_parts_def DecryptionState_parameters_def C_def Let_def)
    have fit: "segment_start L (unat start) ?i + (seg_plain_len L ?i + 32) \<le> length c"
      using segment_end(1) [OF L(1) i, of "unat start"] L(3) assms(4) by simp
    have i': "?i < unat (ml_segment_count (rr_layout ?R))" using i by simp
    have tx: "reader_text S c ?R = authentic_text S C L (unat start) c" by (simp add: reader_text_def C_def fun_eq_iff)
    show thesis
    proof (cases rule: load_cases [OF assms(1) parts i'])
      case (1 e R')
      then show thesis using fit by simp
    next
      case (2 e R')
      then show thesis using refused [of e "rr_inner R'"] run tx Ok by simp
    next
      case (3 p R1)
      have same: "same_message ?R R1" using 3(5) by simp
      have "74 \<le> unat len" using layout_okD(4) [OF L(1)] L(3) by simp
      then have bound: "unat (rr_message_start R1) + 74 < 2 ^ 64"
        using same assms(4) contents_length by (simp add: same_message_def)
      obtain R3 where R3: "Reader_seek_to_body_start K
          (R1\<lparr> rr_scratch := SegmentBuffer_clear E (rr_scratch R1), rr_cached_position := None \<rparr>) = Some (Ok (), R3)"
          "same_message R1 R3" "rr_cached_position R3 = None" "reader_parts_ok E at R3"
        by (rule rewound_reader [OF assms(1) 3(4) bound])
      have run3: "Reader_from_parts E K r s H start len = Some (Ok R3, rr_inner R3)"
        unfolding run using 3(1) R3(1) by (simp add: Let_def)
      note R3s = same_message_trans [OF same R3(2)] R3(3) and parts3 = R3(4)
      have ok: "reader_ok E S c at R3" using parts3 R3s assms(4) L(3) by (simp add: reader_ok_def same_message_def)
      have "reader_text S c R3 ?i \<noteq> None" using 3(2) reader_text_same [OF R3s(1), of S c] by simp
      then show thesis using opened [OF run3 _ ok] Ok R3s(1) by (simp add: same_message_def C_def)
    qed
  qed
qed

text \<open>
  The contents a reader is opened on: the message is the \<open>len\<close> bytes at \<open>n\<close>. Opening succeeds on every message
  one-shot decryption accepts, and what one-shot decryption accepts is what the reader delivers.
\<close>

lemma open_message_cases:
  fixes key :: Key and aad :: bytes and r0 :: 'r
  assumes "lawful E S" "at r k" "n + unat len \<le> length c" "74 \<le> unat len" "unat start = n"
  defines "m \<equiv> take (unat len) (drop n c)"
  defines "res \<equiv> (case start_decryption_inferred E key aad (Header (take 74 m)) of
      Ok s \<Rightarrow> Reader_from_parts E K r s (Header (take 74 m)) start len
    | Err e \<Rightarrow> Some (Err (decryption_error e), r0)
    | Panic \<Rightarrow> Some (Panic, r0))"
  obtains (refused) e r' where "res = Some (Err e, r')" "\<And>p. decrypt E key aad m \<noteq> Ok p"
    | (opened) R where "res = Some (Ok R, rr_inner R)" "reader_ok E S c at R" "rr_plaintext_position R = 0"
      "\<And>p. decrypt E key aad m = Ok p \<longleftrightarrow> reader_over E S c at p R"
      "reader_text S c R (unat (ml_segment_count (rr_layout R)) - 1) \<noteq> None"
proof -
  have lm: "length m = unat len" "74 \<le> length m" "length (take 74 m) = 74" using assms(3,4) by (simp_all add: m_def)
  note dec = decrypt_inferred_iff [OF assms(1) lm(2), of key aad]
  note S = lawfulD(1) [OF assms(1)]
  show thesis
  proof (cases rule: start_inferred_cases [OF assms(1) lm(3), of key aad])
    case (1 e)
    then show thesis using refused dec by (simp add: res_def)
  next
    case (2 s)
    have fit: "unat start + unat len \<le> length c" using assms(3,5) by simp
    have P: "params_ok (mc_parameters (ds_context s))" using dec_state_okD(1) [OF 2(2)] by (simp add: context_ok_def)
    have res: "res = Reader_from_parts E K r s (Header (take 74 m)) start len" using 2(1) by (simp add: res_def)
    have dec': "decrypt E key aad m = Ok p \<longleftrightarrow> is_floe_body S (ds_context s) p (drop 74 m)" for p using dec 2(1) by simp
    show thesis
    proof (cases rule: from_parts_cases [OF assms(1) 2(2) assms(2) fit, of "Header (take 74 m)"])
      case T: (1 e r')
      have "\<not> is_floe_body S (ds_context s) p (drop 74 m)" for p
      proof
        assume b: "is_floe_body S (ds_context s) p (drop 74 m)"
        have "unat len = 74 + length (drop 74 m)" using lm by simp
        from floe_body_layout [OF S P b this] obtain L where
          L: "Parameters_ciphertext_layout (pointer_width E) (mc_parameters (ds_context s)) len = Ok L" by blast
        note LD = ciphertext_layout_okD [OF P L]
        have "authentic_text S (ds_context s) L (unat start) c (unat (ml_segment_count L) - 1) \<noteq> None"
          using message_body_segments [OF S LD(1) _ _, of "ds_context s" "unat start" c p] LD b fit layout_okD(2) [OF LD(1)] assms(5)
          by (auto simp: m_def)
        then show False using T(2) [OF L] by blast
      qed
      then show thesis using refused T(1) res dec' by simp
    next
      case T: (2 R)
      have len: "ml_ciphertext_length (rr_layout R) = len" using ciphertext_layout_okD(3) [OF P T(2)] .
      have "reader_over E S c at p R \<longleftrightarrow> is_floe_body S (ds_context s) p (drop 74 m)" for p
        using reader_over_body [OF S T(3), of p] T(4,5) len assms(5) by (simp add: m_def)
      then show thesis using opened T(1,3,7,8) res dec' by simp
    qed
  qed
qed

end

text \<open>A reader delivers \<open>p\<close> when it reports its length and every range of it is what a range read returns.\<close>

definition delivers :: "'x env \<Rightarrow> 'r seekable \<Rightarrow> bytes \<Rightarrow> ('x, 'r) Reader \<Rightarrow> bool" where
  "delivers E K p R \<longleftrightarrow> unat (Reader_plaintext_length R) = length p \<and>
    (\<forall>a b. a \<le> b \<longrightarrow> b \<le> length p \<longrightarrow>
      (\<exists>R'. Reader_read_range E K R (Included (word_of_nat a), Excluded (word_of_nat b)) = Some (Ok (slice a b p), R')))"

lemma whole_range_authentic:
  assumes "layout_ok (rr_layout R)" "range_authentic S c R 0 (unat (ml_plaintext_length (rr_layout R)))"
    and "reader_text S c R (unat (ml_segment_count (rr_layout R)) - 1) \<noteq> None" "i < unat (ml_segment_count (rr_layout R))"
  shows "reader_text S c R i \<noteq> None"
proof (cases "Suc i = unat (ml_segment_count (rr_layout R))")
  case True
  then have "i = unat (ml_segment_count (rr_layout R)) - 1" by simp
  then show ?thesis using assms(3) by simp
next
  case False
  let ?L = "rr_layout R" let ?k = "psl (ml_parameters ?L)"
  have k: "0 < ?k" using layout_okD(1) [OF assms(1)] by (simp add: psl_def params_ok_def)
  have "Suc i * ?k \<le> (unat (ml_segment_count ?L) - 1) * ?k" using False assms(4) by (intro mult_le_mono1) simp
  then have "Suc i * ?k \<le> unat (ml_plaintext_length ?L)" using layout_okD(5) [OF assms(1)] by linarith
  then have "touches ?L 0 (unat (ml_plaintext_length ?L)) i" using False assms(4) k by (simp add: touches_def segment_stop_def seg_plain_len_def)
  then show ?thesis using assms(2) by (simp add: range_authentic_def)
qed

context seekable_source begin

lemma delivers_iff:
  assumes "lawful E S" "reader_ok E S c at R" "reader_text S c R (unat (ml_segment_count (rr_layout R)) - 1) \<noteq> None"
    and "length p \<le> usize_max (pointer_width E)"
  shows "delivers E K p R \<longleftrightarrow> reader_over E S c at p R"
proof -
  let ?n = "unat (ml_plaintext_length (rr_layout R))"
  have L: "layout_ok (rr_layout R)" by (rule reader_partsD(2) [OF reader_okD [OF assms(2)]])
  note q = reader_plain_chunks(1) [OF lawfulD(1) [OF assms(1)] assms(2)]
  have bounds: "resolve_bounds (Included (word_of_nat a), Excluded (word_of_nat b)) (ml_plaintext_length (rr_layout R)) =
        Ok (word_of_nat a, word_of_nat b) \<and> unat (word_of_nat a :: u64) = a \<and> unat (word_of_nat b :: u64) = b"
    if "a \<le> b" "b \<le> ?n" for a b
  proof -
    have "b < 2 ^ 64" using that(2) unat_less_64 [of "ml_plaintext_length (rr_layout R)"] unfolding u64_bound by linarith
    then have u: "unat (word_of_nat a :: u64) = a" "unat (word_of_nat b :: u64) = b" using that(1) by (simp_all add: unat_of_nat_u64)
    then show ?thesis using that by (simp add: resolve_bounds_def validate_range_def word_less_nat_alt)
  qed
  have read: "(\<exists>R'. Reader_read_range E K R (Included (word_of_nat a), Excluded (word_of_nat b)) = Some (Ok bs, R')) \<longleftrightarrow>
      range_authentic S c R a b \<and> bs = slice a b (reader_plain S c R)"
    if "a \<le> b" "b \<le> ?n" "b - a \<le> usize_max (pointer_width E)" for a b bs
    using read_range_spec [OF assms(1,2), of "(Included (word_of_nat a), Excluded (word_of_nat b))"] bounds [OF that(1,2)] that(3)
    by (auto split: if_splits)
  show ?thesis
  proof
    assume d: "delivers E K p R"
    then have n: "?n = length p" by (simp add: delivers_def Reader_plaintext_length_def)
    have "\<exists>R'. Reader_read_range E K R (Included (word_of_nat 0), Excluded (word_of_nat (length p))) = Some (Ok (slice 0 (length p) p), R')"
      using d unfolding delivers_def by blast
    then have "range_authentic S c R 0 (length p)" "slice 0 (length p) p = slice 0 (length p) (reader_plain S c R)"
      by (subst (asm) read; use assms(4) n in simp)+
    then have "range_authentic S c R 0 ?n" "p = reader_plain S c R" using n q by (simp_all add: slice_def)
    then show "reader_over E S c at p R" using assms(2) whole_range_authentic [OF L _ assms(3)] by (simp add: reader_over_def)
  next
    assume o: "reader_over E S c at p R"
    then have p: "p = reader_plain S c R" and n: "?n = length p" using q by (simp_all add: reader_over_def)
    have "range_authentic S c R a b" for a b using o by (auto simp: reader_over_def range_authentic_def touches_def)
    then have "\<exists>R'. Reader_read_range E K R (Included (word_of_nat a), Excluded (word_of_nat b)) = Some (Ok (slice a b p), R')"
      if "a \<le> b" "b \<le> length p" for a b
      using read [of a b "slice a b p"] that n assms(4) p by simp
    then show "delivers E K p R" using n by (simp add: delivers_def Reader_plaintext_length_def)
  qed
qed

lemma header_at:
  assumes "at r n" "n \<le> length c"
  shows "if n + 74 \<le> length c then \<exists>r' k. read_header (sr_read K) r = Some (Ok (Header (take 74 (drop n c))), r') \<and> at r' k
    else \<exists>e r'. read_header (sr_read K) r = Some (Err e, r')"
proof -
  have y: "\<exists>m \<le> length c. at r m \<and> drop n c = drop m c" using assms by blast
  from read_header_yields [OF y] show ?thesis using assms(2) by (auto split: if_splits)
qed

lemma Reader_new_cases:
  fixes key :: Key and aad :: bytes
  assumes "lawful E S" "at r n" "n \<le> length c"
  obtains (refused) e r' where "Reader_new E K r key aad = Some (Err e, r')" "\<And>p. decrypt E key aad (drop n c) \<noteq> Ok p"
    | (opened) R where "Reader_new E K r key aad = Some (Ok R, rr_inner R)" "reader_ok E S c at R" "rr_plaintext_position R = 0"
      "\<And>p. decrypt E key aad (drop n c) = Ok p \<longleftrightarrow> reader_over E S c at p R"
      "reader_text S c R (unat (ml_segment_count (rr_layout R)) - 1) \<noteq> None"
proof -
  let ?start = "word_of_nat n :: u64" and ?len = "word_of_nat (length c - n) :: u64"
  have u: "unat ?start = n" "unat (word_of_nat (length c) :: u64) = length c" "unat ?len = length c - n"
    using assms(3) contents_length by (auto intro!: unat_of_nat_u64 simp del: of_nat_diff)
  obtain r1 where r1: "sr_position K r = Some (Ok ?start, r1)" "at r1 n" using position [OF assms(2,3)] by blast
  show thesis
  proof (cases "n + 74 \<le> length c")
    case False
    then obtain e r' where "read_header (sr_read K) r1 = Some (Err e, r')" using header_at [OF r1(2) assms(3)] by auto
    moreover have "length (drop n c) < 74" using False assms(3) by simp
    then have "decrypt E key aad (drop n c) \<noteq> Ok p" for p by (simp only: decrypt_def split_header_spec) simp
    ultimately show thesis using refused r1(1) by (simp add: Reader_new_def)
  next
    case True
    let ?H = "Header (take 74 (drop n c))"
    obtain r2 k where r2: "read_header (sr_read K) r1 = Some (Ok ?H, r2)" "at r2 k" using header_at [OF r1(2) assms(3)] True by auto
    obtain r3 where r3: "sr_seek K r2 (SeekEnd 0) = Some (Ok (word_of_nat (length c)), r3)" "at r3 (length c)" using seek_end [OF r2(2)] by blast
    have "checked_sub (word_of_nat (length c)) ?start = Some ?len"
      using u assms(3) by (simp add: checked_sub_def word_le_nat_alt of_nat_diff)
    then have rem: "remaining_length K r2 ?start = Some (Ok ?len, r3)" using r3(1) by (simp add: remaining_length_def)
    have run: "Reader_new E K r key aad = (case start_decryption_inferred E key aad ?H of
        Ok s \<Rightarrow> Reader_from_parts E K r3 s ?H ?start ?len | Err e \<Rightarrow> Some (Err (decryption_error e), r2) | Panic \<Rightarrow> Some (Panic, r2))"
      using r1(1) r2(1) rem by (simp add: Reader_new_def split: rust.split)
    have fit: "n + unat ?len \<le> length c" "74 \<le> unat ?len" using u True by simp_all
    have m: "take (unat ?len) (drop n c) = drop n c" using u by simp
    from open_message_cases [OF assms(1) r3(2) fit u(1), where key = key and aad = aad and ?r0.0 = r2, unfolded m, folded run] refused opened
    show thesis by blast
  qed
qed

lemma Reader_new_with_length_cases:
  fixes key :: Key and aad :: bytes
  assumes "lawful E S" "at r n" "n + unat len \<le> length c"
  obtains (refused) e r' where "Reader_new_with_length E K r key aad len = Some (Err e, r')"
      "\<And>p. decrypt E key aad (take (unat len) (drop n c)) \<noteq> Ok p"
    | (opened) R where "Reader_new_with_length E K r key aad len = Some (Ok R, rr_inner R)" "reader_ok E S c at R" "rr_plaintext_position R = 0"
      "\<And>p. decrypt E key aad (take (unat len) (drop n c)) = Ok p \<longleftrightarrow> reader_over E S c at p R"
      "reader_text S c R (unat (ml_segment_count (rr_layout R)) - 1) \<noteq> None"
proof (cases "74 \<le> unat len")
  case False
  then have "len < 74" by (simp add: word_less_nat_alt)
  moreover have "decrypt E key aad (take (unat len) (drop n c)) \<noteq> Ok p" for p
    using False assms(3) by (simp add: decrypt_def split_header_spec)
  ultimately show thesis using refused by (simp add: Reader_new_with_length_def validate_header_bound_def)
next
  case True
  have n: "n \<le> length c" "n + 74 \<le> length c" using assms(3) True by simp_all
  let ?start = "word_of_nat n :: u64" let ?m = "take (unat len) (drop n c)" let ?H = "Header (take 74 ?m)"
  have u: "unat ?start = n" using n(1) contents_length by (simp add: unat_of_nat_u64)
  obtain r1 where r1: "sr_position K r = Some (Ok ?start, r1)" "at r1 n" using position [OF assms(2) n(1)] by blast
  have H: "take 74 ?m = take 74 (drop n c)" using True by (simp add: min_def)
  obtain r2 k where r2: "read_header (sr_read K) r1 = Some (Ok ?H, r2)" "at r2 k"
    using header_at [OF r1(2) n(1)] n(2) unfolding H by auto
  have "\<not> len < 74" using True by (simp add: word_less_nat_alt)
  then have run: "Reader_new_with_length E K r key aad len = (case start_decryption_inferred E key aad ?H of
      Ok s \<Rightarrow> Reader_from_parts E K r2 s ?H ?start len | Err e \<Rightarrow> Some (Err (decryption_error e), r2) | Panic \<Rightarrow> Some (Panic, r2))"
    using r1(1) r2(1) by (simp add: Reader_new_with_length_def validate_header_bound_def split: rust.split)
  from open_message_cases [OF assms(1) r2(2) assms(3) True u, where key = key and aad = aad and ?r0.0 = r2, folded run] refused opened
  show thesis by blast
qed

lemma random_reader_agrees:
  assumes "lawful E S" "at r n" "n \<le> length c" "n + unat len \<le> length c" "length p \<le> usize_max (pointer_width E)"
  shows "decrypt E key aad (drop n c) = Ok p \<longleftrightarrow> (\<exists>R r'. Reader_new E K r key aad = Some (Ok R, r') \<and> delivers E K p R)"
    "decrypt E key aad (take (unat len) (drop n c)) = Ok p \<longleftrightarrow>
      (\<exists>R r'. Reader_new_with_length E K r key aad len = Some (Ok R, r') \<and> delivers E K p R)"
proof -
  show "decrypt E key aad (drop n c) = Ok p \<longleftrightarrow> (\<exists>R r'. Reader_new E K r key aad = Some (Ok R, r') \<and> delivers E K p R)"
    by (cases rule: Reader_new_cases [OF assms(1-3), of key aad]) (use delivers_iff [OF assms(1) _ _ assms(5)] in auto)
  show "decrypt E key aad (take (unat len) (drop n c)) = Ok p \<longleftrightarrow>
      (\<exists>R r'. Reader_new_with_length E K r key aad len = Some (Ok R, r') \<and> delivers E K p R)"
    by (cases rule: Reader_new_with_length_cases [OF assms(1,2,4), of key aad]) (use delivers_iff [OF assms(1) _ _ assms(5)] in auto)
qed

end

section \<open>Properties of the random-access reader\<close>

text \<open>The message the witnesses open: 70 bytes in three segments, stored in the contents of a cursor.\<close>

lemma toy_stored:
  obtains c where "decrypt toy_env (toy_key provider) [5] c = Ok (replicate 70 9)" "length c < 2 ^ 32"
    "decrypt_with_parameters toy_env (toy_key provider) [5] SEGMENT_64_B c = Ok (replicate 70 9)"
proof -
  obtain c where "length c = 240" "decrypt toy_env (toy_key provider) [5] c = Ok (replicate 70 9)"
      "decrypt_with_parameters toy_env (toy_key provider) [5] SEGMENT_64_B c = Ok (replicate 70 9)"
    by (rule toy_encrypted [of provider "[5]"]) blast
  then show thesis using that [of c] by simp
qed

lemma toy_contents:
  assumes "length c < 2 ^ 32"
  shows "seekable_source cursor ([1, 2, 3] @ c) (\<lambda>r n. r = ([1, 2, 3] @ c, word_of_nat n) \<and> n < 2 ^ 64) (\<lambda>_. 0)"
  by (rule cursor_source) (use assms in simp)

lemma toy_reader:
  obtains c R where "length c < 2 ^ 32" "Reader_new toy_env cursor ([1, 2, 3] @ c, 3) (toy_key Provider_RING) [5] = Some (Ok R, rr_inner R)"
    "reader_over toy_env toy_prims ([1, 2, 3] @ c) (\<lambda>r n. r = ([1, 2, 3] @ c, word_of_nat n) \<and> n < 2 ^ 64) (replicate 70 9) R"
    "rr_plaintext_position R = 0"
proof -
  obtain c where c: "decrypt toy_env (toy_key Provider_RING) [5] c = Ok (replicate 70 9)" "length c < 2 ^ 32" by (rule toy_stored) blast
  show thesis
    by (rule seekable_source.Reader_new_cases [OF toy_contents [OF c(2)] toy_lawful, of "([1, 2, 3] @ c, 3)" 3 "toy_key Provider_RING" "[5]"])
      (use c that [of c] in auto)
qed

text \<open>
  C10: Random access agrees with one-shot decryption. Over any contents that can be sought, for a
  message that starts at any place n of them: opening a reader there succeeds and the reader reports
  the length of p and returns, for every range within it, exactly that slice of p, if and only if
  one-shot decryption of the bytes from n on returns p; and the same for a message of a given length
  that other data follows.
\<close>

theorem random_access_agrees:
  assumes "lawful E S" "seekable_source K c at patience" "at r n" "n + unat len \<le> length c" "length p \<le> usize_max (pointer_width E)"
  shows "(decrypt E key aad (drop n c) = Ok p \<longleftrightarrow> (\<exists>R r'. Reader_new E K r key aad = Some (Ok R, r') \<and> delivers E K p R)) \<and>
    (decrypt E key aad (take (unat len) (drop n c)) = Ok p \<longleftrightarrow>
      (\<exists>R r'. Reader_new_with_length E K r key aad len = Some (Ok R, r') \<and> delivers E K p R))"
  using seekable_source.random_reader_agrees [OF assms(2,1,3) _ assms(4,5)] assms(4) by simp

theorem random_access_agrees_witness:
  "\<exists>c. (\<exists>R r'. Reader_new toy_env cursor ([1, 2, 3] @ c, 3) (toy_key Provider_RING) [5] = Some (Ok R, r') \<and>
      delivers toy_env cursor (replicate 70 9) R) \<and>
    (\<exists>R r'. Reader_new_with_length toy_env cursor ([1, 2, 3] @ c, 3) (toy_key Provider_RING) [5] (word_of_nat (length c)) = Some (Ok R, r') \<and>
      delivers toy_env cursor (replicate 70 9) R)"
proof -
  obtain c where c: "decrypt toy_env (toy_key Provider_RING) [5] c = Ok (replicate 70 9)" "length c < 2 ^ 32" by (rule toy_stored) blast
  have u: "length (replicate 70 9 :: bytes) \<le> usize_max (pointer_width toy_env)" using usize_max_ge [of "pointer_width toy_env"] by simp
  have len: "unat (word_of_nat (length c) :: u64) = length c" using c(2) by (intro unat_of_nat_u64) simp
  have fit: "3 + unat (word_of_nat (length c) :: u64) \<le> length ([1, 2, 3] @ c)" using len by simp
  have at: "([1, 2, 3] @ c, 3) = ([1, 2, 3] @ c, word_of_nat 3 :: u64) \<and> (3 :: nat) < 2 ^ 64" by simp
  from random_access_agrees [OF toy_lawful toy_contents [OF c(2)] at fit u, of "toy_key Provider_RING" "[5]"] c(1) len
  show ?thesis by (intro exI [of _ c]) simp
qed

text \<open>
  C13: What a range read returns, on any open reader, tampered contents included. It always returns and
  never panics, and the reader stays well-formed and on the same message. Bounds that do not resolve
  to a range of the plaintext are refused, and so is a range longer than the address space. Otherwise
  the read returns exactly the bytes of the range when every segment that overlaps the range is
  authentic, and an error when one is not; segments outside the range do not matter.
\<close>

theorem random_access_ranges:
  assumes "lawful E S" "seekable_source K c at patience" "reader_ok E S c at R"
  shows "\<exists>r R'. Reader_read_range E K R bounds = Some (r, R') \<and> reader_ok E S c at R' \<and> same_message R R' \<and>
    (case resolve_bounds bounds (ml_plaintext_length (rr_layout R)) of
       Err e \<Rightarrow> r = Err e
     | Ok (start, stop) \<Rightarrow>
         if usize_max (pointer_width E) < unat stop - unat start then r = Err length_overflow
         else if range_authentic S c R (unat start) (unat stop) then r = Ok (slice (unat start) (unat stop) (reader_plain S c R))
         else \<exists>e. r = Err e
     | Panic \<Rightarrow> False)"
  by (rule seekable_source.read_range_spec [OF assms(2,1,3)])

theorem random_access_ranges_witness:
  "\<exists>c R R'. Reader_new toy_env cursor ([1, 2, 3] @ c, 3) (toy_key Provider_RING) [5] = Some (Ok R, rr_inner R) \<and>
    Reader_read_range toy_env cursor R (Included 30, Excluded 65) = Some (Ok (replicate 35 9), R')"
proof -
  obtain c R where T: "length c < 2 ^ 32" "Reader_new toy_env cursor ([1, 2, 3] @ c, 3) (toy_key Provider_RING) [5] = Some (Ok R, rr_inner R)"
      "reader_over toy_env toy_prims ([1, 2, 3] @ c) (\<lambda>r n. r = ([1, 2, 3] @ c, word_of_nat n) \<and> n < 2 ^ 64) (replicate 70 9) R"
    by (rule toy_reader)
  have ok: "reader_ok toy_env toy_prims ([1, 2, 3] @ c) (\<lambda>r n. r = ([1, 2, 3] @ c, word_of_nat n) \<and> n < 2 ^ 64) R"
    and plain: "reader_plain toy_prims ([1, 2, 3] @ c) R = replicate 70 9"
    and auth: "range_authentic toy_prims ([1, 2, 3] @ c) R 30 65"
    using T(3) by (auto simp: reader_over_def range_authentic_def touches_def)
  have "unat (ml_plaintext_length (rr_layout R)) = 70" using reader_plain_chunks(1) [OF lawfulD(1) [OF toy_lawful] ok] plain by simp
  then have b: "resolve_bounds (Included 30, Excluded 65) (ml_plaintext_length (rr_layout R)) = Ok (30, 65)"
    by (simp add: resolve_bounds_def validate_range_def word_less_nat_alt)
  have u: "\<not> usize_max (pointer_width toy_env) < 35" using usize_max_ge [of "pointer_width toy_env"] by simp
  from random_access_ranges [OF toy_lawful toy_contents [OF T(1)] ok, of "(Included 30, Excluded 65)"] b auth u plain
  have "\<exists>R'. Reader_read_range toy_env cursor R (Included 30, Excluded 65) = Some (Ok (replicate 35 9), R')"
    by (auto simp: slice_def)
  then show ?thesis using T(2) by blast
qed

text \<open>
  C20: A random-access reader over an authentic message refines the contract it is built on: with its
  own read, seek and position operations it is a seekable source of the plaintext. Reads deliver the
  plaintext from the reader's position on and nothing past its end, any position can be sought, and
  the end and the current position can be asked for.
\<close>

theorem random_access_reader_seekable:
  assumes "lawful E S" "seekable_source K c at patience" "length p < 2 ^ 64"
  shows "seekable_source (Reader_seekable E K) p (\<lambda>R n. reader_over E S c at p R \<and> unat (rr_plaintext_position R) = n) (\<lambda>_. 0)"
  by (rule seekable_source.reader_is_seekable [OF assms(2,1,3)])

theorem random_access_reader_seekable_witness:
  "\<exists>c R. reader_over toy_env toy_prims c (\<lambda>r n. r = (c, word_of_nat n :: u64) \<and> n < 2 ^ 64) (replicate 70 9) R \<and> rr_plaintext_position R = 0 \<and>
    seekable_source (Reader_seekable toy_env cursor) (replicate 70 9)
      (\<lambda>R n. reader_over toy_env toy_prims c (\<lambda>r n. r = (c, word_of_nat n :: u64) \<and> n < 2 ^ 64) (replicate 70 9) R \<and> unat (rr_plaintext_position R) = n) (\<lambda>_. 0)"
proof -
  obtain c R where T: "length c < 2 ^ 32" "Reader_new toy_env cursor ([1, 2, 3] @ c, 3) (toy_key Provider_RING) [5] = Some (Ok R, rr_inner R)"
      "reader_over toy_env toy_prims ([1, 2, 3] @ c) (\<lambda>r n. r = ([1, 2, 3] @ c, word_of_nat n) \<and> n < 2 ^ 64) (replicate 70 9) R"
      "rr_plaintext_position R = 0"
    by (rule toy_reader)
  from random_access_reader_seekable [OF toy_lawful toy_contents [OF T(1)], of "replicate 70 9"] T(3,4)
  show ?thesis by (intro exI [of _ "[1, 2, 3] @ c"] exI [of _ R]) simp
qed

end
