(* ===== verification/Floe_Random_Release.thy ===== *)
theory Floe_Random_Release
  imports Floe_Random_Reader Floe_Release
begin

text \<open>
  What a random-access reader releases when nothing is known of the wrapped reader but that it cannot
  change the length of the buffer it fills. The wrapped reader is recorded: its log holds all bytes
  it has delivered. The invariant \<open>guarded\<close> says that a cached segment is an authentic one that was
  read; opening establishes it, and every method keeps it.
\<close>

section \<open>Recording a seekable reader\<close>

definition recorded_seekable :: "'r seekable \<Rightarrow> ('r \<times> bytes) seekable" where
  "recorded_seekable K =
    \<lparr> sr_read = recorded (sr_read K),
      sr_seek = (\<lambda>s position. map_state (\<lambda>r. (r, snd s)) (sr_seek K (fst s) position)),
      sr_position = (\<lambda>s. map_state (\<lambda>r. (r, snd s)) (sr_position K (fst s))) \<rparr>"

lemma read_exact_recorded:
  assumes "keeps_length rd" "read_exact_segment (recorded rd) s buf = Some (res, out, s')"
  obtains new where "length out = length buf" "snd s' = snd s @ new" "\<And>u. res = Ok u \<Longrightarrow> new = out"
proof -
  obtain r out1 s1 where r1: "read_fully (recorded rd) s buf = Some (r, out1, s1)"
    using assms(2) by (auto simp: read_exact_segment_def Let_def bind_io_def split: option.splits)
  then have r: "read_fully (recorded rd) s buf = Some (r, out, s')"
    using assms(2) by (cases r) (auto simp: read_exact_segment_def Let_def split: if_splits)
  obtain new where new: "length out = length buf" "snd s' = snd s @ new" "\<And>n. r = Ok n \<Longrightarrow> n \<le> length out \<and> new = take n out"
    by (rule read_fully_recorded [OF assms(1) r]) blast
  have "new = out" if "res = Ok u" for u
  proof -
    have "r = Ok (length buf)" using assms(2) r that by (auto simp: read_exact_segment_def Let_def split: if_splits)
    then show ?thesis using new(1,3) by simp
  qed
  then show thesis using that new by blast
qed

lemma try_io_last:
  assumes "try_io r s (\<lambda>_. Some (Ok (), s')) = Some (res, t)"
  shows "t = s' \<and> r = Ok () \<or> t = s \<and> r \<noteq> Ok () \<and> res \<noteq> Ok ()"
  using assms by (cases r) auto

lemma seek_recorded:
  assumes "Reader_seek_inner_to (recorded_seekable K) R offset = Some (res, R1)"
  obtains inner pos where "R1 = R\<lparr> rr_inner := inner, rr_inner_position := pos \<rparr>" "snd inner = snd (rr_inner R)"
proof (cases "rr_inner_position R = Some offset")
  case True
  then have "R1 = R\<lparr> rr_inner := rr_inner R, rr_inner_position := Some offset \<rparr>" using assms by (simp add: Reader_seek_inner_to_def)
  then show thesis using that by blast
next
  case False
  then obtain r r' where r: "sr_seek K (fst (rr_inner R)) (SeekStart offset) = Some (r, r')"
    using assms by (auto simp: Reader_seek_inner_to_def recorded_seekable_def bind_io_def map_state_def Let_def split: option.splits)
  then have "R1 = R\<lparr> rr_inner := (r', snd (rr_inner R)), rr_inner_position := (case r of Ok _ \<Rightarrow> Some offset | _ \<Rightarrow> None) \<rparr>"
    using assms False by (cases r) (auto simp: Reader_seek_inner_to_def recorded_seekable_def map_state_def Let_def)
  then show thesis by (rule that) simp
qed

text \<open>Fetching a segment from any seekable reader: the log grows, and a fetched segment is at its end.\<close>

lemma fetch_segment_recorded:
  assumes "keeps_length (sr_read K)" "reader_parts_ok E (\<lambda>_ _. True) R" "i < unat (ml_segment_count (rr_layout R))"
    and "Reader_fetch_segment_ciphertext (recorded_seekable K) R (segment_spec (rr_layout R) i) = Some (res, R1)"
  defines "n \<equiv> seg_plain_len (rr_layout R) i + 32"
  obtains new where "reader_parts_ok E (\<lambda>_ _. True) R1" "same_message R R1" "rr_cached_position R1 = None"
    "snd (rr_inner R1) = snd (rr_inner R) @ new"
    "res = Ok () \<Longrightarrow> sb_state (rr_scratch R1) = Ciphertext n \<and> take n (sb_bytes (rr_scratch R1)) = new \<and> length new = n"
proof -
  let ?K = "recorded_seekable K" and ?sl = "segment_spec (rr_layout R) i" and ?R = "R\<lparr> rr_cached_position := None \<rparr>"
  note P = reader_partsD [OF assms(2)]
  obtain r0 R0 where r0: "Reader_seek_to_segment ?K ?R ?sl = Some (r0, R0)"
    using assms(4) by (cases "Reader_seek_to_segment ?K ?R ?sl") (auto simp: Reader_fetch_segment_ciphertext_def)
  obtain inner pos where R0: "R0 = ?R\<lparr> rr_inner := inner, rr_inner_position := pos \<rparr>" "snd inner = snd (rr_inner R)"
  proof (cases "checked_add (rr_message_start R) (sl_ciphertext_offset ?sl)")
    case None
    then have "R0 = ?R\<lparr> rr_inner := rr_inner R, rr_inner_position := rr_inner_position R \<rparr>" using r0 by (auto simp: Reader_seek_to_segment_def)
    then show thesis using that by blast
  next
    case (Some offset)
    then have "Reader_seek_inner_to ?K ?R offset = Some (r0, R0)" using r0 by (simp add: Reader_seek_to_segment_def)
    then show thesis by (rule seek_recorded) (use that in simp)
  qed
  have parts: "reader_parts_ok E (\<lambda>_ _. True) R0" "same_message R R0" using assms(2) by (simp_all add: R0 reader_parts_ok_def same_message_def)
  show thesis
  proof (cases "r0 = Ok ()")
    case False
    then have "res \<noteq> Ok () \<and> R1 = R0" using assms(4) r0 by (cases r0) (auto simp: Reader_fetch_segment_ciphertext_def)
    then show thesis using that [of "[]"] parts R0 by simp
  next
    case True
    then have seek: "Reader_seek_to_segment ?K ?R ?sl = Some (Ok (), R\<lparr> rr_cached_position := None, rr_inner := inner, rr_inner_position := pos \<rparr>)"
      using r0 R0(1) by simp
    note FA = fetch_after_seek [OF P(2) assms(3) P(4,5) seek]
    obtain r seg inner' where r: "read_exact_segment (recorded (sr_read K)) inner (take n (sb_bytes (rr_scratch R))) = Some (r, seg, inner')"
      using assms(4) FA(1) by (auto simp: n_def recorded_seekable_def split: option.splits)
    obtain new where new: "length seg = n" "snd inner' = snd inner @ new" "\<And>u. r = Ok u \<Longrightarrow> new = seg"
      by (rule read_exact_recorded [OF assms(1) r]) (use FA(2) in \<open>simp add: n_def\<close>)
    note B = FA(3) [OF new(1) [unfolded n_def]]
    let ?B = "SegmentBuffer_write_ciphertext ((rr_scratch R)\<lparr> sb_state := Ciphertext (seg_plain_len (rr_layout R) i + 32) \<rparr>) seg"
    let ?R' = "R\<lparr> rr_cached_position := None, rr_inner_position := None, rr_inner := inner', rr_scratch := ?B \<rparr>"
    define q where "q = Option.bind pos (\<lambda>p. checked_add p (length_usize_to_u64 n))"
    have "try_io r ?R' (\<lambda>_. Some (Ok (), ?R'\<lparr> rr_inner_position := q \<rparr>)) = Some (res, R1)"
      using assms(4) FA(1) r by (simp add: n_def recorded_seekable_def Let_def q_def)
    from try_io_last [OF this] obtain pos' where R1: "R1 = ?R'\<lparr> rr_inner_position := pos' \<rparr>" and ok: "res = Ok () \<Longrightarrow> r = Ok ()"
    proof (elim conjE disjE)
      assume "R1 = ?R'" "r \<noteq> Ok ()" "res \<noteq> Ok ()"
      then show thesis using that [of None] by simp
    qed (rule that)
    have parts': "reader_parts_ok E (\<lambda>_ _. True) R1" "same_message R R1" "rr_cached_position R1 = None" "rr_inner R1 = inner'" "rr_scratch R1 = ?B"
      using assms(2) B by (simp_all add: R1 reader_parts_ok_def same_message_def)
    show thesis by (rule that [OF parts'(1-3), of new]) (use parts'(4,5) B new ok R0(2) in \<open>auto simp: n_def\<close>)
  qed
qed

section \<open>The reader over any source\<close>

text \<open>
  \<open>seen S C L log i p\<close>: the log holds an authentic segment of the message, of plaintext \<open>p\<close>, for the position
  \<open>i\<close> of the layout. The invariant of a reader over a recorded source: its parts fit together, and a
  cached segment is one that was seen.
\<close>

definition seen :: "prims \<Rightarrow> MessageContext \<Rightarrow> MessageLayout \<Rightarrow> bytes \<Rightarrow> nat \<Rightarrow> bytes \<Rightarrow> bool" where
  "seen S C L log i p \<longleftrightarrow> length p = seg_plain_len L i \<and> (\<exists>nonce. length nonce = 12 \<and>
    sublist (floe_segment S C (word_of_nat i) (sl_kind (segment_spec L i)) nonce p) log)"

definition reader_seen :: "prims \<Rightarrow> ('x, 'r \<times> bytes) Reader \<Rightarrow> nat \<Rightarrow> bytes \<Rightarrow> bool" where
  "reader_seen S R i p \<longleftrightarrow> seen S (ds_context (rr_state R)) (rr_layout R) (snd (rr_inner R)) i p"

definition guarded :: "'x env \<Rightarrow> prims \<Rightarrow> ('x, 'r \<times> bytes) Reader \<Rightarrow> bool" where
  "guarded E S R \<longleftrightarrow> reader_parts_ok E (\<lambda>_ _. True) R \<and>
    (\<forall>pos. rr_cached_position R = Some pos \<longrightarrow> unat pos < unat (ml_segment_count (rr_layout R)) \<and>
       (\<exists>p. reader_seen S R (unat pos) p \<and> SegmentBuffer_plaintext (rr_scratch R) = Ok p))"

definition follows :: "('x, 'r \<times> bytes) Reader \<Rightarrow> ('x, 'r \<times> bytes) Reader \<Rightarrow> bool" where
  "follows R R' \<longleftrightarrow> ds_context (rr_state R') = ds_context (rr_state R) \<and> rr_layout R' = rr_layout R \<and>
    rr_header R' = rr_header R \<and> prefix (snd (rr_inner R)) (snd (rr_inner R'))"

lemma follows_refl [simp]: "follows R R"
  by (simp add: follows_def)

lemma follows_trans: "follows R R' \<Longrightarrow> follows R' R'' \<Longrightarrow> follows R R''"
  by (auto simp: follows_def intro: prefix_order.trans)

lemma same_message_follows: "same_message R R' \<Longrightarrow> snd (rr_inner R') = snd (rr_inner R) @ new \<Longrightarrow> follows R R'"
  by (simp add: same_message_def follows_def)

lemma seen_mono: "seen S C L log i p \<Longrightarrow> prefix log log' \<Longrightarrow> seen S C L log' i p"
  unfolding seen_def by (meson prefix_imp_sublist sublist_order.order.trans)

lemma reader_seen_follows: "reader_seen S R i p \<Longrightarrow> follows R R' \<Longrightarrow> reader_seen S R' i p"
  by (auto simp: reader_seen_def follows_def intro: seen_mono)

lemma segment_text_seen:
  assumes "prims_ok S" "length seg = seg_plain_len L i + 32" "sublist seg log"
    and "segment_text S C (word_of_nat i) (sl_kind (segment_spec L i)) seg = Some p"
  shows "seen S C L log i p"
  using segment_text_iff [OF assms(1), of seg C "word_of_nat i"] segment_text_length [OF assms(1,2,4)] assms(2-4) by (auto simp: seen_def)

lemma position_word:
  assumes "reader_parts_ok E at R" "i < unat (ml_segment_count (rr_layout R))"
  shows "unat (word_of_nat i :: u64) = i"
  using assms(2) layout_okD(3) [OF reader_partsD(2) [OF assms(1)]] by (intro unat_of_nat_u64) simp

lemma scratch_plaintext:
  assumes "buffer_ok B" "sb_state B = Plaintext (length p)" "slice 16 (16 + length p) (sb_bytes B) = p"
  shows "SegmentBuffer_plaintext B = Ok p"
  using assms buffer_okD(2,3) [OF assms(1)] by (simp add: SegmentBuffer_plaintext_def)

lemma load_guarded:
  assumes "lawful E S" "keeps_length (sr_read K)" "reader_parts_ok E (\<lambda>_ _. True) R" "i < unat (ml_segment_count (rr_layout R))"
    and "Reader_load_segment E (recorded_seekable K) R (segment_spec (rr_layout R) i) = Some (res, R')" "res \<noteq> Panic"
  shows "guarded E S R' \<and> follows R R' \<and> (res = Ok () \<longrightarrow> (\<exists>p. reader_seen S R' i p \<and> SegmentBuffer_plaintext (rr_scratch R') = Ok p))"
proof -
  obtain r R1 where fetch: "Reader_fetch_segment_ciphertext (recorded_seekable K) R (segment_spec (rr_layout R) i) = Some (r, R1)"
    using assms(5) by (cases "Reader_fetch_segment_ciphertext (recorded_seekable K) R (segment_spec (rr_layout R) i)")
      (auto simp: Reader_load_segment_def)
  let ?n = "seg_plain_len (rr_layout R) i + 32"
  obtain new where T: "reader_parts_ok E (\<lambda>_ _. True) R1" "same_message R R1" "rr_cached_position R1 = None"
      "snd (rr_inner R1) = snd (rr_inner R) @ new"
      "r = Ok () \<Longrightarrow> sb_state (rr_scratch R1) = Ciphertext ?n \<and> take ?n (sb_bytes (rr_scratch R1)) = new \<and> length new = ?n"
    by (rule fetch_segment_recorded [OF assms(2-4) fetch]) blast
  note F = same_message_follows [OF T(2,4)]
  have L: "rr_layout R1 = rr_layout R" using T(2) by (simp add: same_message_def)
  show ?thesis
  proof (cases "r = Ok ()")
    case False
    then have "res \<noteq> Ok () \<and> (r \<noteq> Panic \<longrightarrow> R' = R1)" using assms(5,6) fetch by (cases r) (auto simp: Reader_load_segment_def)
    moreover have "r \<noteq> Panic" using assms(5,6) fetch by (auto simp: Reader_load_segment_def)
    ultimately show ?thesis using T(1,3) F by (simp add: guarded_def)
  next
    case True
    note H = T(5) [OF True]
    have fetched: "Reader_fetch_segment_ciphertext (recorded_seekable K) R (segment_spec (rr_layout R1) i) = Some (Ok (), R1)"
        "i < unat (ml_segment_count (rr_layout R1))" "sb_state (rr_scratch R1) = Ciphertext (seg_plain_len (rr_layout R1) i + 32)"
      using fetch True L assms(4) H by simp_all
    have sub: "sublist new (snd (rr_inner R1))" using T(4) by (simp add: sublist_appendI suffix_imp_sublist)
    show ?thesis
    proof (cases rule: load_after_fetch [OF assms(1) fetched(1,2) T(1,3) fetched(3), unfolded L])
      case (1 e R2)
      then have "R' = R2" "res \<noteq> Ok ()" using assms(5) by auto
      moreover have "follows R R2" using F 1(4,6) by (simp add: follows_def same_message_def)
      ultimately show ?thesis using 1(3,5) by (simp add: guarded_def)
    next
      case (2 p R2)
      then have R': "R' = R2" using assms(5) by simp
      have FR: "follows R R2" using F 2(4,6) by (simp add: follows_def same_message_def)
      have "seen S (ds_context (rr_state R1)) (rr_layout R) (snd (rr_inner R1)) i p"
        by (rule segment_text_seen [OF lawfulD(1) [OF assms(1)] _ sub]) (use H 2(2) in auto)
      then have s: "reader_seen S R2 i p" using 2(4,6) L by (simp add: reader_seen_def same_message_def)
      have pt: "SegmentBuffer_plaintext (rr_scratch R2) = Ok p" by (rule scratch_plaintext [OF reader_partsD(4) [OF 2(3)] 2(7,8)])
      have "rr_layout R2 = rr_layout R" using 2(4) L by (simp add: same_message_def)
      then have "guarded E S R2" using 2(3,5) s pt assms(4) position_word [OF assms(3,4)] by (auto simp: guarded_def)
      then show ?thesis using R' FR s pt by blast
    qed
  qed
qed

lemma load_cached_guarded:
  assumes "lawful E S" "keeps_length (sr_read K)" "guarded E S R" "i < unat (ml_segment_count (rr_layout R))"
    and "Reader_load_cached_segment E (recorded_seekable K) R (segment_spec (rr_layout R) i) = Some (res, R')" "res \<noteq> Panic"
  shows "guarded E S R' \<and> follows R R' \<and> (res = Ok () \<longrightarrow> (\<exists>p. reader_seen S R' i p \<and> SegmentBuffer_plaintext (rr_scratch R') = Ok p))"
proof (cases "rr_cached_position R = Some (word_of_nat i)")
  case True
  have parts: "reader_parts_ok E (\<lambda>_ _. True) R" using assms(3) by (simp add: guarded_def)
  have "R' = R" "\<exists>p. reader_seen S R i p \<and> SegmentBuffer_plaintext (rr_scratch R) = Ok p"
    using True assms(3,5) position_word [OF parts assms(4)] by (auto simp: Reader_load_cached_segment_def segment_spec_def guarded_def)
  then show ?thesis using assms(3) by simp
next
  case False
  then have "Reader_load_segment E (recorded_seekable K) R (segment_spec (rr_layout R) i) = Some (res, R')"
    using assms(5) by (simp add: Reader_load_cached_segment_def segment_spec_def)
  from load_guarded [OF assms(1,2) _ assms(4) this assms(6)] assms(3) show ?thesis by (simp add: guarded_def)
qed

lemma direct_guarded:
  assumes "lawful E S" "keeps_length (sr_read K)" "guarded E S R" "i < unat (ml_segment_count (rr_layout R))"
    and "length out = seg_plain_len (rr_layout R) i"
    and "Reader_decrypt_segment_direct E (recorded_seekable K) R (segment_spec (rr_layout R) i) out = Some (res, out', R')" "res \<noteq> Panic"
  shows "guarded E S R' \<and> follows R R' \<and> length out' = length out \<and> (res = Ok () \<longrightarrow> reader_seen S R' i out')"
proof -
  obtain r R1 where fetch: "Reader_fetch_segment_ciphertext (recorded_seekable K) R (segment_spec (rr_layout R) i) = Some (r, R1)"
    using assms(6) by (cases "Reader_fetch_segment_ciphertext (recorded_seekable K) R (segment_spec (rr_layout R) i)")
      (auto simp: Reader_decrypt_segment_direct_def)
  let ?n = "seg_plain_len (rr_layout R) i + 32"
  have parts: "reader_parts_ok E (\<lambda>_ _. True) R" using assms(3) by (simp add: guarded_def)
  obtain new where T: "reader_parts_ok E (\<lambda>_ _. True) R1" "same_message R R1" "rr_cached_position R1 = None"
      "snd (rr_inner R1) = snd (rr_inner R) @ new"
      "r = Ok () \<Longrightarrow> sb_state (rr_scratch R1) = Ciphertext ?n \<and> take ?n (sb_bytes (rr_scratch R1)) = new \<and> length new = ?n"
    by (rule fetch_segment_recorded [OF assms(2) parts assms(4) fetch]) blast
  note F = same_message_follows [OF T(2,4)]
  have L: "rr_layout R1 = rr_layout R" using T(2) by (simp add: same_message_def)
  show ?thesis
  proof (cases "r = Ok ()")
    case False
    then have "res \<noteq> Ok () \<and> R' = R1 \<and> out' = out" using assms(6,7) fetch by (cases r) (auto simp: Reader_decrypt_segment_direct_def)
    then show ?thesis using T(1,3) F by (simp add: guarded_def)
  next
    case True
    note H = T(5) [OF True]
    have fetched: "Reader_fetch_segment_ciphertext (recorded_seekable K) R (segment_spec (rr_layout R1) i) = Some (Ok (), R1)"
        "i < unat (ml_segment_count (rr_layout R1))" "sb_state (rr_scratch R1) = Ciphertext (seg_plain_len (rr_layout R1) i + 32)"
        "length out = seg_plain_len (rr_layout R1) i"
      using fetch True L assms(4,5) H by simp_all
    have sub: "sublist new (snd (rr_inner R1))" using T(4) by (simp add: sublist_appendI suffix_imp_sublist)
    have ok: "guarded E S R2 \<and> follows R R2" if "reader_parts_ok E (\<lambda>_ _. True) R2" "same_message R1 R2"
      "rr_cached_position R2 = rr_cached_position R1" "rr_inner R2 = rr_inner R1" for R2
      using that T(3) F by (simp add: guarded_def follows_def same_message_def)
    show ?thesis
    proof (cases rule: direct_after_fetch [OF assms(1) fetched(1,2) T(1) fetched(3,4), unfolded L])
      case (1 e out2 R2)
      then show ?thesis using ok [OF 1(4-7)] assms(6) by auto
    next
      case (2 p R2)
      have "seen S (ds_context (rr_state R1)) (rr_layout R) (snd (rr_inner R1)) i p"
        by (rule segment_text_seen [OF lawfulD(1) [OF assms(1)] _ sub]) (use H 2(2) in auto)
      then have "reader_seen S R2 i p" "length p = length out" using 2(4,6) L assms(5) by (auto simp: reader_seen_def same_message_def seen_def)
      then show ?thesis using ok [OF 2(3-6)] 2(1) assms(6) by simp
    qed
  qed
qed

section \<open>Range reads over any source\<close>

text \<open>
  The part of segment \<open>i\<close> that belongs to the range \<open>a..b\<close> stands in \<open>out\<close>, taken from a segment that was seen.
\<close>

definition shown :: "prims \<Rightarrow> MessageContext \<Rightarrow> MessageLayout \<Rightarrow> bytes \<Rightarrow> nat \<Rightarrow> nat \<Rightarrow> bytes \<Rightarrow> nat \<Rightarrow> bool" where
  "shown S C L log a b out i \<longleftrightarrow> (\<exists>p. seen S C L log i p \<and>
    slice (range_from L a i - a) (range_to L b i - a) out =
    slice (range_from L a i - i * psl (ml_parameters L)) (range_to L b i - i * psl (ml_parameters L)) p)"

definition reader_shown :: "prims \<Rightarrow> ('x, 'r \<times> bytes) Reader \<Rightarrow> nat \<Rightarrow> nat \<Rightarrow> bytes \<Rightarrow> nat \<Rightarrow> bool" where
  "reader_shown S R a b out i \<longleftrightarrow> shown S (ds_context (rr_state R)) (rr_layout R) (snd (rr_inner R)) a b out i"

lemma reader_shown_iff:
  "reader_shown S R a b out i \<longleftrightarrow> (\<exists>p. reader_seen S R i p \<and>
    slice (range_from (rr_layout R) a i - a) (range_to (rr_layout R) b i - a) out =
    slice (range_from (rr_layout R) a i - i * psl (ml_parameters (rr_layout R)))
      (range_to (rr_layout R) b i - i * psl (ml_parameters (rr_layout R))) p)"
  by (simp add: reader_shown_def shown_def reader_seen_def)

lemma reader_shown_follows:
  assumes "reader_shown S R a b out i" "follows R R'"
    and "slice (range_from (rr_layout R) a i - a) (range_to (rr_layout R) b i - a) out' =
      slice (range_from (rr_layout R) a i - a) (range_to (rr_layout R) b i - a) out"
  shows "reader_shown S R' a b out' i"
  using assms reader_seen_follows [OF _ assms(2)] by (auto simp: reader_shown_iff follows_def)

lemma slice_of_take: "take y xs = take y ys \<Longrightarrow> slice x y xs = slice x y ys"
  by (metis drop_take slice_def)

lemma bind_io_return: "bind_io m (\<lambda>x (t, s). Some (Ok x, t, s)) = Some y \<Longrightarrow> m = Some y"
  by (auto simp: bind_io_def split: option.splits elim: try_io.elims)

lemma bind_io_value:
  assumes "bind_io (map_state f (Some (r, s))) (\<lambda>_ t. Some (Ok x, t)) = Some (res, t)"
  shows "t = f s" "res = Ok n \<Longrightarrow> (\<exists>u. r = Ok u) \<and> n = x" "res \<noteq> Panic \<Longrightarrow> r \<noteq> Panic"
  using assms by (cases r; simp)+

lemma range_step_guarded:
  assumes "lawful E S" "keeps_length (sr_read K)" "guarded E S R" "i < unat (ml_segment_count (rr_layout R))"
    and "a < segment_stop (rr_layout R) i" "i * psl (ml_parameters (rr_layout R)) < b" "a < b" "b \<le> unat (ml_plaintext_length (rr_layout R))"
    and "unat A = a" "unat B = b" "b - a \<le> length out"
  defines "v \<equiv> range_from (rr_layout R) a i" and "u \<equiv> range_to (rr_layout R) b i"
  assumes "Reader_range_step E (recorded_seekable K) (A, B) (word_of_nat i) R (v - a) out = Some (res, out', R')" "res \<noteq> Panic"
  shows "guarded E S R' \<and> follows R R' \<and> (\<forall>n. res = Ok n \<longrightarrow> n = u - a \<and> length out' = length out \<and>
    take (v - a) out' = take (v - a) out \<and> reader_shown S R' a b out' i)"
proof -
  let ?L = "rr_layout R" and ?K = "recorded_seekable K"
  let ?k = "psl (ml_parameters ?L)" and ?sl = "segment_spec ?L i"
  have L: "layout_ok ?L" using assms(3) by (simp add: guarded_def reader_parts_ok_def)
  note vu = range_part [OF L assms(4-8), folded v_def u_def]
  have room: "u - a \<le> length out" using vu(3) assms(11) by simp
  have wrote: "length (splice (v - a) q out) = length out \<and> take (v - a) (splice (v - a) q out) = take (v - a) out \<and> reader_shown S R2 a b (splice (v - a) q out) i"
    if "length q = u - v" "reader_seen S R2 i p" "q = slice (v - i * ?k) (u - i * ?k) p" "follows R R2" for q p R2
  proof -
    have lay: "rr_layout R2 = ?L" using that(4) by (simp add: follows_def)
    have "slice (v - a) (u - a) (splice (v - a) q out) = q" using that(1) vu(1,2) room by (simp add: slice_def splice_def)
    then show ?thesis using that vu(1,2) room by (auto simp: reader_shown_iff lay u_def v_def take_splice)
  qed
  show ?thesis
  proof (cases "covered ?L a b i")
    case True
    note RS = range_step_covered [OF L assms(4) True assms(5,9-11), folded v_def u_def]
    obtain r part R1 where d: "Reader_decrypt_segment_direct E ?K R ?sl (slice (v - a) (u - a) out) = Some (r, part, R1)"
      using assms(14) RS(1) [where E = E and K = ?K]
      by (cases "Reader_decrypt_segment_direct E ?K R ?sl (slice (v - a) (u - a) out)") auto
    note V = bind_io_value [OF trans [OF RS(1) [where E = E and K = ?K, symmetric] assms(14), unfolded d]]
    have run: "R' = R1" "out' = splice (v - a) part out" "r \<noteq> Panic" "\<And>n. res = Ok n \<Longrightarrow> r = Ok () \<and> n = u - a"
      using V(1,3) V(2) assms(15) by auto
    note D = direct_guarded [OF assms(1-4) RS(2) d run(3)]
    have "reader_seen S R1 i part" if "res = Ok n" for n using D run(4) [OF that] by simp
    moreover have "length part = u - v" using D RS(2) vu(6) [OF True] by (simp add: segment_stop_def)
    moreover have "part = slice (v - i * ?k) (u - i * ?k) part" using calculation(2) vu(6) [OF True] by (simp add: slice_def)
    ultimately show ?thesis using D run(1,2,4) wrote by blast
  next
    case False
    note RP = range_step_partial [OF L assms(4) False assms(5-11), folded v_def u_def]
    obtain r R1 where l: "Reader_load_cached_segment E ?K R ?sl = Some (r, R1)"
      using assms(14) RP(1) [where E = E and K = ?K] by (cases "Reader_load_cached_segment E ?K R ?sl") auto
    have np: "r \<noteq> Panic" using RP(3) [where E = E and K = ?K] l assms(14,15) by auto
    note D = load_cached_guarded [OF assms(1-4) l np]
    show ?thesis
    proof (cases r)
      case (Ok x)
      then obtain p where p: "reader_seen S R1 i p" "SegmentBuffer_plaintext (rr_scratch R1) = Ok p" using D by auto
      have lp: "length p = seg_plain_len ?L i" using p(1) D by (simp add: reader_seen_def seen_def follows_def)
      have run: "Some (res, out', R') = Some (Ok (u - a), splice (v - a) (slice (v - i * ?k) (u - i * ?k) p) out, R1)"
        using RP(4) [OF _ p(2) lp, where E = E and K = ?K] l Ok assms(14) by simp
      have "length (slice (v - i * ?k) (u - i * ?k) p) = u - v" using vu(2,4,5) lp by (simp add: slice_def)
      from wrote [OF this p(1) refl] D run show ?thesis by auto
    next
      case (Err e)
      then show ?thesis using RP(2) [where E = E and K = ?K] l assms(14) D by auto
    qed (use np in simp)
  qed
qed

text \<open>What a run of the range loop over the segments \<open>i\<close> to \<open>l\<close> achieves; two such runs join.\<close>

definition range_done ::
  "'x env \<Rightarrow> prims \<Rightarrow> MessageLayout \<Rightarrow> nat \<Rightarrow> nat \<Rightarrow> nat \<Rightarrow> nat \<Rightarrow> ('x, 'r \<times> bytes) Reader \<Rightarrow> bytes \<Rightarrow>
    nat io_result \<times> bytes \<times> ('x, 'r \<times> bytes) Reader \<Rightarrow> bool" where
  "range_done E S L a b i l R out y \<longleftrightarrow> (case y of (res, out', R') \<Rightarrow> guarded E S R' \<and> follows R R' \<and>
    (\<forall>n. res = Ok n \<longrightarrow> n = range_to L b l - a \<and> length out' = length out \<and>
      take (range_from L a i - a) out' = take (range_from L a i - a) out \<and> (\<forall>j. i \<le> j \<longrightarrow> j \<le> l \<longrightarrow> reader_shown S R' a b out' j)))"

lemma range_done_join:
  assumes "range_done E S L a b i i R out (Ok n, out1, R1)" "range_done E S L a b (Suc i) l R1 out1 (res, out', R')"
    and "range_to L b i = range_from L a (Suc i)" "rr_layout R1 = L"
  shows "range_done E S L a b i l R out (res, out', R')"
proof -
  note one = assms(1) [unfolded range_done_def prod.case] and rest = assms(2) [unfolded range_done_def prod.case]
  have fol: "follows R R'" using follows_trans [of R R1 R'] one rest by blast
  have le: "range_from L a i \<le> range_from L a (Suc i)" by (auto simp: range_from_def)
  have keep: "take x out' = take x out1" if "res = Ok z" "x \<le> range_from L a (Suc i) - a" for x z
  proof -
    have "take x (take (range_from L a (Suc i) - a) out') = take x (take (range_from L a (Suc i) - a) out1)" using rest that(1) by simp
    then show ?thesis using that(2) by (simp add: min_def)
  qed
  have "reader_shown S R' a b out' i" if "res = Ok z" for z
  proof (rule reader_shown_follows [of S R1 a b out1 i])
    show "reader_shown S R1 a b out1 i" using one by blast
    show "slice (range_from (rr_layout R1) a i - a) (range_to (rr_layout R1) b i - a) out' =
        slice (range_from (rr_layout R1) a i - a) (range_to (rr_layout R1) b i - a) out1"
      unfolding assms(4) by (rule slice_of_take) (rule keep [OF that], simp add: assms(3))
  qed (use rest in blast)
  then have "reader_shown S R' a b out' j" if "res = Ok z" "i \<le> j" "j \<le> l" for j z
    using that rest by (cases "j = i") auto
  then show ?thesis using one rest fol keep [of _ "range_from L a i - a"] le by (auto simp: range_done_def diff_le_mono)
qed

lemma range_loop_guarded:
  assumes "lawful E S" "keeps_length (sr_read K)" "layout_ok L" "a < b" "b \<le> unat (ml_plaintext_length L)" "unat A = a" "unat B = b"
    and "l < unat (ml_segment_count L)" "l * psl (ml_parameters L) < b"
    and "guarded E S R" "rr_layout R = L" "i \<le> l" "a < segment_stop L i" "b - a \<le> length out"
    and "Reader_range_loop E (recorded_seekable K) (A, B) (map word_of_nat [i..<Suc l]) R (range_from L a i - a) out = Some (res, out', R')"
    and "res \<noteq> Panic"
  shows "range_done E S L a b i l R out (res, out', R')"
  using assms(10-)
proof (induction "l - i" arbitrary: R i out)
  case 0
  have il: "i = l" "[i..<Suc l] = [i]" using 0(1,4) by simp_all
  have "bind_io (Reader_range_step E (recorded_seekable K) (A, B) (word_of_nat i) R (range_from (rr_layout R) a i - a) out)
      (\<lambda>n (out', R'). Some (Ok n, out', R')) = Some (res, out', R')"
    using 0(7) [unfolded il(2)] 0(3) by (simp cong: prod.case_cong)
  then have step: "Reader_range_step E (recorded_seekable K) (A, B) (word_of_nat i) R (range_from (rr_layout R) a i - a) out = Some (res, out', R')"
    by (rule bind_io_return)
  from range_step_guarded [OF assms(1,2) 0(2) _ _ _ assms(4) _ assms(6,7) 0(6) step 0(8)] 0(3,5) il assms(5,8,9) show ?case
    by (auto simp: range_done_def)
next
  case (Suc m)
  let ?k = "psl (ml_parameters L)" and ?K = "recorded_seekable K"
  have il: "[i..<Suc l] = i # [Suc i..<Suc l]" "Suc i \<le> l" "m = l - Suc i" using Suc(2,5) by (simp_all add: upt_conv_Cons)
  have "Suc i * ?k \<le> l * ?k" using il(2) by (rule mult_le_mono1)
  then have kb: "Suc i * ?k < b" "i * ?k < b" using assms(9) by simp_all
  have stop: "segment_stop L i = Suc i * ?k" using il(2) assms(8) by (simp add: segment_stop_def seg_plain_len_def)
  have v: "range_to L b i = range_from L a (Suc i)" using stop kb Suc(6) by (simp add: range_to_def range_from_def)
  have ic: "i < unat (ml_segment_count (rr_layout R))" using assms(8) il(2) Suc(4) by simp
  obtain r out1 R1 where step: "Reader_range_step E ?K (A, B) (word_of_nat i) R (range_from L a i - a) out = Some (r, out1, R1)"
    using Suc(8) by (cases "Reader_range_step E ?K (A, B) (word_of_nat i) R (range_from L a i - a) out") (auto simp: il(1) simp del: upt_Suc)
  have np: "r \<noteq> Panic" using Suc(8,9) step by (auto simp: il(1) simp del: upt_Suc)
  have S: "range_done E S L a b i i R out (r, out1, R1)"
    using range_step_guarded [OF assms(1,2) Suc(3) ic _ _ assms(4) _ assms(6,7) Suc(7) _ np] step Suc(4,6) kb(2) assms(5)
    by (auto simp: range_done_def)
  note S' = S [unfolded range_done_def prod.case]
  show ?case
  proof (cases r)
    case (Ok n)
    then have n: "n = range_from L a (Suc i) - a" "length out1 = length out" using S' v by simp_all
    have loop: "Reader_range_loop E ?K (A, B) (map word_of_nat [Suc i..<Suc l]) R1 (range_from L a (Suc i) - a) out1 = Some (res, out', R')"
      using Suc(8) step Ok n(1) by (simp add: il(1) del: upt_Suc)
    have L1: "rr_layout R1 = L" using S' Suc(4) by (simp add: follows_def)
    have next_stop: "a < segment_stop L (Suc i)" using stop Suc(6) by (simp add: segment_stop_def)
    have "range_done E S L a b (Suc i) l R1 out1 (res, out', R')"
      by (rule Suc(1) [OF il(3) _ L1 il(2) next_stop _ loop Suc(9)]) (use S' n(2) Suc(7) in simp_all)
    from range_done_join [OF S [unfolded Ok] this v L1] show ?thesis .
  next
    case (Err e)
    then have "res = Err e" "R' = R1" using Suc(8) step by (simp_all add: il(1) del: upt_Suc)
    then show ?thesis using S' by (simp add: range_done_def)
  qed (use np in simp)
qed

text \<open>
  What a method leaves behind, on every path: \<open>leaves Q m\<close> when the state satisfies \<open>Q\<close> if \<open>m\<close> returns, with
  a value or an error. The rules follow the way the methods are put together.
\<close>

definition leaves :: "('s \<Rightarrow> bool) \<Rightarrow> ('a, 's) io \<Rightarrow> bool" where
  "leaves Q m \<longleftrightarrow> (\<forall>r s. m = Some (r, s) \<longrightarrow> Q s)"

lemma leaves_simps [simp]: "leaves Q None" "leaves Q (Some (r, s)) \<longleftrightarrow> Q s"
  by (simp_all add: leaves_def)

lemma leaves_try: "Q s \<Longrightarrow> (\<And>x. r = Ok x \<Longrightarrow> leaves Q (k x)) \<Longrightarrow> leaves Q (try_io r s k)"
  by (cases r) simp_all

lemma leaves_map: "(\<And>s. Q (f s)) \<Longrightarrow> leaves Q (map_state f m)"
  by (auto simp: leaves_def map_state_def split: option.splits)

lemma leaves_bind:
  assumes "leaves Q m" "\<And>x s. Q s \<Longrightarrow> leaves Q (k x s)"
  shows "leaves Q (bind_io m k)"
proof (cases m)
  case (Some y)
  obtain r s where y: "y = (r, s)" by (cases y)
  then have "Q s" using assms(1) Some by simp
  then show ?thesis using assms(2) Some y by (cases r) simp_all
qed simp

lemmas leaves_rules = leaves_try leaves_bind leaves_map

lemma load_keeps_position:
  assumes "Reader_load_cached_segment E K R sl = Some (res, R')"
  shows "rr_plaintext_position R' = rr_plaintext_position R"
proof -
  let ?Q = "\<lambda>R'. rr_plaintext_position R' = rr_plaintext_position R"
  have inner: "leaves ?Q (Reader_seek_inner_to K R1 offset)" if "?Q R1" for R1 offset
    using that by (auto simp: Reader_seek_inner_to_def Let_def intro!: leaves_bind leaves_map)
  have seek: "leaves ?Q (Reader_seek_to_segment K R1 sl)" if "?Q R1" for R1
    using that inner by (auto simp: Reader_seek_to_segment_def intro!: leaves_try)
  have "leaves ?Q (Reader_fetch_segment_ciphertext K R sl)"
    by (auto simp: Reader_fetch_segment_ciphertext_def Let_def intro!: leaves_rules seek split: prod.splits)
  then have "leaves ?Q (Reader_load_cached_segment E K R sl)"
    by (auto simp: Reader_load_cached_segment_def Reader_load_segment_def Let_def intro!: leaves_rules split: prod.splits)
  then show ?thesis using assms by simp
qed

lemma resolved_range_guarded:
  assumes "lawful E S" "keeps_length (sr_read K)" "guarded E S R" "unat A = a" "unat B = b"
    and "b \<le> unat (ml_plaintext_length (rr_layout R))" "b - a \<le> length out"
    and "Reader_read_resolved_range_into E (recorded_seekable K) R (A, B) out = Some (res, out', R')" "res \<noteq> Panic"
  shows "guarded E S R' \<and> follows R R' \<and> (\<forall>n. res = Ok n \<longrightarrow> n = b - a \<and> length out' = length out \<and>
    (\<forall>i. touches (rr_layout R) a b i \<longrightarrow> reader_shown S R' a b out' i))"
proof (cases "A < B")
  case False
  then have "\<not> a < b" using assms(4,5) by (simp add: word_less_nat_alt)
  then show ?thesis using False assms(3,8) by (auto simp: Reader_read_resolved_range_into_def touches_def)
next
  case True
  let ?L = "rr_layout R" and ?K = "recorded_seekable K"
  let ?k = "psl (ml_parameters ?L)"
  let ?i = "a div ?k" and ?j = "(b - 1) div ?k"
  have ab: "a < b" using True assms(4,5) by (simp add: word_less_nat_alt)
  have L: "layout_ok ?L" using assms(3) by (simp add: guarded_def reader_parts_ok_def)
  have "unat (B - 1) = b - 1" using ab assms(5) by (subst unat_sub) (auto simp: word_le_nat_alt)
  then have pos: "unat (MessageLayout_position_for_plaintext_offset ?L A) = ?i" "unat (MessageLayout_position_for_plaintext_offset ?L (B - 1)) = ?j"
    using position_for_offset [OF layout_okD(1) [OF L]] assms(4) by simp_all
  note T = touched_positions [OF L ab assms(6)]
  have touch: "touches ?L a b ?i" "touches ?L a b ?j" using T(1,2) by simp_all
  have stop: "range_to ?L b ?j = b" "range_from ?L a ?i = a"
    using T(4) by (simp_all add: range_to_def range_from_def max_absorb1 [OF div_times_less_eq_dividend])
  let ?loop = "Reader_range_loop E ?K (A, B) (map word_of_nat [?i..<Suc ?j]) R (range_from ?L a ?i - a) out"
  have run: "Reader_read_resolved_range_into E ?K R (A, B) out = bind_io ?loop (\<lambda>written s.
      if length_usize_to_u64 written = B - A then Some (Ok written, s) else Some (Panic, s))"
    using True stop by (simp add: Reader_read_resolved_range_into_def positions_between_def pos Let_def del: upt_Suc)
  then obtain r where loop: "?loop = Some (r, out', R')" "r \<noteq> Panic" "\<And>n. res = Ok n \<Longrightarrow> r = Ok n"
    using assms(8,9) by (cases ?loop; cases "fst (the ?loop)") (auto simp del: upt_Suc split: if_splits)
  from range_loop_guarded [OF assms(1,2) L ab assms(6,4,5) T(3) _ assms(3) refl T(2) _ assms(7) loop(1,2)] touch loop(3) stop T(1)
  show ?thesis by (auto simp: touches_def range_done_def)
qed

lemma read_range_guarded:
  assumes "lawful E S" "keeps_length (sr_read K)" "guarded E S R"
    and "Reader_read_range E (recorded_seekable K) R bounds = Some (res, R')" "res \<noteq> Panic"
  shows "guarded E S R' \<and> follows R R' \<and> (\<forall>out. res = Ok out \<longrightarrow> (\<exists>A B.
    resolve_bounds bounds (ml_plaintext_length (rr_layout R)) = Ok (A, B) \<and> length out = unat B - unat A \<and>
    (\<forall>i. touches (rr_layout R) (unat A) (unat B) i \<longrightarrow> reader_shown S R' (unat A) (unat B) out i)))"
proof (cases "resolve_bounds bounds (ml_plaintext_length (rr_layout R))")
  case (Ok bs)
  obtain A B where bs: "bs = (A, B)" by (cases bs)
  note le = resolve_bounds_valid(2) [OF Ok [unfolded bs]]
  have d: "unat (B - A) = unat B - unat A" using le by (simp add: unat_sub word_le_nat_alt)
  show ?thesis
  proof (cases "usize_try_from (pointer_width E) (B - A)")
    case None
    then show ?thesis using Ok bs assms(3,4) by (auto simp: Reader_read_range_def Reader_plaintext_length_def)
  next
    case (Some n)
    then have n: "n = unat B - unat A" using d by (auto simp: usize_try_from_def split: if_splits)
    obtain r out where r: "Reader_read_resolved_range_into E (recorded_seekable K) R (A, B) (replicate n 0) = Some (r, out, R')" "res = map_ok (\<lambda>_. out) r"
      using Ok bs Some assms(4) by (auto simp: Reader_read_range_def Reader_plaintext_length_def split: option.splits)
    have "r \<noteq> Panic" using r(2) assms(5) by auto
    from resolved_range_guarded [OF assms(1-3) refl refl _ _ r(1) this] le n r(2) Ok bs show ?thesis by (cases r) auto
  qed
qed (use assms in \<open>auto simp: Reader_read_range_def Reader_plaintext_length_def\<close>)

lemma read_range_into_guarded:
  assumes "lawful E S" "keeps_length (sr_read K)" "guarded E S R"
    and "Reader_read_range_into E (recorded_seekable K) R bounds out = Some (res, out', R')" "res \<noteq> Panic"
  shows "guarded E S R' \<and> follows R R'"
proof (cases "resolve_bounds bounds (ml_plaintext_length (rr_layout R))")
  case (Ok bs)
  obtain A B where bs: "bs = (A, B)" by (cases bs)
  note le = resolve_bounds_valid(2) [OF Ok [unfolded bs]]
  have d: "unat (B - A) = unat B - unat A" using le by (simp add: unat_sub word_le_nat_alt)
  show ?thesis
  proof (cases "usize_try_from (pointer_width E) (B - A)")
    case None
    then show ?thesis using Ok bs assms(3,4) by (auto simp: Reader_read_range_into_def Reader_plaintext_length_def)
  next
    case (Some n)
    then have n: "n = unat B - unat A" using d by (auto simp: usize_try_from_def split: if_splits)
    show ?thesis
    proof (cases "length out < n")
      case True
      then show ?thesis using Ok bs Some assms(3,4) by (auto simp: Reader_read_range_into_def Reader_plaintext_length_def)
    next
      case False
      then have "Reader_read_resolved_range_into E (recorded_seekable K) R (A, B) out = Some (res, out', R')"
        using Ok bs Some assms(4) by (simp add: Reader_read_range_into_def Reader_plaintext_length_def)
      from resolved_range_guarded [OF assms(1-3) refl refl _ _ this assms(5)] le n False show ?thesis by simp
    qed
  qed
qed (use assms in \<open>auto simp: Reader_read_range_into_def Reader_plaintext_length_def\<close>)

lemma moved [simp]:
  "guarded E S (R\<lparr> rr_plaintext_position := w \<rparr>) = guarded E S R"
  "follows R0 (R\<lparr> rr_plaintext_position := w \<rparr>) = follows R0 R"
  "reader_seen S (R\<lparr> rr_plaintext_position := w \<rparr>) = reader_seen S R"
  by (simp_all add: guarded_def follows_def reader_seen_def reader_parts_ok_def fun_eq_iff)

lemma read_guarded:
  assumes "lawful E S" "keeps_length (sr_read K)" "guarded E S R"
    and "Reader_read E (recorded_seekable K) R out = Some (res, out', R')" "res \<noteq> Panic"
  defines "n \<equiv> unat (rr_plaintext_position R)" and "k \<equiv> psl (ml_parameters (rr_layout R))"
  shows "guarded E S R' \<and> follows R R' \<and> (\<forall>m. res = Ok m \<longrightarrow> 0 < m \<longrightarrow>
    (\<exists>p. reader_seen S R' (n div k) p \<and> take m out' = slice (n mod k) (n mod k + m) p))"
proof (cases "out = [] \<or> unat (ml_plaintext_length (rr_layout R)) \<le> n")
  case True
  then have "Some (res, out', R') = Some (Ok 0, out, R)"
    using assms(4) by (auto simp: Reader_read_def Reader_plaintext_length_def n_def word_le_nat_alt split: if_splits)
  then show ?thesis using assms(3) by simp
next
  case False
  let ?K = "recorded_seekable K" and ?sl = "segment_spec (rr_layout R) (n div k)"
  have L: "layout_ok (rr_layout R)" using assms(3) by (simp add: guarded_def reader_parts_ok_def)
  have n: "unat (rr_plaintext_position R) = n" "n < unat (ml_plaintext_length (rr_layout R))" "out \<noteq> []" using False by (simp_all add: n_def)
  note seg = read_segment_at [OF L n(1,2), folded k_def]
  obtain r R1 where l: "Reader_load_cached_segment E ?K R ?sl = Some (r, R1)"
    using assms(4) seg(2) [OF n(3), of E ?K] by (cases "Reader_load_cached_segment E ?K R ?sl") auto
  have np: "r \<noteq> Panic" using seg(4) [OF n(3), of E ?K R1] l assms(4,5) by auto
  note D = load_cached_guarded [OF assms(1-3) seg(1) l np]
  show ?thesis
  proof (cases r)
    case (Err e)
    then have "Some (res, out', R') = Some (Err e, out, R1)" using seg(3) [OF n(3), of E ?K e R1] l assms(4) by simp
    then show ?thesis using D by simp
  next
    case (Ok x)
    then obtain p where p: "reader_seen S R1 (n div k) p" "SegmentBuffer_plaintext (rr_scratch R1) = Ok p" using D by auto
    have lp: "length p = seg_plain_len (rr_layout R) (n div k)" using p(1) D by (simp add: reader_seen_def seen_def follows_def)
    have l': "Reader_load_cached_segment E ?K R ?sl = Some (Ok (), R1)" using l Ok by simp
    obtain m w where m: "0 < m" "m \<le> length out" "n mod k + m \<le> length p"
        "Reader_read E ?K R out = Some (Ok m, splice 0 (slice (n mod k) (n mod k + m) p) out, R1\<lparr> rr_plaintext_position := w \<rparr>)"
      by (rule seg(5) [OF n(3) l' p(2) lp load_keeps_position [OF l]]) (simp add: minus_div_mult_eq_mod)
    have R': "R' = R1\<lparr> rr_plaintext_position := w \<rparr>" "out' = splice 0 (slice (n mod k) (n mod k + m) p) out" "res = Ok m"
      using assms(4) m(4) by simp_all
    have "take m out' = slice (n mod k) (n mod k + m) p" using m(2,3) by (simp add: R'(2) splice_0_take)
    moreover have "guarded E S R'" "follows R R'" "reader_seen S R' (n div k) p"
      using D p(1) by (simp_all add: R'(1))
    ultimately show ?thesis using R'(3) by auto
  qed (use np in simp)
qed

lemma read_segment_into_guarded:
  assumes "lawful E S" "keeps_length (sr_read K)" "guarded E S R"
    and "Reader_read_segment_into E (recorded_seekable K) R position out = Some (res, out', R')" "res \<noteq> Panic"
  shows "guarded E S R' \<and> follows R R' \<and> (\<forall>m. res = Ok m \<longrightarrow> reader_seen S R' (unat position) (take m out') \<and> m \<le> length out')"
proof (cases "unat position < unat (ml_segment_count (rr_layout R))")
  case False
  have "\<exists>e. Reader_segment E R position = Err e" using False by (simp add: Reader_segment_def MessageLayout_segment_for_position_def word_le_nat_alt)
  then show ?thesis using assms(3,4) by (auto simp: Reader_read_segment_into_def)
next
  case True
  let ?K = "recorded_seekable K" and ?sl = "segment_spec (rr_layout R) (unat position)"
  let ?n = "seg_plain_len (rr_layout R) (unat position)"
  have L: "layout_ok (rr_layout R)" using assms(3) by (simp add: guarded_def reader_parts_ok_def)
  have sl: "Reader_segment E R position = Ok ?sl" "sl_plaintext_length ?sl = ?n"
    using Reader_segment_eq [OF L True, of E] by (simp_all add: segment_spec_def)
  show ?thesis
  proof (cases "length out < ?n")
    case small: True
    then show ?thesis using assms(3,4) sl by (auto simp: Reader_read_segment_into_def)
  next
    case False
    then have run: "bind_io (map_state (\<lambda>(o', R'). (splice 0 o' out, R')) (Reader_decrypt_segment_direct E ?K R ?sl (take ?n out))) (\<lambda>_ s. Some (Ok ?n, s))
        = Some (res, out', R')"
      using assms(4) sl by (simp add: Reader_read_segment_into_def Let_def)
    obtain r part R1 where d: "Reader_decrypt_segment_direct E ?K R ?sl (take ?n out) = Some (r, part, R1)"
      using run by (cases "Reader_decrypt_segment_direct E ?K R ?sl (take ?n out)") auto
    note V = bind_io_value [OF run [unfolded d]]
    have T: "R' = R1" "out' = splice 0 part out" "r \<noteq> Panic" "\<And>m. res = Ok m \<Longrightarrow> r = Ok () \<and> m = ?n" using V(1,3) V(2) assms(5) by auto
    have "length (take ?n out) = ?n" using False by simp
    note D = direct_guarded [OF assms(1-3) True this d T(3)]
    then have "length part = ?n" "take ?n out' = part" "?n \<le> length out'" using False by (simp_all add: T(2) splice_0_take)
    then show ?thesis using D T(1,4) by auto
  qed
qed

section \<open>Arbitrary use of a reader\<close>

text \<open>
  Any calls on a reader, whether they succeed or fail; between two calls the client may also replace
  the wrapped reader by any other.
\<close>

inductive used :: "'x env \<Rightarrow> ('r \<times> bytes) seekable \<Rightarrow> ('x, 'r \<times> bytes) Reader \<Rightarrow> ('x, 'r \<times> bytes) Reader \<Rightarrow> bool" for E K R where
  used_none: "used E K R R"
| used_range: "used E K R R1 \<Longrightarrow> Reader_read_range E K R1 bounds = Some (res, R2) \<Longrightarrow> res \<noteq> Panic \<Longrightarrow> used E K R R2"
| used_range_into: "used E K R R1 \<Longrightarrow> Reader_read_range_into E K R1 bounds out = Some (res, out', R2) \<Longrightarrow> res \<noteq> Panic \<Longrightarrow> used E K R R2"
| used_segment: "used E K R R1 \<Longrightarrow> Reader_read_segment_into E K R1 position out = Some (res, out', R2) \<Longrightarrow> res \<noteq> Panic \<Longrightarrow> used E K R R2"
| used_read: "used E K R R1 \<Longrightarrow> Reader_read E K R1 out = Some (res, out', R2) \<Longrightarrow> res \<noteq> Panic \<Longrightarrow> used E K R R2"
| used_seek: "used E K R R1 \<Longrightarrow> Reader_seek R1 target = Some (res, R2) \<Longrightarrow> used E K R R2"
| used_get_mut: "used E K R R1 \<Longrightarrow> used E K R (snd (Reader_get_mut R1) (r, snd (rr_inner R1)))"

lemma seek_guarded:
  assumes "guarded E S R" "Reader_seek R target = Some (res, R')"
  shows "guarded E S R' \<and> follows R R'"
proof -
  obtain w where "R' = R\<lparr> rr_plaintext_position := w \<rparr>"
  proof (cases "res")
    case (Ok w)
    then show thesis using that [of w] assms(2) by (auto simp: Reader_seek_def Let_def split: SeekFrom.splits option.splits)
  qed (use that [of "rr_plaintext_position R"] assms(2) in \<open>auto simp: Reader_seek_def Let_def split: SeekFrom.splits option.splits\<close>)
  then show ?thesis using assms(1) by simp
qed

lemma get_mut_guarded:
  assumes "guarded E S R"
  shows "guarded E S (snd (Reader_get_mut R) (r, snd (rr_inner R))) \<and> follows R (snd (Reader_get_mut R) (r, snd (rr_inner R)))"
  using assms by (simp add: Reader_get_mut_def Let_def guarded_def follows_def reader_seen_def reader_parts_ok_def)

lemma used_guarded:
  assumes "used E (recorded_seekable K) R R'" "lawful E S" "keeps_length (sr_read K)" "guarded E S R"
  shows "guarded E S R' \<and> follows R R'"
  using assms(1)
proof induction
  case used_none
  then show ?case using assms(4) by simp
next
  case (used_range R1 bounds res R2)
  then show ?case using read_range_guarded [OF assms(2,3) _ used_range(2,3)] follows_trans [of R R1 R2] by blast
next
  case (used_range_into R1 bounds out res out' R2)
  then show ?case using read_range_into_guarded [OF assms(2,3) _ used_range_into(2,3)] follows_trans [of R R1 R2] by blast
next
  case (used_segment R1 position out res out' R2)
  then show ?case using read_segment_into_guarded [OF assms(2,3) _ used_segment(2,3)] follows_trans [of R R1 R2] by blast
next
  case (used_read R1 out res out' R2)
  then show ?case using read_guarded [OF assms(2,3) _ used_read(2,3)] follows_trans [of R R1 R2] by blast
next
  case (used_seek R1 target res R2)
  then show ?case using seek_guarded [OF _ used_seek(2)] follows_trans [of R R1 R2] by blast
next
  case (used_get_mut R1 r)
  then show ?case using get_mut_guarded [of E S R1 r] follows_trans [of R R1] by blast
qed

section \<open>Opening over any source\<close>

lemma body_start_recorded:
  assumes "Reader_seek_to_body_start (recorded_seekable K) R = Some (res, R1)"
  obtains inner pos where "R1 = R\<lparr> rr_inner := inner, rr_inner_position := pos \<rparr>" "snd inner = snd (rr_inner R)"
proof (cases "checked_add (rr_message_start R) HEADER_LENGTH_U64")
  case None
  then have "R1 = R\<lparr> rr_inner := rr_inner R, rr_inner_position := rr_inner_position R \<rparr>" using assms by (auto simp: Reader_seek_to_body_start_def)
  then show thesis using that by blast
next
  case (Some offset)
  then have "Reader_seek_inner_to (recorded_seekable K) R offset = Some (res, R1)" using assms by (simp add: Reader_seek_to_body_start_def)
  then show thesis by (rule seek_recorded) (rule that)
qed

lemma from_parts_guarded:
  assumes "lawful E S" "keeps_length (sr_read K)" "dec_state_ok E st"
    and "Reader_from_parts E (recorded_seekable K) inner st H start len = Some (Ok R, s)"
  shows "guarded E S R" "ds_context (rr_state R) = ds_context st" "rr_header R = H" "prefix (snd inner) (snd (rr_inner R))"
    "\<exists>p. reader_seen S R (unat (ml_segment_count (rr_layout R)) - 1) p"
proof -
  let ?P = "mc_parameters (ds_context st)" and ?K = "recorded_seekable K"
  have P: "params_ok ?P" using dec_state_okD(1) [OF assms(3)] by (simp add: context_ok_def)
  obtain L where Ok: "Parameters_ciphertext_layout (pointer_width E) ?P len = Ok L"
    using assms(4) by (cases "Parameters_ciphertext_layout (pointer_width E) ?P len")
      (auto simp: Reader_from_parts_def DecryptionState_parameters_def)
  note L = ciphertext_layout_okD [OF P Ok]
  let ?i = "unat (ml_segment_count L) - 1"
  let ?R = "\<lparr> rr_inner = inner, rr_state = st, rr_header = H, rr_layout = L, rr_message_start = start, rr_scratch = SegmentBuffer_new ?P,
    rr_plaintext_position = 0, rr_cached_position = None, rr_inner_position = None \<rparr>"
  have i: "?i < unat (ml_segment_count (rr_layout ?R))" using layout_okD(2) [OF L(1)] by simp
  have parts: "reader_parts_ok E (\<lambda>_ _. True) ?R"
    using assms(3) L SegmentBuffer_new_ok [OF P] by (auto simp: reader_parts_ok_def SegmentBuffer_new_def)
  have run: "(case Reader_load_segment E ?K ?R (segment_spec (rr_layout ?R) ?i) of
        None \<Rightarrow> None
      | Some (res, reader1) \<Rightarrow>
          try_io res (rr_inner reader1) (\<lambda>_.
          let reader2 = reader1\<lparr> rr_scratch := SegmentBuffer_clear E (rr_scratch reader1), rr_cached_position := None \<rparr>
          in case Reader_seek_to_body_start ?K reader2 of
            None \<Rightarrow> None
          | Some (r, reader3) \<Rightarrow> Some (map_ok (\<lambda>_. reader3) r, rr_inner reader3))) = Some (Ok R, s)"
    using assms(4) Ok by (simp add: final_segment_spec [OF L(1)] Reader_from_parts_def DecryptionState_parameters_def Let_def)
  obtain R1 where load: "Reader_load_segment E ?K ?R (segment_spec (rr_layout ?R) ?i) = Some (Ok (), R1)"
    using run by (cases "Reader_load_segment E ?K ?R (segment_spec (rr_layout ?R) ?i)"; cases "fst (the (Reader_load_segment E ?K ?R (segment_spec (rr_layout ?R) ?i)))") auto
  let ?R2 = "R1\<lparr> rr_scratch := SegmentBuffer_clear E (rr_scratch R1), rr_cached_position := None \<rparr>"
  have seek: "\<exists>r. Reader_seek_to_body_start ?K ?R2 = Some (r, R)"
    using run load by (cases "Reader_seek_to_body_start ?K ?R2"; cases "fst (the (Reader_seek_to_body_start ?K ?R2))") (auto simp: Let_def)
  then obtain inner' pos where R: "R = ?R2\<lparr> rr_inner := inner', rr_inner_position := pos \<rparr>" "snd inner' = snd (rr_inner ?R2)"
    by (elim exE, elim body_start_recorded)
  note G = load_guarded [OF assms(1,2) parts i load]
  have parts1: "reader_parts_ok E (\<lambda>_ _. True) R1" using G by (simp add: guarded_def)
  have "buffer_ok (rr_scratch R)" "sb_parameters (rr_scratch R) = sb_parameters (rr_scratch R1)"
    using SegmentBuffer_clear_ok(1,4) [OF assms(1)] reader_partsD(4) [OF parts1] by (simp_all add: R(1))
  then have "reader_parts_ok E (\<lambda>_ _. True) R" using parts1 by (simp add: R(1) reader_parts_ok_def)
  then show "guarded E S R" by (simp add: guarded_def R(1))
  have F: "ds_context (rr_state R) = ds_context (rr_state R1)" "rr_layout R = rr_layout R1" "rr_header R = rr_header R1"
      "snd (rr_inner R) = snd (rr_inner R1)" "follows ?R R1"
    using G R(2) by (simp_all add: R(1))
  then show "ds_context (rr_state R) = ds_context st" "rr_header R = H" "prefix (snd inner) (snd (rr_inner R))"
    by (simp_all add: follows_def)
  have "rr_layout R = L" using F(2,5) by (simp add: follows_def)
  then show "\<exists>p. reader_seen S R (unat (ml_segment_count (rr_layout R)) - 1) p" using G F(1,2,4) by (auto simp: reader_seen_def)
qed

lemma Reader_new_guarded:
  assumes "lawful E S" "keeps_length (sr_read K)" "Reader_new E (recorded_seekable K) (r, []) key aad = Some (Ok R, s)"
  obtains st where "start_decryption_inferred E key aad (rr_header R) = Ok st" "ds_context (rr_state R) = ds_context st" "guarded E S R"
    "prefix (header_bytes (rr_header R)) (snd (rr_inner R))" "\<exists>p. reader_seen S R (unat (ml_segment_count (rr_layout R)) - 1) p"
proof -
  let ?K = "recorded_seekable K"
  obtain start r1 where p1: "sr_position K r = Some (Ok start, r1)"
    using assms(3) by (cases "sr_position K r"; cases "fst (the (sr_position K r))")
      (auto simp: Reader_new_def recorded_seekable_def map_state_def)
  then have pos: "sr_position ?K (r, []) = Some (Ok start, (r1, []))" by (simp add: recorded_seekable_def)
  obtain H s2 where H: "read_header (sr_read ?K) (r1, []) = Some (Ok H, s2)"
    using assms(3) pos by (cases "read_header (sr_read ?K) (r1, [])"; cases "fst (the (read_header (sr_read ?K) (r1, [])))") (auto simp: Reader_new_def)
  then have H': "read_header (recorded (sr_read K)) (r1, []) = Some (Ok H, s2)" by (simp add: recorded_seekable_def)
  note HL = read_header_recorded [OF assms(2) H']
  obtain st where st: "start_decryption_inferred E key aad H = Ok st"
    using assms(3) pos H by (cases "start_decryption_inferred E key aad H") (auto simp: Reader_new_def)
  obtain len s3 where len: "remaining_length ?K s2 start = Some (Ok len, s3)"
    using assms(3) pos H st by (cases "remaining_length ?K s2 start"; cases "fst (the (remaining_length ?K s2 start))") (auto simp: Reader_new_def)
  have s3: "snd s3 = snd s2"
  proof -
    have "leaves (\<lambda>s. snd s = snd s2) (remaining_length ?K s2 start)"
      unfolding remaining_length_def by (rule leaves_bind) (auto simp: recorded_seekable_def intro!: leaves_map)
    then show ?thesis using len by simp
  qed
  have parts: "Reader_from_parts E ?K s3 st H start len = Some (Ok R, s)" using assms(3) pos H st len by (simp add: Reader_new_def)
  have "dec_state_ok E st"
    by (rule start_inferred_cases [OF assms(1) HL(1), of key aad]) (use st in auto)
  note G = from_parts_guarded [OF assms(1,2) this parts]
  show thesis by (rule that [OF _ G(2,1) _ G(5)]) (use G(3,4) st HL(2) s3 in simp_all)
qed

section \<open>Properties\<close>

text \<open>Recording changes nothing that a client of a seekable reader can see; a cursor keeps the buffer's length.\<close>

lemma recorded_seekable_source:
  fixes K :: "'r seekable"
  assumes "seekable_source K c at patience"
  shows "seekable_source (recorded_seekable K) c (\<lambda>s. at (fst s)) (\<lambda>s. patience (fst s))"
proof -
  note src = seekable_source.axioms(1) [OF assms]
  note bs = recorded_source [OF src]
  have "seekable_source_axioms (recorded_seekable K) c (\<lambda>s. at (fst s))"
  proof
    show "length c < 2 ^ 64" by (rule seekable_source.contents_length [OF assms])
  next
    fix r :: "'r \<times> bytes" and n m
    assume "at (fst r) n"
    from seekable_source.seek_start [OF assms this, of m]
    show "\<exists>r'. sr_seek (recorded_seekable K) r (SeekStart m) = Some (Ok m, r') \<and> at (fst r') (unat m)"
      by (auto simp: recorded_seekable_def)
  next
    fix r :: "'r \<times> bytes" and n
    assume "at (fst r) n"
    from seekable_source.seek_end [OF assms this]
    show "\<exists>r'. sr_seek (recorded_seekable K) r (SeekEnd 0) = Some (Ok (word_of_nat (length c)), r') \<and> at (fst r') (length c)"
      by (auto simp: recorded_seekable_def)
  next
    fix r :: "'r \<times> bytes" and n and buf :: bytes
    assume "at (fst r) n" "length c < n" "buf \<noteq> []"
    from seekable_source.past_end [OF assms this]
    show "\<exists>buf' r'. sr_read (recorded_seekable K) r buf = Some (Ok 0, buf', r') \<and> length buf' = length buf \<and> at (fst r') n"
      by (auto simp: recorded_seekable_def recorded_def)
  next
    fix r :: "'r \<times> bytes" and n
    assume "at (fst r) n" "n \<le> length c"
    from seekable_source.position [OF assms this]
    show "\<exists>r'. sr_position (recorded_seekable K) r = Some (Ok (word_of_nat n), r') \<and> at (fst r') n"
      by (auto simp: recorded_seekable_def)
  qed
  then show ?thesis using bs by (simp add: seekable_source_def recorded_seekable_def)
qed

lemma cursor_read_keeps_length: "keeps_length (sr_read cursor)"
  by (auto simp: keeps_length_def cursor_def cursor_read_def Let_def split: prod.splits)

text \<open>
  C14: Random access releases only authenticated plaintext, whatever the wrapped reader does: it may
  read short, fail, seek to the wrong place, report a wrong position or length, return forged, moved
  or changing bytes, and be replaced by the client between two calls. Opening succeeds only when a
  header that starts the decryption state and an authentic final segment of the layout were read.
  After any calls, failed ones included: a range read that succeeds returns as many bytes as the range
  has, and its part in each segment the range overlaps is that part of an authentic segment of the
  same message, for exactly that position and kind, that was read from the source; a segment read
  returns the whole of such a segment, and a sequential read the part of one at the reader's position.
\<close>

theorem random_access_authentic:
  assumes "lawful E S" "keeps_length (sr_read K)" "Reader_new E (recorded_seekable K) (r, []) key aad = Some (Ok R, s)"
    and "used E (recorded_seekable K) R R1"
  shows "\<exists>st. start_decryption_inferred E key aad (rr_header R) = Ok st \<and> prefix (header_bytes (rr_header R)) (snd (rr_inner R)) \<and>
    (\<exists>p. seen S (ds_context st) (rr_layout R) (snd (rr_inner R)) (unat (ml_segment_count (rr_layout R)) - 1) p) \<and>
    (\<forall>bounds out R2. Reader_read_range E (recorded_seekable K) R1 bounds = Some (Ok out, R2) \<longrightarrow>
      (\<exists>A B. resolve_bounds bounds (ml_plaintext_length (rr_layout R)) = Ok (A, B) \<and> length out = unat B - unat A \<and>
        (\<forall>i. touches (rr_layout R) (unat A) (unat B) i \<longrightarrow>
          shown S (ds_context st) (rr_layout R) (snd (rr_inner R2)) (unat A) (unat B) out i))) \<and>
    (\<forall>position buf n buf' R2. Reader_read_segment_into E (recorded_seekable K) R1 position buf = Some (Ok n, buf', R2) \<longrightarrow>
      seen S (ds_context st) (rr_layout R) (snd (rr_inner R2)) (unat position) (take n buf')) \<and>
    (\<forall>buf n buf' R2. Reader_read E (recorded_seekable K) R1 buf = Some (Ok n, buf', R2) \<longrightarrow> 0 < n \<longrightarrow>
      (\<exists>p. seen S (ds_context st) (rr_layout R) (snd (rr_inner R2)) (unat (rr_plaintext_position R1) div psl (ml_parameters (rr_layout R))) p \<and>
        take n buf' = slice (unat (rr_plaintext_position R1) mod psl (ml_parameters (rr_layout R)))
          (unat (rr_plaintext_position R1) mod psl (ml_parameters (rr_layout R)) + n) p))"
proof -
  obtain st where st: "start_decryption_inferred E key aad (rr_header R) = Ok st" "ds_context (rr_state R) = ds_context st" "guarded E S R"
      "prefix (header_bytes (rr_header R)) (snd (rr_inner R))" "\<exists>p. reader_seen S R (unat (ml_segment_count (rr_layout R)) - 1) p"
    by (rule Reader_new_guarded [OF assms(1-3)])
  have G: "guarded E S R1" "follows R R1" using used_guarded [OF assms(4,1,2) st(3)] by simp_all
  have here: "rr_layout R1 = rr_layout R" "\<And>R2. follows R1 R2 \<Longrightarrow> ds_context (rr_state R2) = ds_context st \<and> rr_layout R2 = rr_layout R"
    using G(2) st(2) by (auto simp: follows_def)
  show ?thesis
  proof (intro exI [of _ st] conjI allI impI)
    fix bounds out R2
    assume "Reader_read_range E (recorded_seekable K) R1 bounds = Some (Ok out, R2)"
    note T = read_range_guarded [OF assms(1,2) G(1) this]
    show "\<exists>A B. resolve_bounds bounds (ml_plaintext_length (rr_layout R)) = Ok (A, B) \<and> length out = unat B - unat A \<and>
        (\<forall>i. touches (rr_layout R) (unat A) (unat B) i \<longrightarrow>
          shown S (ds_context st) (rr_layout R) (snd (rr_inner R2)) (unat A) (unat B) out i)"
      using T here(1) here(2) [of R2] by (simp add: reader_shown_def)
  next
    fix position buf n buf' R2
    assume "Reader_read_segment_into E (recorded_seekable K) R1 position buf = Some (Ok n, buf', R2)"
    note T = read_segment_into_guarded [OF assms(1,2) G(1) this]
    show "seen S (ds_context st) (rr_layout R) (snd (rr_inner R2)) (unat position) (take n buf')"
      using T here(2) [of R2] by (simp add: reader_seen_def)
  next
    fix buf n buf' R2
    assume "Reader_read E (recorded_seekable K) R1 buf = Some (Ok n, buf', R2)" "0 < n"
    note T = read_guarded [OF assms(1,2) G(1) this(1)]
    show "\<exists>p. seen S (ds_context st) (rr_layout R) (snd (rr_inner R2)) (unat (rr_plaintext_position R1) div psl (ml_parameters (rr_layout R))) p \<and>
        take n buf' = slice (unat (rr_plaintext_position R1) mod psl (ml_parameters (rr_layout R)))
          (unat (rr_plaintext_position R1) mod psl (ml_parameters (rr_layout R)) + n) p"
      using T here(1) here(2) [of R2] \<open>0 < n\<close> by (simp add: reader_seen_def)
  qed (use st in \<open>simp_all add: reader_seen_def\<close>)
qed

theorem random_access_authentic_witness:
  "\<exists>c R s R2 st p A B. Reader_new toy_env (recorded_seekable cursor) (([1, 2, 3] @ c, 3), []) (toy_key Provider_RING) [5] = Some (Ok R, s) \<and>
    Reader_read_range toy_env (recorded_seekable cursor) R (Included 30, Excluded 65) = Some (Ok (replicate 35 9), R2) \<and>
    resolve_bounds (Included 30, Excluded 65) (ml_plaintext_length (rr_layout R)) = Ok (A, B) \<and> 35 = unat B - unat A \<and>
    start_decryption_inferred toy_env (toy_key Provider_RING) [5] (rr_header R) = Ok st \<and>
    seen toy_prims (ds_context st) (rr_layout R) (snd (rr_inner R)) (unat (ml_segment_count (rr_layout R)) - 1) p"
proof -
  let ?key = "toy_key Provider_RING" and ?K = "recorded_seekable cursor"
  obtain c where c: "decrypt toy_env ?key [5] c = Ok (replicate 70 9)" "length c < 2 ^ 32" by (rule toy_stored) blast
  let ?at = "\<lambda>s n. fst s = ([1, 2, 3] @ c, word_of_nat n :: u64) \<and> n < 2 ^ 64"
  note src = recorded_seekable_source [OF toy_contents [OF c(2)]]
  obtain R where R: "Reader_new toy_env ?K (([1, 2, 3] @ c, 3), []) ?key [5] = Some (Ok R, rr_inner R)"
      "reader_over toy_env toy_prims ([1, 2, 3] @ c) ?at (replicate 70 9) R"
    by (rule seekable_source.Reader_new_cases [OF src toy_lawful, of "(([1, 2, 3] @ c, 3), [])" 3 ?key "[5]"])
      (use c in auto)
  have ok: "reader_ok toy_env toy_prims ([1, 2, 3] @ c) ?at R" and plain: "reader_plain toy_prims ([1, 2, 3] @ c) R = replicate 70 9"
    and auth: "range_authentic toy_prims ([1, 2, 3] @ c) R 30 65"
    using R(2) by (auto simp: reader_over_def range_authentic_def touches_def)
  have "unat (ml_plaintext_length (rr_layout R)) = 70" using reader_plain_chunks(1) [OF lawfulD(1) [OF toy_lawful] ok] plain by simp
  then have b: "resolve_bounds (Included 30, Excluded 65) (ml_plaintext_length (rr_layout R)) = Ok (30, 65)"
    by (simp add: resolve_bounds_def validate_range_def word_less_nat_alt)
  have u: "\<not> usize_max (pointer_width toy_env) < 35" using usize_max_ge [of "pointer_width toy_env"] by simp
  from seekable_source.read_range_spec [OF src toy_lawful ok, of "(Included 30, Excluded 65)"] b auth u plain
  obtain R2 where R2: "Reader_read_range toy_env ?K R (Included 30, Excluded 65) = Some (Ok (replicate 35 9), R2)"
    by (auto simp: slice_def)
  from random_access_authentic [OF toy_lawful cursor_read_keeps_length R(1) used_none]
  obtain st p where "start_decryption_inferred toy_env ?key [5] (rr_header R) = Ok st"
      "seen toy_prims (ds_context st) (rr_layout R) (snd (rr_inner R)) (unat (ml_segment_count (rr_layout R)) - 1) p"
      "\<exists>A B. resolve_bounds (Included 30, Excluded 65) (ml_plaintext_length (rr_layout R)) = Ok (A, B) \<and>
        length (replicate 35 9 :: bytes) = unat B - unat A"
    using R2 by (elim exE conjE) (drule spec, drule spec, drule spec, drule (1) mp, blast)
  then show ?thesis using R2 R(1) by (simp only: length_replicate) blast
qed

end
