(* ===== verification/Floe_Random_Seeks.thy ===== *)
theory Floe_Random_Seeks
  imports Floe_Random_Reader
begin

text \<open>
  The seeks of a random-access reader. The reader remembers the position of the wrapped reader while it is
  certain of it, so that contiguous segments are read without a seek. That an operation does not seek is
  stated by replacing the seek operation of the wrapped reader: the outcome stays the same.
\<close>

section \<open>Where the wrapped reader is\<close>

text \<open>
  The position of the wrapped reader at which segment \<open>i\<close> starts, and the one behind it; and the fields of a reader
  that reading segments leaves alone.
\<close>

definition segment_place :: "('x, 'r) Reader \<Rightarrow> nat \<Rightarrow> u64 option" where
  "segment_place R i = checked_add (rr_message_start R) (sl_ciphertext_offset (segment_spec (rr_layout R) i))"

definition place_after :: "('x, 'r) Reader \<Rightarrow> nat \<Rightarrow> u64 option" where
  "place_after R i = Option.bind (segment_place R i) (\<lambda>position.
    checked_add position (length_usize_to_u64 (sl_ciphertext_length (segment_spec (rr_layout R) i))))"

definition same_place :: "('x, 'r) Reader \<Rightarrow> ('x, 'r) Reader \<Rightarrow> bool" where
  "same_place R R' \<longleftrightarrow> rr_layout R' = rr_layout R \<and> rr_message_start R' = rr_message_start R \<and>
    rr_plaintext_position R' = rr_plaintext_position R"

lemma same_place_simps:
  assumes "same_place R R'"
  shows "segment_place R' i = segment_place R i" "place_after R' i = place_after R i" "rr_layout R' = rr_layout R"
    "rr_plaintext_position R' = rr_plaintext_position R"
  using assms by (simp_all add: same_place_def segment_place_def place_after_def)

text \<open>A segment that is not the last ends where the next one starts.\<close>

lemma place_after_next:
  assumes "layout_ok (rr_layout R)" "Suc i < unat (ml_segment_count (rr_layout R))"
  shows "place_after R i = segment_place R (Suc i)"
proof -
  let ?L = "rr_layout R"
  have i: "i < unat (ml_segment_count ?L)" using assms(2) by simp
  note A = segment_end(2,3) [OF assms(1) i] and B = segment_end(2) [OF assms(1,2)]
  have n: "seg_plain_len ?L i + 32 = csl (ml_parameters ?L)"
    using assms(2) csl_psl [OF layout_okD(1) [OF assms(1)]] by (simp add: seg_plain_len_def)
  have "csl (ml_parameters ?L) < 2 ^ 64"
    using B unat_less_64 [of "sl_ciphertext_offset (segment_spec ?L (Suc i))"] by simp
  then have u: "unat (length_usize_to_u64 (sl_ciphertext_length (segment_spec ?L i))) = csl (ml_parameters ?L)"
    using A(2) n by (simp add: length_usize_to_u64_def unat_of_nat_u64)
  have B': "unat (sl_ciphertext_offset (segment_spec ?L (Suc i))) = unat (sl_ciphertext_offset (segment_spec ?L i)) + csl (ml_parameters ?L)"
    using A(1) B by simp
  then have add: "sl_ciphertext_offset (segment_spec ?L (Suc i)) =
      sl_ciphertext_offset (segment_spec ?L i) + length_usize_to_u64 (sl_ciphertext_length (segment_spec ?L i))"
    using u B' unat_less_64 [of "sl_ciphertext_offset (segment_spec ?L (Suc i))"]
    by (simp add: word_unat_eq_iff unat_word_ariths)
  show ?thesis
    using u B' by (auto simp: place_after_def segment_place_def checked_add_def add unat_word_ariths add.assoc split: if_splits)
qed

text \<open>
  Two seekable readers that read the same, and seek the same from where the wrapped reader is, unless
  its position is known to be that of segment \<open>i\<close>.
\<close>

definition same_seeks :: "'r seekable \<Rightarrow> 'r seekable \<Rightarrow> ('x, 'r) Reader \<Rightarrow> nat \<Rightarrow> bool" where
  "same_seeks K K' R i \<longleftrightarrow> sr_read K' = sr_read K \<and>
    (rr_inner_position R = segment_place R i \<or> sr_seek K' (rr_inner R) = sr_seek K (rr_inner R))"

lemma fetch_same:
  assumes "same_seeks K K' R i"
  shows "Reader_fetch_segment_ciphertext K' R (segment_spec (rr_layout R) i) = Reader_fetch_segment_ciphertext K R (segment_spec (rr_layout R) i)"
proof -
  let ?R = "R\<lparr> rr_cached_position := None \<rparr>"
  have "Reader_seek_to_segment K' ?R (segment_spec (rr_layout R) i) = Reader_seek_to_segment K ?R (segment_spec (rr_layout R) i)"
    using assms by (cases "segment_place R i")
      (auto simp: Reader_seek_to_segment_def Reader_seek_inner_to_def segment_place_def same_seeks_def Let_def)
  then show ?thesis using assms by (simp add: Reader_fetch_segment_ciphertext_def same_seeks_def)
qed

text \<open>Where the wrapped reader is known to be after each access that succeeds.\<close>

lemma seek_inner_place:
  assumes "Reader_seek_inner_to K R offset = Some (Ok u, R')"
  shows "rr_inner_position R' = Some offset" "same_place R R'" "rr_cached_position R' = rr_cached_position R"
  using assms by (auto simp: Reader_seek_inner_to_def same_place_def Let_def split: if_splits elim!: bind_io_Ok map_state_Ok)

lemma fetched_place:
  assumes "Reader_fetch_segment_ciphertext K R (segment_spec (rr_layout R) i) = Some (Ok u, R')"
  shows "same_place R R'" "rr_inner_position R' = place_after R i" "rr_cached_position R' = None"
proof -
  let ?sl = "segment_spec (rr_layout R) i" and ?R = "R\<lparr> rr_cached_position := None \<rparr>"
  obtain x R1 where R1: "Reader_seek_to_segment K ?R ?sl = Some (Ok x, R1)"
    using assms by (auto simp: Reader_fetch_segment_ciphertext_def elim: bind_io_Ok)
  then obtain offset where o: "segment_place R i = Some offset" "Reader_seek_inner_to K ?R offset = Some (Ok x, R1)"
    by (auto simp: Reader_seek_to_segment_def segment_place_def elim!: try_io_Ok split: option.splits)
  note P = seek_inner_place [OF o(2)]
  show "same_place R R'" "rr_inner_position R' = place_after R i" "rr_cached_position R' = None"
    using assms R1 P o(1) by (auto simp: Reader_fetch_segment_ciphertext_def Let_def same_place_def place_after_def
        elim!: try_io_Ok bind_io_Ok map_state_Ok split: prod.splits)
qed

lemma load_place:
  assumes "Reader_load_segment E K R (segment_spec (rr_layout R) i) = Some (Ok u, R')"
  shows "same_place R R'" "rr_inner_position R' = place_after R i" "rr_cached_position R' = Some (word_of_nat i)"
proof -
  obtain x R1 where R1: "Reader_fetch_segment_ciphertext K R (segment_spec (rr_layout R) i) = Some (Ok x, R1)"
    using assms by (auto simp: Reader_load_segment_def elim: bind_io_Ok)
  then show "same_place R R'" "rr_inner_position R' = place_after R i" "rr_cached_position R' = Some (word_of_nat i)"
    using assms fetched_place [OF R1]
    by (auto simp: Reader_load_segment_def Let_def same_place_def segment_spec_def elim!: try_io_Ok split: prod.splits)
qed

lemma load_cached_place:
  assumes "Reader_load_cached_segment E K R (segment_spec (rr_layout R) i) = Some (Ok u, R')"
  shows "same_place R R'" "rr_cached_position R' = Some (word_of_nat i)"
    "R' = R \<and> rr_cached_position R = Some (word_of_nat i) \<or> rr_inner_position R' = place_after R i"
proof -
  have "R' = R \<and> rr_cached_position R = Some (word_of_nat i) \<or>
      Reader_load_segment E K R (segment_spec (rr_layout R) i) = Some (Ok u, R')"
    using assms by (auto simp: Reader_load_cached_segment_def segment_spec_def split: if_splits)
  then show "same_place R R'" "rr_cached_position R' = Some (word_of_nat i)"
    "R' = R \<and> rr_cached_position R = Some (word_of_nat i) \<or> rr_inner_position R' = place_after R i"
    using load_place by (fastforce simp: same_place_def)+
qed

lemma direct_place:
  assumes "Reader_decrypt_segment_direct E K R (segment_spec (rr_layout R) i) out = Some (Ok u, out', R')"
  shows "same_place R R'" "rr_inner_position R' = place_after R i" "rr_cached_position R' = None"
proof -
  obtain x R1 where R1: "Reader_fetch_segment_ciphertext K R (segment_spec (rr_layout R) i) = Some (Ok x, R1)"
    using assms by (auto simp: Reader_decrypt_segment_direct_def elim!: bind_io_Ok map_state_Ok)
  obtain ct where ct: "SegmentBuffer_ciphertext (rr_scratch R1) = Ok ct"
    using assms R1 by (auto simp: Reader_decrypt_segment_direct_def elim: try_io_Ok)
  obtain r s out1 where into: "DecryptionState_decrypt_segment_into E (rr_state R1) ct (segment_spec (rr_layout R) i) out = (r, s, out1)"
    by (metis prod_cases3)
  have "R' = R1\<lparr> rr_state := s \<rparr>"
    using assms R1 ct into by (auto simp: Reader_decrypt_segment_direct_def Let_def elim: try_io_Ok)
  then show "same_place R R'" "rr_inner_position R' = place_after R i" "rr_cached_position R' = None"
    using fetched_place [OF R1] by (simp_all add: same_place_def)
qed

lemma segment_calls_same:
  assumes "same_seeks K K' R i"
  shows "Reader_load_cached_segment E K' R (segment_spec (rr_layout R) i) = Reader_load_cached_segment E K R (segment_spec (rr_layout R) i)"
    "Reader_decrypt_segment_direct E K' R (segment_spec (rr_layout R) i) out = Reader_decrypt_segment_direct E K R (segment_spec (rr_layout R) i) out"
  using fetch_same [OF assms]
  by (simp_all add: Reader_load_cached_segment_def Reader_load_segment_def Reader_decrypt_segment_direct_def)

lemma range_step_same:
  assumes "layout_ok (rr_layout R)" "i < unat (ml_segment_count (rr_layout R))" "same_seeks K K' R i"
  shows "Reader_range_step E K' bounds (word_of_nat i) R written out = Reader_range_step E K bounds (word_of_nat i) R written out"
  by (simp only: Reader_range_step_def Reader_segment_eq [OF assms(1,2)] try_io.simps Let_def segment_calls_same [OF assms(3)])

lemma range_step_place:
  assumes "layout_ok (rr_layout R)" "i < unat (ml_segment_count (rr_layout R))"
    and "Reader_range_step E K bounds (word_of_nat i) R written out = Some (Ok n, out', R')"
  shows "same_place R R'" "rr_cached_position R' \<in> {None, Some (word_of_nat i)}"
    "R' = R \<and> rr_cached_position R = Some (word_of_nat i) \<or> rr_inner_position R' = place_after R i"
proof -
  note run = assms(3) [unfolded Reader_range_step_def Reader_segment_eq [OF assms(1,2)] try_io.simps Let_def]
  consider part u where "Reader_decrypt_segment_direct E K R (segment_spec (rr_layout R) i) part = Some (Ok (), u, R')"
    | "Reader_load_cached_segment E K R (segment_spec (rr_layout R) i) = Some (Ok (), R')"
    using run by (elim try_io_Ok) (auto elim!: try_io_Ok bind_io_Ok map_state_Ok split: if_splits)
  then show "same_place R R'" "rr_cached_position R' \<in> {None, Some (word_of_nat i)}"
    "R' = R \<and> rr_cached_position R = Some (word_of_nat i) \<or> rr_inner_position R' = place_after R i"
    using direct_place load_cached_place by (cases; fastforce)+
qed

lemma position_words:
  assumes "layout_ok L" "i < unat (ml_segment_count L)"
  shows "unat (word_of_nat i :: u64) = i"
  using assms(2) layout_okD(3) [OF assms(1)] by (intro unat_of_nat_u64) simp

section \<open>Ranges\<close>

text \<open>
  In a range read, before segment \<open>i\<close>: the wrapped reader has not been touched since its state \<open>r\<close>, or its
  position is known to be that of segment \<open>i\<close>, which is then not cached.
\<close>

definition undisturbed :: "'r \<Rightarrow> ('x, 'r) Reader \<Rightarrow> nat \<Rightarrow> bool" where
  "undisturbed r R i \<longleftrightarrow> rr_inner R = r \<or> rr_inner_position R = segment_place R i \<and> rr_cached_position R \<noteq> Some (word_of_nat i)"

lemma range_step_undisturbed:
  assumes "layout_ok (rr_layout R)" "Suc i < unat (ml_segment_count (rr_layout R))" "undisturbed r R i"
    and "Reader_range_step E K bounds (word_of_nat i) R written out = Some (Ok n, out', R')"
  shows "undisturbed r R' (Suc i)" "rr_layout R' = rr_layout R"
proof -
  have i: "i < unat (ml_segment_count (rr_layout R))" using assms(2) by simp
  note P = range_step_place [OF assms(1) i assms(4)]
  show "rr_layout R' = rr_layout R" by (rule same_place_simps(3) [OF P(1)])
  have "(word_of_nat i :: u64) \<noteq> word_of_nat (Suc i)" using position_words [OF assms(1)] i assms(2) by (metis n_not_Suc_n)
  then have "rr_cached_position R' \<noteq> Some (word_of_nat (Suc i))" using P(2) by auto
  then show "undisturbed r R' (Suc i)"
    using P(3) assms(3) same_place_simps(1) [OF P(1), of "Suc i"] place_after_next [OF assms(1,2)] by (auto simp: undisturbed_def)
qed

lemma range_loop_same:
  assumes "sr_read K' = sr_read K" "sr_seek K' r = sr_seek K r"
    and "layout_ok (rr_layout R)" "n \<le> unat (ml_segment_count (rr_layout R))" "undisturbed r R i"
  shows "Reader_range_loop E K' bounds (map word_of_nat [i..<n]) R written out =
    Reader_range_loop E K bounds (map word_of_nat [i..<n]) R written out"
  using assms(3-)
proof (induction "n - i" arbitrary: i R written out)
  case (Suc m)
  have i: "i < unat (ml_segment_count (rr_layout R))" "[i..<n] = i # [Suc i..<n]" using Suc.hyps(2) Suc.prems(2) by (simp_all add: upt_conv_Cons)
  have "same_seeks K K' R i" using Suc.prems(3) assms(1,2) by (auto simp: same_seeks_def undisturbed_def)
  note step = range_step_same [OF Suc.prems(1) i(1) this]
  have next_step: "Reader_range_loop E K' bounds (map word_of_nat [Suc i..<n]) R' w out' =
      Reader_range_loop E K bounds (map word_of_nat [Suc i..<n]) R' w out'"
    if run: "Reader_range_step E K bounds (word_of_nat i) R written out = Some (Ok w, out', R')" for w out' R'
  proof (cases "Suc i < n")
    case True
    then have "Suc i < unat (ml_segment_count (rr_layout R))" using Suc.prems(2) by simp
    note U = range_step_undisturbed [OF Suc.prems(1) this Suc.prems(3) run]
    show ?thesis by (rule Suc.hyps(1)) (use Suc U in simp_all)
  qed simp
  show ?case unfolding i(2) list.map Reader_range_loop.simps step by (rule bind_io_same) (auto simp: next_step)
qed simp

lemma resolved_range_same:
  assumes "sr_read K' = sr_read K" "sr_seek K' (rr_inner R) = sr_seek K (rr_inner R)"
    and "layout_ok (rr_layout R)" "unat B \<le> unat (ml_plaintext_length (rr_layout R))"
  shows "Reader_read_resolved_range_into E K' R (A, B) out = Reader_read_resolved_range_into E K R (A, B) out"
proof (cases "A < B")
  case True
  let ?L = "rr_layout R"
  let ?f = "MessageLayout_position_for_plaintext_offset ?L A" let ?l = "MessageLayout_position_for_plaintext_offset ?L (B - 1)"
  have ab: "unat A < unat B" using True by (simp add: word_less_nat_alt)
  have "unat (B - 1) = unat B - 1" using ab by (subst unat_sub) (auto simp: word_le_nat_alt)
  then have "unat ?l = (unat B - 1) div psl (ml_parameters ?L)" using position_for_offset [OF layout_okD(1) [OF assms(3)]] by simp
  then have l: "Suc (unat ?l) \<le> unat (ml_segment_count ?L)" using touched_positions(3) [OF assms(3) ab assms(4)] by simp
  have "undisturbed (rr_inner R) R (unat ?f)" by (simp add: undisturbed_def)
  note loop = range_loop_same [OF assms(1-3) l this]
  show ?thesis by (simp only: Reader_read_resolved_range_into_def positions_between_def loop Let_def fst_conv snd_conv)
qed (simp add: Reader_read_resolved_range_into_def)

lemma read_range_same:
  assumes "sr_read K' = sr_read K" "sr_seek K' (rr_inner R) = sr_seek K (rr_inner R)" "layout_ok (rr_layout R)"
  shows "Reader_read_range E K' R bounds = Reader_read_range E K R bounds"
proof (cases "resolve_bounds bounds (Reader_plaintext_length R)")
  case (Ok a)
  obtain A B where a: "a = (A, B)" by (cases a)
  have "unat B \<le> unat (ml_plaintext_length (rr_layout R))"
    using resolve_bounds_valid(2) [of bounds "Reader_plaintext_length R" A B] Ok a by (simp add: Reader_plaintext_length_def)
  from resolved_range_same [OF assms this] show ?thesis using Ok a by (simp add: Reader_read_range_def)
qed (simp_all add: Reader_read_range_def)

section \<open>Sequential reading\<close>

text \<open>
  In sequence: the segment of the current position is cached, or the wrapped reader is known to be at it;
  and after a cached segment the wrapped reader is known to be behind it.
\<close>

definition in_sequence :: "('x, 'r) Reader \<Rightarrow> bool" where
  "in_sequence R \<longleftrightarrow>
    (rr_plaintext_position R < Reader_plaintext_length R \<longrightarrow>
      (let i = unat (rr_plaintext_position R) div psl (ml_parameters (rr_layout R)) in
       rr_cached_position R = Some (word_of_nat i) \<or> rr_inner_position R = segment_place R i)) \<and>
    (\<forall>w. rr_cached_position R = Some w \<longrightarrow> rr_inner_position R = place_after R (unat w))"

lemma read_same:
  assumes "layout_ok (rr_layout R)" "in_sequence R" "sr_read K' = sr_read K"
  shows "Reader_read E K' R out = Reader_read E K R out"
proof (cases "rr_plaintext_position R < Reader_plaintext_length R")
  case True
  let ?L = "rr_layout R" and ?pos = "MessageLayout_position_for_plaintext_offset (rr_layout R) (rr_plaintext_position R)"
  let ?i = "unat (rr_plaintext_position R) div psl (ml_parameters ?L)"
  have pos: "?pos = word_of_nat ?i" using position_for_offset [OF layout_okD(1) [OF assms(1)]] by (intro unat_eq_word_of_nat)
  have "unat (rr_plaintext_position R) < unat (ml_plaintext_length ?L)"
    using True by (simp add: Reader_plaintext_length_def word_less_nat_alt)
  note i = read_segment_at(1) [OF assms(1) refl this]
  have "Reader_load_cached_segment E K' R (segment_spec ?L ?i) = Reader_load_cached_segment E K R (segment_spec ?L ?i)"
  proof (cases "rr_cached_position R = Some (word_of_nat ?i)")
    case False
    then have "same_seeks K K' R ?i" using assms(2,3) True by (simp add: in_sequence_def same_seeks_def Let_def)
    then show ?thesis by (rule segment_calls_same)
  qed (simp add: Reader_load_cached_segment_def segment_spec_def)
  then show ?thesis by (simp only: Reader_read_def Let_def pos Reader_segment_eq [OF assms(1) i] try_io.simps)
qed (simp add: Reader_read_def not_less)

lemma from_parts_place:
  assumes "Reader_from_parts E K r st H start len = Some (Ok R, s)"
  shows "rr_cached_position R = None" "rr_inner_position R = checked_add (rr_message_start R) HEADER_LENGTH_U64"
proof -
  obtain L final where start: "Parameters_ciphertext_layout (pointer_width E) (DecryptionState_parameters st) len = Ok L"
      "MessageLayout_final_segment (pointer_width E) L = (Ok final :: SegmentLayout io_result)"
    using assms by (auto simp: Reader_from_parts_def Let_def)
  let ?R0 = "\<lparr> rr_inner = r, rr_state = st, rr_header = H, rr_layout = L, rr_message_start = start,
    rr_scratch = SegmentBuffer_new (DecryptionState_parameters st), rr_plaintext_position = 0,
    rr_cached_position = None, rr_inner_position = None \<rparr>"
  obtain u R0 where load: "Reader_load_segment E K ?R0 final = Some (Ok u, R0)"
    using assms start by (cases "Reader_load_segment E K ?R0 final") (auto simp: Reader_from_parts_def Let_def)
  let ?R1 = "R0\<lparr> rr_scratch := SegmentBuffer_clear E (rr_scratch R0), rr_cached_position := None \<rparr>"
  obtain u where "Reader_seek_to_body_start K ?R1 = Some (Ok u, R)"
    using assms start load by (cases "Reader_seek_to_body_start K ?R1") (auto simp: Reader_from_parts_def Let_def)
  then obtain offset where o: "checked_add (rr_message_start R0) HEADER_LENGTH_U64 = Some offset"
      "Reader_seek_inner_to K ?R1 offset = Some (Ok u, R)"
    by (auto simp: Reader_seek_to_body_start_def)
  then show "rr_cached_position R = None" "rr_inner_position R = checked_add (rr_message_start R) HEADER_LENGTH_U64"
    using seek_inner_place [OF o(2)] by (simp_all add: same_place_def)
qed

lemma opened_in_sequence:
  assumes "Reader_new E K r key aad = Some (Ok R, s)" "rr_plaintext_position R = 0"
  shows "in_sequence R"
proof -
  obtain r' st H start len where "Reader_from_parts E K r' st H start len = Some (Ok R, s)"
    using assms(1) by (auto simp: Reader_new_def elim!: bind_io_Ok)
  note P = from_parts_place [OF this]
  then show ?thesis using assms(2)
    by (simp add: in_sequence_def segment_place_def segment_spec_def HEADER_LENGTH_U64_def Let_def)
qed

lemma next_position:
  assumes "layout_ok L" "i < unat (ml_segment_count L)" "i * psl (ml_parameters L) \<le> n" "n \<le> i * psl (ml_parameters L) + seg_plain_len L i"
    and "n < unat (ml_plaintext_length L)"
  shows "n div psl (ml_parameters L) = i \<or> n div psl (ml_parameters L) = Suc i \<and> Suc i < unat (ml_segment_count L)"
proof -
  let ?k = "psl (ml_parameters L)"
  have k: "0 < ?k" by (rule psl_pos [OF layout_okD(1) [OF assms(1)]])
  have "seg_plain_len L i \<le> ?k" by (rule seg_plain_len_le [OF assms(1,2)])
  then have le: "n \<le> Suc i * ?k" using assms(4) by simp
  have d: "n div ?k < unat (ml_segment_count L)"
    using touched_positions(3) [OF assms(1), of n "Suc n"] assms(5) by simp
  have "n div ?k \<in> {i, Suc i}"
  proof (cases "n = Suc i * ?k")
    case False
    then have "n div ?k < Suc i" using le k by (simp add: div_less_iff_less_mult del: mult_Suc)
    moreover have "i \<le> n div ?k" using assms(3) k by (simp add: less_eq_div_iff_mult_less_eq)
    ultimately show ?thesis by simp
  qed (use k in simp)
  then show ?thesis using d by auto
qed

context seekable_source begin

lemma read_in_sequence:
  assumes "lawful E S" "reader_ok E S c at R" "in_sequence R" "Reader_read E K R out = Some (Ok n, out', R')"
  shows "reader_ok E S c at R' \<and> in_sequence R'"
proof (cases "out = [] \<or> Reader_plaintext_length R \<le> rr_plaintext_position R")
  case True
  then have "Reader_read E K R out = Some (Ok 0, out, R)" by (auto simp: Reader_read_def)
  then show ?thesis using assms(2-4) by simp
next
  case False
  let ?L = "rr_layout R" let ?p = "unat (rr_plaintext_position R)" let ?i = "?p div psl (ml_parameters ?L)"
  have L: "layout_ok ?L" by (rule reader_partsD(2) [OF reader_okD [OF assms(2)]])
  have le: "?p < unat (ml_plaintext_length ?L)" using False by (simp add: Reader_plaintext_length_def word_le_nat_alt)
  note seg = read_segment_at(1,3,5) [OF L refl le]
  show ?thesis
  proof (cases rule: load_cached_cases [OF assms(1,2) seg(1)])
    case (1 e R1)
    then show ?thesis using seg(2) [where out = out] False assms(4) by auto
  next
    case (2 t R1)
    have R1: "rr_plaintext_position R1 = rr_plaintext_position R" using 2(4) by (simp add: same_message_def)
    have lt: "length t = seg_plain_len ?L ?i" by (rule reader_text_length [OF lawfulD(1) [OF assms(1)] assms(2) seg(1) 2(2)])
    have out: "out \<noteq> []" using False by simp
    obtain m w where m: "?p - ?i * psl (ml_parameters ?L) + m \<le> length t" "unat w = ?p + m"
        "Reader_read E K R out = Some (Ok m, splice 0 (slice (?p - ?i * psl (ml_parameters ?L)) (?p - ?i * psl (ml_parameters ?L) + m) t) out,
          R1\<lparr> rr_plaintext_position := w \<rparr>)"
      by (rule seg(3) [OF out 2(1,5) lt R1])
    note P = load_cached_place [OF 2(1)]
    have R': "R' = R1\<lparr> rr_plaintext_position := w \<rparr>" using m(3) assms(4) by simp
    have behind: "rr_inner_position R1 = place_after R ?i"
      using P(2,3) assms(3) position_words [OF L seg(1)] by (auto simp: in_sequence_def)
    have same: "rr_layout R' = ?L" "segment_place R' j = segment_place R j" "place_after R' j = place_after R j" for j
      using P(1) by (simp_all add: R' same_place_def segment_place_def place_after_def)
    have "unat w div psl (ml_parameters ?L) = ?i \<or> unat w div psl (ml_parameters ?L) = Suc ?i \<and> Suc ?i < unat (ml_segment_count ?L)"
      if "unat w < unat (ml_plaintext_length ?L)"
      by (rule next_position [OF L seg(1)]) (use div_times_less_eq_dividend [of ?p "psl (ml_parameters ?L)"] m(1,2) lt that in linarith)+
    moreover have "rr_inner_position R1 = segment_place R (Suc ?i)" if "Suc ?i < unat (ml_segment_count ?L)"
      using behind place_after_next [OF L that] by simp
    ultimately have "in_sequence R'"
      using P(2) behind position_words [OF L seg(1)] same
      by (auto simp: in_sequence_def Let_def R' Reader_plaintext_length_def word_less_nat_alt)
    moreover have "reader_ok E S c at R'"
      using 2(3) by (simp add: R' reader_ok_def reader_parts_ok_def reader_text_def)
    ultimately show ?thesis by simp
  qed
qed

end

section \<open>Properties\<close>

text \<open>Sequential reads that succeed, with buffers of any sizes.\<close>

inductive streamed :: "'x env \<Rightarrow> 'r seekable \<Rightarrow> ('x, 'r) Reader \<Rightarrow> ('x, 'r) Reader \<Rightarrow> bool" for E K R where
  streamed_none: "streamed E K R R"
| streamed_read: "streamed E K R R1 \<Longrightarrow> Reader_read E K R1 out = Some (Ok n, out', R2) \<Longrightarrow> streamed E K R R2"

lemma streamed_in_sequence:
  assumes "streamed E K R R1" "seekable_source K c at patience" "lawful E S" "reader_ok E S c at R" "in_sequence R"
  shows "reader_ok E S c at R1 \<and> in_sequence R1"
  using assms(1)
proof induction
  case (streamed_read R1 out n out' R2)
  then show ?case using seekable_source.read_in_sequence [OF assms(2,3)] by blast
qed (use assms(4,5) in simp)

text \<open>
  C21: Contiguous accesses do not seek. Over any contents that can be sought, tampered ones included, once a reader
  is open and as long as sequential reads succeed, the next read does not depend on the seek operation of the
  wrapped reader: with any other seek, one that fails or does not return, it gives the same bytes, the same error
  and the same reader. So it never seeks. A range read seeks at most once, before its first access to the wrapped
  reader: it gives the same result with any seek operation that agrees on the state in which the call finds the
  wrapped reader.
\<close>

theorem sequential_reads_never_seek:
  assumes "lawful E S" "seekable_source K c at patience" "at r n" "n \<le> length c" "Reader_new E K r key aad = Some (Ok R, s)"
    and "streamed E K R R1" "sr_read K' = sr_read K"
  shows "Reader_read E K' R1 out = Reader_read E K R1 out \<and>
    (sr_seek K' (rr_inner R1) = sr_seek K (rr_inner R1) \<longrightarrow> Reader_read_range E K' R1 bounds = Reader_read_range E K R1 bounds)"
proof -
  have R: "reader_ok E S c at R" "rr_plaintext_position R = 0"
    by (rule seekable_source.Reader_new_cases [OF assms(2,1,3,4), of key aad]; use assms(5) in simp)+
  from streamed_in_sequence [OF assms(6,2,1) R(1) opened_in_sequence [OF assms(5) R(2)]]
  have R1: "layout_ok (rr_layout R1)" "in_sequence R1" using reader_partsD(2) [OF reader_okD] by blast+
  then show ?thesis using read_same [OF R1 assms(7)] read_range_same [OF assms(7)] by blast
qed

theorem sequential_reads_never_seek_witness:
  "\<exists>c R s m out R1. Reader_new toy_env cursor ([1, 2, 3] @ c, 3) (toy_key Provider_RING) [5] = Some (Ok R, s) \<and>
    Reader_read toy_env (cursor\<lparr> sr_seek := \<lambda>r _. None \<rparr>) R (replicate 100 0) = Some (Ok m, out, R1) \<and> 0 < m \<and> take m out = replicate m 9"
proof -
  obtain c R where R: "length c < 2 ^ 32" "Reader_new toy_env cursor ([1, 2, 3] @ c, 3) (toy_key Provider_RING) [5] = Some (Ok R, rr_inner R)"
      "reader_over toy_env toy_prims ([1, 2, 3] @ c) (\<lambda>r n. r = ([1, 2, 3] @ c, word_of_nat n) \<and> n < 2 ^ 64) (replicate 70 9) R"
      "rr_plaintext_position R = 0"
    by (rule toy_reader)
  note src = toy_contents [OF R(1)]
  obtain m out R1 where m: "Reader_read toy_env cursor R (replicate 100 0) = Some (Ok m, out, R1)" "0 < m" "m \<le> 70"
      "take m out = slice 0 m (replicate 70 9)"
    using seekable_source.reader_read_spec [OF src toy_lawful R(3), of 0 "replicate 100 0"] R(4) by auto
  have at: "([1, 2, 3] @ c, 3) = ([1, 2, 3] @ c, word_of_nat 3 :: u64) \<and> (3 :: nat) < 2 ^ 64" "3 \<le> length ([1, 2, 3] @ c)" by simp_all
  have "Reader_read toy_env (cursor\<lparr> sr_seek := \<lambda>r _. None \<rparr>) R (replicate 100 0) = Reader_read toy_env cursor R (replicate 100 0)"
    using sequential_reads_never_seek [OF toy_lawful src at R(2) streamed_none, of "cursor\<lparr> sr_seek := \<lambda>r _. None \<rparr>"] by simp
  then show ?thesis using R(2) m by (intro exI [of _ c] exI [of _ R] exI [of _ "rr_inner R"] exI [of _ m] exI [of _ out] exI [of _ R1]) (simp add: slice_def)
qed

end
