(* ===== verification/Floe_Pool.thy ===== *)
theory Floe_Pool
  imports Floe_Prelude
begin

text \<open>
  Pools of workers that share an output: jobs with regions of their own, run by any worker in any order.
  The locale \<open>worker_pool\<close> states what a worker promises, and \<open>live_pool\<close> adds that its jobs succeed; the
  lemmas on all interleavings are proved once in them.
\<close>

section \<open>Pools\<close>

text \<open>
  A pool: the states of the workers, the shared output, and the jobs that are finished. Job \<open>i\<close> owns the
  \<open>snd (region i)\<close> bytes of the output at \<open>fst (region i)\<close>; \<open>work s i part\<close> runs it on a worker in state
  \<open>s\<close> and says whether it succeeded, the state after it and what it left in its region.
\<close>

record 'w pool =
  pool_workers :: "'w list"
  pool_out :: bytes
  pool_done :: "nat set"

type_synonym 'w work = "'w \<Rightarrow> nat \<Rightarrow> bytes \<Rightarrow> bool \<times> 'w \<times> bytes"

definition pool_part :: "(nat \<Rightarrow> nat \<times> nat) \<Rightarrow> 'w pool \<Rightarrow> nat \<Rightarrow> bytes" where
  "pool_part region p i = slice (fst (region i)) (fst (region i) + snd (region i)) (pool_out p)"

definition run_job :: "(nat \<Rightarrow> nat \<times> nat) \<Rightarrow> 'w work \<Rightarrow> nat \<Rightarrow> nat \<Rightarrow> 'w pool \<Rightarrow> 'w pool" where
  "run_job region work j i p =
    (case work (pool_workers p ! j) i (pool_part region p i) of (succeeded, s, part) \<Rightarrow>
     \<lparr> pool_workers = (pool_workers p)[j := s], pool_out = splice (fst (region i)) part (pool_out p),
       pool_done = (if succeeded then insert i (pool_done p) else pool_done p) \<rparr>)"

text \<open>A step: any worker runs any job that is not finished.\<close>

inductive pool_step :: "nat \<Rightarrow> (nat \<Rightarrow> nat \<times> nat) \<Rightarrow> 'w work \<Rightarrow> 'w pool \<Rightarrow> 'w pool \<Rightarrow> bool"
  for count region work where
  job: "j < length (pool_workers p) \<Longrightarrow> i < count \<Longrightarrow> i \<notin> pool_done p \<Longrightarrow>
    pool_step count region work p (run_job region work j i p)"

inductive_cases pool_stepE: "pool_step count region work p p'"

text \<open>The invariant of a pool: fit workers, and the result of every finished job in its region.\<close>

definition pool_ok ::
  "nat \<Rightarrow> (nat \<Rightarrow> nat \<times> nat) \<Rightarrow> ('w \<Rightarrow> bool) \<Rightarrow> (nat \<Rightarrow> bytes \<Rightarrow> bool) \<Rightarrow> nat \<Rightarrow> 'w pool \<Rightarrow> bool" where
  "pool_ok count region able result size_out p \<longleftrightarrow> (\<forall>s \<in> set (pool_workers p). able s) \<and> length (pool_out p) = size_out \<and>
    pool_done p \<subseteq> {..<count} \<and> (\<forall>i \<in> pool_done p. result i (pool_part region p i))"

text \<open>What lies outside every region never changes.\<close>

definition untouched :: "nat \<Rightarrow> (nat \<Rightarrow> nat \<times> nat) \<Rightarrow> bytes \<Rightarrow> bytes \<Rightarrow> bool" where
  "untouched count region out out' \<longleftrightarrow>
    (\<forall>a b. (\<forall>i < count. b \<le> fst (region i) \<or> fst (region i) + snd (region i) \<le> a) \<longrightarrow> slice a b out' = slice a b out)"

lemma slice_splice_apart:
  assumes "b \<le> n \<or> n + length xs \<le> a" "n + length xs \<le> length ys"
  shows "slice a b (splice n xs ys) = slice a b ys"
proof (cases "b \<le> n")
  case True
  then have "take b (splice n xs ys) = take b ys" using assms(2) by (simp add: splice_def)
  moreover have "slice a b zs = drop a (take b zs)" for zs :: "'a list" by (simp add: slice_def drop_take)
  ultimately show ?thesis by simp
next
  case False
  then have "drop a (splice n xs ys) = drop a ys" using assms by (simp add: splice_def)
  then show ?thesis by (simp add: slice_def)
qed

section \<open>The contract of a worker\<close>

text \<open>
  \<open>able s\<close> says that a worker is fit for the jobs of the pool, and \<open>result i part\<close> that a region holds the result of
  its job. Regions do not overlap; a job keeps the worker fit and stays in its region, and a successful
  one leaves its result there.
\<close>

locale worker_pool =
  fixes count :: nat and region :: "nat \<Rightarrow> nat \<times> nat" and work :: "'w work"
    and able :: "'w \<Rightarrow> bool" and result :: "nat \<Rightarrow> bytes \<Rightarrow> bool" and size_out :: nat
  assumes regions_apart: "able s \<Longrightarrow> i < count \<Longrightarrow> j < count \<Longrightarrow> i \<noteq> j \<Longrightarrow>
      fst (region i) + snd (region i) \<le> fst (region j) \<or> fst (region j) + snd (region j) \<le> fst (region i)"
    and regions_inside: "able s \<Longrightarrow> i < count \<Longrightarrow> fst (region i) + snd (region i) \<le> size_out"
    and work_step: "able s \<Longrightarrow> i < count \<Longrightarrow> length part = snd (region i) \<Longrightarrow> work s i part = (succeeded, s', part') \<Longrightarrow>
      able s' \<and> length part' = length part \<and> (succeeded \<longrightarrow> result i part')"
begin

abbreviation "fit \<equiv> pool_ok count region able result size_out"

lemma run_job_cases:
  assumes "fit p" "j < length (pool_workers p)" "i < count"
  obtains succeeded s part where "run_job region work j i p =
      \<lparr> pool_workers = (pool_workers p)[j := s], pool_out = splice (fst (region i)) part (pool_out p),
        pool_done = (if succeeded then insert i (pool_done p) else pool_done p) \<rparr>"
    "work (pool_workers p ! j) i (pool_part region p i) = (succeeded, s, part)"
    "able (pool_workers p ! j)" "able s" "length part = snd (region i)" "fst (region i) + snd (region i) \<le> length (pool_out p)"
    "succeeded \<Longrightarrow> result i part"
proof -
  have able: "able (pool_workers p ! j)" and len: "length (pool_out p) = size_out" using assms(1,2) by (auto simp: pool_ok_def)
  note inside = regions_inside [OF able assms(3)]
  then have lp: "length (pool_part region p i) = snd (region i)" using len by (simp add: pool_part_def)
  obtain succeeded s part where w: "work (pool_workers p ! j) i (pool_part region p i) = (succeeded, s, part)" by (rule prod_cases3)
  from work_step [OF able assms(3) lp w] show thesis
    using that [OF _ w able] inside len lp w by (simp add: run_job_def)
qed

lemma run_job_ok:
  assumes "fit p" "j < length (pool_workers p)" "i < count" "i \<notin> pool_done p"
  shows "fit (run_job region work j i p)" "untouched count region (pool_out p) (pool_out (run_job region work j i p))"
proof -
  obtain succeeded s part where run: "run_job region work j i p =
      \<lparr> pool_workers = (pool_workers p)[j := s], pool_out = splice (fst (region i)) part (pool_out p),
        pool_done = (if succeeded then insert i (pool_done p) else pool_done p) \<rparr>"
    and W: "able (pool_workers p ! j)" "able s" "length part = snd (region i)" "fst (region i) + snd (region i) \<le> length (pool_out p)"
      "succeeded \<Longrightarrow> result i part"
    by (rule run_job_cases [OF assms(1-3)]) blast
  let ?out = "splice (fst (region i)) part (pool_out p)"
  have len: "length ?out = length (pool_out p)" using W(3,4) by simp
  have same: "slice (fst (region i)) (fst (region i) + snd (region i)) ?out = part"
    using W(3,4) slice_splice_same [of "fst (region i)" part "pool_out p"] by simp
  have others: "slice (fst (region k)) (fst (region k) + snd (region k)) ?out =
      slice (fst (region k)) (fst (region k) + snd (region k)) (pool_out p)" if "k < count" "k \<noteq> i" for k
    by (rule slice_splice_apart) (use regions_apart [OF W(1) that(1) assms(3) that(2)] W(3,4) in auto)
  have dones: "k < count \<and> result k (pool_part region p k)" if "k \<in> pool_done p" for k using assms(1) that by (auto simp: pool_ok_def)
  have "result k (slice (fst (region k)) (fst (region k) + snd (region k)) ?out)" if "k \<in> pool_done (run_job region work j i p)" for k
  proof (cases "k = i")
    case True
    then have succeeded using that run assms(4) by (simp split: if_splits)
    then show ?thesis using True same W(5) by simp
  next
    case False
    then have "k \<in> pool_done p" using that run by (auto split: if_splits)
    then show ?thesis using dones others False by (simp add: pool_part_def)
  qed
  moreover have "able s'" if "s' \<in> set ((pool_workers p)[j := s])" for s'
    using that assms(1) W(2) set_update_subset_insert [of "pool_workers p" j s] by (auto simp: pool_ok_def)
  ultimately show "fit (run_job region work j i p)"
    using assms(1,3) len by (auto simp: run pool_ok_def pool_part_def split: if_splits)
  show "untouched count region (pool_out p) (pool_out (run_job region work j i p))"
    unfolding untouched_def run pool.select_convs
    by (intro allI impI slice_splice_apart) (use assms(3) W(3,4) in auto)
qed

text \<open>Whatever the order of the jobs and whoever runs them, the invariant holds in every reachable pool.\<close>

lemma reachable_ok:
  assumes "(pool_step count region work)\<^sup>*\<^sup>* p p'" "fit p"
  shows "fit p'" "untouched count region (pool_out p) (pool_out p')" "length (pool_workers p') = length (pool_workers p)"
  using assms
proof (induction rule: rtranclp_induct)
  case base
  { case 1 then show ?case . }
  { case 2 show ?case by (simp add: untouched_def) }
  { case 3 show ?case by simp }
next
  case (step q q')
  obtain j i where q': "q' = run_job region work j i q" "j < length (pool_workers q)" "i < count" "i \<notin> pool_done q"
    using step(2) by (rule pool_stepE)
  { case 1 then show ?case using run_job_ok(1) [OF step.IH(1) q'(2-4)] q'(1) by simp }
  { case 2 then show ?case using run_job_ok(2) [OF step.IH(1) q'(2-4)] step.IH(2) q'(1) by (simp add: untouched_def) }
  { case 3 then show ?case using step.IH(3) q'(1) by (simp add: run_job_def split: prod.split) }
qed

lemma finished_results:
  assumes "(pool_step count region work)\<^sup>*\<^sup>* p p'" "fit p" "pool_done p' = {..<count}" "i < count"
  shows "result i (pool_part region p' i)"
  using reachable_ok(1) [OF assms(1,2)] assms(3,4) by (auto simp: pool_ok_def)

end

text \<open>A pool in which every job succeeds: it is never stuck, and every step finishes one more job.\<close>

locale live_pool = worker_pool +
  assumes work_succeeds: "able s \<Longrightarrow> i < count \<Longrightarrow> length part = snd (region i) \<Longrightarrow> fst (work s i part)"
begin

lemma pool_progress:
  assumes "fit p" "pool_workers p \<noteq> []" "pool_done p \<noteq> {..<count}"
  shows "\<exists>p'. pool_step count region work p p'"
proof -
  have "pool_done p \<subseteq> {..<count}" using assms(1) by (simp add: pool_ok_def)
  then obtain i where "i < count" "i \<notin> pool_done p" using assms(3) by blast
  moreover have "0 < length (pool_workers p)" using assms(2) by simp
  ultimately show ?thesis using pool_step.job by blast
qed

lemma step_finishes:
  assumes "fit p" "pool_step count region work p p'"
  shows "card (pool_done p') = Suc (card (pool_done p))"
proof -
  obtain j i where p': "p' = run_job region work j i p" "j < length (pool_workers p)" "i < count" "i \<notin> pool_done p"
    using assms(2) by (rule pool_stepE)
  obtain succeeded s part where run: "p' = \<lparr> pool_workers = (pool_workers p)[j := s], pool_out = splice (fst (region i)) part (pool_out p),
        pool_done = (if succeeded then insert i (pool_done p) else pool_done p) \<rparr>"
      "work (pool_workers p ! j) i (pool_part region p i) = (succeeded, s, part)" "able (pool_workers p ! j)"
      "fst (region i) + snd (region i) \<le> length (pool_out p)"
    using run_job_cases [OF assms(1) p'(2,3)] p'(1) by metis
  have "length (pool_part region p i) = snd (region i)" using run(4) by (simp add: pool_part_def)
  from work_succeeds [OF run(3) p'(3) this] have succeeded using run(2) by simp
  moreover have "finite (pool_done p)" using assms(1) finite_subset by (auto simp: pool_ok_def)
  ultimately show ?thesis using run(1) p'(4) by simp
qed

lemma pool_completes:
  assumes "fit p" "pool_workers p \<noteq> []"
  shows "\<exists>p'. (pool_step count region work)\<^sup>*\<^sup>* p p' \<and> pool_done p' = {..<count}"
  using assms
proof (induction "count - card (pool_done p)" arbitrary: p rule: less_induct)
  case less
  show ?case
  proof (cases "pool_done p = {..<count}")
    case False
    obtain q where q: "pool_step count region work p q" using pool_progress [OF less.prems False] by blast
    then have run: "(pool_step count region work)\<^sup>*\<^sup>* p q" by blast
    note R = reachable_ok [OF run less.prems(1)]
    have "card (pool_done p) < count"
      using less.prems(1) False psubset_card_mono [of "{..<count}" "pool_done p"] by (auto simp: pool_ok_def)
    then have "count - card (pool_done q) < count - card (pool_done p)" using step_finishes [OF less.prems(1) q] by simp
    moreover have "pool_workers q \<noteq> []" using R(3) less.prems(2) by auto
    ultimately obtain p' where "(pool_step count region work)\<^sup>*\<^sup>* q p'" "pool_done p' = {..<count}" using less.hyps [of q] R(1) by blast
    then show ?thesis using run by (meson rtranclp_trans)
  qed blast
qed

end

end
