(* ===== verification/Floe_Parallel.thy ===== *)
theory Floe_Parallel
  imports Floe_Pool Floe_Random_Reader
begin

text \<open>
  Parallel encryption and decryption with the low-level states of \<^verbatim>\<open>src/src/state.rs\<close>: forks of a shared
  context process the segments of a layout in any order. The jobs are those of the source's test
  \<^verbatim>\<open>parallel_contexts_create_independent_states\<close>, writing to their part of one output. The pools are
  interpretations of \<open>worker_pool\<close> and \<open>live_pool\<close>.
\<close>

section \<open>Regions of a layout\<close>

definition ciphertext_region :: "MessageLayout \<Rightarrow> nat \<Rightarrow> nat \<times> nat" where
  "ciphertext_region L i = (unat (sl_ciphertext_offset (segment_spec L i)), sl_ciphertext_length (segment_spec L i))"

definition plaintext_region :: "MessageLayout \<Rightarrow> nat \<Rightarrow> nat \<times> nat" where
  "plaintext_region L i = (unat (sl_plaintext_offset (segment_spec L i)), sl_plaintext_length (segment_spec L i))"

lemma layout_regions:
  assumes "layout_ok L" "i < unat (ml_segment_count L)"
  shows "ciphertext_region L i = (74 + i * csl (ml_parameters L), seg_plain_len L i + 32)"
    "plaintext_region L i = (i * psl (ml_parameters L), seg_plain_len L i)"
  using segment_end(2,3) [OF assms] segment_words(1) [OF assms] by (simp_all add: ciphertext_region_def plaintext_region_def segment_spec_def)

lemma stripes_apart:
  fixes i j k :: nat
  assumes "i \<noteq> j" "n \<le> k" "m \<le> k"
  shows "i * k + n \<le> j * k \<or> j * k + m \<le> i * k"
proof (cases "i < j")
  case True
  then have "Suc i * k \<le> j * k" by (intro mult_le_mono1) simp
  then show ?thesis using assms(2) by simp
next
  case False
  then have "Suc j * k \<le> i * k" using assms(1) by (intro mult_le_mono1) simp
  then show ?thesis using assms(3) by simp
qed

lemma layout_regions_apart:
  assumes "layout_ok L" "i < unat (ml_segment_count L)" "j < unat (ml_segment_count L)" "i \<noteq> j"
  shows "fst (ciphertext_region L i) + snd (ciphertext_region L i) \<le> fst (ciphertext_region L j) \<or>
      fst (ciphertext_region L j) + snd (ciphertext_region L j) \<le> fst (ciphertext_region L i)"
    "fst (plaintext_region L i) + snd (plaintext_region L i) \<le> fst (plaintext_region L j) \<or>
      fst (plaintext_region L j) + snd (plaintext_region L j) \<le> fst (plaintext_region L i)"
  using stripes_apart [OF assms(4) segment_end(5) [OF assms(1,2)] segment_end(5) [OF assms(1,3)]]
    stripes_apart [OF assms(4) seg_plain_len_le [OF assms(1,2)] seg_plain_len_le [OF assms(1,3)]]
  by (auto simp: layout_regions [OF assms(1,2)] layout_regions [OF assms(1,3)])

section \<open>Encryption by a pool\<close>

text \<open>
  A job looks its segment up in the layout and encrypts that part of the plaintext \<open>p\<close> straight into its part of
  the output. Every worker is a fork of the shared context.
\<close>

definition encrypt_work :: "'x env \<Rightarrow> MessageLayout \<Rightarrow> bytes \<Rightarrow> 'x EncryptionState work" where
  "encrypt_work E L p s i part =
    (case MessageLayout_segment_for_position (pointer_width E) L (word_of_nat i) of
       None \<Rightarrow> (False, s, part)
     | Some sl \<Rightarrow>
         (let start = unat (sl_plaintext_offset sl) in
          case EncryptionState_encrypt_segment_into E s (slice start (start + sl_plaintext_length sl) p) sl part of
            (r, s', part') \<Rightarrow> (is_ok r, s', part')))"

definition encrypt_pool :: "'x EncryptionState \<Rightarrow> Header \<Rightarrow> MessageLayout \<Rightarrow> 'x list \<Rightarrow> 'x EncryptionState pool" where
  "encrypt_pool s header L ws =
    \<lparr> pool_workers = map (SharedEncryptionContext_fork (EncryptionState_into_shared s)) ws,
      pool_out = header_bytes header @ replicate (unat (ml_ciphertext_length L) - 74) 0, pool_done = {} \<rparr>"

abbreviation encrypt_pool_step :: "'x env \<Rightarrow> MessageLayout \<Rightarrow> bytes \<Rightarrow> 'x EncryptionState pool \<Rightarrow> 'x EncryptionState pool \<Rightarrow> bool" where
  "encrypt_pool_step E L p \<equiv> pool_step (unat (ml_segment_count L)) (ciphertext_region L) (encrypt_work E L p)"

definition encrypt_able :: "'x env \<Rightarrow> prims \<Rightarrow> MessageLayout \<Rightarrow> MessageContext \<Rightarrow> bytes \<Rightarrow> 'x EncryptionState \<Rightarrow> bool" where
  "encrypt_able E S L C p s \<longleftrightarrow> lawful E S \<and> layout_ok L \<and> length p = unat (ml_plaintext_length L) \<and>
    mc_parameters C = ml_parameters L \<and> enc_state_ok E s \<and> es_context s = C"

definition sealed_part :: "prims \<Rightarrow> MessageContext \<Rightarrow> MessageLayout \<Rightarrow> bytes \<Rightarrow> nat \<Rightarrow> bytes \<Rightarrow> bool" where
  "sealed_part S C L p i part \<longleftrightarrow> segment_text S C (word_of_nat i) (sl_kind (segment_spec L i)) part = Some (chunk L p i)"

lemma segment_lookup:
  assumes "layout_ok L" "i < unat (ml_segment_count L)"
  shows "MessageLayout_segment_for_position t L (word_of_nat i) = Some (segment_spec L i)"
  using segment_for_position_spec [OF assms(1), of "word_of_nat i" t] assms(2) layout_okD(3) [OF assms(1)] by (simp add: unat_of_nat_u64)

lemma encrypt_work_cases:
  assumes "encrypt_able E S L C p s" "i < unat (ml_segment_count L)" "length part = seg_plain_len L i + 32"
  obtains (failed) s' part' where "encrypt_work E L p s i part = (False, s', part')" "encrypt_able E S L C p s'" "length part' = length part"
      "fst (NonceGenerator_next E (es_nonces s)) = Err RngFailure"
    | (sealed) s' part' where "encrypt_work E L p s i part = (True, s', part')" "encrypt_able E S L C p s'" "length part' = length part"
      "sealed_part S C L p i part'"
proof -
  have A: "lawful E S" "layout_ok L" "length p = unat (ml_plaintext_length L)" "mc_parameters C = ml_parameters L" "enc_state_ok E s" "es_context s = C"
    using assms(1) by (simp_all add: encrypt_able_def)
  note S = lawfulD(1) [OF A(1)]
  let ?sl = "segment_spec L i"
  have i: "unat (word_of_nat i :: u64) < 2 ^ 40" using assms(2) layout_okD(3) [OF A(2)] by (simp add: unat_of_nat_u64)
  have len: "length (chunk L p i) = seg_plain_len L i" by (rule chunk_length [OF A(2,3) assms(2)])
  have ok: "seg_len_ok (es_context s) (sl_kind ?sl) (length (chunk L p i))"
    using seg_len_ok_segment_spec [OF A(2) A(4) assms(2)] len A(6) by simp
  have chunk: "slice (unat (sl_plaintext_offset ?sl)) (unat (sl_plaintext_offset ?sl) + sl_plaintext_length ?sl) p = chunk L p i"
    using segment_words(1) [OF A(2) assms(2)] by (simp add: chunk_def segment_spec_def)
  have run: "encrypt_work E L p s i part = (case EncryptionState_encrypt_segment_into_at E s (chunk L p i) (word_of_nat i) (sl_kind ?sl) part of
      (r, s', part') \<Rightarrow> (is_ok r, s', part'))"
  proof -
    have "sl_plaintext_length ?sl = seg_plain_len L i" "sl_parameters ?sl = ml_parameters L" "sl_position ?sl = word_of_nat i"
      by (simp_all add: segment_spec_def)
    then show ?thesis
      unfolding encrypt_work_def segment_lookup [OF A(2) assms(2)] option.case Let_def chunk EncryptionState_encrypt_segment_into_def
      using A(4,6) len by (simp add: EncryptionState_validate_plaintext_layout_def validate_layout_def)
  qed
  have room: "length (chunk L p i) + 32 \<le> length part" using len assms(3) by simp
  show thesis
  proof (cases rule: encrypt_into_at_cases [OF A(1,5) ok room i])
    case (1 s' part')
    then show thesis using failed run assms(1) by (simp add: encrypt_able_def)
  next
    case (2 nonce s')
    let ?seg = "floe_segment S C (word_of_nat i) (sl_kind ?sl) nonce (chunk L p i)"
    have seg: "length ?seg = length part" using floe_segment_length [OF S 2(2)] len assms(3) by simp
    moreover have "sealed_part S C L p i ?seg"
      unfolding sealed_part_def using segment_text_iff [OF S, of ?seg] seg assms(3) 2(2) by auto
    ultimately show thesis using sealed [of s' ?seg] run 2 assms(1,3) A(6) len by (simp add: encrypt_able_def)
  qed
qed

interpretation encrypting: worker_pool "unat (ml_segment_count L)" "ciphertext_region L" "encrypt_work E L p"
  "encrypt_able E S L C p" "sealed_part S C L p" "unat (ml_ciphertext_length L)" for E S L C p
proof (unfold_locales, goal_cases)
  case (1 s i j)
  then show ?case using layout_regions_apart(1) by (simp add: encrypt_able_def)
next
  case (2 s i)
  then show ?case using segment_end(1) [of L i 0] layout_regions(1) [of L i] by (simp add: encrypt_able_def segment_start_def)
next
  case (3 s i part succeeded s' part')
  then have "length part = seg_plain_len L i + 32" using layout_regions(1) [of L i] by (simp add: encrypt_able_def)
  then show ?case by (rule encrypt_work_cases [OF 3(1,2)]) (use 3(4) in auto)
qed

interpretation encrypting_live: live_pool "unat (ml_segment_count L)" "ciphertext_region L" "encrypt_work E L p"
  "\<lambda>s. encrypt_able E S L C p s \<and> entropy_available E" "sealed_part S C L p" "unat (ml_ciphertext_length L)" for E S L C p
proof (unfold_locales, goal_cases)
  case (1 s i j)
  then show ?case using encrypting.regions_apart by blast
next
  case (2 s i)
  then show ?case using encrypting.regions_inside by blast
next
  case (3 s i part succeeded s' part')
  then show ?case using encrypting.work_step by blast
next
  case (4 s i part)
  then have A: "encrypt_able E S L C p s" "entropy_available E" "lawful E S" "enc_state_ok E s" by (simp_all add: encrypt_able_def)
  have "length part = seg_plain_len L i + 32" using 4 layout_regions(1) [of L i] by (simp add: encrypt_able_def)
  then show ?case
    by (rule encrypt_work_cases [OF A(1) 4(2)])
      (use nonce_available [OF A(2) lawfulD(6) [OF A(3)] enc_state_okD(3) [OF A(4)]] in auto)
qed

section \<open>Decryption by a pool\<close>

definition decrypt_work :: "'x env \<Rightarrow> MessageLayout \<Rightarrow> bytes \<Rightarrow> 'x DecryptionState work" where
  "decrypt_work E L c s i part =
    (case MessageLayout_segment_for_position (pointer_width E) L (word_of_nat i) of
       None \<Rightarrow> (False, s, part)
     | Some sl \<Rightarrow>
         (let start = unat (sl_ciphertext_offset sl) in
          case DecryptionState_decrypt_segment_into E s (slice start (start + sl_ciphertext_length sl) c) sl part of
            (r, s', part') \<Rightarrow> (is_ok r, s', part')))"

definition decrypt_pool :: "'x DecryptionState \<Rightarrow> MessageLayout \<Rightarrow> nat \<Rightarrow> 'x DecryptionState pool" where
  "decrypt_pool s L n =
    \<lparr> pool_workers = replicate n (SharedDecryptionContext_fork (DecryptionState_into_shared s)),
      pool_out = replicate (unat (ml_plaintext_length L)) 0, pool_done = {} \<rparr>"

abbreviation decrypt_pool_step :: "'x env \<Rightarrow> MessageLayout \<Rightarrow> bytes \<Rightarrow> 'x DecryptionState pool \<Rightarrow> 'x DecryptionState pool \<Rightarrow> bool" where
  "decrypt_pool_step E L c \<equiv> pool_step (unat (ml_segment_count L)) (plaintext_region L) (decrypt_work E L c)"

definition decrypt_able :: "'x env \<Rightarrow> prims \<Rightarrow> MessageLayout \<Rightarrow> MessageContext \<Rightarrow> bytes \<Rightarrow> 'x DecryptionState \<Rightarrow> bool" where
  "decrypt_able E S L C c s \<longleftrightarrow> lawful E S \<and> layout_ok L \<and> length c = unat (ml_ciphertext_length L) \<and>
    mc_parameters C = ml_parameters L \<and> dec_state_ok E s \<and> ds_context s = C"

lemma decrypt_work_cases:
  assumes "decrypt_able E S L C c s" "i < unat (ml_segment_count L)" "length part = seg_plain_len L i"
  obtains (opened) s' part' where "decrypt_work E L c s i part = (True, s', part')" "decrypt_able E S L C c s'" "length part' = length part"
      "authentic_text S C L 0 c i = Some part'"
    | (refused) s' part' where "decrypt_work E L c s i part = (False, s', part')" "decrypt_able E S L C c s'" "length part' = length part"
      "authentic_text S C L 0 c i = None"
proof -
  have A: "lawful E S" "layout_ok L" "length c = unat (ml_ciphertext_length L)" "mc_parameters C = ml_parameters L" "dec_state_ok E s" "ds_context s = C"
    using assms(1) by (simp_all add: decrypt_able_def)
  note S = lawfulD(1) [OF A(1)]
  let ?sl = "segment_spec L i" and ?seg = "message_segment L 0 c i"
  have seg: "slice (unat (sl_ciphertext_offset ?sl)) (unat (sl_ciphertext_offset ?sl) + sl_ciphertext_length ?sl) c = ?seg"
    using segment_end(2,3) [OF A(2) assms(2)] by (simp add: message_segment_def segment_start_def)
  have len: "length ?seg = seg_plain_len L i + 32"
    using segment_end(1) [OF A(2) assms(2), of 0] A(3) by (simp add: message_segment_def)
  have run: "decrypt_work E L c s i part = (case DecryptionState_decrypt_segment_into E s ?seg ?sl part of (r, s', part') \<Rightarrow> (is_ok r, s', part'))"
    unfolding decrypt_work_def segment_lookup [OF A(2) assms(2)] option.case Let_def seg ..
  have par: "mc_parameters (ds_context s) = ml_parameters L" and room: "seg_plain_len L i \<le> length part" using A(4,6) assms(3) by simp_all
  show thesis
  proof (cases rule: layout_into_cases [OF A(1,5,2) par assms(2) len room])
    case (1 p s')
    have "length p = seg_plain_len L i" by (rule segment_text_length [OF S len 1(2)])
    then show thesis using opened [of s' p] run 1 assms(1,3) A(6) by (simp add: decrypt_able_def authentic_text_def)
  next
    case (2 e s' part')
    then show thesis using refused run assms(1) A(6) by (simp add: decrypt_able_def authentic_text_def)
  qed
qed

interpretation decrypting: worker_pool "unat (ml_segment_count L)" "plaintext_region L" "decrypt_work E L c"
  "decrypt_able E S L C c" "\<lambda>i part. authentic_text S C L 0 c i = Some part" "unat (ml_plaintext_length L)" for E S L C c
proof (unfold_locales, goal_cases)
  case (1 s i j)
  then show ?case using layout_regions_apart(2) by (simp add: decrypt_able_def)
next
  case (2 s i)
  then show ?case using layout_no_overflow(1) [of L i] layout_regions(2) [of L i] by (simp add: decrypt_able_def)
next
  case (3 s i part succeeded s' part')
  then have "length part = seg_plain_len L i" using layout_regions(2) [of L i] by (simp add: decrypt_able_def)
  then show ?case by (rule decrypt_work_cases [OF 3(1,2)]) (use 3(4) in auto)
qed

interpretation decrypting_live: live_pool "unat (ml_segment_count L)" "plaintext_region L" "decrypt_work E L c"
  "\<lambda>s. decrypt_able E S L C c s \<and> (\<forall>i < unat (ml_segment_count L). authentic_text S C L 0 c i \<noteq> None)"
  "\<lambda>i part. authentic_text S C L 0 c i = Some part" "unat (ml_plaintext_length L)" for E S L C c
proof (unfold_locales, goal_cases)
  case (1 s i j)
  then show ?case using decrypting.regions_apart by blast
next
  case (2 s i)
  then show ?case using decrypting.regions_inside by blast
next
  case (3 s i part succeeded s' part')
  then show ?case using decrypting.work_step by blast
next
  case (4 s i part)
  then have A: "decrypt_able E S L C c s" and "length part = seg_plain_len L i" using layout_regions(2) [of L i] by (simp_all add: decrypt_able_def)
  from this(2) show ?case by (rule decrypt_work_cases [OF A 4(2)]) (use 4(1,2) in auto)
qed

section \<open>Messages made and opened by a pool\<close>

lemma encrypt_pool_ok:
  assumes "lawful E S" "layout_ok L" "length p = unat (ml_plaintext_length L)" "mc_parameters (es_context s) = ml_parameters L" "enc_state_ok E s"
    and "length (header_bytes header) = 74"
  shows "pool_ok (unat (ml_segment_count L)) (ciphertext_region L) (encrypt_able E S L (es_context s) p) (sealed_part S (es_context s) L p)
      (unat (ml_ciphertext_length L)) (encrypt_pool s header L ws)"
    "entropy_available E \<Longrightarrow> pool_ok (unat (ml_segment_count L)) (ciphertext_region L) (\<lambda>s'. encrypt_able E S L (es_context s) p s' \<and> entropy_available E)
      (sealed_part S (es_context s) L p) (unat (ml_ciphertext_length L)) (encrypt_pool s header L ws)"
  using assms fork_ok(1) [OF assms(5)] layout_okD(4) [OF assms(2)]
  by (auto simp: pool_ok_def encrypt_pool_def encrypt_able_def fork_ok(2))

lemma encrypt_pool_message:
  assumes "lawful E S" "layout_ok L" "length p = unat (ml_plaintext_length L)" "ml_parameters L = P" "length iv = 32"
    and "es_context s = floe_context S provider key P iv aad" "enc_state_ok E s"
    and "(encrypt_pool_step E L p)\<^sup>*\<^sup>* (encrypt_pool s (floe_header S key P iv aad) L ws) q" "pool_done q = {..<unat (ml_segment_count L)}"
  shows "is_floe_message S key P aad p (pool_out q)"
proof -
  let ?H = "header_bytes (floe_header S key P iv aad)" and ?C = "floe_context S provider key P iv aad" and ?out = "pool_out q"
  note S = lawfulD(1) [OF assms(1)]
  have C: "mc_parameters ?C = ml_parameters L" using assms(4) by (simp add: floe_context_def)
  have H: "length ?H = 74" using S assms(5) by simp
  note ok = encrypt_pool_ok(1) [OF assms(1-3) _ assms(7) H, where ws = ws, unfolded assms(6), OF C]
  note R = encrypting.reachable_ok [OF assms(8) ok] and F = encrypting.finished_results [OF assms(8) ok assms(9)]
  have len: "length ?out = unat (ml_ciphertext_length L)" using R(1) by (simp add: pool_ok_def)
  have "slice 0 74 ?out = slice 0 74 (pool_out (encrypt_pool s (floe_header S key P iv aad) L ws))"
    using R(2) layout_regions(1) [OF assms(2)] unfolding untouched_def by auto
  then have header: "take 74 ?out = ?H" using H by (simp add: encrypt_pool_def slice_def)
  have "authentic_text S ?C L 0 ?out i = Some (chunk L p i)" if "i < unat (ml_segment_count L)" for i
    using F [OF that] layout_regions(1) [OF assms(2) that]
    by (simp add: sealed_part_def pool_part_def authentic_text_def message_segment_def segment_start_def)
  then have "is_floe_body S ?C p (drop 74 (take (unat (ml_ciphertext_length L)) (drop 0 ?out)))"
    using message_body_segments [OF S assms(2) C, of 0 ?out p] len assms(3) by simp
  then obtain nps where nps: "drop 74 ?out = floe_body S ?C 0 nps" "chunks_ok P (map snd nps)" "\<forall>(nonce, _) \<in> set nps. length nonce = 12"
      "length nps \<le> 2 ^ 40" "p = concat (map snd nps)"
    using len by (auto simp: is_floe_body_def floe_context_def)
  have "?out = floe_message S key P iv aad nps"
    using nps(1) header floe_body_provider [of S provider key P iv aad 0 nps Provider_RUSTCRYPTO]
    by (metis append_take_drop_id floe_message_def)
  then show ?thesis unfolding is_floe_message_def using assms(5) nps by blast
qed

lemma decrypt_with_iff:
  assumes "lawful E S" "params_ok P" "start_decryption E key aad P (Header (take 74 c)) = Ok s" "74 \<le> length c"
  shows "decrypt_with_parameters E key aad P c = Ok p \<longleftrightarrow> is_floe_body S (ds_context s) p (drop 74 c)"
    "dec_state_ok E s" "mc_parameters (ds_context s) = P"
proof -
  have len: "length (header_bytes (Header (take 74 c))) = 74" using assms(4) by simp
  obtain provider where s: "start_decryption_with_provider E key provider aad P (Header (take 74 c)) = Ok s"
    using assms(3) by (auto simp: start_decryption_def)
  note D = start_decryption_okD [OF assms(1,2) len s]
  show "dec_state_ok E s" "mc_parameters (ds_context s) = P" using D(2,3) by (simp_all add: floe_context_def)
  show "decrypt_with_parameters E key aad P c = Ok p \<longleftrightarrow> is_floe_body S (ds_context s) p (drop 74 c)"
    using assms(3,4) decrypt_body_iff [OF assms(1) D(3)]
    by (simp add: decrypt_with_parameters_def split_header_spec Decryptor_new_with_parameters_def)
qed

lemma decrypt_pool_ok:
  assumes "decrypt_able E S L (ds_context s) c s"
  shows "pool_ok (unat (ml_segment_count L)) (plaintext_region L) (decrypt_able E S L (ds_context s) c)
      (\<lambda>i part. authentic_text S (ds_context s) L 0 c i = Some part) (unat (ml_plaintext_length L)) (decrypt_pool s L n)"
    "\<forall>i < unat (ml_segment_count L). authentic_text S (ds_context s) L 0 c i \<noteq> None \<Longrightarrow>
      pool_ok (unat (ml_segment_count L)) (plaintext_region L)
        (\<lambda>s'. decrypt_able E S L (ds_context s) c s' \<and> (\<forall>i < unat (ml_segment_count L). authentic_text S (ds_context s) L 0 c i \<noteq> None))
        (\<lambda>i part. authentic_text S (ds_context s) L 0 c i = Some part) (unat (ml_plaintext_length L)) (decrypt_pool s L n)"
  using assms fork_ok(3) [of E s]
  by (auto simp: pool_ok_def decrypt_pool_def decrypt_able_def fork_ok(4))

lemma decrypt_pool_body:
  assumes "decrypt_able E S L (ds_context s) c s"
    and "(decrypt_pool_step E L c)\<^sup>*\<^sup>* (decrypt_pool s L n) q" "pool_done q = {..<unat (ml_segment_count L)}"
  shows "is_floe_body S (ds_context s) (pool_out q) (drop 74 c)"
proof -
  have A: "lawful E S" "layout_ok L" "length c = unat (ml_ciphertext_length L)" "mc_parameters (ds_context s) = ml_parameters L"
    using assms(1) by (simp_all add: decrypt_able_def)
  note ok = decrypt_pool_ok(1) [OF assms(1)]
  note R = decrypting.reachable_ok [OF assms(2) ok] and F = decrypting.finished_results [OF assms(2) ok assms(3)]
  have len: "length (pool_out q) = unat (ml_plaintext_length L)" using R(1) by (simp add: pool_ok_def)
  have "authentic_text S (ds_context s) L 0 c i = Some (chunk L (pool_out q) i)" if "i < unat (ml_segment_count L)" for i
    using F [OF that] layout_regions(2) [OF A(2) that] by (simp add: pool_part_def chunk_def)
  then show ?thesis using message_body_segments [OF lawfulD(1) [OF A(1)] A(2,4), of 0 c "pool_out q"] A(3) len by simp
qed

text \<open>
  C15: Parallel encryption, over every interleaving: the workers are forks of one shared context, any
  worker may take any segment that is not finished, in any order, and a segment that failed for lack
  of entropy may be taken again. In every reachable pool: once all segments are finished, the output is
  a message that every build and provider with the key decrypts to the plaintext; and with entropy
  available and at least one worker, all segments can be finished, each step finishing one.
\<close>

theorem parallel_encryption_message:
  assumes "lawful E S" "lawful F S" "params_ok P" "Key_provider E key = Ok provider" "Key_provider F key' = Ok provider'" "key_bytes key' = key_bytes key"
    and "start_encryption E key aad P w = Ok (s, header)" "Parameters_plaintext_layout P (word_of_nat (length p)) = Ok L" "length p < 2 ^ 64"
    and "(encrypt_pool_step E L p)\<^sup>*\<^sup>* (encrypt_pool s header L ws) q"
  shows "(pool_done q = {..<unat (ml_segment_count L)} \<longrightarrow> decrypt F key' aad (pool_out q) = Ok p) \<and>
    (entropy_available E \<longrightarrow> ws \<noteq> [] \<longrightarrow> (\<exists>q'. (encrypt_pool_step E L p)\<^sup>*\<^sup>* q q' \<and> pool_done q' = {..<unat (ml_segment_count L)})) \<and>
    (entropy_available E \<longrightarrow> (\<forall>q'. encrypt_pool_step E L p q q' \<longrightarrow> card (pool_done q') = Suc (card (pool_done q))))"
proof -
  note L = plaintext_layout_okD [OF assms(3,8)]
  have len: "length p = unat (ml_plaintext_length L)" using L(3) assms(9) by (simp add: unat_of_nat_u64)
  obtain iv where s: "header = floe_header S key P iv aad" "length iv = 32" "es_context s = floe_context S provider key P iv aad" "enc_state_ok E s"
    using assms(7) by (cases rule: start_encryption_spec [OF assms(1,3,4), of aad w]) auto
  have C: "mc_parameters (es_context s) = ml_parameters L" using s(3) L(2) by (simp add: floe_context_def)
  have H: "length (header_bytes header) = 74" using s(1,2) lawfulD(1) [OF assms(1)] by simp
  have "is_floe_message S key P aad p (pool_out q)" if "pool_done q = {..<unat (ml_segment_count L)}"
    by (rule encrypt_pool_message [OF assms(1) L(1) len L(2) s(2-4) assms(10) [unfolded s(1)] that])
  then have "decrypt F key' aad (pool_out q) = Ok p" if "pool_done q = {..<unat (ml_segment_count L)}"
    using decrypt_accepts [OF assms(2,5)] is_floe_message_key [OF assms(6)] assms(3) that by auto
  moreover have "(ws \<noteq> [] \<longrightarrow> (\<exists>q'. (encrypt_pool_step E L p)\<^sup>*\<^sup>* q q' \<and> pool_done q' = {..<unat (ml_segment_count L)})) \<and>
      (\<forall>q'. encrypt_pool_step E L p q q' \<longrightarrow> card (pool_done q') = Suc (card (pool_done q)))" if "entropy_available E"
  proof -
    note R = encrypting_live.reachable_ok [OF assms(10) encrypt_pool_ok(2) [OF assms(1) L(1) len C s(4) H that]]
    have "pool_workers q \<noteq> []" if "ws \<noteq> []" using R(3) that by (auto simp: encrypt_pool_def)
    then show ?thesis using encrypting_live.pool_completes [OF R(1)] encrypting_live.step_finishes [OF R(1)] by blast
  qed
  ultimately show ?thesis by blast
qed

theorem parallel_encryption_message_witness:
  "\<exists>s header q. start_encryption toy_env (toy_key Provider_RING) [5] SEGMENT_64_B ([], []) = Ok (s, header) \<and>
    (encrypt_pool_step toy_env toy_layout (replicate 70 9))\<^sup>*\<^sup>* (encrypt_pool s header toy_layout [([], []), ([], [])]) q \<and>
    decrypt toy_env (toy_key Provider_BORING) [5] (pool_out q) = Ok (replicate 70 9)"
proof -
  obtain s header where s: "start_encryption toy_env (toy_key Provider_RING) [5] SEGMENT_64_B ([], []) = Ok (s, header)"
    by (rule start_encryption_spec [OF toy_lawful segment_64(1) toy_key(2), where aad = "[5]" and w = "([], [])"])
      (use ProviderRng_fill_available [OF toy_entropy, of "ProviderRng_new Provider_RING ([], [])" "replicate 32 0"] in auto)
  have keys: "key_bytes (toy_key Provider_BORING) = key_bytes (toy_key Provider_RING)" by (simp add: toy_key)
  have L: "Parameters_plaintext_layout SEGMENT_64_B (word_of_nat (length (replicate 70 9 :: bytes))) = Ok toy_layout" by (simp add: toy_layout)
  have lt: "length (replicate 70 9 :: bytes) < 2 ^ 64" by simp
  note T = parallel_encryption_message [OF toy_lawful toy_lawful segment_64(1) toy_key(2) toy_key(2) keys s L lt]
  obtain q where "(encrypt_pool_step toy_env toy_layout (replicate 70 9))\<^sup>*\<^sup>* (encrypt_pool s header toy_layout [([], []), ([], [])]) q"
      "pool_done q = {..<unat (ml_segment_count toy_layout)}"
    using T [OF rtranclp.rtrancl_refl] toy_entropy by blast
  then show ?thesis using T s by blast
qed

text \<open>
  C16: Parallel decryption agrees with one-shot decryption, over every interleaving: the workers are forks
  of one shared context and take segments in any order, also on tampered input. In every reachable pool:
  once all segments are finished, one-shot decryption with the required parameters returns exactly the
  assembled output; and when one-shot decryption returns p, the pool can be finished and then holds p.
\<close>

theorem parallel_decryption_agrees:
  assumes "lawful E S" "params_ok P" "start_decryption E key aad P (Header (take 74 c)) = Ok s"
    and "Parameters_ciphertext_layout t P (word_of_nat (length c)) = Ok L" "length c < 2 ^ 64"
    and "(decrypt_pool_step E L c)\<^sup>*\<^sup>* (decrypt_pool s L n) q"
  shows "(pool_done q = {..<unat (ml_segment_count L)} \<longrightarrow> decrypt_with_parameters E key aad P c = Ok (pool_out q)) \<and>
    (n \<noteq> 0 \<longrightarrow> (\<forall>p. decrypt_with_parameters E key aad P c = Ok p \<longrightarrow>
      (\<exists>q'. (decrypt_pool_step E L c)\<^sup>*\<^sup>* q q' \<and> pool_done q' = {..<unat (ml_segment_count L)} \<and> pool_out q' = p)))"
proof -
  note L = ciphertext_layout_okD [OF assms(2,4)]
  have len: "length c = unat (ml_ciphertext_length L)" using L(3) assms(5) by (simp add: unat_of_nat_u64)
  then have c: "74 \<le> length c" using layout_okD(4) [OF L(1)] by simp
  note D = decrypt_with_iff [OF assms(1-3) c]
  have C: "mc_parameters (ds_context s) = ml_parameters L" using D(3) L(2) by simp
  have able: "decrypt_able E S L (ds_context s) c s" using assms(1) L(1) len D(2) C by (simp add: decrypt_able_def)
  have all: "decrypt_with_parameters E key aad P c = Ok (pool_out q')"
    if "(decrypt_pool_step E L c)\<^sup>*\<^sup>* (decrypt_pool s L n) q'" "pool_done q' = {..<unat (ml_segment_count L)}" for q'
    using decrypt_pool_body [OF able that] D(1) by blast
  moreover have "\<exists>q'. (decrypt_pool_step E L c)\<^sup>*\<^sup>* q q' \<and> pool_done q' = {..<unat (ml_segment_count L)} \<and> pool_out q' = p"
    if n: "n \<noteq> 0" and p: "decrypt_with_parameters E key aad P c = Ok p" for p
  proof -
    have "\<forall>i < unat (ml_segment_count L). authentic_text S (ds_context s) L 0 c i \<noteq> None"
      using message_body_segments [OF lawfulD(1) [OF assms(1)] L(1) C, of 0 c p] D(1) [of p] p len by simp
    note R = decrypting_live.reachable_ok [OF assms(6) decrypt_pool_ok(2) [OF able this]]
    have "pool_workers q \<noteq> []" using R(3) n by (auto simp: decrypt_pool_def)
    then obtain q' where q': "(decrypt_pool_step E L c)\<^sup>*\<^sup>* q q'" "pool_done q' = {..<unat (ml_segment_count L)}"
      using decrypting_live.pool_completes [OF R(1)] by blast
    moreover have "(decrypt_pool_step E L c)\<^sup>*\<^sup>* (decrypt_pool s L n) q'" using assms(6) q'(1) by (rule rtranclp_trans)
    ultimately show ?thesis using all p by force
  qed
  ultimately show ?thesis using assms(6) by blast
qed

theorem parallel_decryption_agrees_witness:
  "\<exists>c s L q. start_decryption toy_env (toy_key Provider_RING) [5] SEGMENT_64_B (Header (take 74 c)) = Ok s \<and>
    Parameters_ciphertext_layout Pointer64 SEGMENT_64_B (word_of_nat (length c)) = Ok L \<and>
    (decrypt_pool_step toy_env L c)\<^sup>*\<^sup>* (decrypt_pool s L 2) q \<and> pool_out q = replicate 70 9"
proof -
  obtain c where c: "decrypt toy_env (toy_key Provider_RING) [5] c = Ok (replicate 70 9)" "length c < 2 ^ 32"
      "decrypt_with_parameters toy_env (toy_key Provider_RING) [5] SEGMENT_64_B c = Ok (replicate 70 9)"
    by (rule toy_stored)
  have m: "74 \<le> length c" using c(3) by (auto simp: decrypt_with_parameters_def split_header_spec split: if_splits)
  obtain s where s: "start_decryption toy_env (toy_key Provider_RING) [5] SEGMENT_64_B (Header (take 74 c)) = Ok s"
    using c(3) m by (auto simp: decrypt_with_parameters_def split_header_spec Decryptor_new_with_parameters_def)
  note D = decrypt_with_iff [OF toy_lawful segment_64(1) s m]
  have lt: "length c < 2 ^ 64" using c(2) by simp
  then have len: "unat (word_of_nat (length c) :: u64) = 74 + length (drop 74 c)" using m by (simp add: unat_of_nat_u64)
  obtain L where L: "Parameters_ciphertext_layout Pointer64 SEGMENT_64_B (word_of_nat (length c)) = Ok L"
    using floe_body_layout [OF lawfulD(1) [OF toy_lawful] _ _ len, of "ds_context s"] D c(3) segment_64(1) by metis
  have "\<exists>q. (decrypt_pool_step toy_env L c)\<^sup>*\<^sup>* (decrypt_pool s L 2) q \<and> pool_out q = replicate 70 9"
    using parallel_decryption_agrees [OF toy_lawful segment_64(1) s L lt rtranclp.rtrancl_refl, of 2] c(3) by auto
  then show ?thesis using s L by blast
qed

end
