(* ===== verification/Floe_Debug.thy ===== *)
theory Floe_Debug
  imports Floe_Random_Access Floe_Io
begin

text \<open>
  How the values of the crate are shown, described and dropped: the \<^verbatim>\<open>Debug\<close> implementations, written
  and derived, the \<^verbatim>\<open>Display\<close> and \<^verbatim>\<open>source\<close> of the errors that carry a value, and the destructors
  that wipe secrets. A \<^verbatim>\<open>Debug\<close> implementation is modelled by the calls it makes on the formatter,
  as a value of type \<open>debug\<close>; \<open>debug_text\<close> is the text the standard library makes of them, for
  \<^verbatim>\<open>{:?}\<close> and for \<^verbatim>\<open>{:#?}\<close>. What the wrapped readers and writers and \<^verbatim>\<open>io::Error\<close> show is an argument.
\<close>

section \<open>The formatter\<close>

text \<open>
  \<open>Struct name fs elided\<close> is a \<^verbatim>\<open>debug_struct\<close> ended by \<^verbatim>\<open>finish\<close> or, when \<open>elided\<close> holds, by
  \<^verbatim>\<open>finish_non_exhaustive\<close>.
\<close>

datatype debug =
    Text string
  | Struct string "(string \<times> debug) list" bool
  | Tuple string "debug list"
  | Items "debug list"

text \<open>The alternate form indents what is nested, at the start of every line.\<close>

fun pad :: "bool \<Rightarrow> string \<Rightarrow> string" where
  "pad newline [] = []"
| "pad newline (c # cs) = (if newline then replicate 4 (CHR '' '') else []) @ c # pad (c = CHR 0x0A) cs"

fun separated :: "string \<Rightarrow> string list \<Rightarrow> string" where
  "separated sep [] = []"
| "separated sep [x] = x"
| "separated sep (x # y # xs) = x @ sep @ separated sep (y # xs)"

definition entries :: "bool \<Rightarrow> string \<Rightarrow> string \<Rightarrow> string list \<Rightarrow> string" where
  "entries alternate opening closing items =
    opening @ (if alternate then [CHR 0x0A] @ concat (map (\<lambda>x. pad True (x @ '','' @ [CHR 0x0A])) items) else separated '', '' items) @ closing"

definition struct_text :: "bool \<Rightarrow> string list \<Rightarrow> bool \<Rightarrow> string" where
  "struct_text alternate fs elided =
    (if fs = [] then (if elided then '' { .. }'' else [])
     else if alternate then
       '' {'' @ [CHR 0x0A] @ concat (map (\<lambda>x. pad True (x @ '','' @ [CHR 0x0A])) fs) @
       (if elided then pad True (''..'' @ [CHR 0x0A]) else []) @ ''}''
     else '' { '' @ separated '', '' fs @ (if elided then '', .. }'' else '' }''))"

primrec debug_text :: "bool \<Rightarrow> debug \<Rightarrow> string" where
  "debug_text alternate (Text s) = s"
| "debug_text alternate (Struct name fs elided) =
    name @ struct_text alternate (map (\<lambda>(field, s). field @ '': '' @ s) (map (map_prod id (debug_text alternate)) fs)) elided"
| "debug_text alternate (Tuple name args) =
    name @ (if args = [] then [] else entries alternate ''('' '')'' (map (debug_text alternate) args))"
| "debug_text alternate (Items xs) =
    (if xs = [] then ''[]'' else entries alternate ''['' '']'' (map (debug_text alternate) xs))"

definition debug_nat :: "nat \<Rightarrow> debug" where
  "debug_nat n = Text (decimal n)"

definition debug_u64 :: "u64 \<Rightarrow> debug" where
  "debug_u64 n = debug_nat (unat n)"

definition debug_bool :: "bool \<Rightarrow> debug" where
  "debug_bool b = Text (if b then ''true'' else ''false'')"

text \<open>A string literal without characters that need an escape.\<close>

definition debug_str :: "string \<Rightarrow> debug" where
  "debug_str s = Text (CHR 0x22 # s @ [CHR 0x22])"

definition debug_bytes :: "bytes \<Rightarrow> debug" where
  "debug_bytes bs = Items (map (\<lambda>b. debug_nat (unat b)) bs)"

definition debug_option :: "('a \<Rightarrow> debug) \<Rightarrow> 'a option \<Rightarrow> debug" where
  "debug_option render x = (case x of None \<Rightarrow> Text ''None'' | Some v \<Rightarrow> Tuple ''Some'' [render v])"

section \<open>Keys, parameters, buffers and headers\<close>

definition Key_debug :: "Key \<Rightarrow> debug" where
  "Key_debug K = Tuple ''Key'' [debug_str ''[REDACTED]'']"

fun ProviderKind_debug :: "ProviderKind \<Rightarrow> debug" where
  "ProviderKind_debug AwsLcRs = Text ''AwsLcRs''"
| "ProviderKind_debug Boring = Text ''Boring''"
| "ProviderKind_debug Ring = Text ''Ring''"
| "ProviderKind_debug RustCrypto = Text ''RustCrypto''"

fun Provider_debug :: "Provider \<Rightarrow> debug" where
  "Provider_debug (Provider kind) = Tuple ''Provider'' [ProviderKind_debug kind]"

definition Parameters_debug :: "Parameters \<Rightarrow> debug" where
  "Parameters_debug P =
    Struct ''Parameters'' [(''ciphertext_segment_length'', debug_nat (unat (ciphertext_segment_length P)))] False"

definition MessageLayout_debug :: "MessageLayout \<Rightarrow> debug" where
  "MessageLayout_debug L = Struct ''MessageLayout''
    [(''parameters'', Parameters_debug (ml_parameters L)), (''plaintext_length'', debug_u64 (ml_plaintext_length L)),
     (''ciphertext_length'', debug_u64 (ml_ciphertext_length L)), (''segment_count'', debug_u64 (ml_segment_count L))] False"

fun BufferState_debug :: "BufferState \<Rightarrow> debug" where
  "BufferState_debug Empty = Text ''Empty''"
| "BufferState_debug (Plaintext n) = Struct ''Plaintext'' [(''length'', debug_nat n)] False"
| "BufferState_debug (Ciphertext n) = Struct ''Ciphertext'' [(''length'', debug_nat n)] False"

definition SegmentBuffer_debug :: "SegmentBuffer \<Rightarrow> debug" where
  "SegmentBuffer_debug B = Struct ''SegmentBuffer''
    [(''parameters'', Parameters_debug (sb_parameters B)), (''capacity'', debug_nat (SegmentBuffer_capacity B)),
     (''state'', BufferState_debug (sb_state B))] True"

definition Header_debug :: "Header \<Rightarrow> debug" where
  "Header_debug H = Tuple ''Header'' [debug_bytes (header_bytes H)]"

section \<open>States\<close>

definition MessageContext_debug :: "MessageContext \<Rightarrow> debug" where
  "MessageContext_debug C = Struct ''MessageContext''
    [(''provider'', Provider_debug (mc_provider C)), (''parameters'', Parameters_debug (mc_parameters C)),
     (''floe_iv'', debug_bytes (mc_floe_iv C)), (''aad_length'', debug_nat (length (mc_aad C)))] True"

definition KeyCache_debug :: "'x KeyCache \<Rightarrow> debug" where
  "KeyCache_debug K = Struct ''KeyCache''
    [(''masked_position'', debug_option debug_u64 (map_option ck_masked_position (cached_key K)))] True"

definition NonceGenerator_debug :: "'x NonceGenerator \<Rightarrow> debug" where
  "NonceGenerator_debug G =
    (let remaining = (NONCE_BATCH_LENGTH - ng_next G) div AEAD_IV_LENGTH in
     Struct ''NonceGenerator'' [(''remaining'', debug_nat remaining)] True)"

definition EncryptionState_debug :: "'x EncryptionState \<Rightarrow> debug" where
  "EncryptionState_debug s = Struct ''EncryptionState''
    [(''context'', MessageContext_debug (es_context s)), (''keys'', KeyCache_debug (es_keys s)),
     (''nonces'', NonceGenerator_debug (es_nonces s))] False"

definition SharedEncryptionContext_debug :: "SharedEncryptionContext \<Rightarrow> debug" where
  "SharedEncryptionContext_debug s = Struct ''SharedEncryptionContext'' [(''context'', MessageContext_debug (sec_context s))] False"

definition DecryptionState_debug :: "'x DecryptionState \<Rightarrow> debug" where
  "DecryptionState_debug s = Struct ''DecryptionState''
    [(''context'', MessageContext_debug (ds_context s)), (''keys'', KeyCache_debug (ds_keys s))] False"

definition SharedDecryptionContext_debug :: "SharedDecryptionContext \<Rightarrow> debug" where
  "SharedDecryptionContext_debug s = Struct ''SharedDecryptionContext'' [(''context'', MessageContext_debug (sdc_context s))] False"

definition SegmentCounter_debug :: "SegmentCounter \<Rightarrow> debug" where
  "SegmentCounter_debug c = Struct ''SegmentCounter''
    [(''next'', debug_u64 (sc_next c)), (''closed'', debug_bool (sc_closed c))] False"

definition Encryptor_debug :: "'x Encryptor \<Rightarrow> debug" where
  "Encryptor_debug e = Struct ''Encryptor''
    [(''state'', EncryptionState_debug (en_state e)), (''header'', Header_debug (en_header e)),
     (''counter'', SegmentCounter_debug (en_counter e))] False"

definition Decryptor_debug :: "'x Decryptor \<Rightarrow> debug" where
  "Decryptor_debug d = Struct ''Decryptor''
    [(''state'', DecryptionState_debug (de_state d)), (''counter'', SegmentCounter_debug (de_counter d))] False"

section \<open>Adapters\<close>

fun StreamStatus_debug :: "StreamStatus \<Rightarrow> debug" where
  "StreamStatus_debug Open = Text ''Open''"
| "StreamStatus_debug Finished = Text ''Finished''"
| "StreamStatus_debug Failed = Text ''Failed''"

fun DecryptStatus_debug :: "DecryptStatus \<Rightarrow> debug" where
  "DecryptStatus_debug DecryptOpen = Text ''Open''"
| "DecryptStatus_debug FrameComplete = Text ''FrameComplete''"
| "DecryptStatus_debug StreamComplete = Text ''StreamComplete''"
| "DecryptStatus_debug DecryptFailed = Text ''Failed''"

definition EncryptWriter_debug :: "('w \<Rightarrow> debug) \<Rightarrow> ('x, 'w) EncryptWriter \<Rightarrow> debug" where
  "EncryptWriter_debug render W = Struct ''EncryptWriter''
    [(''inner'', render (ew_inner W)), (''encryptor'', debug_option Encryptor_debug (ew_encryptor W)),
     (''header'', Header_debug (ew_header W)), (''buffer'', SegmentBuffer_debug (ew_buffer W)),
     (''status'', StreamStatus_debug (ew_status W))] False"

definition EncryptReader_debug :: "('r \<Rightarrow> debug) \<Rightarrow> ('x, 'r) EncryptReader \<Rightarrow> debug" where
  "EncryptReader_debug render R = Struct ''EncryptReader''
    [(''inner'', render (er_inner R)), (''encryptor'', debug_option Encryptor_debug (er_encryptor R)),
     (''header'', Header_debug (er_header R)), (''header_position'', debug_nat (er_header_position R)),
     (''buffer'', SegmentBuffer_debug (er_buffer R)), (''ciphertext_position'', debug_nat (er_ciphertext_position R)),
     (''ciphertext_length'', debug_nat (er_ciphertext_length R)), (''has_lookahead'', debug_bool (er_lookahead R \<noteq> None)),
     (''status'', StreamStatus_debug (er_status R))] False"

definition DecryptReader_debug :: "('r \<Rightarrow> debug) \<Rightarrow> ('x, 'r) DecryptReader \<Rightarrow> debug" where
  "DecryptReader_debug render R = Struct ''DecryptReader''
    [(''inner'', render (dr_inner R)), (''decryptor'', debug_option Decryptor_debug (dr_decryptor R)),
     (''header'', Header_debug (dr_header R)), (''buffer'', SegmentBuffer_debug (dr_buffer R)),
     (''plaintext_consumed'', debug_nat (dr_plaintext_consumed R)), (''plaintext_available'', debug_nat (dr_plaintext_available R)),
     (''status'', DecryptStatus_debug (dr_status R))] False"

definition Reader_debug :: "('r \<Rightarrow> debug) \<Rightarrow> ('x, 'r) Reader \<Rightarrow> debug" where
  "Reader_debug render R = Struct ''Reader''
    [(''inner'', render (rr_inner R)), (''state'', DecryptionState_debug (rr_state R)), (''header'', Header_debug (rr_header R)),
     (''layout'', MessageLayout_debug (rr_layout R)), (''message_start'', debug_u64 (rr_message_start R)),
     (''scratch'', SegmentBuffer_debug (rr_scratch R)), (''plaintext_position'', debug_u64 (rr_plaintext_position R)),
     (''cached_position'', debug_option debug_u64 (rr_cached_position R)),
     (''inner_position'', debug_option debug_u64 (rr_inner_position R))] False"

section \<open>Errors that carry a value\<close>

fun LengthRequirement_debug :: "LengthRequirement \<Rightarrow> debug" where
  "LengthRequirement_debug (Exactly n) = Tuple ''Exactly'' [debug_nat n]"
| "LengthRequirement_debug (AtLeast n) = Tuple ''AtLeast'' [debug_nat n]"
| "LengthRequirement_debug (AtMost n) = Tuple ''AtMost'' [debug_nat n]"
| "LengthRequirement_debug (Between minimum maximum) =
    Struct ''Between'' [(''minimum'', debug_nat minimum), (''maximum'', debug_nat maximum)] False"

fun Error_debug :: "Error \<Rightarrow> debug" where
  "Error_debug (InvalidKeyLength actual) = Struct ''InvalidKeyLength'' [(''actual'', debug_nat actual)] False"
| "Error_debug InvalidParameters = Text ''InvalidParameters''"
| "Error_debug (InvalidSegmentLength actual) = Struct ''InvalidSegmentLength'' [(''actual'', debug_nat (unat actual))] False"
| "Error_debug (InvalidPlaintextLength actual required) =
    Struct ''InvalidPlaintextLength'' [(''actual'', debug_nat actual), (''required'', LengthRequirement_debug required)] False"
| "Error_debug (InvalidHeaderLength actual) = Struct ''InvalidHeaderLength'' [(''actual'', debug_nat actual)] False"
| "Error_debug InvalidHeaderParameters = Text ''InvalidHeaderParameters''"
| "Error_debug InvalidHeaderTag = Text ''InvalidHeaderTag''"
| "Error_debug (InvalidCiphertextLength actual required) =
    Struct ''InvalidCiphertextLength'' [(''actual'', debug_nat actual), (''required'', LengthRequirement_debug required)] False"
| "Error_debug InvalidSegmentPrefix = Text ''InvalidSegmentPrefix''"
| "Error_debug AuthenticationFailed = Text ''AuthenticationFailed''"
| "Error_debug Closed = Text ''Closed''"
| "Error_debug Truncated = Text ''Truncated''"
| "Error_debug SegmentLimit = Text ''SegmentLimit''"
| "Error_debug (OutputTooSmall actual required) =
    Struct ''OutputTooSmall'' [(''actual'', debug_nat actual), (''required'', debug_nat required)] False"
| "Error_debug InvalidBufferState = Text ''InvalidBufferState''"
| "Error_debug ProviderSelectionRequired = Text ''ProviderSelectionRequired''"
| "Error_debug LengthOverflow = Text ''LengthOverflow''"
| "Error_debug RngFailure = Text ''RngFailure''"
| "Error_debug CryptoFailure = Text ''CryptoFailure''"

definition FinalEncryptError_debug :: "'x FinalEncryptError \<Rightarrow> debug" where
  "FinalEncryptError_debug f = Struct ''FinalEncryptError'' [(''error'', Error_debug (fe_error f))] True"

definition FinalEncryptError_fmt :: "'z build_scheme \<Rightarrow> 'x FinalEncryptError \<Rightarrow> string" where
  "FinalEncryptError_fmt B f = ''failed to encrypt final FLOE segment: '' @ Error_fmt B (fe_error f)"

definition FinalEncryptError_source :: "'x FinalEncryptError \<Rightarrow> Error option" where
  "FinalEncryptError_source f = Some (fe_error f)"

definition FinishError_debug :: "(IoError \<Rightarrow> debug) \<Rightarrow> 'w FinishError \<Rightarrow> debug" where
  "FinishError_debug show_io f = Struct ''FinishError'' [(''error'', show_io (fi_error f))] True"

definition FinishError_fmt :: "(IoError \<Rightarrow> string) \<Rightarrow> 'w FinishError \<Rightarrow> string" where
  "FinishError_fmt display_io f = ''failed to finish FLOE stream: '' @ display_io (fi_error f)"

definition FinishError_source :: "'w FinishError \<Rightarrow> IoError option" where
  "FinishError_source f = Some (fi_error f)"

section \<open>Destructors\<close>

text \<open>What dropping the message key of a context leaves in its memory.\<close>

definition SecretBytes_drop :: "'x env \<Rightarrow> bytes \<Rightarrow> bytes" where
  "SecretBytes_drop E secret = zeroize E secret"

lemma drop_wipes:
  assumes "lawful E S"
  shows "key_bytes (Key_drop E K) = replicate (length (key_bytes K)) 0"
    "SecretBytes_drop E (mc_message_key C) = replicate (length (mc_message_key C)) 0"
    "SegmentBuffer_drop E B = replicate (SegmentBuffer_capacity B) 0"
  using lawfulD(7) [OF assms] by (simp_all add: Key_drop_def SecretBytes_drop_def SegmentBuffer_drop_def SegmentBuffer_capacity_def)

section \<open>What is public\<close>

text \<open>
  The public view of a value leaves out keys, associated data, nonces, generator states, the bytes of
  buffers and the lookahead byte.
\<close>

definition public_context :: "MessageContext \<Rightarrow> Provider \<times> Parameters \<times> bytes \<times> nat" where
  "public_context C = (mc_provider C, mc_parameters C, mc_floe_iv C, length (mc_aad C))"

definition public_cache :: "'x KeyCache \<Rightarrow> u64 option" where
  "public_cache K = map_option ck_masked_position (cached_key K)"

definition public_buffer :: "SegmentBuffer \<Rightarrow> Parameters \<times> nat \<times> BufferState" where
  "public_buffer B = (sb_parameters B, length (sb_bytes B), sb_state B)"

definition public_encryptor where
  "public_encryptor e = (public_context (es_context (en_state e)), public_cache (es_keys (en_state e)),
    ng_next (es_nonces (en_state e)), en_header e, en_counter e)"

definition public_decryption where
  "public_decryption s = (public_context (ds_context s), public_cache (ds_keys s))"

definition public_writer where
  "public_writer W = (map_option public_encryptor (ew_encryptor W), ew_header W, public_buffer (ew_buffer W), ew_status W)"

definition public_encrypt_reader where
  "public_encrypt_reader R = (map_option public_encryptor (er_encryptor R), er_header R, er_header_position R,
    public_buffer (er_buffer R), er_ciphertext_position R, er_ciphertext_length R, er_lookahead R \<noteq> None, er_status R)"

definition public_decryptor where
  "public_decryptor d = (public_decryption (de_state d), de_counter d)"

definition public_decrypt_reader where
  "public_decrypt_reader R = (map_option public_decryptor (dr_decryptor R), dr_header R,
    public_buffer (dr_buffer R), dr_plaintext_consumed R, dr_plaintext_available R, dr_status R)"

definition public_reader where
  "public_reader R = (public_decryption (rr_state R), rr_header R, rr_layout R, rr_message_start R,
    public_buffer (rr_scratch R), rr_plaintext_position R, rr_cached_position R, rr_inner_position R)"

lemma debug_option_public:
  assumes "map_option f x = map_option f y" "\<And>a b. f a = f b \<Longrightarrow> render a = render b"
  shows "debug_option render x = debug_option render y"
  using assms(1) assms(2) [of "the x" "the y"] by (cases x; cases y) (auto simp: debug_option_def)

lemma MessageContext_debug_public: "public_context C = public_context D \<Longrightarrow> MessageContext_debug C = MessageContext_debug D"
  by (simp add: public_context_def MessageContext_debug_def)

lemma KeyCache_debug_public: "public_cache K = public_cache L \<Longrightarrow> KeyCache_debug K = KeyCache_debug L"
  by (simp add: public_cache_def KeyCache_debug_def)

lemma SegmentBuffer_debug_public: "public_buffer B = public_buffer D \<Longrightarrow> SegmentBuffer_debug B = SegmentBuffer_debug D"
  by (simp add: public_buffer_def SegmentBuffer_debug_def SegmentBuffer_capacity_def)

lemma DecryptionState_debug_public: "public_decryption s = public_decryption t \<Longrightarrow> DecryptionState_debug s = DecryptionState_debug t"
  using MessageContext_debug_public [of "ds_context s" "ds_context t"] KeyCache_debug_public [of "ds_keys s" "ds_keys t"]
  by (simp add: public_decryption_def DecryptionState_debug_def)

lemma Encryptor_debug_public: "public_encryptor e = public_encryptor f \<Longrightarrow> Encryptor_debug e = Encryptor_debug f"
  using MessageContext_debug_public [of "es_context (en_state e)" "es_context (en_state f)"]
    KeyCache_debug_public [of "es_keys (en_state e)" "es_keys (en_state f)"]
  by (simp add: public_encryptor_def Encryptor_debug_def EncryptionState_debug_def NonceGenerator_debug_def)

lemma EncryptWriter_debug_public:
  fixes W V :: "('x, 'i) EncryptWriter"
  assumes "public_writer W = public_writer V" "render (ew_inner W) = render (ew_inner V)"
  shows "EncryptWriter_debug render W = EncryptWriter_debug render V"
  using assms debug_option_public [where render = Encryptor_debug and f = public_encryptor, OF _ Encryptor_debug_public, of "ew_encryptor W" "ew_encryptor V"]
    SegmentBuffer_debug_public [of "ew_buffer W" "ew_buffer V"]
  by (simp add: public_writer_def EncryptWriter_debug_def)

lemma EncryptReader_debug_public:
  fixes Q R :: "('x, 'i) EncryptReader"
  assumes "public_encrypt_reader Q = public_encrypt_reader R" "render (er_inner Q) = render (er_inner R)"
  shows "EncryptReader_debug render Q = EncryptReader_debug render R"
  using assms debug_option_public [where render = Encryptor_debug and f = public_encryptor, OF _ Encryptor_debug_public, of "er_encryptor Q" "er_encryptor R"]
    SegmentBuffer_debug_public [of "er_buffer Q" "er_buffer R"]
  by (simp add: public_encrypt_reader_def EncryptReader_debug_def)

lemma Decryptor_debug_public: "public_decryptor d = public_decryptor f \<Longrightarrow> Decryptor_debug d = Decryptor_debug f"
  using DecryptionState_debug_public [of "de_state d" "de_state f"] by (simp add: public_decryptor_def Decryptor_debug_def)

lemma DecryptReader_debug_public:
  fixes Q R :: "('x, 'i) DecryptReader"
  assumes "public_decrypt_reader Q = public_decrypt_reader R" "render (dr_inner Q) = render (dr_inner R)"
  shows "DecryptReader_debug render Q = DecryptReader_debug render R"
  using assms debug_option_public [where render = Decryptor_debug and f = public_decryptor, OF _ Decryptor_debug_public, of "dr_decryptor Q" "dr_decryptor R"]
    SegmentBuffer_debug_public [of "dr_buffer Q" "dr_buffer R"]
  by (simp add: public_decrypt_reader_def DecryptReader_debug_def)

lemma Reader_debug_public:
  fixes Q R :: "('x, 'i) Reader"
  assumes "public_reader Q = public_reader R" "render (rr_inner Q) = render (rr_inner R)"
  shows "Reader_debug render Q = Reader_debug render R"
  using assms DecryptionState_debug_public [of "rr_state Q" "rr_state R"] SegmentBuffer_debug_public [of "rr_scratch Q" "rr_scratch R"]
  by (simp add: public_reader_def Reader_debug_def)

text \<open>
  C30: Formatting never shows a secret. What \<^verbatim>\<open>{:?}\<close> and \<^verbatim>\<open>{:#?}\<close> print of a key is the same for all
  keys, and what they print of an adapter depends only on its public view (provider, parameters,
  header, lengths, positions and statuses) and on what the wrapped object prints of itself: not on
  message or segment keys, associated data, nonces, the generator's state, buffered plaintext or
  ciphertext, or the lookahead byte. A failed final encryption prints only its error.
\<close>

theorem debug_hides_secrets:
  fixes W V :: "('x, 'i) EncryptWriter" and R R' :: "('x, 'i) EncryptReader" and D D' :: "('x, 'i) DecryptReader"
    and A A' :: "('x, 'i) Reader"
  shows "debug_text alternate (Key_debug K) = debug_text alternate (Key_debug K') \<and>
    (public_writer W = public_writer V \<and> render (ew_inner W) = render (ew_inner V) \<longrightarrow>
       debug_text alternate (EncryptWriter_debug render W) = debug_text alternate (EncryptWriter_debug render V)) \<and>
    (public_encrypt_reader R = public_encrypt_reader R' \<and> render (er_inner R) = render (er_inner R') \<longrightarrow>
       debug_text alternate (EncryptReader_debug render R) = debug_text alternate (EncryptReader_debug render R')) \<and>
    (public_decrypt_reader D = public_decrypt_reader D' \<and> render (dr_inner D) = render (dr_inner D') \<longrightarrow>
       debug_text alternate (DecryptReader_debug render D) = debug_text alternate (DecryptReader_debug render D')) \<and>
    (public_reader A = public_reader A' \<and> render (rr_inner A) = render (rr_inner A') \<longrightarrow>
       debug_text alternate (Reader_debug render A) = debug_text alternate (Reader_debug render A')) \<and>
    (fe_error f = fe_error f' \<longrightarrow>
       debug_text alternate (FinalEncryptError_debug f) = debug_text alternate (FinalEncryptError_debug f'))"
  using EncryptWriter_debug_public [of W V render] EncryptReader_debug_public [of R R' render]
    DecryptReader_debug_public [of D D' render] Reader_debug_public [of A A' render]
  by (auto simp: Key_debug_def FinalEncryptError_debug_def)

text \<open>A writer over a sink that prints itself as a constant, all of whose secrets are the byte \<open>b\<close>.\<close>

definition secret_writer :: "u8 \<Rightarrow> (u8, u8) EncryptWriter" where
  "secret_writer b =
    \<lparr> ew_inner = b,
      ew_encryptor = Some \<lparr>
        en_state = \<lparr>
          es_context = \<lparr> mc_provider = Provider_RING, mc_parameters = SEGMENT_64_B, mc_message_key = replicate 48 b,
            mc_floe_iv = replicate 32 7, mc_aad = [b] \<rparr>,
          es_keys = \<lparr> cached_key = Some \<lparr> ck_masked_position = 0, ck_key = RingKey b \<rparr> \<rparr>,
          es_nonces = \<lparr> ng_rng = RingRng b, ng_bytes = replicate 3072 b, ng_next = 12 \<rparr> \<rparr>,
        en_header = Header (replicate 74 9), en_counter = \<lparr> sc_next = 1, sc_closed = False \<rparr> \<rparr>,
      ew_header = Header (replicate 74 9),
      ew_buffer = \<lparr> sb_parameters = SEGMENT_64_B, sb_bytes = replicate 64 b, sb_state = Plaintext 20 \<rparr>,
      ew_status = Open \<rparr>"

lemma secret_writer_public: "public_writer (secret_writer a) = public_writer (secret_writer b)"
  by (simp add: secret_writer_def public_writer_def public_encryptor_def public_context_def public_cache_def public_buffer_def)

theorem debug_hides_secrets_witness:
  "debug_text True (EncryptWriter_debug (\<lambda>_. Text ''RedactedIo'') (secret_writer 213)) =
     debug_text True (EncryptWriter_debug (\<lambda>_. Text ''RedactedIo'') (secret_writer 7)) \<and>
   ew_buffer (secret_writer 213) \<noteq> ew_buffer (secret_writer 7)"
proof
  show "debug_text True (EncryptWriter_debug (\<lambda>_. Text ''RedactedIo'') (secret_writer 213)) =
     debug_text True (EncryptWriter_debug (\<lambda>_. Text ''RedactedIo'') (secret_writer 7))"
    using debug_hides_secrets [of True _ _ "secret_writer 213" "secret_writer 7" "\<lambda>_. Text ''RedactedIo''"]
      secret_writer_public [of 213 7] by blast
qed (simp add: secret_writer_def)

end
