(* ===== verification/Spec2Isabelle.thy ===== *)
theory Spec2Isabelle
  imports Floe_Integrity Floe_Sessions Floe_Encrypt_Writer Floe_Random_Release Floe_Random_Seeks Floe_Parallel Floe_Debug
begin

text \<open>
  A verification library for fast-floe, an implementation of the FLOE authenticated encryption
  format. A message is a 74-byte header (encoded parameters, IV, header tag) followed by
  segments; each segment carries a 4-byte prefix, a 12-byte nonce, the sealed payload and a
  16-byte tag, all segments but the last are full, and the last one is marked as final.

  \<^bold>\<open>The program and its theories.\<close> Each theory models one file or one part of a file under
  \<^verbatim>\<open>src/src/\<close>; a definition \<open>T_f\<close> is the method \<^verbatim>\<open>f\<close> of the type \<^verbatim>\<open>T\<close>.

  \<^item> \<open>Floe_Prelude\<close>: what the sources use of Rust. \<open>rust\<close> is the outcome of a call (\<open>Ok\<close>, \<open>Err\<close>
    or \<open>Panic\<close>), \<open>bind\<close> and \<open>try_in\<close> are the question mark operator without and with state,
    \<open>checked_add\<close> and its kin are the checked operations on machine words, \<open>slice\<close>, \<open>splice\<close> and
    \<open>index_range\<close> are reads and writes of byte ranges (an index out of range is a \<open>Panic\<close>), and
    \<open>target\<close> is the pointer width, 32 or 64, on which \<open>usize\<close> depends.
  \<^item> \<open>Floe_Error\<close> and \<open>Floe_Display\<close> (\<^verbatim>\<open>error.rs\<close>), \<open>Floe_Provider\<close> (\<^verbatim>\<open>provider.rs\<close>), \<open>Floe_Key\<close> (\<^verbatim>\<open>key.rs\<close>),
    \<open>Floe_Wire\<close> (\<^verbatim>\<open>wire.rs\<close>): errors and their texts, build features and providers, keys, header
    splitting, error wrapping and the functions that read from a stream.
  \<^item> \<open>Floe_Parameters\<close> (\<^verbatim>\<open>parameters.rs\<close>): parameter sets, message and segment layouts, the segment
    iterator, framing prefixes, the parameter encoding and the key rotation mask, all on machine
    words with the source's overflow checks.
  \<^item> \<open>Floe_Backends\<close> (\<^verbatim>\<open>backends.rs\<close>): the four provider modules, the dispatching \<open>AeadKey\<close>,
    \<open>Provider_kdf_expand\<close> and \<open>ProviderRng\<close>. The crates behind them are not part of the repository:
    their functions are the fields of the record \<open>env\<close>, an argument of every definition that
    reaches them, together with the build features, the pointer width and the state of the
    outside world from which randomness is drawn.
  \<^item> \<open>Floe_Buffer\<close> (\<^verbatim>\<open>buffer.rs\<close>): the reusable segment buffer and its three states.
  \<^item> \<open>Floe_Context\<close>, \<open>Floe_Segment\<close>, \<open>Floe_State\<close> (\<^verbatim>\<open>state.rs\<close>): the header and the three key
    derivations, the segment key cache and the batched nonce generator; the functions that seal
    and open one segment; the encryption and decryption states, the shared contexts with their
    forks, and the functions that start a message.
  \<^item> \<open>Floe_Online\<close> (\<^verbatim>\<open>online.rs\<close>): the segment counter, the online encryptor and decryptor and the
    one-shot functions.
  \<^item> \<open>Floe_Message\<close>: the specification of whole messages and the proofs that the one-shot functions
    meet it. \<open>Floe_Integrity\<close>: what the format of a message binds, by reduction to its primitives.
  \<^item> \<open>Floe_Stream\<close> and \<open>Floe_Seek\<close>: what the sources use of \<^verbatim>\<open>std::io\<close>. A reader is its \<^verbatim>\<open>read\<close> function, a
    writer its \<^verbatim>\<open>write\<close> function, a seekable reader the record of \<^verbatim>\<open>read\<close>, \<^verbatim>\<open>seek\<close> and \<^verbatim>\<open>stream_position\<close>; each
    may do anything, fail, or not return.
  \<^item> \<open>Floe_Io\<close> (\<^verbatim>\<open>io.rs\<close>): \<^verbatim>\<open>EncryptWriter\<close>, \<^verbatim>\<open>EncryptReader\<close> and \<^verbatim>\<open>DecryptReader\<close> over arbitrary readers and
    writers. Proofs: \<open>Floe_Decrypt_Reader\<close> and \<open>Floe_Decrypt_Finish\<close> (the decrypting reader, its
    finalization), \<open>Floe_Release\<close> (what it may hand over when the wrapped reader is faulty or hostile),
    \<open>Floe_Sessions\<close> (sessions of calls, and poisoning), \<open>Floe_Seals\<close> (sealing a sequence of
    segments), \<open>Floe_Encrypt_Reader\<close> and \<open>Floe_Encrypt_Writer\<close>.
  \<^item> \<open>Floe_Random_Access\<close> (\<^verbatim>\<open>random_access.rs\<close>): the seekable plaintext reader. Proofs:
    \<open>Floe_Random_Segments\<close> (fetching and caching segments), \<open>Floe_Random_Ranges\<close> (range reads,
    reading and seeking), \<open>Floe_Random_Reader\<close> (opening, and the properties), \<open>Floe_Random_Release\<close>
    (what it may return when the wrapped reader is faulty or hostile) and \<open>Floe_Random_Seeks\<close> (when the
    wrapped reader is sought).
  \<^item> \<open>Floe_Pool\<close> and \<open>Floe_Parallel\<close>: the use the shared contexts of \<^verbatim>\<open>state.rs\<close> are made for. Workers with
    forked states process disjoint regions of one message, in any interleaving of their jobs (a step
    relation on a shared store).
  \<^item> \<open>Floe_Debug\<close>: the \<^verbatim>\<open>Debug\<close> implementations of all files, as the calls they make on the formatter and
    the text the standard library makes of them, the \<^verbatim>\<open>Display\<close> and \<^verbatim>\<open>source\<close> of \<^verbatim>\<open>FinishError\<close> and
    \<^verbatim>\<open>FinalEncryptError\<close>, and the destructors that wipe secrets.

  \<^bold>\<open>State and effects.\<close> A method that mutates its receiver returns the new state beside its
  result; a caller's output buffer is an argument and a result. Errors are values, and every
  \<^verbatim>\<open>expect\<close>, slice index and array conversion that could fail is a branch that yields \<open>Panic\<close>, so
  that the absence of panics is proved and not assumed. The loop of \<open>encrypt_body\<close> recurses over the
  segments of the layout; the loop of \<open>decrypt_body\<close> is a recursive function whose termination proof
  uses that an accepted segment is never empty. Loops that call a wrapped reader or writer may run
  forever when it never makes progress: they are partial functions whose value \<open>None\<close> means not
  returning, and that they return over a well-behaved reader or writer is proved. No fuel is used
  anywhere. The adapters keep the source's status fields; where the source uses debug assertions and
  unchecked arithmetic, the model panics.

  \<^bold>\<open>Hypotheses.\<close> \<open>lawful E S\<close> says that the crates of the environment \<open>E\<close> compute the primitives \<open>S\<close>
  (AES-256-GCM, of which only the lengths and that opening inverts sealing are used, and
  HMAC-SHA-384, of which only the length is used), that constant-time comparison is equality, that zeroizing writes
  zeros and that random sources fill their output or fail. Nothing of it speaks about FLOE.
  \<open>entropy_available\<close> says that random sources do not fail; only theorems that promise
  success assume it. \<open>toy_env\<close> and \<open>toy_prims\<close> satisfy both and serve the witnesses. \<open>params_ok\<close> is the
  range \<open>Parameters_with_segment_length\<close> enforces. Theorems on the adapters assume what the documentation
  of the standard library promises of the wrapped object, as a locale predicate: \<open>byte_source\<close> (reads
  deliver the next bytes of a fixed content in pieces of any size, and are interrupted at most
  finitely often in a row), \<open>byte_sink\<close> and \<open>flushing_sink\<close> (up to a limit, writes
  accept bytes in pieces of any size, with finitely many interruptions in a row) and \<open>seekable_source\<close>
  (fixed contents that can be sought). The theorems on released plaintext assume only
  \<open>keeps_length\<close>: a reader cannot change the length of the buffer it is lent; the one on poisoned
  sessions adds that it does not panic or report more bytes than fit (\<open>bounded_reads\<close>). Theorems that speak
  of a usable key assume \<open>Key_provider E key = Ok provider\<close>: the key names a provider of the build, or
  the build has a default; that every entry point refuses other keys is shown too.

  \<^bold>\<open>What is shown.\<close> \<open>floe_header\<close>, \<open>floe_segment\<close>, \<open>floe_body\<close> and \<open>floe_message\<close> specify the format from
  the primitives alone. Encryption writes such a message, decryption returns \<open>p\<close> exactly
  on the messages of \<open>p\<close>, round trips hold across builds and providers, truncated and extended
  messages are refused, decryption never panics, and forked states open single segments. Whatever
  decrypts under a key was encrypted under it or contains a forgery of HMAC or AES-GCM, a ciphertext
  commits to its key and associated data, and a message uses no random byte twice. Below
  these, per component: layouts are exact and tile the plaintext; parameter and framing codecs
  accept exactly the encodings of valid values; providers are interchangeable; the key cache is
  transparent and nonces partition the random batches; in-place and copying encryption agree;
  in-place decryption wipes its buffer on every error, in-place encryption on every error that follows
  its initial checks; the segment counter (a step relation) issues consecutive positions up to the
  limit; a final segment that failed, for whatever reason, can be retried.
  For the adapters: reading a stream to its end and finishing it delivers p exactly when one-shot
  decryption does; the encrypting reader yields the one-shot ciphertext; the writer leaves a message
  of everything written in its sink; writer and reader compose to the identity. Over any wrapped reader that
  keeps to its contract no call of a decrypting reader panics and after an error every call fails; over a well-behaved one every
  session of calls returns. For random access: an opened reader
  returns exactly the slices of the one-shot plaintext, a range read depends only on the segments that
  overlap the range and is refused when one of them is not authentic, contiguous reads never seek the
  wrapped reader and a range read seeks it at most once, and an opened reader is itself a
  seekable source, of the plaintext. Whatever the wrapped reader does, a decrypting reader releases
  only the beginning of authenticated plaintext, and a random-access reader returns only plaintext of
  authentic segments of its message, each for its own position. Workers that share a message encrypt
  it, in any order, to a message that decrypts to the plaintext, and decrypt it to what one-shot
  decryption returns. A key that names no provider is refused at every entry point of a build without
  a default. Formatting shows no secret, and error texts identify their errors.

  \<^bold>\<open>Interfaces.\<close> \<open>aead_backend\<close> is what the segment layer relies on in a provider key, \<open>segment_key_source\<close>
  what it relies on in the key cache and \<open>nonce_source\<close> what it relies on in the nonce generator;
  each is interpreted on the definitions that model the code (\<open>aead\<close>, \<open>cache\<close>, \<open>nonces\<close>). \<open>byte_source\<close>,
  \<open>byte_sink\<close> with its extension \<open>flushing_sink\<close>, and \<open>seekable_source\<close>, which extends \<open>byte_source\<close>, are
  what the adapters rely on in the objects they wrap; they are interpreted on the standard library's
  byte slice, vector and cursor, and the decrypting reader, the encrypting reader and the
  random-access reader are proved to satisfy \<open>byte_source\<close> or \<open>seekable_source\<close> themselves.

  \<open>worker_pool\<close> states what the scheduling of jobs relies on in a worker, and \<open>live_pool\<close>, which extends
  it, that its jobs succeed; both are interpreted on the encryption and the decryption states.

  \<^bold>\<open>Not modelled.\<close> When a value is dropped (a destructor is modelled by what it leaves in the memory it
  owned) and what compilers and the crates' own types leave behind; failure of memory allocation;
  unwinding, so the state after a panic is not observed; the text of \<^verbatim>\<open>io::Error\<close>, an argument of the
  definitions that print one. Of \<^verbatim>\<open>lib.rs\<close>, which otherwise re-exports, the guard against a build
  without providers is modelled. Tests, examples and benchmarks are not part of the library; the
  rotation mask that tests can set is the constant of all other builds.
\<close>

section \<open>Properties of whole messages\<close>

text \<open>
  C1: One-shot round trip across providers and builds: for keys that resolve to a provider in their build
  (a key names one or the build has a default), with entropy available and a plaintext the
  layout and the address space admit, encryption succeeds, and any build with any provider holding
  the same key bytes and associated data decrypts the ciphertext to the plaintext, whether it
  infers the parameters from the header or requires them.
\<close>

theorem one_shot_roundtrip:
  assumes "lawful E S" "lawful F S" "entropy_available E" "params_ok P"
    and "Key_provider E key = Ok provider" "Key_provider F key' = Ok provider'" "key_bytes key' = key_bytes key"
    and "length p \<le> usize_max (pointer_width E)"
    and "Parameters_plaintext_layout P (word_of_nat (length p)) = Ok L"
    and "unat (ml_ciphertext_length L) \<le> usize_max (pointer_width E)"
  shows "\<exists>c. encrypt E key aad P p w = Ok c \<and> decrypt F key' aad c = Ok p \<and> decrypt_with_parameters F key' aad P c = Ok p"
proof -
  obtain c where c: "encrypt E key aad P p w = Ok c" using encrypt_available [OF assms(1,3-5,8-10)] by blast
  have "is_floe_message S key' P aad p c"
    using encrypt_okD(1) [OF assms(1,4,5,8) c] is_floe_message_key [OF assms(7)] by simp
  then show ?thesis
    using c decrypt_accepts [OF assms(2,6)] decrypt_with_parameters_accepts [OF assms(2,4,6)] assms(4)
      is_floe_message_length [OF lawfulD(1) [OF assms(1)]] by blast
qed

theorem one_shot_roundtrip_witness:
  "\<exists>c. encrypt toy_env (toy_key Provider_RING) [5] SEGMENT_64_B (replicate 70 9) ([], []) = Ok c \<and>
     decrypt toy_env (toy_key Provider_BORING) [5] c = Ok (replicate 70 9) \<and>
     decrypt_with_parameters toy_env (toy_key Provider_BORING) [5] SEGMENT_64_B c = Ok (replicate 70 9)"
  by (rule one_shot_roundtrip [where L = toy_layout, OF toy_lawful toy_lawful toy_entropy segment_64(1) toy_key(2) toy_key(2)])
    (use usize_max_ge [of "pointer_width toy_env"] in \<open>simp_all add: toy_key toy_layout\<close>)

text \<open>
  C2: Decryption accepts exactly the FLOE messages: for a key that resolves to a provider, it returns
  \<open>p\<close> if and only if the input is, for some supported parameter set, a message of \<open>p\<close> under this key and associated data.
\<close>

theorem decrypt_accepts_exactly:
  assumes "lawful E S" "Key_provider E key = Ok provider"
  shows "decrypt E key aad c = Ok p \<longleftrightarrow> (\<exists>P. params_ok P \<and> is_floe_message S key P aad p c)"
  by (rule decrypt_accepts [OF assms])

theorem decrypt_accepts_exactly_witness:
  "\<forall>c p. decrypt toy_env (toy_key Provider_AWS_LC_RS) [5] c = Ok p \<longleftrightarrow>
    (\<exists>P. params_ok P \<and> is_floe_message toy_prims (toy_key Provider_AWS_LC_RS) P [5] p c)"
  using decrypt_accepts_exactly [OF toy_lawful toy_key(2)] by blast

text \<open>
  C3: For a key that resolves to a provider, what encryption returns is a FLOE message of the plaintext
  for the requested parameters, of the length the layout announces. It never panics, and its only errors are an entropy failure, the
  layout's own refusal of the plaintext length, and a ciphertext longer than the address space.
\<close>

theorem encrypt_writes_message:
  assumes "lawful E S" "params_ok P" "Key_provider E key = Ok provider" "length p \<le> usize_max (pointer_width E)"
  shows "case encrypt E key aad P p w of
      Ok c \<Rightarrow> is_floe_message S key P aad p c \<and>
        (\<exists>L. Parameters_plaintext_layout P (word_of_nat (length p)) = Ok L \<and> length c = unat (ml_ciphertext_length L))
    | Err e \<Rightarrow> e = RngFailure \<or> Parameters_plaintext_layout P (word_of_nat (length p)) = Err e \<or>
        (e = LengthOverflow \<and> (\<exists>L. Parameters_plaintext_layout P (word_of_nat (length p)) = Ok L \<and>
           usize_max (pointer_width E) < unat (ml_ciphertext_length L)))
    | Panic \<Rightarrow> False"
proof -
  obtain r iv rng where fill: "ProviderRng_fill E (ProviderRng_new provider w) (replicate 32 0) = (r, iv, rng)"
    by (metis prod_cases3)
  have r: "r = Ok () \<or> r = Err RngFailure"
    using ProviderRng_fill_total(2) [OF lawfulD(6) [OF assms(1)], of "ProviderRng_new provider w" "replicate 32 0"] fill by simp
  note spec = encrypt_spec [OF assms, of aad w] and okD = encrypt_okD [OF assms, of aad w]
  show ?thesis
  proof (cases "\<exists>c. encrypt E key aad P p w = Ok c")
    case True
    then show ?thesis using okD by auto
  next
    case False
    show ?thesis
    proof (cases "Parameters_plaintext_layout P (word_of_nat (length p))")
      case (Ok L)
      show ?thesis
        using False r Ok draw_nonces_cases [OF lawfulD(6) [OF assms(1)] NonceGenerator_new_ok, of "unat (ml_segment_count L)" rng]
        by (auto simp: spec fill)
    next
      case (Err e)
      then show ?thesis using r by (auto simp: spec fill)
    next
      case Panic
      then show ?thesis by (simp add: plaintext_layout_cases [OF assms(2)] split: if_splits)
    qed
  qed
qed

theorem encrypt_writes_message_witness:
  "case encrypt toy_env (toy_key Provider_RING) [5] SEGMENT_64_B (replicate 70 9) ([], []) of
      Ok c \<Rightarrow> is_floe_message toy_prims (toy_key Provider_RING) SEGMENT_64_B [5] (replicate 70 9) c \<and>
        (\<exists>L. Parameters_plaintext_layout SEGMENT_64_B (word_of_nat (length (replicate 70 (9 :: u8)))) = Ok L \<and>
           length c = unat (ml_ciphertext_length L))
    | Err e \<Rightarrow> e = RngFailure \<or> Parameters_plaintext_layout SEGMENT_64_B (word_of_nat (length (replicate 70 (9 :: u8)))) = Err e \<or>
        (e = LengthOverflow \<and> (\<exists>L. Parameters_plaintext_layout SEGMENT_64_B (word_of_nat (length (replicate 70 (9 :: u8)))) = Ok L \<and>
           usize_max (pointer_width toy_env) < unat (ml_ciphertext_length L)))
    | Panic \<Rightarrow> False"
  by (rule encrypt_writes_message [OF toy_lawful segment_64(1) toy_key(2)])
    (use usize_max_ge [of "pointer_width toy_env"] in simp)

text \<open>
  C6: Truncation and extension are detected: if a byte string decrypts, no strict extension of it
  decrypts, whatever key, associated data, provider or build is used; so neither does any strict
  prefix of an accepted ciphertext.
\<close>

theorem truncation_detected:
  assumes "lawful E S" "lawful F S" "Key_provider E key = Ok provider" "Key_provider F key' = Ok provider'"
    and "decrypt E key aad c = Ok p" "x \<noteq> []"
  shows "decrypt F key' aad' (c @ x) \<noteq> Ok q"
proof
  assume "decrypt F key' aad' (c @ x) = Ok q"
  then obtain Q where Q: "params_ok Q" "is_floe_message S key' Q aad' q (c @ x)"
    using decrypt_accepts [OF assms(2,4)] by blast
  obtain P where P: "params_ok P" "is_floe_message S key P aad p c"
    using decrypt_accepts [OF assms(1,3)] assms(5) by blast
  note S = lawfulD(1) [OF assms(1)]
  have "Parameters_encode P = Parameters_encode Q"
    using is_floe_message_parameters [OF S P(2)] is_floe_message_parameters [OF S Q(2)] is_floe_message_length [OF S P(2)]
    by simp
  then have "P = Q" using P(1) Q(1) decode_iff [of "Parameters_encode P" P] decode_iff [of "Parameters_encode P" Q] by simp
  then show False using is_floe_message_prefix_free [OF S P] Q(2) assms(6) by simp
qed

theorem truncation_detected_witness:
  "\<exists>c. decrypt toy_env (toy_key Provider_BORING) [5] c = Ok (replicate 70 9) \<and>
    decrypt toy_env (toy_key Provider_RING) [5] (c @ [0]) \<noteq> Ok []"
proof -
  obtain c where "decrypt toy_env (toy_key Provider_BORING) [5] c = Ok (replicate 70 9)" by (rule toy_encrypted [of _ "[5]"]) blast
  then show ?thesis using truncation_detected [OF toy_lawful toy_lawful toy_key(2) toy_key(2)] by blast
qed

text \<open>
  C24: Decryption is total on hostile input: for every byte string the one-shot decryptions return a
  plaintext or an error and never panic, whatever the key, the associated data and the required
  parameters.
\<close>

theorem decryption_never_panics:
  assumes "lawful E S" "params_ok P"
  shows "decrypt E key aad c \<noteq> Panic \<and> decrypt_with_parameters E key aad P c \<noteq> Panic"
proof
  note defs = split_header_spec bind_eq_Panic Decryptor_new_def Decryptor_new_with_parameters_def start_decryption_inferred_def
    start_decryption_def bind_assoc Key_provider_no_panic parameters_decode_no_panic Header_unverified_parameters_def
  have len: "length (header_bytes (Header (take 74 c))) = 74" if "\<not> length c < 74" using that by simp
  show "decrypt E key aad c \<noteq> Panic"
    using decrypt_message_no_panic [OF assms(1) _ len, of _ key _ aad "drop 74 c"]
    by (auto simp: decrypt_def defs decode_iff)
  show "decrypt_with_parameters E key aad P c \<noteq> Panic"
    using decrypt_message_no_panic [OF assms(1,2) len, of key _ aad "drop 74 c"]
    by (auto simp: decrypt_with_parameters_def defs)
qed

theorem decryption_never_panics_witness:
  "\<forall>c. decrypt toy_env (toy_key Provider_RING) [5] c \<noteq> Panic \<and>
    decrypt_with_parameters toy_env (toy_key Provider_RING) [5] SEGMENT_64_B c \<noteq> Panic"
  using decryption_never_panics [OF toy_lawful segment_64(1)] by blast

text \<open>
  C31: Requiring parameters is a policy, not another format: for a key that resolves to a provider, decryption with required parameters
  accepts exactly what inferring decryption accepts among the inputs whose header names those
  parameters, and returns the same plaintext.
\<close>

theorem required_parameters_policy:
  assumes "lawful E S" "params_ok P" "Key_provider E key = Ok provider"
  shows "decrypt_with_parameters E key aad P c = Ok p \<longleftrightarrow> decrypt E key aad c = Ok p \<and> take 10 c = Parameters_encode P"
proof -
  note S = lawfulD(1) [OF assms(1)]
  have "Q = P" if "params_ok Q" "is_floe_message S key Q aad p c" "take 10 c = Parameters_encode P" for Q
    using that is_floe_message_parameters [OF S that(2)] assms(2) decode_iff [of "Parameters_encode P" P]
      decode_iff [of "Parameters_encode P" Q] by simp
  then show ?thesis
    using decrypt_accepts [OF assms(1,3)] decrypt_with_parameters_accepts [OF assms] assms(2)
      is_floe_message_parameters [OF S] is_floe_message_length [OF S] by metis
qed

theorem required_parameters_policy_witness:
  "\<forall>c p. decrypt_with_parameters toy_env (toy_key Provider_RING) [5] SEGMENT_64_B c = Ok p \<longleftrightarrow>
    decrypt toy_env (toy_key Provider_RING) [5] c = Ok p \<and> take 10 c = Parameters_encode SEGMENT_64_B"
  using required_parameters_policy [OF toy_lawful segment_64(1) toy_key(2)] by blast

text \<open>
  Random access round trip: once a message is started, any fork of its encryption state seals
  any segment of its layout, and any fork of a decryption state started from the header opens it
  again, with no other segment processed; the two sides may be different builds and providers.
\<close>

theorem random_access_roundtrip:
  fixes E :: "'x env" and w :: 'x
  assumes "lawful E S" "lawful F S" "entropy_available E" "params_ok P"
    and "Key_provider E key = Ok provider" "Key_provider F key' = Ok provider'" "key_bytes key' = key_bytes key"
    and "Parameters_plaintext_layout P n = Ok L" "MessageLayout_segment_for_position t L position = Some sl"
    and "length p = sl_plaintext_length sl"
  shows "\<exists>es header ds. start_encryption E key aad P w = Ok (es, header) \<and> start_decryption F key' aad P header = Ok ds \<and>
    (\<forall>w' :: 'x. \<exists>c. fst (EncryptionState_encrypt_segment E (SharedEncryptionContext_fork (EncryptionState_into_shared es) w') p sl) = Ok c \<and>
       fst (DecryptionState_decrypt_segment F (SharedDecryptionContext_fork (DecryptionState_into_shared ds)) c sl) = Ok p)"
proof (cases rule: start_encryption_spec [OF assms(1,4,5), of aad w])
  case 1
  then show ?thesis using ProviderRng_fill_available [OF assms(3), of "ProviderRng_new provider w" "replicate 32 0"] by simp
next
  case (2 es iv rng)
  let ?H = "floe_header S key P iv aad" and ?fe = "\<lambda>w'. SharedEncryptionContext_fork (EncryptionState_into_shared es) w'"
  have H: "?H = floe_header S key' P iv aad" using assms(7) by (simp add: floe_header_def)
  obtain ds where ds: "start_decryption F key' aad P ?H = Ok ds" "ds_context ds = floe_context S provider' key' P iv aad"
      "dec_state_ok F ds"
    using start_decryption_floe_header [OF assms(2,4) 2(2), of key' provider' aad] assms(6)
    unfolding H start_decryption_def by auto
  let ?fd = "SharedDecryptionContext_fork (DecryptionState_into_shared ds)"
  note L = plaintext_layout_okD [OF assms(4,8)]
  note SL = segment_for_positionD [OF L(1) assms(9)]
  have C: "mc_parameters (es_context (?fe w')) = P" "mc_parameters (ds_context ?fd) = P" for w' :: 'x
    by (simp_all add: fork_ok ds(2) 2(4) floe_context_def)
  have seg: "floe_segment S (es_context es) = floe_segment S (ds_context ds)"
    using assms(7) floe_segment_provider(1) [where p = provider and q = provider'] by (simp add: ds(2) 2(4) floe_context_def)
  have "\<exists>c. fst (EncryptionState_encrypt_segment E (?fe w') p sl) = Ok c \<and> fst (DecryptionState_decrypt_segment F ?fd c sl) = Ok p" for w' :: 'x
  proof -
    have ok: "enc_state_ok E (?fe w')" by (rule fork_ok(1) [OF 2(5)])
    have len: "seg_len_ok (es_context (?fe w')) (sl_kind sl) (length p)"
      using seg_len_ok_of_layout [OF L(1) assms(9)] C(1) L(2) assms(10) by simp
    have lay: "EncryptionState_encrypt_segment E (?fe w') p sl =
        EncryptionState_encrypt_segment_at E (?fe w') p position (sl_kind sl)"
      using encrypt_segment_layout [of sl "?fe w'" p E] SL(4,5) C(1) L(2) assms(10) by simp
    show ?thesis
    proof (cases rule: encrypt_at_cases [OF assms(1) ok len SL(3)])
      case 1
      then show ?thesis
        using nonce_available [OF assms(3) lawfulD(6) [OF assms(1)] enc_state_okD(3) [OF ok]] by auto
    next
      case (2 nonce s')
      then show ?thesis
        using decrypt_segment_sealed [OF assms(2) fork_ok(3) [OF ds(3)] L(1) assms(9) _ assms(10) 2(2)] C(2) L(2)
        by (simp add: lay fork_ok(2,4) seg)
    qed
  qed
  then show ?thesis using 2(1) ds(1) by blast
qed

theorem random_access_roundtrip_witness:
  "\<exists>es header ds. start_encryption toy_env (toy_key Provider_RING) [5] SEGMENT_64_B ([], []) = Ok (es, header) \<and>
    start_decryption toy_env (toy_key Provider_BORING) [5] SEGMENT_64_B header = Ok ds \<and>
    (\<forall>w'. \<exists>c. fst (EncryptionState_encrypt_segment toy_env
         (SharedEncryptionContext_fork (EncryptionState_into_shared es) w') (replicate 6 9) (segment_spec toy_layout 2)) = Ok c \<and>
       fst (DecryptionState_decrypt_segment toy_env
         (SharedDecryptionContext_fork (DecryptionState_into_shared ds)) c (segment_spec toy_layout 2)) = Ok (replicate 6 9))"
  by (rule random_access_roundtrip [OF toy_lawful toy_lawful toy_entropy segment_64(1) toy_key(2) toy_key(2) _ toy_layout(1),
        where position = 2 and t = Pointer64])
    (simp_all add: toy_key segment_for_position_spec [OF toy_layout(4)] toy_layout segment_spec_def seg_plain_len_def segment_64)

text \<open>
  C7: A streaming pipeline is the identity: for keys that resolve to a provider and with entropy available,
  a decrypting reader stacked on an encrypting reader,
  stacked on any well-behaved reader of a plaintext within the segment limit, opens; some way of
  reading to the end collects the plaintext and finishes cleanly, and whatever way of reading to the
  end finishes cleanly has collected the plaintext. The two sides may be different builds and
  providers.
\<close>

theorem streaming_pipeline_roundtrip:
  assumes "lawful E S" "lawful F S" "entropy_available E" "params_ok P"
    and "Key_provider E key = Ok provider" "Key_provider F key' = Ok provider'" "key_bytes key' = key_bytes key"
    and "byte_source rd yields patience" "yields r p" "length p div psl P < 2 ^ 40"
  shows "\<exists>R D R'. EncryptReader_new E r key aad P w = Ok R \<and>
    DecryptReader_new F (EncryptReader_read E rd) R key' aad = Some (Ok D, R') \<and>
    (\<exists>D1 D2. reads_to_end (DecryptReader_read F (EncryptReader_read E rd)) D p D1 \<and>
       DecryptReader_try_finish F (EncryptReader_read E rd) D1 = Some (Ok (), D2)) \<and>
    (\<forall>q D1 D2. reads_to_end (DecryptReader_read F (EncryptReader_read E rd)) D q D1 \<longrightarrow>
       DecryptReader_try_finish F (EncryptReader_read E rd) D1 = Some (Ok (), D2) \<longrightarrow> q = p)"
proof -
  obtain iv rng where fill: "ProviderRng_fill E (ProviderRng_new provider w) (replicate 32 0) = (Ok (), iv, rng)"
    using ProviderRng_fill_available [OF assms(3)] by (metis prod.collapse)
  then have iv: "length iv = 32"
    using ProviderRng_fill_total(1) [OF lawfulD(6) [OF assms(1)], of "ProviderRng_new provider w" "replicate 32 0"] by simp
  let ?C = "floe_context S provider key P iv aad" and ?H = "header_bytes (floe_header S key P iv aad)"
  have C: "mc_parameters ?C = P" by (simp add: floe_context_def)
  obtain body where body: "seals E S ?C True (NonceGenerator_new rng) 0 p body"
    using seals_available [OF assms(3) lawfulD(6) [OF assms(1)] NonceGenerator_new_ok, of ?C 0 p S rng] psl_pos [OF assms(4)] assms(10) C
    by auto
  obtain R where R: "EncryptReader_new E r key aad P w = Ok R" "encrypt_yields E S yields R (?H @ body)"
    using EncryptReader_new_yields [where yields = yields, OF assms(1,4,5) fill body assms(9)] by blast
  have "is_floe_message S key' P aad p (?H @ body)"
    using seals_message [OF body iv] is_floe_message_key [OF assms(7)] by simp
  then have dec: "decrypt F key' aad (?H @ body) = Ok p" using decrypt_accepts [OF assms(2,6)] assms(4) by blast
  note agrees = byte_source.decrypt_reader_agrees [OF byte_source.encrypt_reader_source [OF assms(8,1)] assms(2) R(2), of key' aad]
  obtain D R' D1 D2 where D: "DecryptReader_new F (EncryptReader_read E rd) R key' aad = Some (Ok D, R')"
      "reads_to_end (DecryptReader_read F (EncryptReader_read E rd)) D p D1"
      "DecryptReader_try_finish F (EncryptReader_read E rd) D1 = Some (Ok (), D2)"
    using agrees dec by blast
  have "q = p" if "reads_to_end (DecryptReader_read F (EncryptReader_read E rd)) D q D1'"
      "DecryptReader_try_finish F (EncryptReader_read E rd) D1' = Some (Ok (), D2')" for q D1' D2'
  proof -
    have "decrypt F key' aad (?H @ body) = Ok q" using agrees [of q] D(1) that by blast
    then show ?thesis using dec by simp
  qed
  then show ?thesis using R(1) D by blast
qed

theorem streaming_pipeline_roundtrip_witness:
  "\<exists>R D R' D1 D2. EncryptReader_new toy_env (replicate 70 9) (toy_key Provider_RING) [5] SEGMENT_64_B ([], []) = Ok R \<and>
    DecryptReader_new toy_env (EncryptReader_read toy_env slice_read) R (toy_key Provider_BORING) [5] = Some (Ok D, R') \<and>
    reads_to_end (DecryptReader_read toy_env (EncryptReader_read toy_env slice_read)) D (replicate 70 9) D1 \<and>
    DecryptReader_try_finish toy_env (EncryptReader_read toy_env slice_read) D1 = Some (Ok (), D2)"
proof -
  have eq: "key_bytes (toy_key Provider_BORING) = key_bytes (toy_key Provider_RING)" by (simp add: toy_key)
  have len: "length (replicate 70 (9 :: u8)) div psl SEGMENT_64_B < 2 ^ 40" by (simp add: segment_64)
  from streaming_pipeline_roundtrip [OF toy_lawful toy_lawful toy_entropy segment_64(1) toy_key(2) toy_key(2) eq
      slice_source.byte_source_axioms refl len, of "[5]" "([], [])"]
  show ?thesis by blast
qed

text \<open>
  C29: A key that names no provider is refused at every entry point of a build that has no default, with the
  provider-selection error (the adapters wrap it in their own kind of I/O error). Starting a message in
  either direction, the online encryptor and decryptor, one-shot encryption, the writer and the encrypting
  reader refuse it at once, before anything is written. What takes a ciphertext refuses it once it has the
  header: one-shot decryption of an input that is too short for a header reports that instead; the
  decrypting reader reads the header, the random-access reader checks the announced length where there
  is one, asks for its position and reads the header, and if these steps fail or do not return, so does the
  constructor. No input and no wrapped object makes one of them open.
\<close>

theorem ambiguous_keys_refused:
  assumes "key_provider key = None" "length (Provider_COMPILED E) \<noteq> 1"
  shows "start_encryption E key aad P w = Err ProviderSelectionRequired \<and>
    start_decryption E key aad P H = Err ProviderSelectionRequired \<and>
    start_decryption_inferred E key aad H = Err ProviderSelectionRequired \<and>
    Encryptor_new E key aad P w = Err ProviderSelectionRequired \<and>
    Decryptor_new E key aad H = Err ProviderSelectionRequired \<and>
    Decryptor_new_with_parameters E key aad P H = Err ProviderSelectionRequired \<and>
    encrypt E key aad P p w = Err ProviderSelectionRequired \<and>
    decrypt E key aad c = Err (if length c < 74 then InvalidHeaderLength (length c) else ProviderSelectionRequired) \<and>
    decrypt_with_parameters E key aad P c = Err (if length c < 74 then InvalidHeaderLength (length c) else ProviderSelectionRequired) \<and>
    EncryptWriter_new E wr sink key aad P w = Some (Err (encryption_error ProviderSelectionRequired), sink) \<and>
    EncryptReader_new E source key aad P w = Err (encryption_error ProviderSelectionRequired) \<and>
    (let refuse = \<lambda>rd r. bind_io (read_header rd r) (\<lambda>_ r'. Some (Err (decryption_error ProviderSelectionRequired), r')) in
     DecryptReader_new E rd r key aad = refuse rd r \<and>
     DecryptReader_new_with_parameters E rd r key aad P = refuse rd r) \<and>
    (let refuse = \<lambda>r. bind_io (sr_position K r) (\<lambda>_ r1. bind_io (read_header (sr_read K) r1) (\<lambda>_ r2.
           Some (Err (decryption_error ProviderSelectionRequired), r2))) in
     Reader_new E K s key aad = refuse s \<and>
     Reader_new_with_parameters E K s key aad P = refuse s \<and>
     Reader_new_with_length E K s key aad n = try_io (validate_header_bound E n) s (\<lambda>_. refuse s) \<and>
     Reader_new_with_length_and_parameters E K s key aad n P = try_io (validate_header_bound E n) s (\<lambda>_. refuse s))"
proof -
  have ambiguous: "Key_provider E key = Err ProviderSelectionRequired"
    using assms by (simp add: Key_provider_def Provider_build_default_def)
  have start: "start_encryption E key aad P w = Err ProviderSelectionRequired"
      "start_decryption E key aad Q H' = Err ProviderSelectionRequired"
      "start_decryption_inferred E key aad H' = Err ProviderSelectionRequired" for Q H'
    by (simp_all add: start_encryption_def start_decryption_def start_decryption_inferred_def ambiguous)
  then have online: "Encryptor_new E key aad P w = Err ProviderSelectionRequired"
      "Decryptor_new E key aad H' = Err ProviderSelectionRequired"
      "Decryptor_new_with_parameters E key aad Q H' = Err ProviderSelectionRequired" for Q H'
    by (simp_all add: Encryptor_new_def Decryptor_new_def Decryptor_new_with_parameters_def)
  then have "encrypt E key aad P p w = Err ProviderSelectionRequired"
      "decrypt E key aad c = Err (if length c < 74 then InvalidHeaderLength (length c) else ProviderSelectionRequired)"
      "decrypt_with_parameters E key aad P c = Err (if length c < 74 then InvalidHeaderLength (length c) else ProviderSelectionRequired)"
      "EncryptWriter_new E wr sink key aad P w = Some (Err (encryption_error ProviderSelectionRequired), sink)"
      "EncryptReader_new E source key aad P w = Err (encryption_error ProviderSelectionRequired)"
    by (simp_all add: encrypt_def decrypt_def decrypt_with_parameters_def split_header_spec EncryptWriter_new_def EncryptReader_new_def)
  then show ?thesis using start online
    by (simp add: DecryptReader_new_def DecryptReader_new_with_parameters_def Reader_new_def Reader_new_with_parameters_def
        Reader_new_with_length_def Reader_new_with_length_and_parameters_def Let_def)
qed

theorem ambiguous_keys_refused_witness:
  "encrypt toy_env (Key_from_bytes (replicate 32 7)) [5] SEGMENT_64_B [1] ([], []) = Err ProviderSelectionRequired \<and>
   decrypt toy_env (Key_from_bytes (replicate 32 7)) [5] (replicate 73 0) = Err (InvalidHeaderLength 73) \<and>
   decrypt toy_env (Key_from_bytes (replicate 32 7)) [5] (replicate 106 0) = Err ProviderSelectionRequired"
proof -
  have "key_provider (Key_from_bytes (replicate 32 7)) = None" "length (Provider_COMPILED toy_env) \<noteq> 1"
    by (simp_all add: Key_from_bytes_def Provider_COMPILED_def toy_env_def)
  note refused = ambiguous_keys_refused [OF this]
  show ?thesis by (simp add: refused)
qed

end
